(* ===== verification/Kernel_Prelude.thy ===== *)
theory Kernel_Prelude
  imports Main "HOL-Library.Word"
begin

text \<open>
  Shared vocabulary of the development: the machine integers of
  \<open>kernel/include/common.h\<close>, the way a C statement of the kernel is
  represented (a function from a state to a fault or to a value and a new
  state), loops with a bound, and the generic lemmas on words and lists that
  the components use.
\<close>

unbundle bit_operations_syntax

section \<open>Machine integers\<close>

type_synonym u8 = "8 word"
type_synonym u16 = "16 word"
type_synonym u32 = "32 word"

section \<open>Commands: state, faults and sequencing\<close>

text \<open>
  A call of \<open>panic\<close> (\<open>kernel/kernel/panic.c\<close>) halts the machine, so it is the end
  of the computation, with its message. A memory access that the MMU refuses is
  \<open>Page_Fault\<close>, with the faulting address; its handler panics too.
  \<open>Divide_Error\<close> is the processor's exception on a zero divisor.
  \<open>Bad_Access\<close> is a read or write outside the array or object that the C
  expression names, where the language gives the program no meaning.
  \<open>Out_of_Fuel\<close> is the bound of a loop running out: every theorem about a loop
  shows that this value does not occur.
\<close>

datatype fault = Panic string | Page_Fault u32 | Divide_Error | Bad_Access | Out_of_Fuel

type_synonym ('s, 'a) cmd = "'s \<Rightarrow> fault + ('a \<times> 's)"

definition ret :: "'a \<Rightarrow> ('s, 'a) cmd" where
  "ret x s = Inr (x, s)"

definition bnd :: "('s, 'a) cmd \<Rightarrow> ('a \<Rightarrow> ('s, 'b) cmd) \<Rightarrow> ('s, 'b) cmd" where
  "bnd f g s = (case f s of Inl e \<Rightarrow> Inl e | Inr (x, t) \<Rightarrow> g x t)"

definition fault :: "fault \<Rightarrow> ('s, 'a) cmd" where
  "fault e s = Inl e"

definition gets :: "('s \<Rightarrow> 'a) \<Rightarrow> ('s, 'a) cmd" where
  "gets f s = Inr (f s, s)"

definition upd :: "('s \<Rightarrow> 's) \<Rightarrow> ('s, unit) cmd" where
  "upd f s = Inr ((), f s)"

definition skip :: "('s, unit) cmd" where
  "skip s = Inr ((), s)"

definition panic :: "string \<Rightarrow> ('s, 'a) cmd" where
  "panic msg s = Inl (Panic msg)"

text \<open>
  \<open>cwhile n c b x\<close> is a C loop over the local variables \<open>x\<close>: at most
  \<open>n\<close> evaluations of the guard.
\<close>

fun cwhile :: "nat \<Rightarrow> ('x \<Rightarrow> 's \<Rightarrow> bool) \<Rightarrow> ('x \<Rightarrow> ('s, 'x) cmd) \<Rightarrow> 'x \<Rightarrow> ('s, 'x) cmd" where
  "cwhile 0 c b x s = Inl Out_of_Fuel"
| "cwhile (Suc n) c b x s =
     (if c x s
      then (case b x s of Inl e \<Rightarrow> Inl e | Inr (y, t) \<Rightarrow> cwhile n c b y t)
      else Inr (x, s))"

text \<open>\<open>cfor\<close> runs a command for every element of a list of loop indices.\<close>

fun cfor :: "'x list \<Rightarrow> ('x \<Rightarrow> ('s, unit) cmd) \<Rightarrow> ('s, unit) cmd" where
  "cfor [] b s = Inr ((), s)"
| "cfor (x # xs) b s =
     (case b x s of Inl e \<Rightarrow> Inl e | Inr (_, t) \<Rightarrow> cfor xs b t)"

text \<open>\<open>crepeat n c\<close> runs a command \<open>n\<close> times and collects the results.\<close>

primrec crepeat :: "nat \<Rightarrow> ('s, 'a) cmd \<Rightarrow> ('s, 'a list) cmd" where
  "crepeat 0 c = ret []"
| "crepeat (Suc n) c = bnd c (\<lambda>x. bnd (crepeat n c) (\<lambda>xs. ret (x # xs)))"

named_theorems cmd_simps "evaluation of commands"

lemma ret_run [cmd_simps]: "ret x s = Inr (x, s)"
  by (simp add: ret_def)

lemma bnd_run [cmd_simps]:
  "bnd f g s = (case f s of Inl e \<Rightarrow> Inl e | Inr (x, t) \<Rightarrow> g x t)"
  by (simp add: bnd_def)

lemma fault_run [cmd_simps]: "fault e s = Inl e"
  by (simp add: fault_def)

lemma gets_run [cmd_simps]: "gets f s = Inr (f s, s)"
  by (simp add: gets_def)

lemma upd_run [cmd_simps]: "upd f s = Inr ((), f s)"
  by (simp add: upd_def)

lemma skip_run [cmd_simps]: "skip s = Inr ((), s)"
  by (simp add: skip_def)

lemma panic_run [cmd_simps]: "panic msg s = Inl (Panic msg)"
  by (simp add: panic_def)

lemma bnd_ok: "f s = Inr (x, t) \<Longrightarrow> bnd f g s = g x t"
  by (simp add: bnd_run)

lemma bnd_assoc: "bnd (bnd m f) g = bnd m (\<lambda>x. bnd (f x) g)"
  by (rule ext) (simp add: bnd_run split: sum.splits prod.splits)

lemma bnd_ret: "bnd m ret = m"
  by (rule ext) (simp add: bnd_run ret_run split: sum.splits)

lemma cfor_append:
  "cfor (xs @ ys) b s = (case cfor xs b s of Inl e \<Rightarrow> Inl e | Inr (_, t) \<Rightarrow> cfor ys b t)"
  by (induction xs arbitrary: s) (auto split: sum.splits)

text \<open>
  Total correctness of a bounded loop: an invariant that the body keeps, and a
  measure that it decreases and that starts below the bound.
\<close>

lemma cwhile_total:
  assumes "I x s" and "m x s < n"
    and step: "\<And>x s. I x s \<Longrightarrow> c x s \<Longrightarrow>
      \<exists>y t. b x s = Inr (y, t) \<and> I y t \<and> m y t < (m x s :: nat)"
  shows "\<exists>y t. cwhile n c b x s = Inr (y, t) \<and> I y t \<and> \<not> c y t"
  using assms(1,2)
proof (induction n arbitrary: x s)
  case 0
  then show ?case by simp
next
  case (Suc n)
  show ?case
  proof (cases "c x s")
    case True
    with step Suc.prems(1) obtain y t
      where b: "b x s = Inr (y, t)" and I: "I y t" and m: "m y t < m x s"
      by blast
    from m Suc.prems(2) have "m y t < n" by simp
    with I Suc.IH b True show ?thesis by auto
  next
    case False
    with Suc.prems(1) show ?thesis by simp
  qed
qed

text \<open>The same for a loop over a list: the invariant speaks of the part already done.\<close>

lemma cfor_total:
  assumes "I [] s"
    and step: "\<And>ys x zs s. xs = ys @ x # zs \<Longrightarrow> I ys s \<Longrightarrow>
      \<exists>t. b x s = Inr ((), t) \<and> I (ys @ [x]) t"
  shows "\<exists>t. cfor xs b s = Inr ((), t) \<and> I xs t"
proof -
  have "\<exists>t. cfor zs b s = Inr ((), t) \<and> I (ys @ zs) t"
    if "xs = ys @ zs" and "I ys s" for ys zs s
    using that
  proof (induction zs arbitrary: ys s)
    case Nil
    then show ?case by simp
  next
    case (Cons x zs)
    from step [OF Cons.prems] obtain t
      where t: "b x s = Inr ((), t)" and I: "I (ys @ [x]) t" by blast
    from Cons.prems(1) have "xs = (ys @ [x]) @ zs" by simp
    from Cons.IH [OF this I] t show ?case by simp
  qed
  from this [of "[]" xs] assms(1) show ?thesis by simp
qed

section \<open>Characters\<close>

definition chr :: "char \<Rightarrow> u8" where
  "chr c = of_nat (of_char c)"

section \<open>Words\<close>

text \<open>Addresses \<open>a\<close> and \<open>b\<close> begin runs of \<open>n\<close> bytes that do not overlap (modulo the width).\<close>

definition apart :: "u32 \<Rightarrow> u32 \<Rightarrow> u32 \<Rightarrow> bool" where
  "apart n a b \<longleftrightarrow> n \<le> b - a \<and> n \<le> a - b"

lemma apart_sym: "apart n a b \<longleftrightarrow> apart n b a"
  by (auto simp: apart_def)

lemma word_less_4_cases: "(i :: u32) < 4 \<Longrightarrow> i = 0 \<or> i = 1 \<or> i = 2 \<or> i = 3"
  by unat_arith

lemma unat_u32_less: "unat (x :: u32) < 4294967296"
proof -
  have "unat x < 2 ^ LENGTH(32)" by (rule unsigned_less)
  then show ?thesis by simp
qed

end
