(* ===== verification/Kernel_Memory.thy ===== *)
theory Kernel_Memory
  imports Kernel_Prelude
begin

text \<open>
  Byte-addressed memory and the page arithmetic of \<open>kernel/include/mm/vmm.h\<close>:
  little-endian 32-bit loads and stores, the masks and index macros of a
  two-level page table, and the facts about them that the paging components
  share.
\<close>

section \<open>Loads and stores\<close>

type_synonym bytes = "u32 \<Rightarrow> u8"

definition ld32 :: "bytes \<Rightarrow> u32 \<Rightarrow> u32" where
  "ld32 m a = ucast (m a) OR push_bit 8 (ucast (m (a + 1)))
     OR push_bit 16 (ucast (m (a + 2))) OR push_bit 24 (ucast (m (a + 3)))"

definition st32 :: "bytes \<Rightarrow> u32 \<Rightarrow> u32 \<Rightarrow> bytes" where
  "st32 m a v = m(a := ucast v, a + 1 := ucast (drop_bit 8 v),
     a + 2 := ucast (drop_bit 16 v), a + 3 := ucast (drop_bit 24 v))"

lemma ld32_st32_same [simp]: "ld32 (st32 m a v) a = v"
proof (rule bit_word_eqI)
  fix n assume n: "n < LENGTH(32)"
  consider "n < 8" | "8 \<le> n" "n < 16" | "16 \<le> n" "n < 24" | "24 \<le> n" by linarith
  then show "bit (ld32 (st32 m a v) a) n \<longleftrightarrow> bit v n"
    using n by cases (auto simp: ld32_def st32_def bit_simps)
qed

lemma st32_apart: "apart 4 a b \<Longrightarrow> i < 4 \<Longrightarrow> st32 m a v (b + i) = m (b + i)"
proof -
  assume "apart 4 a b" and "i < 4"
  then have "b + i \<noteq> a" "b + i \<noteq> a + 1" "b + i \<noteq> a + 2" "b + i \<noteq> a + 3"
    unfolding apart_def by unat_arith+
  then show ?thesis by (simp add: st32_def)
qed

lemma ld32_st32_apart: "apart 4 a b \<Longrightarrow> ld32 (st32 m a v) b = ld32 m b"
  using st32_apart [of a b 0 m v] st32_apart [of a b 1 m v]
    st32_apart [of a b 2 m v] st32_apart [of a b 3 m v]
  by (simp add: ld32_def)

lemma ld32_cong:
  "(\<And>i. i < 4 \<Longrightarrow> m (a + i) = m' (a + i)) \<Longrightarrow> ld32 m a = ld32 m' a"
proof -
  assume eq: "\<And>i. i < 4 \<Longrightarrow> m (a + i) = m' (a + i)"
  show ?thesis
    using eq [of 0] eq [of 1] eq [of 2] eq [of 3] by (simp add: ld32_def)
qed

lemma ld32_zero: "(\<And>i. i < 4 \<Longrightarrow> m (a + i) = 0) \<Longrightarrow> ld32 m a = 0"
  using ld32_cong [of m a "\<lambda>_. 0"] by (simp add: ld32_def)

section \<open>Page arithmetic (vmm.h)\<close>

definition PAGE_SIZE :: u32 where "PAGE_SIZE = 0x1000"
definition PAGE_PRESENT :: u32 where "PAGE_PRESENT = 0x1"
definition PAGE_WRITE :: u32 where "PAGE_WRITE = 0x2"
definition PAGE_USER :: u32 where "PAGE_USER = 0x4"
definition PAGE_ADDR_MASK :: u32 where "PAGE_ADDR_MASK = 0xFFFFF000"
definition PAGE_FLAGS_MASK :: u32 where "PAGE_FLAGS_MASK = 0xFFF"

definition PAGE_ROUND_DOWN :: "u32 \<Rightarrow> u32" where
  "PAGE_ROUND_DOWN x = x AND PAGE_ADDR_MASK"

definition PAGE_ROUND_UP :: "u32 \<Rightarrow> u32" where
  "PAGE_ROUND_UP x = (x + PAGE_SIZE - 1) AND PAGE_ADDR_MASK"

definition PG_NUM_FROM_ADDR :: "u32 \<Rightarrow> u32" where
  "PG_NUM_FROM_ADDR x = drop_bit 12 x"

definition PG_FIRST_DIR_FROM_ADDR :: "u32 \<Rightarrow> u32" where
  "PG_FIRST_DIR_FROM_ADDR x = push_bit 10 (drop_bit 22 x)"

definition PGDIR_IDX_FROM_ADDR :: "u32 \<Rightarrow> u32" where
  "PGDIR_IDX_FROM_ADDR x = drop_bit 22 x"

definition PGTAB_IDX_FROM_ADDR :: "u32 \<Rightarrow> u32" where
  "PGTAB_IDX_FROM_ADDR x = drop_bit 12 x AND 0x3FF"

definition PG_OFFSET_FROM_ADDR :: "u32 \<Rightarrow> u32" where
  "PG_OFFSET_FROM_ADDR x = x AND PAGE_FLAGS_MASK"

lemma PAGE_ADDR_MASK_eq: "PAGE_ADDR_MASK = NOT (mask 12)"
  by (simp add: PAGE_ADDR_MASK_def mask_eq_exp_minus_1)

lemma PAGE_FLAGS_MASK_eq: "PAGE_FLAGS_MASK = mask 12"
  by (simp add: PAGE_FLAGS_MASK_def mask_eq_exp_minus_1)

lemma bit_PAGE_ADDR_MASK [simp]: "bit PAGE_ADDR_MASK n \<longleftrightarrow> 12 \<le> n \<and> n < 32"
  by (auto simp: PAGE_ADDR_MASK_eq bit_simps)

lemma bit_PAGE_FLAGS_MASK [simp]: "bit PAGE_FLAGS_MASK n \<longleftrightarrow> n < 12"
  by (auto simp: PAGE_FLAGS_MASK_eq bit_simps)

text \<open>
  \<open>frame x\<close> is the start of the page of \<open>x\<close> (the address part of a page table
  entry), \<open>off x\<close> the offset in it (the flags part of an entry).
\<close>

abbreviation frame :: "u32 \<Rightarrow> u32" where "frame x \<equiv> x AND PAGE_ADDR_MASK"
abbreviation off :: "u32 \<Rightarrow> u32" where "off x \<equiv> x AND PAGE_FLAGS_MASK"

named_theorems page_simps "frames and offsets"

lemma unat_off: "unat (off x) = unat x mod 4096"
  by (simp add: PAGE_FLAGS_MASK_eq take_bit_eq_mod unat_mod flip: take_bit_eq_mask)

lemma off_less: "off x < 0x1000"
  by (simp add: word_less_nat_alt unat_off)

lemma frame_plus_off: "frame x + off x = x"
proof -
  have "frame x + off x = frame x OR off x"
    by (rule disjunctive_add_eq_or) (rule bit_word_eqI, auto simp: bit_simps)
  also have "\<dots> = x" by (rule bit_word_eqI) (auto simp: bit_simps)
  finally show ?thesis .
qed

lemma unat_frame: "unat (frame x) = unat x div 4096 * 4096"
proof -
  have "frame x = x - off x" using frame_plus_off [of x] by (metis add_diff_cancel_right')
  moreover have "off x \<le> x" by (simp add: word_le_nat_alt unat_off)
  ultimately have "unat (frame x) = unat x - unat x mod 4096"
    by (simp add: unat_sub unat_off)
  then show ?thesis by (simp add: minus_mod_eq_div_mult)
qed

lemma unat_PG_NUM: "unat (PG_NUM_FROM_ADDR x) = unat x div 4096"
  by (simp add: PG_NUM_FROM_ADDR_def drop_bit_eq_div unat_div)

lemma unat_PGDIR: "unat (PGDIR_IDX_FROM_ADDR x) = unat x div 4194304"
  by (simp add: PGDIR_IDX_FROM_ADDR_def drop_bit_eq_div unat_div)

lemma unat_PGTAB: "unat (PGTAB_IDX_FROM_ADDR x) = unat x div 4096 mod 1024"
proof -
  have "(0x3FF :: u32) = mask 10" by (simp add: mask_eq_exp_minus_1)
  then have "PGTAB_IDX_FROM_ADDR x = drop_bit 12 x mod 1024"
    by (simp only: PGTAB_IDX_FROM_ADDR_def flip: take_bit_eq_mask) (simp add: take_bit_eq_mod)
  then show ?thesis by (simp add: drop_bit_eq_div unat_div unat_mod)
qed

lemmas unat_page = unat_off unat_frame unat_PG_NUM unat_PGDIR unat_PGTAB

lemma frame_frame [simp]: "frame (frame x) = frame x"
  by (rule bit_word_eqI) (auto simp: bit_simps)

lemma off_frame [simp]: "off (frame x) = 0"
  by (rule bit_word_eqI) (auto simp: bit_simps)

lemma unat_frame_add:
  assumes "o' < 0x1000"
  shows "unat (frame f + o') = unat (frame f) + unat o'"
proof -
  have o: "unat o' < 4096" using assms by (simp add: word_less_nat_alt)
  have "unat f < 4294967296" by (rule unat_u32_less)
  then have "unat f div 4096 < 1048576" by simp
  with o have "unat f div 4096 * 4096 + unat o' < 4294967296" by linarith
  then show ?thesis by (simp add: unat_word_ariths unat_frame)
qed

lemma frame_add [page_simps]: "o' < 0x1000 \<Longrightarrow> frame (frame f + o') = frame f"
  by (simp add: word_unat_eq_iff unat_frame [of "frame f + o'"] unat_frame_add)
    (simp add: unat_frame word_less_nat_alt)

lemma off_add [page_simps]: "o' < 0x1000 \<Longrightarrow> off (frame f + o') = o'"
  by (simp add: word_unat_eq_iff unat_off unat_frame_add) (simp add: unat_frame word_less_nat_alt)

lemma frame_eq_iff_PG_NUM: "frame x = frame y \<longleftrightarrow> PG_NUM_FROM_ADDR x = PG_NUM_FROM_ADDR y"
  by (simp add: word_unat_eq_iff unat_page)

lemma frame_eq_iff_idx:
  "frame x = frame y \<longleftrightarrow>
     PGDIR_IDX_FROM_ADDR x = PGDIR_IDX_FROM_ADDR y \<and> PGTAB_IDX_FROM_ADDR x = PGTAB_IDX_FROM_ADDR y"
proof -
  have "m div 4194304 = m div 4096 div 1024" for m :: nat
    by (simp add: div_mult2_eq [symmetric])
  then show ?thesis
    by (simp add: word_unat_eq_iff unat_page) (metis div_mult_mod_eq)
qed

lemma PGDIR_less: "PGDIR_IDX_FROM_ADDR x < 1024"
  using unat_u32_less [of x] by (simp add: word_less_nat_alt unat_page)

lemma PGTAB_less: "PGTAB_IDX_FROM_ADDR x < 1024"
  by (simp add: word_less_nat_alt unat_page)

lemma unat_idx4: "i < (1024 :: u32) \<Longrightarrow> unat (4 * i) = 4 * unat i"
  by (simp add: word_less_nat_alt unat_word_ariths)

lemma idx4_less: "i < 1024 \<Longrightarrow> 4 * i < (0x1000 :: u32)"
  by (simp add: word_less_nat_alt unat_idx4)

lemma idx4_inj: "i < 1024 \<Longrightarrow> j < 1024 \<Longrightarrow> 4 * i = 4 * j \<longleftrightarrow> i = (j :: u32)"
  by (simp add: word_unat_eq_iff unat_idx4)

text \<open>Word alignment.\<close>

definition aligned4 :: "u32 \<Rightarrow> bool" where
  "aligned4 x \<longleftrightarrow> unat x mod 4 = 0"

lemma aligned4_apart: "aligned4 a \<Longrightarrow> aligned4 b \<Longrightarrow> a \<noteq> b \<Longrightarrow> apart 4 a b"
proof -
  have *: "4 \<le> unat (b - a)" if "unat a mod 4 = 0" "unat b mod 4 = 0" "a \<noteq> b" for a b :: u32
  proof -
    have ne: "unat a \<noteq> unat b" using that by (simp add: word_unat_eq_iff)
    have lt: "unat a < 4294967296" "unat b < 4294967296" by (rule unat_u32_less)+
    have "unat (b - a) = (if unat a \<le> unat b then unat b - unat a else unat b + 4294967296 - unat a)"
      by (simp add: unat_sub_if_size word_size)
    then show ?thesis using that(1,2) ne lt by presburger
  qed
  assume "aligned4 a" "aligned4 b" "a \<noteq> b"
  then show ?thesis
    using * [of a b] * [of b a] by (simp add: apart_def aligned4_def word_le_nat_alt)
qed

lemma aligned4_off: "aligned4 x \<longleftrightarrow> unat (off x) mod 4 = 0"
proof -
  have "unat x mod 4096 mod 4 = unat x mod 4" by (rule mod_mod_cancel) simp
  then show ?thesis by (simp add: aligned4_def unat_off)
qed

lemma aligned4_frame_add: "o' < 0x1000 \<Longrightarrow> aligned4 (frame f + o') \<longleftrightarrow> unat o' mod 4 = 0"
  by (subst aligned4_off) (simp add: off_add)

text \<open>\<open>entry f i\<close> is the physical address of entry \<open>i\<close> of the table in the page \<open>f\<close>.\<close>

definition entry :: "u32 \<Rightarrow> u32 \<Rightarrow> u32" where
  "entry f i = frame f + 4 * i"

lemma frame_entry [page_simps]: "i < 1024 \<Longrightarrow> frame (entry f i) = frame f"
  by (simp add: entry_def frame_add idx4_less)

lemma off_entry [page_simps]: "i < 1024 \<Longrightarrow> off (entry f i) = 4 * i"
  by (simp add: entry_def off_add idx4_less)

lemma aligned4_entry [page_simps]: "i < 1024 \<Longrightarrow> aligned4 (entry f i)"
  by (simp add: entry_def aligned4_frame_add idx4_less unat_idx4)

lemma entry_frame [page_simps]: "entry (frame f) i = entry f i"
  by (simp add: entry_def)

lemma entry_eq_iff:
  "i < 1024 \<Longrightarrow> j < 1024 \<Longrightarrow> entry f i = entry g j \<longleftrightarrow> frame f = frame g \<and> i = j"
  by (metis frame_entry off_entry idx4_inj entry_def)

lemma ld32_st32_aligned:
  "aligned4 a \<Longrightarrow> aligned4 b \<Longrightarrow> ld32 (st32 m a v) b = (if b = a then v else ld32 m b)"
  by (cases "b = a") (simp_all add: ld32_st32_apart aligned4_apart)

lemma ld32_st32_entry:
  "i < 1024 \<Longrightarrow> j < 1024 \<Longrightarrow>
   ld32 (st32 m (entry f i) v) (entry g j) =
     (if frame g = frame f \<and> j = i then v else ld32 m (entry g j))"
  by (simp only: ld32_st32_aligned aligned4_entry entry_eq_iff)

lemma frame_plus_in_word:
  assumes "aligned4 a" and "i < 4"
  shows "frame (a + i) = frame a" and "off (a + i) = off a + i"
proof -
  have "unat (off a) mod 4 = 0" using assms(1) by (simp add: aligned4_off)
  moreover have "unat (off a) < 4096" by (simp add: unat_off)
  ultimately have "unat (off a) \<le> 4092" by presburger
  moreover have "unat i < 4" using assms(2) by (simp add: word_less_nat_alt)
  ultimately have lt: "off a + i < 0x1000"
    by (simp add: word_less_nat_alt unat_word_ariths)
  have a: "a + i = frame a + (off a + i)" by (simp add: frame_plus_off flip: add.assoc)
  show "frame (a + i) = frame a" "off (a + i) = off a + i"
    using lt by (simp_all add: a frame_add off_add)
qed

text \<open>Two memories that agree outside some pages.\<close>

definition same_except :: "u32 set \<Rightarrow> bytes \<Rightarrow> bytes \<Rightarrow> bool" where
  "same_except F m m' \<longleftrightarrow> (\<forall>a. frame a \<notin> F \<longrightarrow> m' a = m a)"

lemma same_except_refl [simp]: "same_except F m m"
  by (simp add: same_except_def)

lemma same_except_trans:
  "same_except F m m' \<Longrightarrow> same_except F m' m'' \<Longrightarrow> same_except F m m''"
  by (simp add: same_except_def)

lemma same_except_mono: "same_except F m m' \<Longrightarrow> F \<subseteq> G \<Longrightarrow> same_except G m m'"
  by (auto simp: same_except_def)

lemma same_except_byte: "frame a \<in> F \<Longrightarrow> same_except F m (m(a := v))"
  by (auto simp: same_except_def)

lemma same_except_st32: "aligned4 a \<Longrightarrow> frame a \<in> F \<Longrightarrow> same_except F m (st32 m a v)"
  using frame_plus_in_word [of a 1] frame_plus_in_word [of a 2] frame_plus_in_word [of a 3]
  by (auto simp: same_except_def st32_def)

lemma ld32_same_except:
  assumes "same_except F m m'" and "aligned4 a" and "frame a \<notin> F"
  shows "ld32 m' a = ld32 m a"
  by (rule ld32_cong) (use assms frame_plus_in_word(1) [OF assms(2)] in
    \<open>auto simp: same_except_def\<close>)

end
