(* ===== verification/Kernel_Paging.thy ===== *)
theory Kernel_Paging
  imports Kernel_Memory
begin

text \<open>
  The machine the memory managers run on: physical memory, the two control
  registers that paging uses, and the globals of \<open>kernel/mm/pmm.c\<close> and
  \<open>kernel/mm/vmm.c\<close>. A C access through a pointer is a virtual access: it goes
  through the two-level page table that \<open>cr3\<close> names, and a missing table or
  page is a fault. Pages are read and written in kernel mode with CR0.WP clear,
  so the write and user flags do not refuse an access. The TLB is not modelled.
\<close>

section \<open>State\<close>

record page_directory =
  physical :: u32
  directory :: u32
  pages :: u32

text \<open>
  A \<open>page_directory_t*\<close> is the address of the global \<open>kernel_directory\<close> or an
  address that \<open>kmalloc\<close> returned.
\<close>

datatype dirref = Kernel_Directory | Heap_Directory u32

record vm =
  ram :: bytes
  cr3 :: u32
  cr0_pg :: bool
  pmm_paging_active :: bool
  pmm_stack_loc :: u32
  pmm_stack_max :: u32
  pmm_location :: u32
  current_directory :: dirref
  dirs :: "dirref \<Rightarrow> page_directory"
  klog :: "(string \<times> u32 list) list"

abbreviation curdir :: "'a vm_scheme \<Rightarrow> page_directory" where
  "curdir s \<equiv> dirs s (current_directory s)"

text \<open>A call of \<open>kprintf\<close> from the memory managers is recorded with its arguments.\<close>

definition kprintf_log :: "string \<Rightarrow> u32 list \<Rightarrow> ('a vm_scheme, unit) cmd" where
  "kprintf_log fmt args = upd (\<lambda>s. s\<lparr>klog := klog s @ [(fmt, args)]\<rparr>)"

section \<open>The page table walk\<close>

definition pde_at :: "'a vm_scheme \<Rightarrow> u32 \<Rightarrow> u32" where
  "pde_at s i = ld32 (ram s) (entry (cr3 s) i)"

definition present :: "u32 \<Rightarrow> bool" where
  "present e \<longleftrightarrow> e AND PAGE_PRESENT \<noteq> 0"

definition pte_addr :: "'a vm_scheme \<Rightarrow> u32 \<Rightarrow> u32" where
  "pte_addr s va = entry (pde_at s (PGDIR_IDX_FROM_ADDR va)) (PGTAB_IDX_FROM_ADDR va)"

definition pte_at :: "'a vm_scheme \<Rightarrow> u32 \<Rightarrow> u32" where
  "pte_at s va = ld32 (ram s) (pte_addr s va)"

definition translate :: "'a vm_scheme \<Rightarrow> u32 \<Rightarrow> u32 option" where
  "translate s va =
     (if \<not> cr0_pg s then Some va
      else if \<not> present (pde_at s (PGDIR_IDX_FROM_ADDR va)) then None
      else if \<not> present (pte_at s va) then None
      else Some (frame (pte_at s va) + off va))"

section \<open>Virtual accesses\<close>

definition vld8 :: "u32 \<Rightarrow> ('a vm_scheme, u8) cmd" where
  "vld8 a s = (case translate s a of None \<Rightarrow> Inl (Page_Fault a) | Some p \<Rightarrow> Inr (ram s p, s))"

definition vst8 :: "u32 \<Rightarrow> u8 \<Rightarrow> ('a vm_scheme, unit) cmd" where
  "vst8 a v s = (case translate s a of None \<Rightarrow> Inl (Page_Fault a)
     | Some p \<Rightarrow> Inr ((), s\<lparr>ram := (ram s)(p := v)\<rparr>))"

text \<open>
  A 32-bit access may be unaligned and may cross a page: all four bytes are
  translated first, then accessed.
\<close>

definition vtrans32 :: "'a vm_scheme \<Rightarrow> u32 \<Rightarrow> fault + (u32 \<times> u32 \<times> u32 \<times> u32)" where
  "vtrans32 s a =
     (case translate s a of None \<Rightarrow> Inl (Page_Fault a) | Some p0 \<Rightarrow>
      case translate s (a + 1) of None \<Rightarrow> Inl (Page_Fault (a + 1)) | Some p1 \<Rightarrow>
      case translate s (a + 2) of None \<Rightarrow> Inl (Page_Fault (a + 2)) | Some p2 \<Rightarrow>
      case translate s (a + 3) of None \<Rightarrow> Inl (Page_Fault (a + 3)) | Some p3 \<Rightarrow>
        Inr (p0, p1, p2, p3))"

definition vld32 :: "u32 \<Rightarrow> ('a vm_scheme, u32) cmd" where
  "vld32 a s =
     (case vtrans32 s a of Inl e \<Rightarrow> Inl e
      | Inr (p0, p1, p2, p3) \<Rightarrow>
          Inr (ucast (ram s p0) OR push_bit 8 (ucast (ram s p1))
            OR push_bit 16 (ucast (ram s p2)) OR push_bit 24 (ucast (ram s p3)), s))"

definition vst32 :: "u32 \<Rightarrow> u32 \<Rightarrow> ('a vm_scheme, unit) cmd" where
  "vst32 a v s =
     (case vtrans32 s a of Inl e \<Rightarrow> Inl e
      | Inr (p0, p1, p2, p3) \<Rightarrow>
          Inr ((), s\<lparr>ram := (ram s)(p0 := ucast v, p1 := ucast (drop_bit 8 v),
            p2 := ucast (drop_bit 16 v), p3 := ucast (drop_bit 24 v))\<rparr>))"

text \<open>\<open>memset\<close> of \<open>kernel/lib/string.c\<close>: one byte at a time, \<open>len\<close> counting down.\<close>

primrec memset_loop :: "nat \<Rightarrow> u32 \<Rightarrow> u8 \<Rightarrow> ('a vm_scheme, unit) cmd" where
  "memset_loop 0 ptr val = skip"
| "memset_loop (Suc n) ptr val = bnd (vst8 ptr val) (\<lambda>_. memset_loop n (ptr + 1) val)"

definition memset :: "u32 \<Rightarrow> u32 \<Rightarrow> u32 \<Rightarrow> ('a vm_scheme, unit) cmd" where
  "memset dest val len = memset_loop (unat len) dest (ucast val)"

section \<open>Facts about the walk\<close>

lemma translate_in_page:
  assumes "translate s a = Some p" and "frame b = frame a"
  shows "translate s b = (if cr0_pg s then Some (frame p + off b) else Some b)"
proof -
  have "PGDIR_IDX_FROM_ADDR b = PGDIR_IDX_FROM_ADDR a" "PGTAB_IDX_FROM_ADDR b = PGTAB_IDX_FROM_ADDR a"
    using assms(2) by (simp_all add: frame_eq_iff_idx)
  moreover have "cr0_pg s \<Longrightarrow> frame p = frame (pte_at s a)"
    using assms(1) by (auto simp: translate_def frame_add off_less split: if_splits)
  ultimately show ?thesis
    using assms(1) by (auto simp: translate_def pte_at_def pte_addr_def split: if_splits)
qed

lemma translate_off: "translate s a = Some p \<Longrightarrow> off p = off a"
  by (auto simp: translate_def off_add off_less split: if_splits)

lemma translate_in_word:
  assumes "aligned4 a" and "translate s a = Some p" and "i < 4"
  shows "translate s (a + i) = Some (p + i)"
proof (cases "cr0_pg s")
  case True
  have "translate s (a + i) = Some (frame p + (off a + i))"
    using translate_in_page [OF assms(2) frame_plus_in_word(1) [OF assms(1,3)]] True
    by (simp add: frame_plus_in_word(2) [OF assms(1,3)])
  also have "frame p + (off a + i) = p + i"
    using translate_off [OF assms(2)] by (metis add.assoc frame_plus_off)
  finally show ?thesis .
next
  case False
  with assms(2) show ?thesis by (simp add: translate_def)
qed

lemma vtrans32_aligned:
  "aligned4 a \<Longrightarrow> translate s a = Some p \<Longrightarrow> vtrans32 s a = Inr (p, p + 1, p + 2, p + 3)"
  using translate_in_word [of a s p 1] translate_in_word [of a s p 2] translate_in_word [of a s p 3]
  by (simp add: vtrans32_def)

lemma vld32_aligned:
  "aligned4 a \<Longrightarrow> translate s a = Some p \<Longrightarrow> vld32 a s = Inr (ld32 (ram s) p, s)"
  by (simp add: vld32_def vtrans32_aligned ld32_def)

lemma vst32_aligned:
  "aligned4 a \<Longrightarrow> translate s a = Some p \<Longrightarrow>
   vst32 a v s = Inr ((), s\<lparr>ram := st32 (ram s) p v\<rparr>)"
  by (simp add: vst32_def vtrans32_aligned st32_def)

lemma vld32_unmapped: "translate s a = None \<Longrightarrow> vld32 a s = Inl (Page_Fault a)"
  by (simp add: vld32_def vtrans32_def)

lemma vst32_unmapped: "translate s a = None \<Longrightarrow> vst32 a v s = Inl (Page_Fault a)"
  by (simp add: vst32_def vtrans32_def)

text \<open>The pages that hold the current directory and its tables.\<close>

definition pt_frames :: "'a vm_scheme \<Rightarrow> u32 set" where
  "pt_frames s = insert (frame (cr3 s))
     ((\<lambda>i. frame (pde_at s i)) ` {i. i < 1024 \<and> present (pde_at s i)})"

lemma cr3_in_pt_frames [simp]: "frame (cr3 s) \<in> pt_frames s"
  by (simp add: pt_frames_def)

lemma pde_in_pt_frames: "i < 1024 \<Longrightarrow> present (pde_at s i) \<Longrightarrow> frame (pde_at s i) \<in> pt_frames s"
  by (auto simp: pt_frames_def)

text \<open>Memory outside those pages does not matter to the walk.\<close>

lemma pde_at_same:
  assumes "same_except F (ram s) m" and "F \<inter> pt_frames s = {}" and "i < 1024"
  shows "pde_at (s\<lparr>ram := m\<rparr>) i = pde_at s i"
proof -
  have "frame (entry (cr3 s) i) \<notin> F"
    using assms(2,3) cr3_in_pt_frames [of s] by (auto simp: page_simps)
  with assms(1,3) show ?thesis
    by (simp add: pde_at_def ld32_same_except page_simps)
qed

lemma pte_at_same:
  assumes "same_except F (ram s) m" and "F \<inter> pt_frames s = {}"
    and "present (pde_at s (PGDIR_IDX_FROM_ADDR va))"
  shows "pte_at (s\<lparr>ram := m\<rparr>) va = pte_at s va"
proof -
  have "frame (pte_addr s va) \<in> pt_frames s"
    using assms(3) by (simp add: pte_addr_def page_simps PGTAB_less PGDIR_less pde_in_pt_frames)
  then have "frame (pte_addr s va) \<notin> F" using assms(2) by blast
  moreover have "pte_addr (s\<lparr>ram := m\<rparr>) va = pte_addr s va"
    by (simp add: pte_addr_def pde_at_same [OF assms(1,2)] PGDIR_less)
  ultimately show ?thesis
    using assms(1) by (simp add: pte_at_def ld32_same_except pte_addr_def page_simps PGTAB_less)
qed

lemma translate_same:
  assumes "same_except F (ram s) m" and "F \<inter> pt_frames s = {}"
  shows "translate (s\<lparr>ram := m\<rparr>) va = translate s va"
  using pde_at_same [OF assms, of "PGDIR_IDX_FROM_ADDR va"] pte_at_same [OF assms, of va]
  by (auto simp: translate_def PGDIR_less)

lemma pt_frames_same:
  assumes "same_except F (ram s) m" and "F \<inter> pt_frames s = {}"
  shows "pt_frames (s\<lparr>ram := m\<rparr>) = pt_frames s"
  using pde_at_same [OF assms] by (auto simp: pt_frames_def)

text \<open>Only two pages matter to the walk of one address.\<close>

definition walk_frames :: "'a vm_scheme \<Rightarrow> u32 \<Rightarrow> u32 set" where
  "walk_frames s va = {frame (cr3 s), frame (pde_at s (PGDIR_IDX_FROM_ADDR va))}"

lemma translate_same_walk:
  assumes "same_except F (ram s) m" and "F \<inter> walk_frames s va = {}"
  shows "translate (s\<lparr>ram := m\<rparr>) va = translate s va"
proof -
  have "frame (entry (cr3 s) (PGDIR_IDX_FROM_ADDR va)) \<notin> F"
    using assms(2) by (simp add: walk_frames_def page_simps PGDIR_less)
  with assms(1) have pde: "pde_at (s\<lparr>ram := m\<rparr>) (PGDIR_IDX_FROM_ADDR va) = pde_at s (PGDIR_IDX_FROM_ADDR va)"
    by (simp add: pde_at_def ld32_same_except page_simps PGDIR_less)
  have "frame (pte_addr s va) \<notin> F"
    using assms(2) by (simp add: walk_frames_def pte_addr_def page_simps PGTAB_less)
  moreover have "pte_addr (s\<lparr>ram := m\<rparr>) va = pte_addr s va"
    by (simp add: pte_addr_def pde)
  ultimately have "pte_at (s\<lparr>ram := m\<rparr>) va = pte_at s va"
    using assms(1) by (simp add: pte_at_def ld32_same_except pte_addr_def page_simps PGTAB_less)
  with pde show ?thesis by (simp add: translate_def)
qed

section \<open>Filling a page\<close>

definition fill :: "bytes \<Rightarrow> u32 \<Rightarrow> nat \<Rightarrow> u8 \<Rightarrow> bytes" where
  "fill m p n v = (\<lambda>a. if unat (a - p) < n then v else m a)"

lemma fill_0 [simp]: "fill m p 0 v = m"
  by (simp add: fill_def)

lemma fill_Suc: "n < 4294967296 \<Longrightarrow> fill (m(p := v)) (p + 1) n v = fill m p (Suc n) v"
proof (rule ext)
  fix a
  have "unat (a - (p + 1)) < n \<or> a = p \<longleftrightarrow> unat (a - p) < Suc n" if "n < 4294967296"
  proof (cases "a = p")
    case False
    then have "a - p \<noteq> 0" by simp
    then have "unat (a - p - 1) = unat (a - p) - 1" by (rule unat_minus_one)
    then have "unat (a - (p + 1)) = unat (a - p) - 1" by (simp add: diff_diff_add)
    moreover have "0 < unat (a - p)" using False by (simp add: unat_gt_0)
    ultimately show ?thesis using False by linarith
  qed simp
  then show "n < 4294967296 \<Longrightarrow> fill (m(p := v)) (p + 1) n v a = fill m p (Suc n) v a"
    by (auto simp: fill_def)
qed

lemma memset_loop_in_page:
  assumes "translate s va = Some p" and "cr0_pg s" and "frame p \<notin> walk_frames s va"
    and "unat (off va) + n \<le> 4096"
  shows "memset_loop n va v s = Inr ((), s\<lparr>ram := fill (ram s) p n v\<rparr>)"
  using assms
proof (induction n arbitrary: s va p)
  case 0
  then show ?case by (simp add: skip_run fill_def)
next
  case (Suc n)
  let ?s = "s\<lparr>ram := (ram s)(p := v)\<rparr>"
  have step: "memset_loop (Suc n) va v s = memset_loop n (va + 1) v ?s"
    using Suc.prems(1) by (simp add: bnd_run vst8_def)
  show ?case
  proof (cases n)
    case 0
    then show ?thesis
      using step fill_Suc [of 0 "ram s" p v, simplified] by (simp add: skip_run)
  next
    case (Suc k)
    with Suc.prems(4) have lt: "off va + 1 < 0x1000"
      by (simp add: word_less_nat_alt unat_word_ariths)
    have va1: "va + 1 = frame va + (off va + 1)" by (simp add: frame_plus_off flip: add.assoc)
    have f1: "frame (va + 1) = frame va" and o1: "off (va + 1) = off va + 1"
      using lt by (simp_all add: va1 frame_add off_add)
    have same: "same_except {frame p} (ram s) ((ram s)(p := v))" by (simp add: same_except_byte)
    have "PGDIR_IDX_FROM_ADDR (va + 1) = PGDIR_IDX_FROM_ADDR va"
      using f1 by (simp add: frame_eq_iff_idx)
    then have w: "walk_frames s (va + 1) = walk_frames s va" by (simp add: walk_frames_def)
    have p1: "p + 1 = frame p + (off va + 1)"
      using translate_off [OF Suc.prems(1)] by (metis add.assoc frame_plus_off)
    have "translate ?s (va + 1) = translate s (va + 1)"
      by (rule translate_same_walk [OF same]) (use Suc.prems(3) w in simp)
    also have "\<dots> = Some (p + 1)"
      using translate_in_page [OF Suc.prems(1) f1] Suc.prems(2) by (simp add: o1 p1)
    finally have t: "translate ?s (va + 1) = Some (p + 1)" .
    have fp: "frame (p + 1) = frame p" using lt by (simp add: p1 frame_add)
    have "frame (entry (cr3 s) (PGDIR_IDX_FROM_ADDR va)) \<notin> {frame p}"
      using Suc.prems(3) by (auto simp add: walk_frames_def page_simps PGDIR_less)
    then have "pde_at ?s (PGDIR_IDX_FROM_ADDR va) = pde_at s (PGDIR_IDX_FROM_ADDR va)"
      using same by (simp add: pde_at_def ld32_same_except page_simps PGDIR_less)
    then have w': "frame (p + 1) \<notin> walk_frames ?s (va + 1)"
      using Suc.prems(3) fp \<open>PGDIR_IDX_FROM_ADDR (va + 1) = _\<close> by (simp add: walk_frames_def)
    have o1': "unat (off (va + 1)) + n \<le> 4096"
      using Suc.prems(4) lt by (simp add: o1 word_less_nat_alt unat_word_ariths)
    have "n < 4294967296" using Suc.prems(4) by simp
    note fill = fill_Suc [OF this, of "ram s" p v]
    have "memset_loop n (va + 1) v ?s = Inr ((), ?s\<lparr>ram := fill (ram ?s) (p + 1) n v\<rparr>)"
      by (rule Suc.IH [OF t _ w' o1']) (simp add: Suc.prems(2))
    moreover have "ram ?s = (ram s)(p := v)" by simp
    moreover have "?s\<lparr>ram := m\<rparr> = s\<lparr>ram := m\<rparr>" for m by simp
    ultimately show ?thesis using step fill by (simp only:)
  qed
qed

lemma fill_page: "off p = 0 \<Longrightarrow> fill m p 4096 v a = (if frame a = p then v else m a)"
proof -
  assume "off p = 0"
  then have p: "frame p = p" using frame_plus_off [of p] by simp
  have "unat (a - p) < 4096 \<longleftrightarrow> frame a = p"
  proof
    assume "unat (a - p) < 4096"
    then have "a - p < 0x1000" by (simp add: word_less_nat_alt)
    then have "frame (frame p + (a - p)) = frame p" by (rule frame_add)
    with p show "frame a = p" by simp
  next
    assume "frame a = p"
    then have "a - p = off a" using frame_plus_off [of a] by (metis add_diff_cancel_left')
    then show "unat (a - p) < 4096" by (simp add: unat_off)
  qed
  then show ?thesis by (simp add: fill_def)
qed

lemma memset_page:
  assumes "translate s va = Some p" and "cr0_pg s" and "frame p \<notin> walk_frames s va" and "off va = 0"
  shows "memset va val PAGE_SIZE s =
    Inr ((), s\<lparr>ram := (\<lambda>a. if frame a = p then ucast val else ram s a)\<rparr>)"
proof -
  have "off p = 0" using translate_off [OF assms(1)] assms(4) by simp
  then have "fill (ram s) p 4096 v = (\<lambda>a. if frame a = p then v else ram s a)" for v
    by (simp add: fill_page fun_eq_iff)
  then show ?thesis
    using memset_loop_in_page [OF assms(1-3), of 4096] assms(4)
    by (simp add: memset_def PAGE_SIZE_def)
qed

text \<open>The walk reads memory and \<open>cr3\<close> only.\<close>

lemma pde_at_frame_fields [simp]:
  "pde_at (s\<lparr>klog := k\<rparr>) = pde_at s"
  "pde_at (s\<lparr>pmm_stack_loc := l\<rparr>) = pde_at s"
  "pde_at (s\<lparr>pmm_stack_max := l\<rparr>) = pde_at s"
  "pde_at (s\<lparr>pmm_location := l\<rparr>) = pde_at s"
  "pde_at (s\<lparr>pmm_paging_active := b\<rparr>) = pde_at s"
  by (simp_all add: pde_at_def fun_eq_iff)

lemma pte_at_frame_fields [simp]:
  "pte_at (s\<lparr>klog := k\<rparr>) = pte_at s"
  "pte_at (s\<lparr>pmm_stack_loc := l\<rparr>) = pte_at s"
  "pte_at (s\<lparr>pmm_stack_max := l\<rparr>) = pte_at s"
  "pte_at (s\<lparr>pmm_location := l\<rparr>) = pte_at s"
  "pte_at (s\<lparr>pmm_paging_active := b\<rparr>) = pte_at s"
  by (simp_all add: pte_at_def pte_addr_def fun_eq_iff)

lemma translate_frame_fields [simp]:
  "translate (s\<lparr>klog := k\<rparr>) = translate s"
  "translate (s\<lparr>pmm_stack_loc := l\<rparr>) = translate s"
  "translate (s\<lparr>pmm_stack_max := l\<rparr>) = translate s"
  "translate (s\<lparr>pmm_location := l\<rparr>) = translate s"
  "translate (s\<lparr>pmm_paging_active := b\<rparr>) = translate s"
  by (simp_all add: translate_def fun_eq_iff)

lemma pt_frames_frame_fields [simp]:
  "pt_frames (s\<lparr>klog := k\<rparr>) = pt_frames s"
  "pt_frames (s\<lparr>pmm_stack_loc := l\<rparr>) = pt_frames s"
  "pt_frames (s\<lparr>pmm_stack_max := l\<rparr>) = pt_frames s"
  "pt_frames (s\<lparr>pmm_location := l\<rparr>) = pt_frames s"
  "pt_frames (s\<lparr>pmm_paging_active := b\<rparr>) = pt_frames s"
  by (simp_all add: pt_frames_def)

end
