(* ===== verification/Kernel_String.thy ===== *)
theory Kernel_String
  imports Kernel_Paging
begin

text \<open>
  The byte and string routines of \<open>kernel/lib/string.c\<close>, on virtual memory
  (\<open>memset\<close> is in \<open>Kernel_Paging\<close>). A loop that looks for a terminator may run
  forever: after 2^32 bytes it has read every address, so the bound
  \<open>string_fuel\<close> runs out only on a run that never ends.
\<close>

section \<open>Operations\<close>

primrec memcpy_loop :: "nat \<Rightarrow> u32 \<Rightarrow> u32 \<Rightarrow> ('a vm_scheme, unit) cmd" where
  "memcpy_loop 0 ptrd ptrs = skip"
| "memcpy_loop (Suc n) ptrd ptrs =
     bnd (vld8 ptrs) (\<lambda>v. bnd (vst8 ptrd v) (\<lambda>_. memcpy_loop n (ptrd + 1) (ptrs + 1)))"

definition memcpy :: "u32 \<Rightarrow> u32 \<Rightarrow> u32 \<Rightarrow> ('a vm_scheme, u32) cmd" where
  "memcpy dest src len = bnd (memcpy_loop (unat len) dest src) (\<lambda>_. ret dest)"

primrec memcmp_loop :: "nat \<Rightarrow> u32 \<Rightarrow> u32 \<Rightarrow> ('a vm_scheme, int) cmd" where
  "memcmp_loop 0 us1 us2 = ret 0"
| "memcmp_loop (Suc n) us1 us2 =
     bnd (vld8 us1) (\<lambda>a. bnd (vld8 us2) (\<lambda>b.
     if a \<noteq> b then ret (if a < b then -1 else 1) else memcmp_loop n (us1 + 1) (us2 + 1)))"

definition memcmp :: "u32 \<Rightarrow> u32 \<Rightarrow> u32 \<Rightarrow> ('a vm_scheme, int) cmd" where
  "memcmp s1 s2 n = memcmp_loop (unat n) s1 s2"

definition string_fuel :: nat where "string_fuel = 4294967297"

primrec strcmp_loop :: "nat \<Rightarrow> u32 \<Rightarrow> u32 \<Rightarrow> ('a vm_scheme, int) cmd" where
  "strcmp_loop 0 str1 str2 = fault Out_of_Fuel"
| "strcmp_loop (Suc n) str1 str2 =
     bnd (vld8 str1) (\<lambda>a. bnd (vld8 str2) (\<lambda>b.
     if a = b then (if a = 0 then ret 0 else strcmp_loop n (str1 + 1) (str2 + 1))
     else ret (uint a - uint b)))"

definition strcmp :: "u32 \<Rightarrow> u32 \<Rightarrow> ('a vm_scheme, int) cmd" where
  "strcmp str1 str2 = strcmp_loop string_fuel str1 str2"

text \<open>The body of \<open>do *ptr++ = *src++; while (*src != 0)\<close>; the result is the final \<open>ptr\<close>.\<close>

primrec copy_loop :: "nat \<Rightarrow> u32 \<Rightarrow> u32 \<Rightarrow> ('a vm_scheme, u32) cmd" where
  "copy_loop 0 ptr src = fault Out_of_Fuel"
| "copy_loop (Suc n) ptr src =
     bnd (vld8 src) (\<lambda>v. bnd (vst8 ptr v) (\<lambda>_.
     bnd (vld8 (src + 1)) (\<lambda>c.
     if c \<noteq> 0 then copy_loop n (ptr + 1) (src + 1) else ret (ptr + 1))))"

definition strcpy :: "u32 \<Rightarrow> u32 \<Rightarrow> ('a vm_scheme, u32) cmd" where
  "strcpy dest src = bnd (copy_loop string_fuel dest src) (\<lambda>_. ret dest)"

primrec strend_loop :: "nat \<Rightarrow> u32 \<Rightarrow> ('a vm_scheme, u32) cmd" where
  "strend_loop 0 ptr = fault Out_of_Fuel"
| "strend_loop (Suc n) ptr = bnd (vld8 ptr) (\<lambda>c. if c \<noteq> 0 then strend_loop n (ptr + 1) else ret ptr)"

definition strcat :: "u32 \<Rightarrow> u32 \<Rightarrow> ('a vm_scheme, u32) cmd" where
  "strcat dest src = bnd (strend_loop string_fuel dest) (\<lambda>d. copy_loop string_fuel d src)"

definition strlen :: "u32 \<Rightarrow> ('a vm_scheme, u32) cmd" where
  "strlen str = bnd (strend_loop string_fuel str) (\<lambda>ptr. ret (ptr - str))"

section \<open>Memory as the program sees it\<close>

definition view :: "'a vm_scheme \<Rightarrow> u32 \<Rightarrow> u8 option" where
  "view s a = map_option (ram s) (translate s a)"

text \<open>Addresses that can be written: mapped, each to a byte of its own that is no page table.\<close>

definition buffer :: "'a vm_scheme \<Rightarrow> u32 set \<Rightarrow> bool" where
  "buffer s A \<longleftrightarrow> (\<forall>a \<in> A. \<exists>p. translate s a = Some p \<and> frame p \<notin> pt_frames s) \<and> inj_on (translate s) A"

definition run_of :: "u32 \<Rightarrow> nat \<Rightarrow> u32 set" where
  "run_of a n = (\<lambda>i. a + of_nat i) ` {..<n}"

text \<open>\<open>holds s a bs\<close>: from address \<open>a\<close> memory reads \<open>bs\<close>.\<close>

definition holds :: "'a vm_scheme \<Rightarrow> u32 \<Rightarrow> u8 list \<Rightarrow> bool" where
  "holds s a bs \<longleftrightarrow> (\<forall>i < length bs. view s (a + of_nat i) = Some (bs ! i))"

lemma vld8_view: "view s a = Some v \<Longrightarrow> vld8 a s = Inr (v, s)"
  by (auto simp: view_def vld8_def split: option.splits)

lemma buffer_subset: "buffer s A \<Longrightarrow> B \<subseteq> A \<Longrightarrow> buffer s B"
  unfolding buffer_def by (blast intro: inj_on_subset)

text \<open>Only memory changed, and in it only frames behind \<open>A\<close>; no translation changed.\<close>

definition alters :: "u32 set \<Rightarrow> 'a vm_scheme \<Rightarrow> 'a vm_scheme \<Rightarrow> bool" where
  "alters A s t \<longleftrightarrow> t = s\<lparr>ram := ram t\<rparr> \<and> translate t = translate s
     \<and> same_except ((\<lambda>x. frame (the (translate s x))) ` A) (ram s) (ram t)"

lemma alters_ram: "alters A s t \<Longrightarrow> t = s\<lparr>ram := ram t\<rparr>"
  by (simp add: alters_def)

lemma alters_trans: "alters A s t \<Longrightarrow> alters A t u \<Longrightarrow> alters A s u"
proof -
  assume a: "alters A s t" "alters A t u"
  then have "u = s\<lparr>ram := ram t\<rparr>\<lparr>ram := ram u\<rparr>" unfolding alters_def by metis
  then show ?thesis using a same_except_trans by (auto simp: alters_def)
qed

lemma vst8_view:
  assumes b: "buffer s A" and a: "a \<in> A"
  shows "\<exists>t. vst8 a v s = Inr ((), t) \<and> buffer t A \<and> t = s\<lparr>ram := ram t\<rparr>
    \<and> (\<forall>x \<in> A. view t x = (if x = a then Some v else view s x)) \<and> alters A s t"
proof -
  obtain p where p: "translate s a = Some p" "frame p \<notin> pt_frames s" using b a by (auto simp: buffer_def)
  let ?t = "s\<lparr>ram := (ram s)(p := v)\<rparr>"
  have same: "same_except {frame p} (ram s) ((ram s)(p := v))" by (simp add: same_except_byte)
  have dis: "{frame p} \<inter> pt_frames s = {}" using p(2) by simp
  note tr = translate_same [OF same dis] and pt = pt_frames_same [OF same dis]
  have run: "vst8 a v s = Inr ((), ?t)" by (simp add: vst8_def p(1))
  have "translate s x \<noteq> Some p" if "x \<in> A" "x \<noteq> a" for x
    using b a that p(1) by (auto simp: buffer_def inj_on_def)
  then have vw: "view ?t x = (if x = a then Some v else view s x)" if "x \<in> A" for x
    using that p(1) by (cases "translate s x") (auto simp: view_def tr)
  have "translate ?t = translate s" using tr by auto
  then have "buffer ?t A" using b by (simp add: buffer_def pt)
  moreover have "frame p \<in> (\<lambda>x. frame (the (translate s x))) ` A" using a p(1) by force
  then have "alters A s ?t" using \<open>translate ?t = translate s\<close> by (simp add: alters_def same_except_byte)
  ultimately show ?thesis using run vw by (intro exI [of _ ?t]) simp
qed

lemma run_of_Suc: "run_of a (Suc n) = insert a (run_of (a + 1) n)"
  by (auto simp: run_of_def lessThan_Suc_eq_insert_0 image_image algebra_simps)

lemma run_of_0 [simp]: "run_of a 0 = {}"
  by (simp add: run_of_def)

lemma in_run_of: "i < n \<Longrightarrow> a + of_nat i \<in> run_of a n"
  by (simp add: run_of_def)

lemma holds_Nil [simp]: "holds s a []"
  by (simp add: holds_def)

lemma holds_Cons: "holds s a (b # bs) \<longleftrightarrow> view s a = Some b \<and> holds s (a + 1) bs"
  by (auto simp: holds_def less_Suc_eq_0_disj algebra_simps nth_Cons')

lemma run_of_first_notin: "n < 4294967296 \<Longrightarrow> a \<notin> run_of (a + 1) n"
proof
  assume n: "n < 4294967296" and "a \<in> run_of (a + 1) n"
  then obtain i where i: "i < n" "a = a + 1 + of_nat i" by (auto simp: run_of_def)
  then have "(of_nat (Suc i) :: u32) = 0" by (metis add.assoc add_cancel_left_right of_nat_Suc)
  moreover have "unat (of_nat (Suc i) :: u32) = Suc i" using i(1) n by (simp add: unat_of_nat del: of_nat_Suc)
  ultimately show False by (metis nat.distinct(1) unat_0)
qed

lemma holds_outside:
  assumes "\<forall>x \<in> A. view t x = (if x = a then Some v else view s x)"
    and "run_of b (length bs) \<subseteq> A" and "a \<notin> run_of b (length bs)"
  shows "holds t b bs \<longleftrightarrow> holds s b bs"
proof -
  have "view t (b + of_nat i) = view s (b + of_nat i)" if "i < length bs" for i
    using assms in_run_of [OF that, of b] by auto
  then show ?thesis by (simp add: holds_def)
qed

section \<open>Copying\<close>

lemma memcpy_loop_copies:
  assumes "buffer s A" and "run_of d (length bs) \<subseteq> A" and "run_of a (length bs) \<subseteq> A"
    and "run_of d (length bs) \<inter> run_of a (length bs) = {}" and "holds s a bs" and "length bs < 4294967296"
  shows "\<exists>t. memcpy_loop (length bs) d a s = Inr ((), t) \<and> holds t d bs \<and> buffer t A \<and> t = s\<lparr>ram := ram t\<rparr>
    \<and> (\<forall>x \<in> A - run_of d (length bs). view t x = view s x)"
  using assms
proof (induction bs arbitrary: s d a)
  case Nil
  then show ?case by (auto simp: skip_run)
next
  case (Cons b bs)
  let ?n = "length bs"
  have dA: "d \<in> A" "run_of (d + 1) ?n \<subseteq> A" and aA: "a \<in> A" "run_of (a + 1) ?n \<subseteq> A"
    using Cons.prems(2,3) by (simp_all add: run_of_Suc)
  have dis: "d \<notin> run_of (a + 1) ?n" "run_of (d + 1) ?n \<inter> run_of (a + 1) ?n = {}" "d \<noteq> a"
    using Cons.prems(4) by (auto simp: run_of_Suc)
  have b: "view s a = Some b" "holds s (a + 1) bs" using Cons.prems(5) by (simp_all add: holds_Cons)
  obtain u where u: "vst8 d b s = Inr ((), u)" "buffer u A" "u = s\<lparr>ram := ram u\<rparr>"
    "\<forall>x \<in> A. view u x = (if x = d then Some b else view s x)"
    using vst8_view [OF Cons.prems(1) dA(1), of b] by blast
  have hu: "holds u (a + 1) bs" using holds_outside [OF u(4) aA(2) dis(1)] b(2) by simp
  obtain t where t: "memcpy_loop ?n (d + 1) (a + 1) u = Inr ((), t)" "holds t (d + 1) bs" "buffer t A"
    "t = u\<lparr>ram := ram t\<rparr>" "\<forall>x \<in> A - run_of (d + 1) ?n. view t x = view u x"
    using Cons.IH [OF u(2) dA(2) aA(2) dis(2) hu] Cons.prems(6) by auto
  have "d \<notin> run_of (d + 1) ?n" using Cons.prems(6) by (simp add: run_of_first_notin)
  then have "view t d = Some b" using t(5) u(4) dA(1) by simp
  then have "holds t d (b # bs)" using t(2) by (simp add: holds_Cons)
  moreover have "view t x = view s x" if "x \<in> A - run_of d (length (b # bs))" for x
    using that t(5) u(4) by (auto simp: run_of_Suc)
  moreover have "t = s\<lparr>ram := ram t\<rparr>" using t(4) u(3) by (metis vm.surjective vm.update_convs(1) vm.ext_inject vm.select_convs(1))
  ultimately show ?case using t(1,3) vld8_view [OF b(1)] u(1) by (simp add: bnd_run)
qed

section \<open>Terminated strings\<close>

definition cstring :: "'a vm_scheme \<Rightarrow> u32 \<Rightarrow> u8 list \<Rightarrow> bool" where
  "cstring s a bs \<longleftrightarrow> holds s a (bs @ [0]) \<and> 0 \<notin> set bs"

lemma cstring_Nil [simp]: "cstring s a [] \<longleftrightarrow> view s a = Some 0"
  by (simp add: cstring_def holds_Cons)

lemma cstring_Cons: "cstring s a (b # bs) \<longleftrightarrow> view s a = Some b \<and> b \<noteq> 0 \<and> cstring s (a + 1) bs"
  by (auto simp: cstring_def holds_Cons)

lemma strend_loop_finds:
  "cstring s a bs \<Longrightarrow> length bs < n \<Longrightarrow> strend_loop n a s = Inr (a + of_nat (length bs), s)"
proof (induction bs arbitrary: a n)
  case Nil
  then show ?case by (cases n) (simp_all add: cmd_simps vld8_view)
next
  case (Cons b bs)
  then show ?case by (cases n) (simp_all add: cmd_simps vld8_view cstring_Cons algebra_simps)
qed

text \<open>The difference of the first bytes in which two strings differ, terminators included.\<close>

fun first_difference :: "u8 list \<Rightarrow> u8 list \<Rightarrow> int" where
  "first_difference [] [] = 0"
| "first_difference (x # xs) [] = uint x"
| "first_difference [] (y # ys) = - uint y"
| "first_difference (x # xs) (y # ys) = (if x = y then first_difference xs ys else uint x - uint y)"

lemma first_difference_eq: "0 \<notin> set xs \<Longrightarrow> 0 \<notin> set ys \<Longrightarrow> first_difference xs ys = 0 \<longleftrightarrow> xs = ys"
  by (induction xs ys rule: first_difference.induct) (auto simp: word_uint_eq_iff)

lemma strcmp_loop_difference:
  "cstring s a xs \<Longrightarrow> cstring s b ys \<Longrightarrow> min (length xs) (length ys) < n \<Longrightarrow>
   strcmp_loop n a b s = Inr (first_difference xs ys, s)"
proof (induction xs ys arbitrary: a b n rule: first_difference.induct)
  case 1
  then show ?case by (cases n) (simp_all add: cmd_simps vld8_view)
next
  case (2 x xs)
  then show ?case by (cases n) (simp_all add: cmd_simps vld8_view cstring_Cons)
next
  case (3 y ys)
  then show ?case by (cases n) (auto simp: cmd_simps vld8_view cstring_Cons)
next
  case (4 x xs y ys)
  then show ?case by (cases n) (simp_all add: cmd_simps vld8_view cstring_Cons)
qed

lemma memcmp_loop_difference:
  "holds s a xs \<Longrightarrow> holds s b ys \<Longrightarrow> length ys = length xs \<Longrightarrow>
   \<exists>r. memcmp_loop (length xs) a b s = Inr (r, s) \<and> (r = 0 \<longleftrightarrow> xs = ys)"
proof (induction xs arbitrary: a b ys)
  case Nil
  then show ?case by (simp add: cmd_simps)
next
  case (Cons x xs)
  then obtain y zs where y: "ys = y # zs" by (cases ys) auto
  with Cons show ?case by (auto simp: cmd_simps vld8_view holds_Cons)
qed

text \<open>The loop of \<open>strcpy\<close> on a string that is not empty: its bytes, but not its terminator.\<close>

lemma copy_loop_copies:
  assumes "cstring s a (b # bs)" and "buffer s A" and "run_of d (Suc (length bs)) \<subseteq> A"
    and "run_of a (Suc (Suc (length bs))) \<subseteq> A"
    and "run_of d (Suc (length bs)) \<inter> run_of a (Suc (Suc (length bs))) = {}"
    and "length bs < n" and "Suc (length bs) < 4294967296"
  shows "\<exists>t. copy_loop n d a s = Inr (d + of_nat (Suc (length bs)), t) \<and> holds t d (b # bs) \<and> buffer t A
    \<and> t = s\<lparr>ram := ram t\<rparr> \<and> (\<forall>x \<in> A - run_of d (Suc (length bs)). view t x = view s x) \<and> alters A s t"
  using assms
proof (induction bs arbitrary: s b d a n)
  case Nil
  obtain m where n: "n = Suc m" using Nil.prems(6) by (cases n) auto
  have dA: "d \<in> A" and aA: "a + 1 \<in> A" and ne: "a + 1 \<noteq> d" using Nil.prems(3-5) by (auto simp: run_of_Suc)
  obtain u where u: "vst8 d b s = Inr ((), u)" "buffer u A" "u = s\<lparr>ram := ram u\<rparr>"
    "\<forall>x \<in> A. view u x = (if x = d then Some b else view s x)" "alters A s u"
    using vst8_view [OF Nil.prems(2) dA, of b] by blast
  then have "view u (a + 1) = Some 0" "view u d = Some b"
    using aA ne dA Nil.prems(1) by (simp_all add: cstring_Cons)
  with u show ?case
    using Nil.prems(1) by (auto simp: n cmd_simps vld8_view cstring_Cons holds_Cons run_of_Suc)
next
  case (Cons c bs)
  obtain m where n: "n = Suc m" "length bs < m" using Cons.prems(6) by (cases n) auto
  let ?k = "Suc (length bs)"
  have dA: "d \<in> A" "run_of (d + 1) ?k \<subseteq> A" and aA: "a + 1 \<in> A" "run_of (a + 1) (Suc ?k) \<subseteq> A"
    using Cons.prems(3,4) by (simp_all add: run_of_Suc)
  have dis: "d \<notin> run_of (a + 1) (Suc ?k)" "run_of (d + 1) ?k \<inter> run_of (a + 1) (Suc ?k) = {}" "a + 1 \<noteq> d"
    using Cons.prems(5) by (auto simp: run_of_Suc)
  have str: "view s a = Some b" "cstring s (a + 1) (c # bs)" using Cons.prems(1) by (simp_all add: cstring_Cons)
  obtain u where u: "vst8 d b s = Inr ((), u)" "buffer u A" "u = s\<lparr>ram := ram u\<rparr>"
    "\<forall>x \<in> A. view u x = (if x = d then Some b else view s x)" "alters A s u"
    using vst8_view [OF Cons.prems(2) dA(1), of b] by blast
  have "holds u (a + 1) ((c # bs) @ [0]) \<longleftrightarrow> holds s (a + 1) ((c # bs) @ [0])"
    by (rule holds_outside [OF u(4)]) (use aA dis(1) in auto)
  then have su: "cstring u (a + 1) (c # bs)" using str(2) by (simp add: cstring_def)
  obtain t where t: "copy_loop m (d + 1) (a + 1) u = Inr (d + 1 + of_nat ?k, t)" "holds t (d + 1) (c # bs)"
    "buffer t A" "t = u\<lparr>ram := ram t\<rparr>" "\<forall>x \<in> A - run_of (d + 1) ?k. view t x = view u x" "alters A u t"
    using Cons.IH [OF su u(2) dA(2) aA(2) dis(2) n(2)] Cons.prems(7) by auto
  have "d \<notin> run_of (d + 1) ?k" using Cons.prems(7) by (intro run_of_first_notin) simp
  then have "view t d = Some b" using t(5) u(4) dA(1) by simp
  then have "holds t d (b # c # bs)" using t(2) by (simp add: holds_Cons)
  moreover have "view t x = view s x" if "x \<in> A - run_of d (Suc (length (c # bs)))" for x
    using that t(5) u(4) by (auto simp: run_of_Suc)
  moreover have "t = s\<lparr>ram := ram t\<rparr>" using t(4) u(3) by (metis vm.surjective vm.update_convs(1) vm.ext_inject vm.select_convs(1))
  moreover have "view u (a + 1) = Some c" "c \<noteq> 0" using su by (simp_all add: cstring_Cons)
  moreover have "alters A s t" by (rule alters_trans [OF u(5) t(6)])
  ultimately show ?case using t(1,3) vld8_view [OF str(1)] u(1)
    by (simp add: n(1) cmd_simps vld8_view algebra_simps)
qed

section \<open>A concrete memory\<close>

text \<open>Paging off, so that every address is physical; the page of \<open>cr3\<close> is empty.\<close>

definition flat_memory :: "bytes \<Rightarrow> vm" where
  "flat_memory m = \<lparr>ram = m, cr3 = 0x1000, cr0_pg = False, pmm_paging_active = False,
     pmm_stack_loc = 0, pmm_stack_max = 0, pmm_location = 0x6000,
     current_directory = Kernel_Directory,
     dirs = (\<lambda>_. \<lparr>physical = 0x1000, directory = 0, pages = 0\<rparr>), klog = []\<rparr>"

definition demo_text :: bytes where
  "demo_text = (\<lambda>_. 0)(0x20000 := 0x68, 0x20001 := 0x69, 0x20010 := 0x68, 0x20011 := 0x6F, 0x20022 := 0x7A)"

lemma flat_memory_view [simp]: "view (flat_memory m) a = Some (m a)"
  by (simp add: view_def translate_def flat_memory_def)

lemma flat_buffer:
  assumes "\<forall>a. frame a = 0x1000 \<longrightarrow> m a = 0" and "\<forall>a \<in> A. frame a \<noteq> 0x1000"
  shows "buffer (flat_memory m) A"
proof -
  have f: "frame 0x1000 = (0x1000 :: u32)" by (simp add: PAGE_ADDR_MASK_def)
  have "pde_at (flat_memory m) i = 0" if "i < 1024" for i
  proof -
    have a: "aligned4 (entry 0x1000 i)" "frame (entry 0x1000 i) = 0x1000" using that f by (simp_all add: page_simps)
    have "frame (entry 0x1000 i + k) = 0x1000" if "k < 4" for k
      using frame_plus_in_word(1) [OF a(1) that] a(2) by simp
    from this [of 0] this [of 1] this [of 2] this [of 3] show ?thesis
      using assms(1) by (simp add: pde_at_def flat_memory_def ld32_def)
  qed
  then have "pt_frames (flat_memory m) = {0x1000}" using f by (auto simp: pt_frames_def present_def) (simp_all add: flat_memory_def)
  then show ?thesis using assms(2) by (auto simp: buffer_def inj_on_def translate_def flat_memory_def)
qed

lemma demo_text_buffer: "buffer (flat_memory demo_text) {0x20000 .. 0x20FFF}"
proof (rule flat_buffer)
  have "frame a = 0x1000 \<Longrightarrow> a \<notin> {0x20000, 0x20001, 0x20010, 0x20011, 0x20022}" for a
    by (auto simp: PAGE_ADDR_MASK_def)
  then show "\<forall>a. frame a = 0x1000 \<longrightarrow> demo_text a = 0" by (auto simp: demo_text_def)
  have "frame a \<le> a" for a :: u32 by (simp add: word_and_le2)
  have "unat (frame a) = unat a div 4096 * 4096" for a by (rule unat_frame)
  then show "\<forall>a \<in> {0x20000 .. 0x20FFF}. frame a \<noteq> 0x1000"
    by (auto simp: word_le_nat_alt word_unat_eq_iff)
qed

section \<open>Properties of the byte and string routines\<close>

text \<open>C38: \<open>memcpy\<close> between two runs of mapped memory that do not overlap returns, copies every
  byte, changes no other byte of the program's memory and no translation, and leaves
  the source as it was.\<close>

theorem memcpy_copies:
  assumes "buffer s A" and "run_of d (unat n) \<subseteq> A" and "run_of a (unat n) \<subseteq> A"
    and "run_of d (unat n) \<inter> run_of a (unat n) = {}"
    and "holds s a bs" and "length bs = unat n"
  shows "\<exists>t. memcpy d a n s = Inr (d, t) \<and> holds t d bs \<and> holds t a bs \<and> t = s\<lparr>ram := ram t\<rparr>
    \<and> (\<forall>x \<in> A - run_of d (unat n). view t x = view s x)"
proof -
  have "length bs < 4294967296" using assms(6) unat_u32_less [of n] by simp
  then obtain t where t: "memcpy_loop (length bs) d a s = Inr ((), t)" "holds t d bs" "t = s\<lparr>ram := ram t\<rparr>"
    "\<forall>x \<in> A - run_of d (length bs). view t x = view s x"
    using memcpy_loop_copies [of s A d bs a] assms by auto
  have "view t (a + of_nat i) = view s (a + of_nat i)" if "i < length bs" for i
    using t(4) in_run_of [OF that, of a] assms(3,4,6) by auto
  then have "holds t a bs" using assms(5) by (simp add: holds_def)
  with t assms(6) show ?thesis by (auto simp: memcpy_def bnd_run ret_run)
qed

theorem memcpy_copies_witness:
  "\<exists>t. memcpy 0x20100 0x20010 2 (flat_memory demo_text) = Inr (0x20100, t) \<and> holds t 0x20100 [0x68, 0x6F]"
proof -
  have r: "run_of a 2 = {a, a + 1}" for a by (auto simp: run_of_def numeral_2_eq_2 lessThan_Suc)
  have h: "holds (flat_memory demo_text) 0x20010 [0x68, 0x6F]" by (simp add: holds_Cons demo_text_def)
  from memcpy_copies [OF demo_text_buffer _ _ _ h, of "0x20100" 2] show ?thesis by (auto simp: r)
qed

text \<open>C39: On terminated strings, \<open>strlen\<close> is the number of bytes before the terminator and \<open>strcmp\<close>
  the difference of the first bytes that differ, read as unsigned; so it is 0 exactly for
  equal strings. Neither changes memory, and both end.\<close>

theorem strlen_strcmp_correct:
  assumes "cstring s a xs" and "cstring s b ys" and "length xs < 4294967296" and "length ys < 4294967296"
  shows "strlen a s = Inr (of_nat (length xs), s)
    \<and> strcmp a b s = Inr (first_difference xs ys, s) \<and> (first_difference xs ys = 0 \<longleftrightarrow> xs = ys)"
proof -
  have f: "length xs < string_fuel" "min (length xs) (length ys) < string_fuel"
    using assms(3,4) by (simp_all add: string_fuel_def)
  have "0 \<notin> set xs" "0 \<notin> set ys" using assms(1,2) by (simp_all add: cstring_def)
  then show ?thesis
    using strend_loop_finds [OF assms(1) f(1)] strcmp_loop_difference [OF assms(1,2) f(2)]
    by (simp add: strlen_def strcmp_def bnd_run ret_run first_difference_eq)
qed

theorem strlen_strcmp_correct_witness:
  "strlen 0x20000 (flat_memory demo_text) = Inr (2, flat_memory demo_text)
   \<and> strcmp 0x20000 0x20010 (flat_memory demo_text) = Inr (-6, flat_memory demo_text)"
proof -
  have "cstring (flat_memory demo_text) 0x20000 [0x68, 0x69]" "cstring (flat_memory demo_text) 0x20010 [0x68, 0x6F]"
    by (simp_all add: cstring_Cons demo_text_def)
  from strlen_strcmp_correct [OF this] show ?thesis by simp
qed

text \<open>C40: \<open>strcpy\<close> does not terminate the copy. For a source that is not empty it copies exactly the
  bytes before the terminator and leaves the byte after them in the destination as it was;
  the destination is a string only if that byte already was 0, which is why its callers
  store the terminator themselves.\<close>

theorem strcpy_copies_without_terminator:
  assumes "cstring s a bs" and "bs \<noteq> []" and "buffer s A"
    and "run_of d (Suc (length bs)) \<subseteq> A" and "run_of a (Suc (length bs)) \<subseteq> A"
    and "run_of d (Suc (length bs)) \<inter> run_of a (Suc (length bs)) = {}" and "length bs < 4294967295"
  shows "\<exists>t. strcpy d a s = Inr (d, t) \<and> holds t d bs
    \<and> view t (d + of_nat (length bs)) = view s (d + of_nat (length bs))
    \<and> (cstring t d bs \<longleftrightarrow> view s (d + of_nat (length bs)) = Some 0)"
proof -
  obtain b cs where b: "bs = b # cs" using assms(2) by (cases bs) auto
  let ?n = "length bs"
  have sub: "run_of d ?n \<subseteq> run_of d (Suc ?n)" by (auto simp: run_of_def)
  have prems: "cstring s a (b # cs)" "run_of d (Suc (length cs)) \<subseteq> A" "run_of a (Suc (Suc (length cs))) \<subseteq> A"
    "run_of d (Suc (length cs)) \<inter> run_of a (Suc (Suc (length cs))) = {}"
    "length cs < string_fuel" "Suc (length cs) < 4294967296"
    using assms sub b by (auto simp: string_fuel_def)
  obtain t where t: "copy_loop string_fuel d a s = Inr (d + of_nat (Suc (length cs)), t)" "holds t d bs"
    "\<forall>x \<in> A - run_of d (Suc (length cs)). view t x = view s x"
    using copy_loop_copies [OF prems(1) assms(3) prems(2-6)] b by blast
  have "d + of_nat ?n \<notin> run_of d ?n"
  proof
    assume "d + of_nat ?n \<in> run_of d ?n"
    then obtain i where "i < ?n" "(of_nat ?n :: u32) = of_nat i" by (auto simp: run_of_def)
    then have "unat (of_nat ?n :: u32) = unat (of_nat i :: u32)" "i < ?n" by simp_all
    then show False using assms(7) by (simp add: unat_of_nat)
  qed
  moreover have "d + of_nat ?n \<in> A" using assms(4) in_run_of [of ?n "Suc ?n" d] by blast
  ultimately have v: "view t (d + of_nat ?n) = view s (d + of_nat ?n)" using t(3) b by simp
  have "cstring t d bs \<longleftrightarrow> view t (d + of_nat ?n) = Some 0"
  proof -
    have "0 \<notin> set bs" using assms(1) by (simp add: cstring_def)
    moreover have "holds t d (bs @ [0]) \<longleftrightarrow> view t (d + of_nat ?n) = Some 0"
      using t(2) by (auto simp: holds_def nth_append less_Suc_eq)
    ultimately show ?thesis by (simp add: cstring_def)
  qed
  with t v show ?thesis by (auto simp: strcpy_def bnd_run ret_run)
qed

theorem strcpy_copies_without_terminator_witness:
  "\<exists>t. strcpy 0x20020 0x20000 (flat_memory demo_text) = Inr (0x20020, t)
    \<and> holds t 0x20020 [0x68, 0x69] \<and> \<not> cstring t 0x20020 [0x68, 0x69]"
proof -
  have r: "run_of a (Suc (Suc (Suc 0))) = {a, a + 1, a + 2}" for a by (auto simp: run_of_def lessThan_Suc)
  have "cstring (flat_memory demo_text) 0x20000 [0x68, 0x69]" by (simp add: cstring_Cons demo_text_def)
  from strcpy_copies_without_terminator [OF this _ demo_text_buffer, of "0x20020"] show ?thesis
    by (auto simp: r demo_text_def)
qed

end
