(* ===== verification/Kernel_Fs.thy ===== *)
theory Kernel_Fs
  imports Kernel_String
begin

text \<open>
  The file system interface of \<open>kernel/fs/fs.c\<close>: an \<open>fs_node_t\<close> is a structure in
  memory with a pointer to a function for every operation, 0 for an operation that
  the node does not have. What a pointer calls is a parameter \<open>call\<close> of the
  operation, a function from the address of the code.
\<close>

section \<open>Nodes\<close>

definition FS_FILE :: u32 where "FS_FILE = 0x01"
definition FS_DIRECTORY :: u32 where "FS_DIRECTORY = 0x02"
definition FS_CHARDEVICE :: u32 where "FS_CHARDEVICE = 0x03"
definition FS_BLOCKDEVICE :: u32 where "FS_BLOCKDEVICE = 0x04"
definition FS_PIPE :: u32 where "FS_PIPE = 0x05"
definition FS_SYMLINK :: u32 where "FS_SYMLINK = 0x06"
definition FS_MOUNTPOINT :: u32 where "FS_MOUNTPOINT = 0x08"

text \<open>
  The fields of an \<open>fs_node_t\<close> and their places: the name takes the first 128
  bytes, every other field is a word. The size is 184 bytes.
\<close>

datatype node_field = Mask | Uid | Gid | Flags | Inode | Length | Impl
  | Read | Write | Open | Close | Readdir | Finddir | Ptr

fun field_offset :: "node_field \<Rightarrow> u32" where
  "field_offset Mask = 128"
| "field_offset Uid = 132"
| "field_offset Gid = 136"
| "field_offset Flags = 140"
| "field_offset Inode = 144"
| "field_offset Length = 148"
| "field_offset Impl = 152"
| "field_offset Read = 156"
| "field_offset Write = 160"
| "field_offset Open = 164"
| "field_offset Close = 168"
| "field_offset Readdir = 172"
| "field_offset Finddir = 176"
| "field_offset Ptr = 180"

definition sizeof_fs_node :: u32 where "sizeof_fs_node = 184"

definition node_get :: "u32 \<Rightarrow> node_field \<Rightarrow> ('a vm_scheme, u32) cmd" where
  "node_get node f = vld32 (node + field_offset f)"

definition node_put :: "u32 \<Rightarrow> node_field \<Rightarrow> u32 \<Rightarrow> ('a vm_scheme, unit) cmd" where
  "node_put node f v = vst32 (node + field_offset f) v"

text \<open>A \<open>struct dirent\<close>: a name of 128 bytes and a word.\<close>

definition dirent_inode :: "u32 \<Rightarrow> u32" where "dirent_inode d = d + 128"

section \<open>Operations\<close>

type_synonym 's read_fn = "u32 \<Rightarrow> u32 \<Rightarrow> u32 \<Rightarrow> u32 \<Rightarrow> ('s, u32) cmd"

definition fs_read :: "(u32 \<Rightarrow> 'a vm_scheme read_fn) \<Rightarrow> 'a vm_scheme read_fn" where
  "fs_read call node offset sz buf =
     bnd (node_get node Read) (\<lambda>f.
     if f \<noteq> 0 then bnd (node_get node Read) (\<lambda>f. call f node offset sz buf) else ret 0)"

definition fs_write :: "(u32 \<Rightarrow> 'a vm_scheme read_fn) \<Rightarrow> 'a vm_scheme read_fn" where
  "fs_write call node offset sz buf =
     bnd (node_get node Write) (\<lambda>f.
     if f \<noteq> 0 then bnd (node_get node Write) (\<lambda>f. call f node offset sz buf) else ret 0)"

definition fs_open :: "(u32 \<Rightarrow> u32 \<Rightarrow> u8 \<Rightarrow> u8 \<Rightarrow> ('a vm_scheme, unit) cmd) \<Rightarrow> u32 \<Rightarrow> u8 \<Rightarrow> u8 \<Rightarrow> ('a vm_scheme, unit) cmd" where
  "fs_open call node r w =
     bnd (node_get node Open) (\<lambda>f.
     if f \<noteq> 0 then bnd (node_get node Open) (\<lambda>f. call f node r w) else skip)"

definition fs_close :: "(u32 \<Rightarrow> u32 \<Rightarrow> ('a vm_scheme, unit) cmd) \<Rightarrow> u32 \<Rightarrow> ('a vm_scheme, unit) cmd" where
  "fs_close call node =
     bnd (node_get node Close) (\<lambda>f.
     if f \<noteq> 0 then bnd (node_get node Close) (\<lambda>f. call f node) else skip)"

definition fs_readdir :: "(u32 \<Rightarrow> u32 \<Rightarrow> u32 \<Rightarrow> ('a vm_scheme, u32) cmd) \<Rightarrow> u32 \<Rightarrow> u32 \<Rightarrow> ('a vm_scheme, u32) cmd" where
  "fs_readdir call node index =
     bnd (node_get node Flags) (\<lambda>fl.
     bnd (if fl AND 0x7 = FS_DIRECTORY then node_get node Readdir else ret 0) (\<lambda>f.
     if f \<noteq> 0 then bnd (node_get node Readdir) (\<lambda>f. call f node index) else ret 0))"

definition fs_finddir :: "(u32 \<Rightarrow> u32 \<Rightarrow> u32 \<Rightarrow> ('a vm_scheme, u32) cmd) \<Rightarrow> u32 \<Rightarrow> u32 \<Rightarrow> ('a vm_scheme, u32) cmd" where
  "fs_finddir call node name =
     bnd (node_get node Flags) (\<lambda>fl.
     bnd (if fl AND 0x7 = FS_DIRECTORY then node_get node Finddir else ret 0) (\<lambda>f.
     if f \<noteq> 0 then bnd (node_get node Finddir) (\<lambda>f. call f node name) else ret 0))"

end
