(* ===== verification/Kernel_Pmm.thy ===== *)
theory Kernel_Pmm
  imports Kernel_Paging
begin

text \<open>
  The page frame allocator of \<open>kernel/mm/pmm.c\<close>: a bump allocator until paging
  is active, then a stack of free frames kept in virtual memory. Here are the
  layout constants, the initialisation and the allocation; the release of a
  frame needs \<open>map\<close> and is in \<open>Kernel_Frames\<close>.
\<close>

section \<open>Address space layout (layout.h)\<close>

definition LOWMEM_ID_MAP_END :: u32 where "LOWMEM_ID_MAP_END = 0x00400000"
definition USER_DIR_VIRTUAL :: u32 where "USER_DIR_VIRTUAL = 0xEFBFF000"
definition USER_TABLES_VIRTUAL :: u32 where "USER_TABLES_VIRTUAL = 0xEFC00000"
definition USER_STACKS_START :: u32 where "USER_STACKS_START = 0xE0000000"
definition USER_STACKS_END :: u32 where "USER_STACKS_END = 0xF0000000"
definition KERNEL_ADDRESS_SPACE :: u32 where "KERNEL_ADDRESS_SPACE = 0xF0000000"
definition KHEAP_START :: u32 where "KHEAP_START = 0xF0000000"
definition KHEAP_END :: u32 where "KHEAP_END = 0xFD000000"
definition MOUNT_TABS_START :: u32 where "MOUNT_TABS_START = 0xFD000000"
definition MOUNT_TABS_END :: u32 where "MOUNT_TABS_END = 0xFF000000"
definition MOUNT_DIR_START :: u32 where "MOUNT_DIR_START = 0xFF7FB000"
definition MOUNT_DIR_END :: u32 where "MOUNT_DIR_END = 0xFF7FF000"
definition PMM_STACK_START :: u32 where "PMM_STACK_START = 0xFF7FF000"
definition PMM_STACK_END :: u32 where "PMM_STACK_END = 0xFFBFF000"
definition KERNEL_DIR_VIRTUAL :: u32 where "KERNEL_DIR_VIRTUAL = 0xFFBFF000"
definition KERNEL_TABLES_VIRTUAL :: u32 where "KERNEL_TABLES_VIRTUAL = 0xFFC00000"

section \<open>Initialisation and allocation\<close>

definition init_pmm :: "u32 \<Rightarrow> ('a vm_scheme, unit) cmd" where
  "init_pmm pmm_start =
     upd (\<lambda>s. s\<lparr>pmm_location := (pmm_start + PAGE_SIZE) AND PAGE_ADDR_MASK\<rparr>)"

definition pmm_alloc_page :: "('a vm_scheme, u32) cmd" where
  "pmm_alloc_page =
     bnd (gets pmm_paging_active) (\<lambda>active.
     if \<not> active then
       bnd (gets pmm_location) (\<lambda>loc.
       bnd (kprintf_log (''pmm_location alloc: 0x%.8x'' @ [CHR 0x0A]) [loc]) (\<lambda>_.
       bnd (gets pmm_location) (\<lambda>addr.
       bnd (upd (\<lambda>s. s\<lparr>pmm_location := pmm_location s + PAGE_SIZE\<rparr>)) (\<lambda>_.
       ret addr))))
     else
       bnd (gets pmm_stack_loc) (\<lambda>loc.
       if PMM_STACK_START \<ge> loc then panic ''PMM Stack: no free pages.''
       else
         bnd (upd (\<lambda>s. s\<lparr>pmm_stack_loc := pmm_stack_loc s - 4\<rparr>)) (\<lambda>_.
         bnd (gets pmm_stack_loc) (\<lambda>stack.
         vld32 stack))))"

section \<open>What an allocation does, branch by branch\<close>

lemma pmm_alloc_page_bump:
  "\<not> pmm_paging_active s \<Longrightarrow>
   pmm_alloc_page s = Inr (pmm_location s,
     s\<lparr>klog := klog s @ [(''pmm_location alloc: 0x%.8x'' @ [CHR 0x0A], [pmm_location s])],
       pmm_location := pmm_location s + PAGE_SIZE\<rparr>)"
  by (simp add: pmm_alloc_page_def cmd_simps kprintf_log_def)

lemma pmm_alloc_page_empty:
  "pmm_paging_active s \<Longrightarrow> pmm_stack_loc s \<le> PMM_STACK_START \<Longrightarrow>
   pmm_alloc_page s = Inl (Panic ''PMM Stack: no free pages.'')"
  by (simp add: pmm_alloc_page_def cmd_simps)

lemma pmm_alloc_page_pop:
  assumes "pmm_paging_active s" and "PMM_STACK_START < pmm_stack_loc s"
    and "aligned4 (pmm_stack_loc s)" and "translate s (pmm_stack_loc s - 4) = Some p"
  shows "pmm_alloc_page s =
    Inr (ld32 (ram s) p, s\<lparr>pmm_stack_loc := pmm_stack_loc s - 4\<rparr>)"
proof -
  have "4 \<le> unat (pmm_stack_loc s)"
    using assms(2) by (simp add: word_less_nat_alt PMM_STACK_START_def)
  then have "unat (pmm_stack_loc s - 4) = unat (pmm_stack_loc s) - 4"
    by (simp add: unat_sub word_le_nat_alt)
  with assms(3) \<open>4 \<le> _\<close> have "aligned4 (pmm_stack_loc s - 4)"
    unfolding aligned4_def by presburger
  then show ?thesis
    using assms by (simp add: pmm_alloc_page_def cmd_simps vld32_aligned)
qed

end
