(* ===== verification/Kernel_Vmm.thy ===== *)
theory Kernel_Vmm
  imports Kernel_Pmm
begin

text \<open>
  The virtual memory manager of \<open>kernel/mm/vmm.c\<close>. Page tables are read and
  written through the recursive mapping: the directory at \<open>directory\<close>, all
  tables as one array at \<open>pages\<close>.
\<close>

section \<open>Operations\<close>

abbreviation dir_slot :: "page_directory \<Rightarrow> u32 \<Rightarrow> u32" where
  "dir_slot d i \<equiv> directory d + 4 * i"

abbreviation page_slot :: "page_directory \<Rightarrow> u32 \<Rightarrow> u32" where
  "page_slot d n \<equiv> pages d + 4 * n"

definition switch_page_directory :: "dirref \<Rightarrow> ('a vm_scheme, unit) cmd" where
  "switch_page_directory dir = upd (\<lambda>s. s\<lparr>current_directory := dir, cr3 := physical (dirs s dir)\<rparr>)"

definition map_page :: "u32 \<Rightarrow> u32 \<Rightarrow> u32 \<Rightarrow> ('a vm_scheme, unit) cmd" where
  "map_page va pa flags =
     (let dir_entry = PGDIR_IDX_FROM_ADDR va; page_num = PG_NUM_FROM_ADDR va in
      bnd (gets curdir) (\<lambda>d.
      bnd (vld32 (dir_slot d dir_entry)) (\<lambda>e.
      bnd (if e = 0 then
             bnd pmm_alloc_page (\<lambda>p.
             bnd (vst32 (dir_slot d dir_entry) (p OR PAGE_PRESENT OR PAGE_WRITE)) (\<lambda>_.
             memset (page_slot d (dir_entry * 1024)) 0 PAGE_SIZE))
           else skip) (\<lambda>_.
      bnd (vst32 (page_slot d page_num) ((pa AND PAGE_ADDR_MASK) OR PAGE_PRESENT OR flags)) (\<lambda>_.
      if KERNEL_ADDRESS_SPACE \<le> va then
        bnd (vld32 (page_slot d page_num)) (\<lambda>mine.
        bnd (gets (\<lambda>s. dirs s Kernel_Directory)) (\<lambda>k.
        bnd (vld32 (page_slot k page_num)) (\<lambda>theirs.
        if mine \<noteq> theirs then kprintf_log (''WARNING: kernel outdated'' @ [CHR 0x0A]) []
        else skip)))
      else skip)))))"

definition unmap :: "u32 \<Rightarrow> ('a vm_scheme, unit) cmd" where
  "unmap va =
     bnd (gets curdir) (\<lambda>d. vst32 (page_slot d (PG_NUM_FROM_ADDR va)) 0)"

text \<open>\<open>None\<close> is the result 0; \<open>Some pa\<close> is the result 1 with \<open>pa\<close> stored.\<close>

definition get_mapping :: "u32 \<Rightarrow> ('a vm_scheme, u32 option) cmd" where
  "get_mapping va =
     bnd (gets curdir) (\<lambda>d.
     bnd (vld32 (dir_slot d (PGDIR_IDX_FROM_ADDR va))) (\<lambda>e.
     if e = 0 then ret None
     else
       bnd (vld32 (page_slot d (PG_NUM_FROM_ADDR va))) (\<lambda>p.
       if p \<noteq> 0 then ret (Some ((p AND PAGE_ADDR_MASK) + (va AND PAGE_FLAGS_MASK)))
       else ret None)))"

section \<open>The recursive mapping\<close>

text \<open>
  The window at \<open>directory\<close> shows the page of the directory, the window at
  \<open>pages\<close> shows all tables, because the directory has itself as one of its tables.
\<close>

definition self_slot :: "'a vm_scheme \<Rightarrow> u32" where
  "self_slot s = PGDIR_IDX_FROM_ADDR (pages (curdir s))"

definition self_mapped :: "'a vm_scheme \<Rightarrow> bool" where
  "self_mapped s \<longleftrightarrow> cr0_pg s
     \<and> off (directory (curdir s)) = 0
     \<and> translate s (directory (curdir s)) = Some (frame (cr3 s))
     \<and> unat (pages (curdir s)) mod 4194304 = 0
     \<and> present (pde_at s (self_slot s))
     \<and> frame (pde_at s (self_slot s)) = frame (cr3 s)"

text \<open>Every entry is empty or present, and no two present entries share a table.\<close>

definition tables_ok :: "'a vm_scheme \<Rightarrow> bool" where
  "tables_ok s \<longleftrightarrow>
     (\<forall>i < 1024. pde_at s i \<noteq> 0 \<longrightarrow> present (pde_at s i))
     \<and> (\<forall>i < 1024. \<forall>j < 1024. present (pde_at s i) \<longrightarrow> present (pde_at s j) \<longrightarrow>
          frame (pde_at s i) = frame (pde_at s j) \<longrightarrow> i = j)"

definition paging_ok :: "'a vm_scheme \<Rightarrow> bool" where
  "paging_ok s \<longleftrightarrow> self_mapped s \<and> tables_ok s"

lemma dir_window:
  assumes "self_mapped s" and "i < 1024"
  shows "translate s (dir_slot (curdir s) i) = Some (entry (cr3 s) i)"
    and "aligned4 (dir_slot (curdir s) i)"
proof -
  let ?d = "directory (curdir s)"
  have d: "?d = frame ?d" using assms(1) frame_plus_off [of ?d] by (simp add: self_mapped_def)
  have f: "frame (?d + 4 * i) = frame ?d" and o: "off (?d + 4 * i) = 4 * i"
    using assms(2) by (subst d, simp add: frame_add off_add idx4_less)+
  show "translate s (dir_slot (curdir s) i) = Some (entry (cr3 s) i)"
    using assms(1) translate_in_page [of s ?d "frame (cr3 s)" "?d + 4 * i"] f o
    by (simp add: self_mapped_def entry_def)
  show "aligned4 (dir_slot (curdir s) i)"
    using assms(2) by (simp add: aligned4_off o unat_idx4)
qed

lemma window_arith:
  assumes "unat (P :: u32) mod 4194304 = 0"
  shows "PGDIR_IDX_FROM_ADDR (P + 4 * PG_NUM_FROM_ADDR va) = PGDIR_IDX_FROM_ADDR P"
    and "PGTAB_IDX_FROM_ADDR (P + 4 * PG_NUM_FROM_ADDR va) = PGDIR_IDX_FROM_ADDR va"
    and "off (P + 4 * PG_NUM_FROM_ADDR va) = 4 * PGTAB_IDX_FROM_ADDR va"
proof -
  let ?n = "unat va div 4096"
  obtain k where k: "unat P = 4194304 * k" using assms by (metis mod_0_imp_dvd dvdE)
  have kl: "k < 1024" using unat_u32_less [of P] k by simp
  have nl: "?n < 1048576" using unat_u32_less [of va] by simp
  have n4: "unat (4 * PG_NUM_FROM_ADDR va) = 4 * ?n"
    using nl by (simp add: unat_word_ariths unat_PG_NUM)
  have sum: "unat (P + 4 * PG_NUM_FROM_ADDR va) = 4194304 * k + 4 * ?n"
  proof -
    have "4194304 * k + 4 * ?n < 4294967296" using kl nl by linarith
    then show ?thesis by (simp add: unat_word_ariths(1) n4 k)
  qed
  have "(4194304 * k + 4 * ?n) div 4194304 = k" using nl by simp
  then show "PGDIR_IDX_FROM_ADDR (P + 4 * PG_NUM_FROM_ADDR va) = PGDIR_IDX_FROM_ADDR P"
    by (simp add: word_unat_eq_iff unat_PGDIR sum k)
  have "(4194304 * k + 4 * ?n) div 4096 mod 1024 = ?n div 1024"
  proof -
    have "4194304 * k + 4 * ?n = 4096 * (1024 * k) + 4 * ?n" by simp
    then have "(4194304 * k + 4 * ?n) div 4096 = 1024 * k + 4 * ?n div 4096"
      by (simp only: div_mult_self4)
    also have "4 * ?n div 4096 = ?n div 1024" by simp
    finally show ?thesis using nl by simp
  qed
  moreover have "?n div 1024 = unat va div 4194304" by (simp add: div_mult2_eq [symmetric])
  ultimately show "PGTAB_IDX_FROM_ADDR (P + 4 * PG_NUM_FROM_ADDR va) = PGDIR_IDX_FROM_ADDR va"
    by (simp add: word_unat_eq_iff unat_PGDIR unat_PGTAB sum)
  have "(4194304 * k + 4 * ?n) mod 4096 = 4 * (?n mod 1024)"
  proof -
    have "4194304 * k + 4 * ?n = 4 * ?n + 4096 * (1024 * k)" by simp
    then have "(4194304 * k + 4 * ?n) mod 4096 = 4 * ?n mod (4 * 1024)"
      by (simp only: mod_mult_self2) simp
    then show ?thesis by (simp only: mult_mod_right)
  qed
  then show "off (P + 4 * PG_NUM_FROM_ADDR va) = 4 * PGTAB_IDX_FROM_ADDR va"
    by (simp add: word_unat_eq_iff unat_off unat_idx4 PGTAB_less unat_PGTAB sum)
qed

lemma page_window_walk:
  assumes "self_mapped s"
  shows "translate s (page_slot (curdir s) (PG_NUM_FROM_ADDR va)) =
    (if present (pde_at s (PGDIR_IDX_FROM_ADDR va)) then Some (pte_addr s va) else None)"
proof -
  let ?w = "page_slot (curdir s) (PG_NUM_FROM_ADDR va)"
  have P: "unat (pages (curdir s)) mod 4194304 = 0" using assms by (simp add: self_mapped_def)
  note w = window_arith [OF P, of va]
  have pde: "pde_at s (PGDIR_IDX_FROM_ADDR ?w) = pde_at s (self_slot s)"
    by (simp only: w(1) self_slot_def)
  have fr: "frame (pde_at s (self_slot s)) = frame (cr3 s)" and pr: "present (pde_at s (self_slot s))"
    and pg: "cr0_pg s" using assms by (simp_all add: self_mapped_def)
  have "pte_addr s ?w = entry (pde_at s (self_slot s)) (PGDIR_IDX_FROM_ADDR va)"
    by (simp only: pte_addr_def pde w(2))
  also have "\<dots> = entry (cr3 s) (PGDIR_IDX_FROM_ADDR va)"
    by (simp only: entry_def fr)
  finally have pte: "pte_at s ?w = pde_at s (PGDIR_IDX_FROM_ADDR va)"
    by (simp only: pte_at_def pde_at_def)
  show ?thesis
    by (simp only: translate_def pde pte pg pr w(3) pte_addr_def entry_def) simp
qed

lemma page_window_aligned:
  "self_mapped s \<Longrightarrow> aligned4 (page_slot (curdir s) (PG_NUM_FROM_ADDR va))"
  using window_arith(3) [of "pages (curdir s)" va]
  by (simp add: aligned4_off self_mapped_def unat_idx4 PGTAB_less)

section \<open>Storing a page table entry\<close>

lemma self_mapped_frame_fields [simp]:
  "self_mapped (s\<lparr>klog := k\<rparr>) = self_mapped s"
  "self_mapped (s\<lparr>pmm_stack_loc := l\<rparr>) = self_mapped s"
  "self_mapped (s\<lparr>pmm_stack_max := l\<rparr>) = self_mapped s"
  "self_slot (s\<lparr>klog := k\<rparr>) = self_slot s"
  "self_slot (s\<lparr>pmm_stack_loc := l\<rparr>) = self_slot s"
  "self_slot (s\<lparr>pmm_stack_max := l\<rparr>) = self_slot s"
  "self_slot (s\<lparr>ram := m\<rparr>) = self_slot s"
  by (simp_all add: self_mapped_def self_slot_def)

lemma paging_ok_frame_fields [simp]:
  "paging_ok (s\<lparr>klog := k\<rparr>) = paging_ok s"
  "paging_ok (s\<lparr>pmm_stack_loc := l\<rparr>) = paging_ok s"
  "paging_ok (s\<lparr>pmm_stack_max := l\<rparr>) = paging_ok s"
  by (simp_all add: paging_ok_def tables_ok_def)

lemma not_present_0 [simp]: "\<not> present 0"
  by (simp add: present_def)

lemma present_nonzero: "present e \<Longrightarrow> e \<noteq> 0"
  by auto

lemma present_iff: "present e \<longleftrightarrow> bit e 0"
  by (simp add: present_def PAGE_PRESENT_def and_one_eq bit_0 odd_iff_mod_2_eq_one)

lemma present_entry [simp]: "present (a OR PAGE_PRESENT OR f)"
  by (simp add: present_iff bit_or_iff PAGE_PRESENT_def)

text \<open>The addresses through which the tables themselves are seen.\<close>

definition window :: "'a vm_scheme \<Rightarrow> u32 \<Rightarrow> bool" where
  "window s va \<longleftrightarrow> PGDIR_IDX_FROM_ADDR va = self_slot s \<or> frame va = directory (curdir s)"

lemma table_not_directory:
  assumes "paging_ok s" and "i < 1024" and "present (pde_at s i)" and "i \<noteq> self_slot s"
  shows "frame (pde_at s i) \<noteq> frame (cr3 s)"
proof
  assume "frame (pde_at s i) = frame (cr3 s)"
  then have "frame (pde_at s i) = frame (pde_at s (self_slot s))"
    using assms(1) by (simp add: paging_ok_def self_mapped_def)
  then have "i = self_slot s"
    using assms(1-3) PGDIR_less [of "pages (curdir s)"]
    unfolding paging_ok_def tables_ok_def self_mapped_def self_slot_def by blast
  with assms(4) show False by simp
qed

lemma store_pte:
  fixes s :: "'a vm_scheme" and va v :: u32
  assumes ok: "paging_ok s" and pr: "present (pde_at s (PGDIR_IDX_FROM_ADDR va))"
    and nw: "\<not> window s va"
  defines "t \<equiv> s\<lparr>ram := st32 (ram s) (pte_addr s va) v\<rparr>"
  shows "pde_at t i = (if i < 1024 then pde_at s i else pde_at t i)"
    and "translate t x = (if frame x = frame va
          then if present v then Some (frame v + off x) else None else translate s x)"
    and "paging_ok t" and "pt_frames t = pt_frames s"
proof -
  let ?i = "PGDIR_IDX_FROM_ADDR va"
  have pg: "cr0_pg s" using ok by (simp add: paging_ok_def self_mapped_def)
  have ne: "frame (pde_at s ?i) \<noteq> frame (cr3 s)"
    by (rule table_not_directory [OF ok PGDIR_less pr]) (use nw in \<open>simp add: window_def\<close>)
  have pde: "pde_at t j = pde_at s j" if "j < 1024" for j
    using that ne by (simp add: t_def pde_at_def pte_addr_def ld32_st32_entry PGTAB_less)
  then show "pde_at t i = (if i < 1024 then pde_at s i else pde_at t i)" by simp
  have "cr3 t = cr3 s" by (simp add: t_def)
  then show "pt_frames t = pt_frames s" using pde by (auto simp: pt_frames_def)
  have pte: "pte_at t x = (if frame x = frame va then v else pte_at s x)"
    if x: "present (pde_at s (PGDIR_IDX_FROM_ADDR x))" for x
  proof -
    have "pte_addr t x = pte_addr s x" by (simp add: pte_addr_def pde PGDIR_less)
    moreover have "frame (pde_at s (PGDIR_IDX_FROM_ADDR x)) = frame (pde_at s ?i)
        \<longleftrightarrow> PGDIR_IDX_FROM_ADDR x = ?i"
      using ok x pr PGDIR_less [of x] PGDIR_less [of va] unfolding paging_ok_def tables_ok_def by metis
    ultimately show ?thesis
      by (simp add: pte_at_def t_def pte_addr_def ld32_st32_entry PGTAB_less frame_eq_iff_idx)
  qed
  show tr: "translate t x = (if frame x = frame va
      then if present v then Some (frame v + off x) else None else translate s x)" for x
  proof (cases "present (pde_at s (PGDIR_IDX_FROM_ADDR x))")
    case True
    then show ?thesis using pg pr pte [OF True] pde [OF PGDIR_less]
      by (simp add: translate_def t_def)
  next
    case False
    then have "frame x \<noteq> frame va" using pr by (auto simp: frame_eq_iff_idx)
    with False show ?thesis using pg pde [OF PGDIR_less] by (simp add: translate_def t_def)
  qed
  have "frame (directory (curdir s)) \<noteq> frame va"
    using ok nw frame_plus_off [of "directory (curdir s)"]
    by (auto simp: paging_ok_def self_mapped_def window_def)
  then have "translate t (directory (curdir s)) = translate s (directory (curdir s))"
    by (simp add: tr)
  moreover have "self_slot t = self_slot s" "curdir t = curdir s" "cr3 t = cr3 s" "cr0_pg t = cr0_pg s"
    by (simp_all add: t_def self_slot_def)
  moreover have "self_slot s < 1024" by (simp add: self_slot_def PGDIR_less)
  ultimately show "paging_ok t"
    using ok by (simp add: paging_ok_def self_mapped_def tables_ok_def pde)
qed

section \<open>Installing a page table\<close>

lemma table_base:
  assumes "i < 1024"
  shows "\<exists>va. PG_NUM_FROM_ADDR va = i * 1024 \<and> PGDIR_IDX_FROM_ADDR va = i \<and> PGTAB_IDX_FROM_ADDR va = 0"
proof -
  have i: "unat i < 1024" using assms by (simp add: word_less_nat_alt)
  let ?va = "of_nat (unat i * 4194304) :: u32"
  have "unat i * 4194304 < 4294967296" using i by linarith
  then have u: "unat ?va = unat i * 4194304" by (simp add: unat_word_ariths)
  have "unat i * 4194304 div 4096 = unat i * 1024" by simp
  moreover have "unat (i * 1024) = unat i * 1024" using i by (simp add: unat_word_ariths)
  ultimately show ?thesis
    using u by (intro exI [of _ ?va]) (simp add: word_unat_eq_iff unat_page)
qed

text \<open>The state once an empty table in the fresh page \<open>p\<close> is entry \<open>i\<close> of the directory.\<close>

definition install_table :: "u32 \<Rightarrow> u32 \<Rightarrow> 'a vm_scheme \<Rightarrow> 'a vm_scheme" where
  "install_table i p s = s\<lparr>ram := (\<lambda>a. if frame a = p then 0
     else st32 (ram s) (entry (cr3 s) i) (p OR PAGE_PRESENT OR PAGE_WRITE) a)\<rparr>"

lemma frame_page_entry: "frame p = p \<Longrightarrow> frame (p OR PAGE_PRESENT OR PAGE_WRITE) = p"
proof -
  assume p: "frame p = p"
  have "PAGE_PRESENT OR PAGE_WRITE = mask 2"
    by (simp add: PAGE_PRESENT_def PAGE_WRITE_def mask_eq_exp_minus_1)
  then have "frame (p OR PAGE_PRESENT OR PAGE_WRITE) = frame p"
    by (simp only:) (rule bit_word_eqI, auto simp: bit_simps)
  with p show ?thesis by simp
qed

lemma link_table:
  fixes s :: "'a vm_scheme" and i p :: u32
  assumes ok: "paging_ok s" and i: "i < 1024" and np: "pde_at s i = 0"
    and p: "frame p = p" "p \<notin> pt_frames s"
  defines "t \<equiv> s\<lparr>ram := st32 (ram s) (entry (cr3 s) i) (p OR PAGE_PRESENT OR PAGE_WRITE)\<rparr>"
  shows "\<And>j. j < 1024 \<Longrightarrow> pde_at t j = (if j = i then p OR PAGE_PRESENT OR PAGE_WRITE else pde_at s j)"
    and "\<And>x. PGDIR_IDX_FROM_ADDR x \<noteq> i \<Longrightarrow> pte_at t x =
       (if frame (pde_at s (PGDIR_IDX_FROM_ADDR x)) = frame (cr3 s) \<and> PGTAB_IDX_FROM_ADDR x = i
        then p OR PAGE_PRESENT OR PAGE_WRITE else pte_at s x)"
    and "paging_ok t"
proof -
  let ?e = "p OR PAGE_PRESENT OR PAGE_WRITE"
  show pde: "pde_at t j = (if j = i then ?e else pde_at s j)" if "j < 1024" for j
    using that i by (simp add: t_def pde_at_def ld32_st32_entry)
  show pte: "pte_at t x = (if frame (pde_at s (PGDIR_IDX_FROM_ADDR x)) = frame (cr3 s)
      \<and> PGTAB_IDX_FROM_ADDR x = i then ?e else pte_at s x)"
    if x: "PGDIR_IDX_FROM_ADDR x \<noteq> i" for x
  proof -
    have "pte_addr t x = pte_addr s x" using x by (simp add: pte_addr_def pde PGDIR_less)
    then show ?thesis
      using i by (simp add: pte_at_def t_def pte_addr_def ld32_st32_entry PGTAB_less)
  qed
  have self: "self_mapped s" and tabs: "tables_ok s" using ok by (simp_all add: paging_ok_def)
  let ?D = "directory (curdir s)"
  have prD: "present (pde_at s (PGDIR_IDX_FROM_ADDR ?D))" "present (pte_at s ?D)"
    and trD: "frame (pte_at s ?D) = frame (cr3 s)"
    using self translate_off by (auto simp: self_mapped_def translate_def split: if_splits)
  have Di: "PGDIR_IDX_FROM_ADDR ?D \<noteq> i" using prD np by auto
  have "pte_at t ?D = pte_at s ?D"
  proof (rule ccontr)
    assume "pte_at t ?D \<noteq> pte_at s ?D"
    with pte [OF Di] have "frame (pde_at s (PGDIR_IDX_FROM_ADDR ?D)) = frame (cr3 s)"
      and "PGTAB_IDX_FROM_ADDR ?D = i" by (auto split: if_splits)
    then have "pte_at s ?D = pde_at s i" by (simp add: pte_at_def pde_at_def pte_addr_def entry_def)
    with prD np show False by simp
  qed
  moreover have "pde_at t (PGDIR_IDX_FROM_ADDR ?D) = pde_at s (PGDIR_IDX_FROM_ADDR ?D)"
    using Di by (simp add: pde PGDIR_less)
  moreover have "cr0_pg t = cr0_pg s" by (simp add: t_def)
  ultimately have "translate t ?D = translate s ?D" by (simp only: translate_def)
  then have D: "translate t ?D = Some (frame (cr3 s))" using self by (simp add: self_mapped_def)
  have si: "self_slot s < 1024" "self_slot s \<noteq> i"
    using self np by (auto simp: self_slot_def PGDIR_less self_mapped_def)
  have "self_mapped t"
    using self D si pde [OF si(1)] by (simp add: self_mapped_def) (simp add: t_def)
  moreover have "tables_ok t"
  proof -
    have fe: "frame ?e = p" by (rule frame_page_entry [OF p(1)])
    have new: "frame (pde_at s j) \<noteq> p" if "j < 1024" "present (pde_at s j)" for j
      using pde_in_pt_frames [OF that] p(2) by auto
    show ?thesis
      using tabs new fe unfolding tables_ok_def by (auto simp: pde)
  qed
  ultimately show "paging_ok t" by (simp add: paging_ok_def)
qed

lemma install_table_walk:
  fixes s :: "'a vm_scheme" and i p :: u32
  assumes ok: "paging_ok s" and i: "i < 1024" and np: "pde_at s i = 0"
    and p: "frame p = p" "p \<notin> pt_frames s"
  defines "u \<equiv> install_table i p s"
  shows "\<And>j. j < 1024 \<Longrightarrow> pde_at u j = (if j = i then p OR PAGE_PRESENT OR PAGE_WRITE else pde_at s j)"
    and "\<And>x. translate u x = (if PGDIR_IDX_FROM_ADDR x = self_slot s \<and> PGTAB_IDX_FROM_ADDR x = i
            then Some (p + off x) else translate s x)"
    and "paging_ok u"
proof -
  let ?e = "p OR PAGE_PRESENT OR PAGE_WRITE"
  define t where "t = s\<lparr>ram := st32 (ram s) (entry (cr3 s) i) ?e\<rparr>"
  note link = link_table [OF ok i np p, folded t_def]
  have fe: "frame ?e = p" by (rule frame_page_entry [OF p(1)])
  have u: "u = t\<lparr>ram := (\<lambda>a. if frame a = p then 0 else ram t a)\<rparr>"
    by (simp add: u_def install_table_def t_def cong: if_cong)
  have same: "same_except {p} (ram t) (\<lambda>a. if frame a = p then 0 else ram t a)"
    by (simp add: same_except_def)
  have c: "frame (cr3 t) \<noteq> p" using p(2) by (auto simp: pt_frames_def t_def)
  show pde: "pde_at u j = (if j = i then ?e else pde_at s j)" if "j < 1024" for j
    using that c link(1) [OF that] ld32_same_except [OF same, of "entry (cr3 t) j"]
    by (simp add: u pde_at_def page_simps)
  have pte: "pte_at u x = (if PGDIR_IDX_FROM_ADDR x = i then 0 else pte_at t x)"
    if x: "present (pde_at u (PGDIR_IDX_FROM_ADDR x))" for x
  proof (cases "PGDIR_IDX_FROM_ADDR x = i")
    case True
    have f: "frame (pte_addr u x) = p" using True by (simp add: pte_addr_def pde i page_simps PGTAB_less fe)
    have a: "aligned4 (pte_addr u x)" by (simp add: pte_addr_def page_simps PGTAB_less)
    have "pte_at u x = 0"
      unfolding pte_at_def
      by (rule ld32_zero) (use f frame_plus_in_word(1) [OF a] in \<open>simp add: u\<close>)
    with True show ?thesis by simp
  next
    case False
    then have px: "pde_at u (PGDIR_IDX_FROM_ADDR x) = pde_at s (PGDIR_IDX_FROM_ADDR x)"
      by (simp add: pde PGDIR_less)
    then have "frame (pde_at s (PGDIR_IDX_FROM_ADDR x)) \<noteq> p"
      using pde_in_pt_frames [OF PGDIR_less, of s x] x p(2) by auto
    moreover have "pte_addr u x = pte_addr t x"
      using False by (simp add: pte_addr_def px link(1) PGDIR_less)
    moreover have "pte_addr t x = entry (pde_at s (PGDIR_IDX_FROM_ADDR x)) (PGTAB_IDX_FROM_ADDR x)"
      using False by (simp add: pte_addr_def link(1) PGDIR_less)
    ultimately show ?thesis
      using False ld32_same_except [OF same, of "pte_addr t x"]
      by (simp add: pte_at_def u page_simps PGTAB_less)
  qed
  have self: "self_mapped s" using ok by (simp add: paging_ok_def)
  have pg: "cr0_pg u = cr0_pg s" "cr0_pg s" using self by (simp_all add: self_mapped_def u t_def)
  have si: "self_slot s < 1024" "self_slot s \<noteq> i" "present (pde_at s (self_slot s))"
    "frame (pde_at s (self_slot s)) = frame (cr3 s)"
    using self np by (auto simp: self_slot_def PGDIR_less self_mapped_def)
  show tr: "translate u x = (if PGDIR_IDX_FROM_ADDR x = self_slot s \<and> PGTAB_IDX_FROM_ADDR x = i
      then Some (p + off x) else translate s x)" for x
  proof (cases "PGDIR_IDX_FROM_ADDR x = i")
    case True
    have "pte_at u x = 0" using pte [of x] True by (simp add: pde i)
    then show ?thesis using True np si pg by (simp add: translate_def)
  next
    case False
    let ?j = "PGDIR_IDX_FROM_ADDR x"
    have px: "pde_at u ?j = pde_at s ?j" using False by (simp add: pde PGDIR_less)
    have "frame (pde_at s ?j) = frame (cr3 s) \<longleftrightarrow> ?j = self_slot s" if "present (pde_at s ?j)"
      using table_not_directory [OF ok PGDIR_less that] si(4) by auto
    then show ?thesis
      using False px pte [of x] link(2) [OF False] pg si(3) by (auto simp: translate_def fe)
  qed
  have "frame (directory (curdir s)) = directory (curdir s)"
    using self frame_plus_off [of "directory (curdir s)"] by (simp add: self_mapped_def)
  have "translate u (directory (curdir s)) = Some (frame (cr3 s))"
  proof (cases "PGDIR_IDX_FROM_ADDR (directory (curdir s)) = self_slot s
      \<and> PGTAB_IDX_FROM_ADDR (directory (curdir s)) = i")
    case True
    then have "pte_at s (directory (curdir s)) = pde_at s i"
      using si(4) by (simp add: pte_at_def pde_at_def pte_addr_def entry_def)
    with np pg(2) have "translate s (directory (curdir s)) = None" by (simp add: translate_def)
    with self show ?thesis by (simp add: self_mapped_def)
  next
    case False
    with self show ?thesis by (subst tr) (auto simp: self_mapped_def)
  qed
  then have "self_mapped u"
    using self si pde [OF si(1)] by (simp add: self_mapped_def) (simp add: u_def install_table_def self_slot_def)
  moreover have "tables_ok u"
  proof -
    have "tables_ok t" using link(3) by (simp add: paging_ok_def)
    then show ?thesis by (simp add: tables_ok_def pde link(1))
  qed
  ultimately show "paging_ok u" by (simp add: paging_ok_def)
qed

lemma pt_frames_install:
  fixes s :: "'a vm_scheme" and i p :: u32
  assumes ok: "paging_ok s" and np: "pde_at s i = 0" and p: "frame p = p" "p \<notin> pt_frames s"
    and i: "i < 1024"
  shows "pt_frames (install_table i p (s\<lparr>pmm_stack_loc := l\<rparr>)) = insert p (pt_frames s)"
proof -
  let ?u = "install_table i p (s\<lparr>pmm_stack_loc := l\<rparr>)"
  note w = install_table_walk [of "s\<lparr>pmm_stack_loc := l\<rparr>", simplified, OF ok i np p]
  have f: "frame (p OR PAGE_PRESENT OR PAGE_WRITE) = p" by (rule frame_page_entry [OF p(1)])
  have "{j. j < 1024 \<and> present (pde_at ?u j)} = insert i {j. j < 1024 \<and> present (pde_at s j)}"
    using i by (auto simp: w(1))
  moreover have "(\<lambda>j. frame (pde_at ?u j)) ` {j. j < 1024 \<and> present (pde_at s j)}
      = (\<lambda>j. frame (pde_at s j)) ` {j. j < 1024 \<and> present (pde_at s j)}"
    using np by (intro image_cong) (auto simp: w(1))
  moreover have "cr3 ?u = cr3 s" by (simp add: install_table_def)
  ultimately show ?thesis using i f by (auto simp: pt_frames_def w(1))
qed

lemma memset_table:
  fixes s :: "'a vm_scheme" and i p :: u32
  assumes ok: "paging_ok s" and i: "i < 1024" and np: "pde_at s i = 0"
    and p: "frame p = p" "p \<notin> pt_frames s"
  defines "t \<equiv> s\<lparr>ram := st32 (ram s) (entry (cr3 s) i) (p OR PAGE_PRESENT OR PAGE_WRITE)\<rparr>"
  shows "memset (page_slot (curdir s) (i * 1024)) 0 PAGE_SIZE t = Inr ((), install_table i p s)"
proof -
  note link = link_table [OF ok i np p, folded t_def]
  have fe: "frame (p OR PAGE_PRESENT OR PAGE_WRITE) = p" by (rule frame_page_entry [OF p(1)])
  have self: "self_mapped t" using link(3) by (simp add: paging_ok_def)
  obtain v where v: "PG_NUM_FROM_ADDR v = i * 1024" "PGDIR_IDX_FROM_ADDR v = i" "PGTAB_IDX_FROM_ADDR v = 0"
    using table_base [OF i] by blast
  let ?w = "page_slot (curdir s) (i * 1024)"
  have ct: "curdir t = curdir s" "cr3 t = cr3 s" by (simp_all add: t_def)
  have wv: "?w = page_slot (curdir t) (PG_NUM_FROM_ADDR v)" by (simp add: v ct)
  have "present (pde_at t i)" by (simp add: link(1) i)
  then have tr: "translate t ?w = Some p"
    using page_window_walk [OF self, of v] wv v link(1) [OF i] by (simp add: pte_addr_def entry_def fe)
  have P: "unat (pages (curdir t)) mod 4194304 = 0" using self by (simp add: self_mapped_def)
  have "off ?w = 0" and "PGDIR_IDX_FROM_ADDR ?w = self_slot t"
    using window_arith [OF P, of v] wv v by (simp_all add: self_slot_def)
  moreover have "frame (pde_at t (self_slot t)) = frame (cr3 t)" using self by (simp add: self_mapped_def)
  moreover have "frame p \<noteq> frame (cr3 t)" using p by (auto simp: pt_frames_def ct)
  ultimately have "memset ?w 0 PAGE_SIZE t =
      Inr ((), t\<lparr>ram := (\<lambda>a. if frame a = p then ucast (0 :: u32) else ram t a)\<rparr>)"
    using self by (intro memset_page tr) (simp_all add: walk_frames_def self_mapped_def)
  then show ?thesis by (simp add: install_table_def t_def cong: if_cong)
qed

lemma map_page_installs:
  assumes ok: "paging_ok s" and np: "pde_at s (PGDIR_IDX_FROM_ADDR va) = 0"
    and alloc: "pmm_alloc_page s = Inr (p, s\<lparr>pmm_stack_loc := l\<rparr>)"
    and p: "frame p = p" "p \<notin> pt_frames s"
  shows "map_page va pa flags s =
    map_page va pa flags (install_table (PGDIR_IDX_FROM_ADDR va) p (s\<lparr>pmm_stack_loc := l\<rparr>))"
proof -
  let ?i = "PGDIR_IDX_FROM_ADDR va" and ?s = "s\<lparr>pmm_stack_loc := l\<rparr>"
  let ?u = "install_table ?i p ?s"
  have ok': "paging_ok ?s" "pde_at ?s ?i = 0" "p \<notin> pt_frames ?s" using ok np p by simp_all
  note u = install_table_walk [OF ok'(1) PGDIR_less ok'(2) p(1) ok'(3)]
  have selfs: "self_mapped s" "self_mapped ?u" "self_mapped ?s"
    using ok u(3) by (simp_all add: paging_ok_def)
  have cu: "curdir ?u = curdir s" by (simp add: install_table_def)
  have ld: "vld32 (dir_slot (curdir x) ?i) x = Inr (pde_at x ?i, x)" if "self_mapped x" for x :: "'a vm_scheme"
    using dir_window [OF that PGDIR_less, of va] by (simp add: vld32_aligned pde_at_def)
  have st: "vst32 (dir_slot (curdir s) ?i) v ?s = Inr ((), ?s\<lparr>ram := st32 (ram s) (entry (cr3 s) ?i) v\<rparr>)" for v
    using dir_window [OF selfs(3) PGDIR_less, of va] by (simp add: vst32_aligned)
  have ms: "memset (page_slot (curdir s) (?i * 1024)) 0 PAGE_SIZE
      (?s\<lparr>ram := st32 (ram s) (entry (cr3 s) ?i) (p OR PAGE_PRESENT OR PAGE_WRITE)\<rparr>) = Inr ((), ?u)"
    using memset_table [OF ok'(1) PGDIR_less ok'(2) p(1) ok'(3)] by simp
  have nz: "pde_at ?u ?i \<noteq> 0" using u(1) [OF PGDIR_less] present_nonzero [OF present_entry] by simp
  show ?thesis
    using ld [OF selfs(1)] ld [OF selfs(2)] np nz alloc st ms
    by (simp add: map_page_def cmd_simps cu Let_def)
qed

section \<open>What map does\<close>

text \<open>
  For an address of the kernel part \<open>map\<close> also reads the kernel directory's own
  entry, through the kernel's window; it must be there.
\<close>

definition kernel_view :: "'a vm_scheme \<Rightarrow> u32 \<Rightarrow> bool" where
  "kernel_view s va \<longleftrightarrow> (KERNEL_ADDRESS_SPACE \<le> va \<longrightarrow>
     (let a = page_slot (dirs s Kernel_Directory) (PG_NUM_FROM_ADDR va)
      in aligned4 a \<and> translate s a \<noteq> None))"

text \<open>The value that \<open>map\<close> stores in the table.\<close>

definition map_entry :: "u32 \<Rightarrow> u32 \<Rightarrow> u32" where
  "map_entry pa flags = (pa AND PAGE_ADDR_MASK) OR PAGE_PRESENT OR flags"

lemma present_map_entry [simp]: "present (map_entry pa flags)"
  by (simp add: map_entry_def)

lemma frame_map_entry: "frame flags = 0 \<Longrightarrow> frame (map_entry pa flags) = frame pa"
proof -
  assume "frame flags = 0"
  then have "\<not> bit flags n" if "12 \<le> n" "n < 32" for n
    using that bit_and_iff [of flags PAGE_ADDR_MASK n] by simp
  moreover have "PAGE_PRESENT = mask 1" by (simp add: PAGE_PRESENT_def)
  ultimately show ?thesis
    by (simp only: map_entry_def) (rule bit_word_eqI, auto simp: bit_simps)
qed

lemma map_page_existing_step:
  assumes ok: "paging_ok s" and pr: "present (pde_at s (PGDIR_IDX_FROM_ADDR va))"
    and nw: "\<not> window s va" and kv: "kernel_view s va"
  shows "\<exists>l. map_page va pa flags s =
    Inr ((), s\<lparr>ram := st32 (ram s) (pte_addr s va) (map_entry pa flags), klog := klog s @ l\<rparr>)"
proof -
  let ?t = "s\<lparr>ram := st32 (ram s) (pte_addr s va) (map_entry pa flags)\<rparr>"
  let ?n = "PG_NUM_FROM_ADDR va" and ?k = "dirs s Kernel_Directory"
  note st = store_pte [OF ok pr nw, of "map_entry pa flags"]
  have self: "self_mapped s" "self_mapped ?t" using ok st(3) by (simp_all add: paging_ok_def)
  have e: "vld32 (dir_slot (curdir s) (PGDIR_IDX_FROM_ADDR va)) s
      = Inr (pde_at s (PGDIR_IDX_FROM_ADDR va), s)"
    using dir_window [OF self(1) PGDIR_less] by (simp add: vld32_aligned pde_at_def)
  have w: "vst32 (page_slot (curdir s) ?n) (map_entry pa flags) s = Inr ((), ?t)"
    using page_window_walk [OF self(1), of va] pr page_window_aligned [OF self(1)]
    by (simp add: vst32_aligned)
  have prt: "present (pde_at ?t (PGDIR_IDX_FROM_ADDR va))"
    using st(1) [of "PGDIR_IDX_FROM_ADDR va"] pr by (simp add: PGDIR_less)
  have mine: "\<exists>x. vld32 (page_slot (curdir s) ?n) ?t = Inr (x, ?t)"
    using page_window_walk [OF self(2), of va] prt page_window_aligned [OF self(2), of va]
    by (simp add: vld32_aligned)
  have theirs: "\<exists>x. vld32 (page_slot ?k ?n) ?t = Inr (x, ?t)" if "KERNEL_ADDRESS_SPACE \<le> va"
  proof -
    have "aligned4 (page_slot ?k ?n)" "translate s (page_slot ?k ?n) \<noteq> None"
      using kv that by (simp_all add: kernel_view_def Let_def)
    moreover from this(2) have "translate ?t (page_slot ?k ?n) \<noteq> None" by (simp add: st(2))
    ultimately show ?thesis by (auto simp: vld32_aligned)
  qed
  have "frame pa OR PAGE_PRESENT OR flags = map_entry pa flags" by (simp add: map_entry_def)
  then have "map_page va pa flags s =
     (if KERNEL_ADDRESS_SPACE \<le> va then
        bnd (vld32 (page_slot (curdir s) ?n)) (\<lambda>mine.
        bnd (gets (\<lambda>s. dirs s Kernel_Directory)) (\<lambda>k.
        bnd (vld32 (page_slot k ?n)) (\<lambda>theirs.
        if mine \<noteq> theirs then kprintf_log (''WARNING: kernel outdated'' @ [CHR 0x0A]) []
        else skip))) ?t
      else Inr ((), ?t))"
    using e w present_nonzero [OF pr]
    by (simp add: map_page_def cmd_simps Let_def)
  moreover have "\<exists>l. ?t = ?t\<lparr>klog := klog s @ l\<rparr>" by (rule exI [of _ "[]"]) simp
  moreover have "\<exists>l. ?t\<lparr>klog := klog s @ [x]\<rparr> = ?t\<lparr>klog := klog s @ l\<rparr>" for x by blast
  ultimately show ?thesis
    using mine theirs by (auto simp: cmd_simps kprintf_log_def) blast
qed

text \<open>
  The address space as a partial function: \<open>map\<close> changes it at the page of
  \<open>va\<close> and nowhere else.
\<close>

theorem map_page_existing:
  assumes "paging_ok s" and "present (pde_at s (PGDIR_IDX_FROM_ADDR va))"
    and "\<not> window s va" and "kernel_view s va" and "frame flags = 0"
  shows "\<exists>t. map_page va pa flags s = Inr ((), t) \<and> paging_ok t
    \<and> translate t = (\<lambda>x. if frame x = frame va then Some (frame pa + off x) else translate s x)
    \<and> same_except {frame (pde_at s (PGDIR_IDX_FROM_ADDR va))} (ram s) (ram t)
    \<and> t = s\<lparr>ram := ram t, klog := klog t\<rparr> \<and> pt_frames t = pt_frames s"
proof -
  obtain l where l: "map_page va pa flags s =
      Inr ((), s\<lparr>ram := st32 (ram s) (pte_addr s va) (map_entry pa flags), klog := klog s @ l\<rparr>)"
    using map_page_existing_step [OF assms(1-4)] by blast
  have "same_except {frame (pde_at s (PGDIR_IDX_FROM_ADDR va))} (ram s)
      (st32 (ram s) (pte_addr s va) (map_entry pa flags))"
    by (rule same_except_st32) (simp_all add: pte_addr_def page_simps PGTAB_less)
  with l show ?thesis
    using store_pte(2-4) [OF assms(1-3), of "map_entry pa flags"]
    by (simp add: frame_map_entry [OF assms(5)] fun_eq_iff)
qed

text \<open>Where the table is missing, the frame \<open>p\<close> from the allocator becomes the table.\<close>

theorem map_page_fresh:
  assumes ok: "paging_ok s" and np: "pde_at s (PGDIR_IDX_FROM_ADDR va) = 0"
    and alloc: "pmm_alloc_page s = Inr (p, s\<lparr>pmm_stack_loc := l\<rparr>)"
    and p: "frame p = p" "p \<notin> pt_frames s"
    and nw: "\<not> window s va" and kv: "kernel_view s va" and fl: "frame flags = 0"
  shows "\<exists>t. map_page va pa flags s = Inr ((), t) \<and> paging_ok t
    \<and> translate t = (\<lambda>x. if frame x = frame va then Some (frame pa + off x)
        else if PGDIR_IDX_FROM_ADDR x = self_slot s \<and> PGTAB_IDX_FROM_ADDR x = PGDIR_IDX_FROM_ADDR va
        then Some (p + off x) else translate s x)
    \<and> same_except {p, frame (cr3 s)} (ram s) (ram t)
    \<and> t = s\<lparr>pmm_stack_loc := l, ram := ram t, klog := klog t\<rparr>
    \<and> pt_frames t = insert p (pt_frames s)"
proof -
  let ?s = "s\<lparr>pmm_stack_loc := l\<rparr>" and ?i = "PGDIR_IDX_FROM_ADDR va"
  let ?u = "install_table ?i p ?s"
  have ok': "paging_ok ?s" "pde_at ?s ?i = 0" "p \<notin> pt_frames ?s" using ok np p by simp_all
  note u = install_table_walk [OF ok'(1) PGDIR_less ok'(2) p(1) ok'(3)]
  have pr: "present (pde_at ?u ?i)" by (simp add: u(1) PGDIR_less)
  have nw': "\<not> window ?u va"
    using nw by (simp add: window_def install_table_def self_slot_def)
  have kv': "kernel_view ?u va"
    using kv u(2) by (auto simp: kernel_view_def Let_def install_table_def)
  obtain t where t: "map_page va pa flags ?u = Inr ((), t)" "paging_ok t"
      "translate t = (\<lambda>x. if frame x = frame va then Some (frame pa + off x) else translate ?u x)"
      "same_except {frame (pde_at ?u ?i)} (ram ?u) (ram t)"
      "t = ?u\<lparr>ram := ram t, klog := klog t\<rparr>" "pt_frames t = pt_frames ?u"
    using map_page_existing [OF u(3) pr nw' kv' fl] by blast
  have fe: "frame (pde_at ?u ?i) = p" by (simp add: u(1) PGDIR_less frame_page_entry p)
  have "same_except {frame (cr3 s)} (ram s)
      (st32 (ram s) (entry (cr3 s) ?i) (p OR PAGE_PRESENT OR PAGE_WRITE))"
    by (rule same_except_st32) (simp_all add: page_simps PGDIR_less)
  then have "same_except {p, frame (cr3 s)} (ram s) (ram ?u)"
    by (auto simp: same_except_def install_table_def)
  then have "same_except {p, frame (cr3 s)} (ram s) (ram t)"
    using t(4) fe by (auto simp: same_except_def)
  moreover have "pt_frames ?u = insert p (pt_frames s)" by (rule pt_frames_install [OF ok np p PGDIR_less])
  moreover have "t = s\<lparr>pmm_stack_loc := l, ram := ram t, klog := klog t\<rparr>"
    by (subst t(5)) (simp add: install_table_def)
  ultimately show ?thesis
    using t map_page_installs [OF ok np alloc p, of pa flags] u(2) by (auto simp: fun_eq_iff)
qed

section \<open>What unmap and get\_mapping do\<close>

theorem unmap_removes:
  assumes "paging_ok s" and "present (pde_at s (PGDIR_IDX_FROM_ADDR va))" and "\<not> window s va"
  shows "\<exists>t. unmap va s = Inr ((), t) \<and> paging_ok t
    \<and> translate t = (\<lambda>x. if frame x = frame va then None else translate s x)"
proof -
  let ?t = "s\<lparr>ram := st32 (ram s) (pte_addr s va) 0\<rparr>"
  have self: "self_mapped s" using assms(1) by (simp add: paging_ok_def)
  have "unmap va s = Inr ((), ?t)"
    using page_window_walk [OF self, of va] assms(2) page_window_aligned [OF self, of va]
    by (simp add: unmap_def cmd_simps vst32_aligned)
  then show ?thesis using store_pte(2,3) [OF assms, of 0] by (simp add: fun_eq_iff)
qed

lemma get_mapping_run:
  assumes "paging_ok s"
  shows "get_mapping va s = Inr (if \<not> present (pde_at s (PGDIR_IDX_FROM_ADDR va)) then None
     else if pte_at s va = 0 then None else Some (frame (pte_at s va) + off va), s)"
proof -
  let ?i = "PGDIR_IDX_FROM_ADDR va"
  have self: "self_mapped s" and tabs: "tables_ok s" using assms by (simp_all add: paging_ok_def)
  have e: "vld32 (dir_slot (curdir s) ?i) s = Inr (pde_at s ?i, s)"
    using dir_window [OF self PGDIR_less] by (simp add: vld32_aligned pde_at_def)
  have z: "pde_at s ?i = 0 \<longleftrightarrow> \<not> present (pde_at s ?i)"
    using tabs PGDIR_less [of va] by (auto simp: tables_ok_def)
  have "vld32 (page_slot (curdir s) (PG_NUM_FROM_ADDR va)) s = Inr (pte_at s va, s)"
    if "present (pde_at s ?i)"
    using page_window_walk [OF self, of va] that page_window_aligned [OF self, of va]
    by (simp add: vld32_aligned pte_at_def)
  with e z show ?thesis by (simp add: get_mapping_def cmd_simps)
qed

text \<open>
  \<open>get_mapping\<close> answers what the MMU does, wherever an entry that is not
  empty is present.
\<close>

theorem get_mapping_translate:
  assumes "paging_ok s" and "pte_at s va = 0 \<or> present (pte_at s va)"
  shows "get_mapping va s = Inr (translate s va, s)"
  using assms by (auto simp: get_mapping_run translate_def paging_ok_def self_mapped_def)

section \<open>A concrete address space\<close>

text \<open>
  The directory in page 0x1000 with its window, the table of the highest page of
  the stack of free frames, an empty table for the kernel heap, and three free
  frames: the state used to show that the hypotheses of the theorems can hold.
\<close>

definition demo_ram :: bytes where
  "demo_ram = st32 (st32 (st32 (st32 (st32 (st32 (st32 (st32 (st32 (\<lambda>_. 0)
     (entry 0x1000 1023) 0x1003) (entry 0x1000 1022) 0x2003) (entry 0x2000 1023) 0x1003)
     (entry 0x1000 1021) 0x3003) (entry 0x3000 1023) 0x4003) (entry 0x1000 960) 0x5003)
     (entry 0x4000 0) 0x8000) (entry 0x4000 1) 0x9000) (entry 0x4000 2) 0xA000"

definition demo :: vm where
  "demo = \<lparr>ram = demo_ram, cr3 = 0x1000, cr0_pg = True, pmm_paging_active = True,
     pmm_stack_loc = 0xFF7FF00C, pmm_stack_max = 0xFF800000, pmm_location = 0x6000,
     current_directory = Kernel_Directory,
     dirs = (\<lambda>_. \<lparr>physical = 0x1000, directory = 0xFFBFF000, pages = 0xFFC00000\<rparr>),
     klog = []\<rparr>"

lemma demo_frames [simp]:
  "frame 0x1000 = 0x1000" "frame 0x2000 = 0x2000" "frame 0x3000 = 0x3000" "frame 0x4000 = 0x4000"
  "frame 0x5000 = 0x5000" "frame 0x1003 = 0x1000" "frame 0x2003 = 0x2000" "frame 0x3003 = 0x3000"
  "frame 0x4003 = 0x4000" "frame 0x5003 = 0x5000"
  by (simp_all add: PAGE_ADDR_MASK_def)

lemma ld32_zero_mem [simp]: "ld32 (\<lambda>_. 0) a = 0"
  by (simp add: ld32_def)

lemma demo_entry:
  "i < 1024 \<Longrightarrow> ld32 demo_ram (entry f i) =
    (if frame f = 0x4000 \<and> i = 2 then 0xA000 else if frame f = 0x4000 \<and> i = 1 then 0x9000
     else if frame f = 0x4000 \<and> i = 0 then 0x8000
     else if frame f = 0x1000 \<and> i = 960 then 0x5003
     else if frame f = 0x3000 \<and> i = 1023 then 0x4003
     else if frame f = 0x1000 \<and> i = 1021 then 0x3003
     else if frame f = 0x2000 \<and> i = 1023 then 0x1003
     else if frame f = 0x1000 \<and> i = 1022 then 0x2003
     else if frame f = 0x1000 \<and> i = 1023 then 0x1003 else 0)"
  by (simp add: demo_ram_def ld32_st32_entry)

lemma demo_pde:
  "i < 1024 \<Longrightarrow> pde_at demo i = (if i = 960 then 0x5003 else if i = 1021 then 0x3003
     else if i = 1022 then 0x2003 else if i = 1023 then 0x1003 else 0)"
  by (simp add: pde_at_def demo_entry demo_def)

lemma demo_paging_ok: "paging_ok demo"
proof -
  have "present 0x5003" "present 0x3003" "present 0x2003" "present 0x1003"
    by (simp_all add: present_def PAGE_PRESENT_def)
  moreover have "self_slot demo = 1023" by (simp add: self_slot_def demo_def PGDIR_IDX_FROM_ADDR_def)
  moreover have "translate demo 0xFFBFF000 = Some 0x1000"
    using calculation
    by (simp add: translate_def pte_at_def pte_addr_def demo_pde PGDIR_IDX_FROM_ADDR_def
      PGTAB_IDX_FROM_ADDR_def) (simp add: demo_def demo_entry PAGE_FLAGS_MASK_def)
  ultimately show ?thesis
    by (auto simp: paging_ok_def self_mapped_def tables_ok_def demo_pde)
       (auto simp: demo_def PAGE_FLAGS_MASK_def)
qed

end
