(* ===== verification/Kernel_Frames.thy ===== *)
theory Kernel_Frames
  imports Kernel_Vmm
begin

text \<open>
  The release of page frames of \<open>kernel/mm/pmm.c\<close>, the invariant of the stack of
  free frames, and the contract of a frame allocator as a locale, interpreted on
  the model's operations.
\<close>

section \<open>Operations\<close>

definition pmm_free_page :: "u32 \<Rightarrow> ('a vm_scheme, unit) cmd" where
  "pmm_free_page p0 =
     (let p = p0 AND PAGE_ADDR_MASK in
      bnd (gets pmm_location) (\<lambda>location.
      if p < location then skip
      else
        bnd (gets pmm_stack_max) (\<lambda>max.
        bnd (gets pmm_stack_loc) (\<lambda>loc.
        if max \<le> loc then
          if PMM_STACK_END \<le> max then panic ''PMM Stack: out of mem for free pages.''
          else
            bnd (map_page max p (PAGE_PRESENT OR PAGE_WRITE)) (\<lambda>_.
            upd (\<lambda>s. s\<lparr>pmm_stack_max := pmm_stack_max s + PAGE_SIZE\<rparr>))
        else
          bnd (vst32 loc p) (\<lambda>_.
          upd (\<lambda>s. s\<lparr>pmm_stack_loc := pmm_stack_loc s + 4\<rparr>))))))"

section \<open>The stack of free frames\<close>

text \<open>Addresses of the part of the stack that is mapped, and of its slots.\<close>

definition in_stack :: "'a vm_scheme \<Rightarrow> u32 \<Rightarrow> bool" where
  "in_stack s a \<longleftrightarrow> PMM_STACK_START \<le> a \<and> a < pmm_stack_max s"

definition stack_slot :: "nat \<Rightarrow> u32" where
  "stack_slot k = PMM_STACK_START + 4 * of_nat k"

definition stack_depth :: "'a vm_scheme \<Rightarrow> nat" where
  "stack_depth s = (unat (pmm_stack_loc s) - unat PMM_STACK_START) div 4"

definition stack_word :: "'a vm_scheme \<Rightarrow> nat \<Rightarrow> u32" where
  "stack_word s k = ld32 (ram s) (the (translate s (stack_slot k)))"

text \<open>The abstract value of the stack: the free frames, the next one last.\<close>

definition free_pages :: "'a vm_scheme \<Rightarrow> u32 list" where
  "free_pages s = map (stack_word s) [0..<stack_depth s]"

definition stack_frames :: "'a vm_scheme \<Rightarrow> u32 set" where
  "stack_frames s = {frame p |p a. in_stack s a \<and> translate s a = Some p}"

text \<open>Every page of the stack is mapped, to a frame of its own that holds no page table.\<close>

definition stack_mapped :: "'a vm_scheme \<Rightarrow> bool" where
  "stack_mapped s \<longleftrightarrow>
     (\<forall>a. in_stack s a \<longrightarrow> translate s a \<noteq> None)
     \<and> (\<forall>a b p q. in_stack s a \<longrightarrow> in_stack s b \<longrightarrow> translate s a = Some p \<longrightarrow>
          translate s b = Some q \<longrightarrow> frame p = frame q \<longrightarrow> frame a = frame b)
     \<and> stack_frames s \<inter> pt_frames s = {}"

definition stack_ok :: "'a vm_scheme \<Rightarrow> bool" where
  "stack_ok s \<longleftrightarrow> pmm_paging_active s
     \<and> PMM_STACK_START \<le> pmm_stack_loc s \<and> pmm_stack_loc s \<le> pmm_stack_max s
     \<and> pmm_stack_max s \<le> PMM_STACK_END
     \<and> aligned4 (pmm_stack_loc s) \<and> off (pmm_stack_max s) = 0
     \<and> stack_mapped s"

text \<open>
  The free frames are distinct page addresses, and none of them holds a page
  table or a page of the stack.
\<close>

definition pool_ok :: "'a vm_scheme \<Rightarrow> bool" where
  "pool_ok s \<longleftrightarrow> distinct (free_pages s) \<and> (\<forall>p \<in> set (free_pages s). frame p = p)
     \<and> set (free_pages s) \<inter> (pt_frames s \<union> stack_frames s) = {}"

definition mm_ok :: "'a vm_scheme \<Rightarrow> bool" where
  "mm_ok s \<longleftrightarrow> paging_ok s \<and> stack_ok s \<and> pool_ok s"

lemma unat_stack_start: "unat PMM_STACK_START = 4286574592"
  by (simp add: PMM_STACK_START_def)

lemma unat_stack_end: "unat PMM_STACK_END = 4290768896"
  by (simp add: PMM_STACK_END_def)

lemma unat_stack_slot:
  "k < 1048576 \<Longrightarrow> unat (stack_slot k) = 4286574592 + 4 * k"
  by (simp add: stack_slot_def unat_word_ariths unat_stack_start unat_of_nat)

lemma stack_okD:
  assumes "stack_ok s"
  shows "stack_mapped s" and "stack_frames s \<inter> pt_frames s = {}" and "pmm_paging_active s"
    and "aligned4 (pmm_stack_loc s)"
proof -
  show m: "stack_mapped s" and "pmm_paging_active s" and "aligned4 (pmm_stack_loc s)"
    using assms by (simp_all add: stack_ok_def)
  show "stack_frames s \<inter> pt_frames s = {}" using m unfolding stack_mapped_def by blast
qed

lemma stack_bounds:
  assumes "stack_ok s"
  shows "unat (pmm_stack_loc s) = 4286574592 + 4 * stack_depth s"
    and "stack_depth s < 1048577"
    and "stack_slot (stack_depth s) = pmm_stack_loc s"
    and "unat (pmm_stack_loc s) \<le> unat (pmm_stack_max s)" and "unat (pmm_stack_max s) \<le> 4290768896"
proof -
  show le: "unat (pmm_stack_loc s) \<le> unat (pmm_stack_max s)" "unat (pmm_stack_max s) \<le> 4290768896"
    using assms by (simp_all add: stack_ok_def word_le_nat_alt unat_stack_end)
  have ge: "4286574592 \<le> unat (pmm_stack_loc s)"
    using assms by (simp add: stack_ok_def word_le_nat_alt unat_stack_start)
  have "unat (pmm_stack_loc s) mod 4 = 0" using assms by (simp add: stack_ok_def aligned4_def)
  then have "(unat (pmm_stack_loc s) - 4286574592) mod 4 = 0" using ge by presburger
  then show eq: "unat (pmm_stack_loc s) = 4286574592 + 4 * stack_depth s"
    using ge by (simp add: stack_depth_def unat_stack_start) presburger
  show d: "stack_depth s < 1048577" using eq le by linarith
  have "unat (PMM_STACK_START + 4 * of_nat (stack_depth s)) = 4286574592 + 4 * stack_depth s"
    using d by (simp add: unat_word_ariths unat_stack_start unat_of_nat)
  then show "stack_slot (stack_depth s) = pmm_stack_loc s"
    using eq by (simp add: stack_slot_def word_unat_eq_iff)
qed

lemma slot_in_stack:
  assumes "stack_ok s" and "k < stack_depth s \<or> k = stack_depth s \<and> pmm_stack_loc s < pmm_stack_max s"
  shows "in_stack s (stack_slot k)" and "aligned4 (stack_slot k)" and "k < 1048576"
proof -
  note b = stack_bounds [OF assms(1)]
  have lt: "4286574592 + 4 * k < unat (pmm_stack_max s)"
  proof (cases "k < stack_depth s")
    case True
    with b(1,4) show ?thesis by linarith
  next
    case False
    with assms(2) have "k = stack_depth s" "unat (pmm_stack_loc s) < unat (pmm_stack_max s)"
      by (simp_all add: word_less_nat_alt)
    with b(1) show ?thesis by linarith
  qed
  with b(5) show k: "k < 1048576" by linarith
  note u = unat_stack_slot [OF this]
  show "in_stack s (stack_slot k)"
    using lt by (simp add: in_stack_def word_le_nat_alt word_less_nat_alt unat_stack_start u)
  show "aligned4 (stack_slot k)" unfolding aligned4_def u by presburger
qed

lemma stack_slot_inj:
  "j < 1048576 \<Longrightarrow> k < 1048576 \<Longrightarrow> stack_slot j = stack_slot k \<longleftrightarrow> j = k"
  using unat_stack_slot [of j] unat_stack_slot [of k] by (metis add_left_cancel mult_left_cancel zero_neq_numeral)

text \<open>Different slots are different words of physical memory.\<close>

lemma slots_apart:
  assumes ok: "stack_ok s" and a: "in_stack s a" "aligned4 a" "translate s a = Some p"
    and b: "in_stack s b" "aligned4 b" "translate s b = Some q" and pg: "cr0_pg s"
  shows "aligned4 p" and "p = q \<longleftrightarrow> a = b"
proof -
  show "aligned4 p" using a(2) translate_off [OF a(3)] by (simp add: aligned4_off)
  show "p = q \<longleftrightarrow> a = b"
  proof
    assume pq: "p = q"
    then have "frame a = frame b" using ok a b unfolding stack_ok_def stack_mapped_def by metis
    moreover have "off a = off b" using translate_off [OF a(3)] translate_off [OF b(3)] pq by simp
    ultimately show "a = b" by (metis frame_plus_off)
  next
    assume "a = b" then show "p = q" using a b by simp
  qed
qed

text \<open>The stack seen after memory has changed elsewhere.\<close>

lemma stack_mapped_same:
  assumes "stack_mapped s" and "in_stack t = in_stack s"
    and "\<And>a. in_stack s a \<Longrightarrow> translate t a = translate s a"
    and "pt_frames t \<inter> stack_frames s = {}"
  shows "stack_mapped t" and "stack_frames t = stack_frames s"
proof -
  show sf: "stack_frames t = stack_frames s"
    using assms(3) unfolding stack_frames_def assms(2) by (metis (no_types, lifting))
  show "stack_mapped t"
    using assms(1,3,4) unfolding stack_mapped_def assms(2) sf by (metis inf.commute)
qed

lemma stack_same:
  assumes ok: "stack_ok s" and same: "same_except F (ram s) (ram t)" and F: "F \<inter> stack_frames s = {}"
    and tr: "\<And>a. in_stack s a \<Longrightarrow> translate t a = translate s a"
    and fields: "pmm_stack_max t = pmm_stack_max s"
  shows "k < stack_depth s \<Longrightarrow> stack_word t k = stack_word s k"
    and "stack_frames t = stack_frames s"
proof -
  have "in_stack t = in_stack s" by (simp add: in_stack_def fields fun_eq_iff)
  with tr show "stack_frames t = stack_frames s"
    unfolding stack_frames_def by (metis (no_types, lifting))
  assume k: "k < stack_depth s"
  note slot = slot_in_stack [OF ok disjI1 [OF k]]
  obtain p where p: "translate s (stack_slot k) = Some p"
    using ok slot(1) unfolding stack_ok_def stack_mapped_def by blast
  have "aligned4 p" using slot(2) translate_off [OF p] by (simp add: aligned4_off)
  moreover have "frame p \<notin> F" using F p slot(1) by (auto simp: stack_frames_def)
  ultimately show "stack_word t k = stack_word s k"
    using same tr [OF slot(1)] p by (simp add: stack_word_def ld32_same_except)
qed

section \<open>Allocation\<close>

lemma free_pages_depth: "length (free_pages s) = stack_depth s"
  by (simp add: free_pages_def)

theorem pmm_alloc_page_pops:
  assumes ok: "mm_ok s" and ne: "free_pages s = xs @ [p]"
  shows "\<exists>t. pmm_alloc_page s = Inr (p, t) \<and> mm_ok t \<and> free_pages t = xs
    \<and> t = s\<lparr>pmm_stack_loc := pmm_stack_loc s - 4\<rparr>"
proof -
  have sok: "stack_ok s" and pool: "pool_ok s" and pg: "paging_ok s" using ok by (simp_all add: mm_ok_def)
  note b = stack_bounds [OF sok]
  have d: "stack_depth s = Suc (length xs)" using ne free_pages_depth [of s] by simp
  let ?t = "s\<lparr>pmm_stack_loc := pmm_stack_loc s - 4\<rparr>"
  have loc: "unat (pmm_stack_loc s - 4) = unat (pmm_stack_loc s) - 4"
    by (simp add: unat_sub word_le_nat_alt b(1))
  have "stack_depth ?t = (unat (pmm_stack_loc s) - 4 - 4286574592) div 4"
    by (simp add: stack_depth_def loc unat_stack_start)
  then have dt: "stack_depth ?t = length xs" by (simp add: b(1) d)
  have slot: "stack_slot (length xs) = pmm_stack_loc s - 4"
    using b(2) d unat_stack_slot [of "length xs"] by (simp add: word_unat_eq_iff loc b(1))
  have "length xs < stack_depth s" using d by simp
  note sl = slot_in_stack [OF sok disjI1 [OF this]]
  obtain q where q: "translate s (stack_slot (length xs)) = Some q"
    using sok sl(1) d unfolding stack_ok_def stack_mapped_def by blast
  have p: "p = ld32 (ram s) q"
  proof -
    have "p = free_pages s ! length xs" by (simp add: ne)
    also have "\<dots> = stack_word s (length xs)" using d by (simp add: free_pages_def del: upt_Suc)
    finally show ?thesis by (simp add: stack_word_def q)
  qed
  have run: "pmm_alloc_page s = Inr (p, ?t)"
  proof -
    have "PMM_STACK_START < pmm_stack_loc s"
      by (simp add: word_less_nat_alt unat_stack_start b(1) d)
    moreover have "pmm_paging_active s" "aligned4 (pmm_stack_loc s)"
      using sok by (simp_all add: stack_ok_def)
    ultimately show ?thesis using pmm_alloc_page_pop [of s q] q slot p by simp
  qed
  have words: "stack_word ?t = stack_word s" by (simp add: stack_word_def fun_eq_iff)
  have fp: "free_pages ?t = xs"
  proof -
    have "free_pages s = free_pages ?t @ [stack_word s (length xs)]"
      using d dt by (simp add: free_pages_def words)
    with ne show ?thesis by simp
  qed
  have sf: "stack_frames ?t = stack_frames s" "in_stack ?t = in_stack s"
    by (simp_all add: stack_frames_def in_stack_def fun_eq_iff)
  have "stack_ok ?t"
  proof -
    have "aligned4 (pmm_stack_loc s - 4)" using sl(2) d slot by simp
    moreover have "PMM_STACK_START \<le> pmm_stack_loc s - 4" "pmm_stack_loc s - 4 \<le> pmm_stack_max s"
      using b(4) by (simp_all add: word_le_nat_alt loc unat_stack_start b(1) d)
    moreover have "stack_mapped ?t"
      by (rule stack_mapped_same(1) [OF stack_okD(1) [OF sok]])
        (simp_all add: sf Int_commute stack_okD(2) [OF sok])
    ultimately show ?thesis using sok by (simp add: stack_ok_def)
  qed
  moreover have "pool_ok ?t" using pool ne by (auto simp: pool_ok_def fp sf)
  ultimately show ?thesis using run pg fp by (simp add: mm_ok_def)
qed

theorem pmm_alloc_page_empty_panics:
  assumes "mm_ok s" and "free_pages s = []"
  shows "pmm_alloc_page s = Inl (Panic ''PMM Stack: no free pages.'')"
proof -
  have sok: "stack_ok s" using assms(1) by (simp add: mm_ok_def)
  have "stack_depth s = 0" using assms(2) by (simp add: free_pages_def)
  then have "pmm_stack_loc s \<le> PMM_STACK_START"
    using stack_bounds(1) [OF sok] by (simp add: word_le_nat_alt unat_stack_start)
  then show ?thesis using sok by (simp add: pmm_alloc_page_empty stack_ok_def)
qed

section \<open>The stack and the pool under other changes of the state\<close>

lemma mm_transfer:
  assumes ok: "mm_ok s" and pg: "paging_ok t"
    and same: "same_except F (ram s) (ram t)" and F: "F \<inter> stack_frames s = {}"
    and tr: "\<And>a. in_stack s a \<Longrightarrow> translate t a = translate s a"
    and pmm: "pmm_stack_max t = pmm_stack_max s" "pmm_stack_loc t = pmm_stack_loc s"
      "pmm_paging_active t = pmm_paging_active s"
    and pt: "pt_frames t \<inter> (set (free_pages s) \<union> stack_frames s) = {}"
  shows "mm_ok t" and "free_pages t = free_pages s" and "stack_frames t = stack_frames s"
proof -
  have sok: "stack_ok s" and pool: "pool_ok s" using ok by (simp_all add: mm_ok_def)
  have it: "in_stack t = in_stack s" by (simp add: in_stack_def pmm fun_eq_iff)
  have ptd: "pt_frames t \<inter> stack_frames s = {}" using pt by blast
  note m = stack_mapped_same [OF stack_okD(1) [OF sok] it tr ptd]
  show sf: "stack_frames t = stack_frames s" by (rule m(2))
  have d: "stack_depth t = stack_depth s" by (simp add: stack_depth_def pmm)
  show fp: "free_pages t = free_pages s"
    unfolding free_pages_def d
    by (rule map_cong) (use stack_same(1) [OF sok same F tr pmm(1)] in auto)
  have "stack_ok t" using sok m(1) by (simp add: stack_ok_def pmm)
  moreover have "pool_ok t" using pool pt by (auto simp: pool_ok_def fp sf)
  ultimately show "mm_ok t" using pg by (simp add: mm_ok_def)
qed

lemma in_stack_frame:
  assumes "stack_ok s" and "in_stack s a" and "frame a = frame b"
  shows "in_stack s b"
proof -
  have m: "unat (pmm_stack_max s) mod 4096 = 0"
    using assms(1) unat_off [of "pmm_stack_max s"] by (simp add: stack_ok_def)
  have eq: "unat a div 4096 = unat b div 4096"
    using assms(3) by (metis frame_eq_iff_PG_NUM unat_PG_NUM)
  have "4286574592 \<le> unat a" "unat a < unat (pmm_stack_max s)"
    using assms(2) by (simp_all add: in_stack_def word_le_nat_alt word_less_nat_alt unat_stack_start)
  moreover obtain k where k: "unat (pmm_stack_max s) = k * 4096"
    using m by (metis dvd_eq_mod_eq_0 dvd_def mult.commute)
  moreover have "n < k * 4096 \<longleftrightarrow> n div 4096 < k" for n :: nat
    by (simp add: div_less_iff_less_mult)
  moreover have "4286574592 \<le> n \<longleftrightarrow> 1046527 \<le> n div 4096" for n :: nat
    by (simp add: less_eq_div_iff_mult_less_eq)
  ultimately have "4286574592 \<le> unat b" "unat b < unat (pmm_stack_max s)"
    using eq by simp_all
  then show ?thesis by (simp add: in_stack_def word_le_nat_alt word_less_nat_alt unat_stack_start)
qed

section \<open>Release\<close>

theorem pmm_free_page_reserved:
  "frame p < pmm_location s \<Longrightarrow> pmm_free_page p s = Inr ((), s)"
  by (simp add: pmm_free_page_def cmd_simps Let_def)

theorem pmm_free_page_full_panics:
  "pmm_location s \<le> frame p \<Longrightarrow> pmm_stack_max s \<le> pmm_stack_loc s \<Longrightarrow>
   PMM_STACK_END \<le> pmm_stack_max s \<Longrightarrow>
   pmm_free_page p s = Inl (Panic ''PMM Stack: out of mem for free pages.'')"
  by (simp add: pmm_free_page_def cmd_simps Let_def)

text \<open>
  The frames in the managers' hands, and what a release leaves alone: the page tables' places and every
  byte outside the tables and the stack.
\<close>

definition pool_frames :: "'a vm_scheme \<Rightarrow> u32 set" where
  "pool_frames s = set (free_pages s) \<union> stack_frames s"

definition frees :: "u32 \<Rightarrow> 'a vm_scheme \<Rightarrow> 'a vm_scheme \<Rightarrow> bool" where
  "frees p s t \<longleftrightarrow> t = s\<lparr>ram := ram t, pmm_stack_loc := pmm_stack_loc t, pmm_stack_max := pmm_stack_max t, klog := klog t\<rparr>
     \<and> pt_frames t = pt_frames s \<and> (\<forall>i < 1024. pde_at t i = pde_at s i)
     \<and> pool_frames t = insert (frame p) (pool_frames s)
     \<and> same_except (pt_frames s \<union> stack_frames s) (ram s) (ram t)"

theorem pmm_free_page_pushes:
  assumes ok: "mm_ok s" and loc: "pmm_location s \<le> frame p" and room: "pmm_stack_loc s < pmm_stack_max s"
    and new: "frame p \<notin> set (free_pages s) \<union> pt_frames s \<union> stack_frames s"
  shows "\<exists>t. pmm_free_page p s = Inr ((), t) \<and> mm_ok t \<and> free_pages t = free_pages s @ [frame p]
    \<and> translate t = translate s \<and> frees p s t
    \<and> pmm_stack_loc t = pmm_stack_loc s + 4 \<and> pmm_stack_max t = pmm_stack_max s
    \<and> same_except (stack_frames s) (ram s) (ram t)"
proof -
  have sok: "stack_ok s" and pool: "pool_ok s" and pg: "paging_ok s" using ok by (simp_all add: mm_ok_def)
  have cr0: "cr0_pg s" using pg by (simp add: paging_ok_def self_mapped_def)
  note b = stack_bounds [OF sok]
  let ?d = "stack_depth s"
  note sl = slot_in_stack [OF sok disjI2 [OF conjI [OF refl room]]]
  obtain q where q: "translate s (stack_slot ?d) = Some q"
    using stack_okD(1) [OF sok] sl(1) unfolding stack_mapped_def by blast
  let ?u = "s\<lparr>ram := st32 (ram s) q (frame p)\<rparr>"
  let ?t = "?u\<lparr>pmm_stack_loc := pmm_stack_loc s + 4\<rparr>"
  have run: "pmm_free_page p s = Inr ((), ?t)"
  proof -
    have "\<not> pmm_stack_max s \<le> pmm_stack_loc s" "\<not> frame p < pmm_location s"
      using loc room by simp_all
    then show ?thesis
      using q sl(2) by (simp add: pmm_free_page_def cmd_simps Let_def vst32_aligned b(3))
  qed
  have aq: "aligned4 q" using sl(2) translate_off [OF q] by (simp add: aligned4_off)
  have fq: "frame q \<in> stack_frames s" using sl(1) q by (auto simp: stack_frames_def)
  have same: "same_except {frame q} (ram s) (st32 (ram s) q (frame p))" using aq by (simp add: same_except_st32)
  have dis: "{frame q} \<inter> pt_frames s = {}" using fq stack_okD(2) [OF sok] by blast
  note tr = translate_same [OF same dis] and ptf = pt_frames_same [OF same dis]
  have tru: "translate ?u = translate s" by (simp add: tr fun_eq_iff)
  have loc4: "unat (pmm_stack_loc s + 4) = unat (pmm_stack_loc s) + 4"
    using b(5) room by (simp add: unat_word_ariths word_less_nat_alt)
  have "stack_depth ?t = (unat (pmm_stack_loc s) + 4 - 4286574592) div 4"
    by (simp add: stack_depth_def loc4 unat_stack_start)
  then have dt: "stack_depth ?t = Suc ?d" by (simp add: b(1))
  have old: "stack_word ?t k = stack_word s k" if k: "k < ?d" for k
  proof -
    note slk = slot_in_stack [OF sok disjI1 [OF k]]
    obtain r where r: "translate s (stack_slot k) = Some r"
      using stack_okD(1) [OF sok] slk(1) unfolding stack_mapped_def by blast
    have "r \<noteq> q"
      using slots_apart(2) [OF sok slk(1,2) r sl(1,2) q cr0] k sl(3) slk(3) by (simp add: stack_slot_inj)
    moreover have "aligned4 r" using slk(2) translate_off [OF r] by (simp add: aligned4_off)
    ultimately show ?thesis using aq by (simp add: stack_word_def tru r ld32_st32_aligned)
  qed
  have new_word: "stack_word ?t ?d = frame p" by (simp add: stack_word_def tru q)
  have fp: "free_pages ?t = free_pages s @ [frame p]"
    using old new_word by (simp add: free_pages_def dt)
  have sf: "stack_frames ?t = stack_frames s" by (simp add: stack_frames_def in_stack_def tru)
  have "paging_ok ?t"
    using pg pde_at_same [OF same dis] tru
    by (simp add: paging_ok_def self_mapped_def tables_ok_def self_slot_def PGDIR_less)
  moreover have "stack_ok ?t"
  proof -
    have "stack_mapped ?t"
      by (rule stack_mapped_same(1) [OF stack_okD(1) [OF sok]])
        (simp_all add: in_stack_def fun_eq_iff tru ptf Int_commute stack_okD(2) [OF sok])
    moreover have "unat (pmm_stack_loc s + 4) mod 4 = 0"
      using stack_okD(4) [OF sok] by (simp add: loc4 aligned4_def)
    moreover have "unat (pmm_stack_loc s) + 4 \<le> unat (pmm_stack_max s)"
    proof -
      have "4 dvd unat (pmm_stack_loc s)" using stack_okD(4) [OF sok] by (simp add: aligned4_def dvd_eq_mod_eq_0)
      then obtain i where i: "unat (pmm_stack_loc s) = 4 * i" by (rule dvdE)
      have "unat (pmm_stack_max s) mod 4096 = 0"
        using sok unat_off [of "pmm_stack_max s"] by (simp add: stack_ok_def)
      then have "4096 dvd unat (pmm_stack_max s)" by (simp only: dvd_eq_mod_eq_0)
      then obtain j where j: "unat (pmm_stack_max s) = 4096 * j" by (rule dvdE)
      have "4 * i < 4096 * j" using room by (simp add: word_less_nat_alt i j)
      then show ?thesis by (simp add: i j)
    qed
    moreover have "PMM_STACK_START \<le> pmm_stack_loc s + 4"
      by (simp add: word_le_nat_alt loc4 unat_stack_start b(1))
    ultimately show ?thesis using sok by (simp add: stack_ok_def aligned4_def word_le_nat_alt loc4)
  qed
  moreover have "pool_ok ?t" using pool new ptf by (auto simp: pool_ok_def fp sf)
  moreover have "frees p s ?t"
    using pde_at_same [OF same dis] ptf fp sf same_except_mono [OF same, of "pt_frames s \<union> stack_frames s"] fq
    by (simp add: frees_def pool_frames_def)
  moreover have "same_except (stack_frames s) (ram s) (ram ?t)"
    using same_except_mono [OF same, of "stack_frames s"] fq by simp
  ultimately show ?thesis using run fp tru by (simp add: mm_ok_def)
qed

lemma page_range:
  assumes "off m = 0"
  shows "frame a = m \<longleftrightarrow> unat m \<le> unat a \<and> unat a < unat m + 4096"
proof
  assume "frame a = m"
  then have "unat m = unat a div 4096 * 4096" using unat_frame [of a] by simp
  then show "unat m \<le> unat a \<and> unat a < unat m + 4096" by simp
next
  assume a: "unat m \<le> unat a \<and> unat a < unat m + 4096"
  have "frame m = m" using assms frame_plus_off [of m] by simp
  then obtain j where j: "unat m = j * 4096" using unat_frame [of m] by metis
  have "unat a div 4096 = j" using a j by (intro div_nat_eqI) (simp_all add: mult.commute)
  then show "frame a = m" using j by (simp add: word_unat_eq_iff unat_frame)
qed

text \<open>The mapped part of the stack grows by the page \<open>m\<close>, mapped to the frame \<open>f\<close>.\<close>

lemma stack_grows:
  assumes it: "\<And>a. in_stack t a \<longleftrightarrow> in_stack s a \<or> frame a = m"
    and tr: "\<And>a. translate t a = (if frame a = m then Some (f + off a) else translate s a)"
    and ne: "\<And>a. in_stack s a \<Longrightarrow> frame a \<noteq> m" and m: "frame m = m" and f: "frame f = f"
    and sm: "stack_mapped s"
  shows "stack_frames t = insert f (stack_frames s)"
    and "f \<notin> stack_frames s \<Longrightarrow> pt_frames t \<inter> insert f (stack_frames s) = {} \<Longrightarrow> stack_mapped t"
proof -
  have f': "frame (f + off x) = f" for x using frame_add [OF off_less, of f x] f by simp
  have old: "in_stack s x \<and> translate s x = Some y" if "in_stack t x" "translate t x = Some y" "frame x \<noteq> m" for x y
    using that it tr by auto
  have new: "frame y = f" if "translate t x = Some y" "frame x = m" for x y
    using that tr f' by auto
  have sub: "x \<in> insert f (stack_frames s)" if x: "x \<in> stack_frames t" for x
  proof -
    obtain q a where q: "x = frame q" "in_stack t a" "translate t a = Some q"
      using x by (auto simp: stack_frames_def)
    show ?thesis using q new old unfolding stack_frames_def by (cases "frame a = m") blast+
  qed
  have "in_stack t m" "translate t m = Some (f + off m)" using it tr m by auto
  then have "f \<in> stack_frames t" using f' [of m] unfolding stack_frames_def by force
  moreover have "stack_frames s \<subseteq> stack_frames t"
    using it tr ne unfolding stack_frames_def by fastforce
  ultimately show sf: "stack_frames t = insert f (stack_frames s)" using sub by blast
  assume nf: "f \<notin> stack_frames s" and pt: "pt_frames t \<inter> insert f (stack_frames s) = {}"
  have old_frame: "frame y \<in> stack_frames s" if "in_stack t x" "translate t x = Some y" "frame x \<noteq> m" for x y
    using old [OF that] unfolding stack_frames_def by blast
  show "stack_mapped t"
    unfolding stack_mapped_def
  proof (intro conjI allI impI)
    fix a assume "in_stack t a"
    then show "translate t a \<noteq> None" using it tr [of a] sm unfolding stack_mapped_def by auto
  next
    fix a b q r
    assume ab: "in_stack t a" "in_stack t b" "translate t a = Some q" "translate t b = Some r" "frame q = frame r"
    show "frame a = frame b"
    proof (cases "frame a = m \<or> frame b = m")
      case True
      with ab nf new old_frame show ?thesis by metis
    next
      case False
      with ab old [of a q] old [of b r] sm show ?thesis unfolding stack_mapped_def by blast
    qed
  next
    show "stack_frames t \<inter> pt_frames t = {}" using sf pt by blast
  qed
qed

text \<open>When the mapped part of the stack is full, the freed page becomes its next page.\<close>

theorem pmm_free_page_grows:
  assumes ok: "mm_ok s" and loc: "pmm_location s \<le> frame p" and full: "pmm_stack_loc s = pmm_stack_max s"
    and lim: "pmm_stack_max s < PMM_STACK_END"
    and pr: "present (pde_at s (PGDIR_IDX_FROM_ADDR (pmm_stack_max s)))"
    and nw: "\<not> window s (pmm_stack_max s)" and kv: "kernel_view s (pmm_stack_max s)"
    and new: "frame p \<notin> set (free_pages s) \<union> pt_frames s \<union> stack_frames s"
  shows "\<exists>t. pmm_free_page p s = Inr ((), t) \<and> mm_ok t \<and> free_pages t = free_pages s
    \<and> pmm_stack_max t = pmm_stack_max s + PAGE_SIZE
    \<and> translate t = (\<lambda>x. if frame x = frame (pmm_stack_max s) then Some (frame p + off x)
        else translate s x) \<and> frees p s t"
proof -
  have sok: "stack_ok s" and pool: "pool_ok s" and pg: "paging_ok s" using ok by (simp_all add: mm_ok_def)
  let ?m = "pmm_stack_max s"
  have off0: "off ?m = 0" using sok by (simp add: stack_ok_def)
  then have fm: "frame ?m = ?m" using frame_plus_off [of ?m] by simp
  have "PAGE_PRESENT OR PAGE_WRITE = mask 2"
    by (simp add: PAGE_PRESENT_def PAGE_WRITE_def mask_eq_exp_minus_1)
  then have fl: "frame (PAGE_PRESENT OR PAGE_WRITE) = 0"
    by (simp only:) (rule bit_word_eqI, auto simp: bit_simps)
  obtain u where u: "map_page ?m (frame p) (PAGE_PRESENT OR PAGE_WRITE) s = Inr ((), u)" "paging_ok u"
    "translate u = (\<lambda>x. if frame x = frame ?m then Some (frame p + off x) else translate s x)"
    "same_except {frame (pde_at s (PGDIR_IDX_FROM_ADDR ?m))} (ram s) (ram u)"
    "u = s\<lparr>ram := ram u, klog := klog u\<rparr>" "pt_frames u = pt_frames s"
    using map_page_existing [OF pg pr nw kv fl, of "frame p"] unfolding frame_frame by blast
  have uf: "pmm_stack_max u = ?m" "pmm_stack_loc u = pmm_stack_loc s"
    "pmm_paging_active u = pmm_paging_active s"
    by (subst u(5), simp)+
  have ne: "frame a \<noteq> frame ?m" if "in_stack s a" for a
    using in_stack_frame [OF sok that, of ?m] by (auto simp: in_stack_def)
  have tr: "translate u a = translate s a" if "in_stack s a" for a
    using ne [OF that] by (simp add: u(3))
  have F: "{frame (pde_at s (PGDIR_IDX_FROM_ADDR ?m))} \<inter> stack_frames s = {}"
    using stack_okD(2) [OF sok] pde_in_pt_frames [OF PGDIR_less pr] by blast
  have pt: "pt_frames u \<inter> (set (free_pages s) \<union> stack_frames s) = {}"
    using pool stack_okD(2) [OF sok] by (auto simp: u(6) pool_ok_def)
  note uo = mm_transfer [OF ok u(2,4) F tr uf pt]
  let ?t = "u\<lparr>pmm_stack_max := pmm_stack_max u + PAGE_SIZE\<rparr>"
  have run: "pmm_free_page p s = Inr ((), ?t)"
    using loc lim full u(1) by (simp add: pmm_free_page_def cmd_simps Let_def not_le not_less)
  have sok': "stack_ok u" using uo(1) by (simp add: mm_ok_def)
  have mu: "unat (?m + PAGE_SIZE) = unat ?m + 4096" "unat ?m + 4096 \<le> unat PMM_STACK_END"
    "4286574592 \<le> unat ?m"
  proof -
    have lt: "unat ?m < 4290768896" using lim by (simp add: word_less_nat_alt unat_stack_end)
    then show "unat (?m + PAGE_SIZE) = unat ?m + 4096" by (simp add: unat_word_ariths PAGE_SIZE_def)
    have "unat ?m mod 4096 = 0" using off0 unat_off [of ?m] by simp
    then have "4096 dvd unat ?m" by (simp only: dvd_eq_mod_eq_0)
    then obtain j where j: "unat ?m = 4096 * j" by (rule dvdE)
    with lt have "j < 1047551" by simp
    then show "unat ?m + 4096 \<le> unat PMM_STACK_END" by (simp add: unat_stack_end j)
    show "4286574592 \<le> unat ?m"
      using sok by (simp add: stack_ok_def word_le_nat_alt unat_stack_start full)
  qed
  have it: "in_stack ?t a \<longleftrightarrow> in_stack s a \<or> frame a = ?m" for a
    using page_range [OF off0, of a] mu
    by (auto simp: in_stack_def uf word_le_nat_alt word_less_nat_alt unat_stack_start)
  have trt: "translate ?t a = (if frame a = ?m then Some (frame p + off a) else translate s a)" for a
    using fm by (simp add: u(3))
  have ne': "frame a \<noteq> ?m" if "in_stack s a" for a using ne [OF that] fm by simp
  note grow = stack_grows [of ?t s ?m "frame p", OF it trt ne' fm frame_frame stack_okD(1) [OF sok]]
  have sft: "stack_frames ?t = insert (frame p) (stack_frames s)" by (rule grow(1))
  have smt: "stack_mapped ?t"
    by (rule grow(2)) (use new u(6) stack_okD(2) [OF sok] in auto)
  have dt: "stack_depth ?t = stack_depth s" by (simp add: stack_depth_def uf)
  have words: "stack_word ?t = stack_word u" by (simp add: stack_word_def fun_eq_iff)
  have fpt: "free_pages ?t = free_pages s"
    using uo(2) by (simp add: free_pages_def dt words) (simp add: stack_depth_def uf)
  have "stack_ok ?t"
  proof -
    have "off (?m + PAGE_SIZE) = 0"
      using off0 unat_off [of ?m] by (simp add: word_unat_eq_iff unat_off mu(1))
    moreover have "?m \<le> ?m + PAGE_SIZE" "?m + PAGE_SIZE \<le> PMM_STACK_END"
      using mu by (simp_all add: word_le_nat_alt)
    ultimately show ?thesis using sok smt by (simp add: stack_ok_def uf full)
  qed
  moreover have "pool_ok ?t" using pool new u(6) by (auto simp: pool_ok_def fpt sft)
  moreover have "frees p s ?t"
    unfolding frees_def
  proof (intro conjI allI impI)
    show "?t = s\<lparr>ram := ram ?t, pmm_stack_loc := pmm_stack_loc ?t, pmm_stack_max := pmm_stack_max ?t, klog := klog ?t\<rparr>"
      by (subst (1) u(5)) (simp add: uf)
    show "pt_frames ?t = pt_frames s" by (simp add: u(6))
    show "pool_frames ?t = insert (frame p) (pool_frames s)" by (auto simp: pool_frames_def fpt sft)
    have "frame (pde_at s (PGDIR_IDX_FROM_ADDR ?m)) \<noteq> frame (cr3 s)"
      by (rule table_not_directory [OF pg PGDIR_less pr]) (use nw in \<open>simp add: window_def\<close>)
    moreover have "cr3 u = cr3 s" by (subst u(5)) simp
    ultimately show "pde_at ?t i = pde_at s i" if "i < 1024" for i
      using u(4) that by (simp add: pde_at_def ld32_same_except page_simps)
    show "same_except (pt_frames s \<union> stack_frames s) (ram s) (ram ?t)"
      using same_except_mono [OF u(4), of "pt_frames s \<union> stack_frames s"] pde_in_pt_frames [OF PGDIR_less pr] by simp
  qed
  ultimately show ?thesis using run u(2) fpt u(3) by (simp add: mm_ok_def uf)
qed

section \<open>The contract of a frame allocator\<close>

text \<open>
  \<open>pool\<close> is the list of free frames, the next one last; \<open>used\<close> the frames the
  manager itself occupies.
\<close>

locale frame_pool =
  fixes alloc :: "('s, u32) cmd" and inv :: "'s \<Rightarrow> bool"
    and pool :: "'s \<Rightarrow> u32 list" and used :: "'s \<Rightarrow> u32 set"
  assumes alloc_pop: "inv s \<Longrightarrow> pool s = xs @ [p] \<Longrightarrow>
      \<exists>t. alloc s = Inr (p, t) \<and> inv t \<and> pool t = xs \<and> used t = used s"
    and alloc_empty: "inv s \<Longrightarrow> pool s = [] \<Longrightarrow> \<exists>e. alloc s = Inl e"
    and pool_distinct: "inv s \<Longrightarrow> distinct (pool s)"
    and pool_unused: "inv s \<Longrightarrow> set (pool s) \<inter> used s = {}"
begin

lemma allocs:
  "inv s \<Longrightarrow> n \<le> length (pool s) \<Longrightarrow>
   \<exists>t. crepeat n alloc s = Inr (rev (drop (length (pool s) - n) (pool s)), t)
     \<and> inv t \<and> pool t = take (length (pool s) - n) (pool s) \<and> used t = used s"
proof (induction n arbitrary: s)
  case 0
  then show ?case by (simp add: cmd_simps)
next
  case (Suc n)
  then obtain xs p where xp: "pool s = xs @ [p]" by (cases "pool s" rule: rev_cases) auto
  obtain t where t: "alloc s = Inr (p, t)" "inv t" "pool t = xs" "used t = used s"
    using alloc_pop [OF Suc.prems(1) xp] by blast
  have "n \<le> length (pool t)" using Suc.prems(2) xp t(3) by simp
  from Suc.IH [OF t(2) this] show ?case
    using t xp Suc.prems(2) by (auto simp: cmd_simps)
qed

lemma allocs_fresh:
  assumes "inv s" and "n \<le> length (pool s)"
  shows "\<exists>ps t. crepeat n alloc s = Inr (ps, t) \<and> length ps = n \<and> distinct ps
    \<and> set ps \<subseteq> set (pool s) \<and> set ps \<inter> set (pool t) = {} \<and> set ps \<inter> used t = {} \<and> inv t"
proof -
  obtain t where t: "crepeat n alloc s = Inr (rev (drop (length (pool s) - n) (pool s)), t)"
    "inv t" "pool t = take (length (pool s) - n) (pool s)" "used t = used s"
    using allocs [OF assms] by blast
  let ?ps = "drop (length (pool s) - n) (pool s)"
  have "set ?ps \<subseteq> set (pool s)" by (rule set_drop_subset)
  moreover have "set ?ps \<inter> set (take (length (pool s) - n) (pool s)) = {}"
    using pool_distinct [OF assms(1)] set_take_disj_set_drop_if_distinct by (metis inf_commute order_refl)
  ultimately show ?thesis
    using t assms pool_distinct [OF assms(1)] pool_unused [OF assms(1)]
    by (intro exI [of _ "rev ?ps"] exI [of _ t]) auto
qed

lemma allocs_exhaust:
  "inv s \<Longrightarrow> length (pool s) < n \<Longrightarrow> \<exists>e. crepeat n alloc s = Inl e"
proof (induction n arbitrary: s)
  case (Suc n)
  show ?case
  proof (cases "pool s" rule: rev_cases)
    case Nil
    with alloc_empty [OF Suc.prems(1)] show ?thesis by (auto simp: cmd_simps)
  next
    case (snoc xs p)
    obtain t where t: "alloc s = Inr (p, t)" "inv t" "pool t = xs"
      using alloc_pop [OF Suc.prems(1) snoc] by blast
    have "length (pool t) < n" using Suc.prems(2) snoc t(3) by simp
    from Suc.IH [OF t(2) this] t(1) show ?thesis by (auto simp: cmd_simps)
  qed
qed simp

end

locale frame_manager = frame_pool alloc inv pool used
  for alloc :: "('s, u32) cmd" and inv pool used +
  fixes release :: "u32 \<Rightarrow> ('s, unit) cmd" and accepts :: "'s \<Rightarrow> u32 \<Rightarrow> bool"
  assumes release_push: "inv s \<Longrightarrow> accepts s p \<Longrightarrow>
      \<exists>t. release p s = Inr ((), t) \<and> inv t \<and> pool t = pool s @ [p]"
begin

lemma release_alloc:
  assumes "inv s" and "accepts s p"
  shows "\<exists>t. bnd (release p) (\<lambda>_. alloc) s = Inr (p, t) \<and> inv t \<and> pool t = pool s"
proof -
  obtain u where u: "release p s = Inr ((), u)" "inv u" "pool u = pool s @ [p]"
    using release_push [OF assms] by blast
  with alloc_pop [OF u(2,3)] show ?thesis by (auto simp: cmd_simps)
qed

end

text \<open>When the stack takes a page as a free frame.\<close>

definition stack_accepts :: "'a vm_scheme \<Rightarrow> u32 \<Rightarrow> bool" where
  "stack_accepts s p \<longleftrightarrow> frame p = p \<and> pmm_location s \<le> p \<and> pmm_stack_loc s < pmm_stack_max s
     \<and> p \<notin> set (free_pages s) \<and> p \<notin> pt_frames s \<and> p \<notin> stack_frames s"

interpretation pmm: frame_manager pmm_alloc_page mm_ok free_pages
  "\<lambda>s. pt_frames s \<union> stack_frames s" pmm_free_page stack_accepts
proof
  fix s :: "'a vm_scheme" and xs p
  assume "mm_ok s" "free_pages s = xs @ [p]"
  then obtain t where "pmm_alloc_page s = Inr (p, t)" "mm_ok t" "free_pages t = xs"
    "t = s\<lparr>pmm_stack_loc := pmm_stack_loc s - 4\<rparr>"
    using pmm_alloc_page_pops by blast
  then show "\<exists>t. pmm_alloc_page s = Inr (p, t) \<and> mm_ok t \<and> free_pages t = xs
      \<and> pt_frames t \<union> stack_frames t = pt_frames s \<union> stack_frames s"
    by (simp add: stack_frames_def in_stack_def)
next
  fix s :: "'a vm_scheme"
  assume "mm_ok s" "free_pages s = []"
  then show "\<exists>e. pmm_alloc_page s = Inl e" using pmm_alloc_page_empty_panics by blast
next
  fix s :: "'a vm_scheme"
  assume "mm_ok s"
  then show "distinct (free_pages s)" "set (free_pages s) \<inter> (pt_frames s \<union> stack_frames s) = {}"
    by (simp_all add: mm_ok_def pool_ok_def)
next
  fix s :: "'a vm_scheme" and p
  assume "mm_ok s" "stack_accepts s p"
  then show "\<exists>t. pmm_free_page p s = Inr ((), t) \<and> mm_ok t \<and> free_pages t = free_pages s @ [p]"
    using pmm_free_page_pushes [of s p] by (auto simp: stack_accepts_def)
qed

section \<open>Mapping keeps the memory managers' invariant\<close>

text \<open>
  An address that may be mapped: not seen through the windows on the tables,
  and not a page of the stack of free frames.
\<close>

definition mappable :: "'a vm_scheme \<Rightarrow> u32 \<Rightarrow> bool" where
  "mappable s va \<longleftrightarrow> \<not> window s va \<and> \<not> in_stack s va \<and> kernel_view s va"

lemma map_page_mm_ok_existing:
  assumes ok: "mm_ok s" and pr: "present (pde_at s (PGDIR_IDX_FROM_ADDR va))"
    and va: "mappable s va" and fl: "frame flags = 0"
  shows "\<exists>t. map_page va pa flags s = Inr ((), t) \<and> mm_ok t \<and> free_pages t = free_pages s
    \<and> translate t = (\<lambda>x. if frame x = frame va then Some (frame pa + off x) else translate s x)"
proof -
  have sok: "stack_ok s" and pool: "pool_ok s" and pg: "paging_ok s" using ok by (simp_all add: mm_ok_def)
  have nw: "\<not> window s va" and ns: "\<not> in_stack s va" and kv: "kernel_view s va"
    using va by (simp_all add: mappable_def)
  obtain u where u: "map_page va pa flags s = Inr ((), u)" "paging_ok u"
    "translate u = (\<lambda>x. if frame x = frame va then Some (frame pa + off x) else translate s x)"
    "same_except {frame (pde_at s (PGDIR_IDX_FROM_ADDR va))} (ram s) (ram u)"
    "u = s\<lparr>ram := ram u, klog := klog u\<rparr>" "pt_frames u = pt_frames s"
    using map_page_existing [OF pg pr nw kv fl, of pa] by blast
  have uf: "pmm_stack_max u = pmm_stack_max s" "pmm_stack_loc u = pmm_stack_loc s"
    "pmm_paging_active u = pmm_paging_active s"
    by (subst u(5), simp)+
  have tr: "translate u a = translate s a" if "in_stack s a" for a
    using in_stack_frame [OF sok that, of va] ns by (auto simp: u(3))
  have F: "{frame (pde_at s (PGDIR_IDX_FROM_ADDR va))} \<inter> stack_frames s = {}"
    using stack_okD(2) [OF sok] pde_in_pt_frames [OF PGDIR_less pr] by blast
  have pt: "pt_frames u \<inter> (set (free_pages s) \<union> stack_frames s) = {}"
    using pool stack_okD(2) [OF sok] by (auto simp: u(6) pool_ok_def)
  show ?thesis using mm_transfer [OF ok u(2,4) F tr uf pt] u(1,3) by blast
qed

lemma map_page_mm_ok_fresh:
  assumes ok: "mm_ok s" and np: "pde_at s (PGDIR_IDX_FROM_ADDR va) = 0"
    and pool: "free_pages s = xs @ [p]"
    and va: "mappable s va" and fl: "frame flags = 0"
  shows "\<exists>t. map_page va pa flags s = Inr ((), t) \<and> mm_ok t \<and> free_pages t = xs
    \<and> translate t = (\<lambda>x. if frame x = frame va then Some (frame pa + off x)
        else if PGDIR_IDX_FROM_ADDR x = self_slot s \<and> PGTAB_IDX_FROM_ADDR x = PGDIR_IDX_FROM_ADDR va
        then Some (p + off x) else translate s x)"
proof -
  let ?l = "pmm_stack_loc s - 4" and ?i = "PGDIR_IDX_FROM_ADDR va"
  let ?s = "s\<lparr>pmm_stack_loc := ?l\<rparr>"
  have pg: "paging_ok s" and pok: "pool_ok s" and sok0: "stack_ok s" using ok by (simp_all add: mm_ok_def)
  have a: "pmm_alloc_page s = Inr (p, ?s)" "mm_ok ?s" "free_pages ?s = xs"
    using pmm_alloc_page_pops [OF ok pool] by auto
  have sok: "stack_ok ?s" using a(2) by (simp add: mm_ok_def)
  have sf: "stack_frames ?s = stack_frames s" by (simp add: stack_frames_def in_stack_def)
  have p: "frame p = p" "p \<notin> pt_frames s" "p \<notin> stack_frames s" "p \<notin> set xs"
    using pok pool by (auto simp: pool_ok_def)
  have nw: "\<not> window s va" and ns: "\<not> in_stack s va" and kv: "kernel_view s va"
    using va by (simp_all add: mappable_def)
  obtain u where u: "map_page va pa flags s = Inr ((), u)" "paging_ok u"
    "translate u = (\<lambda>x. if frame x = frame va then Some (frame pa + off x)
        else if PGDIR_IDX_FROM_ADDR x = self_slot s \<and> PGTAB_IDX_FROM_ADDR x = ?i
        then Some (p + off x) else translate s x)"
    "same_except {p, frame (cr3 s)} (ram s) (ram u)"
    "u = s\<lparr>pmm_stack_loc := ?l, ram := ram u, klog := klog u\<rparr>" "pt_frames u = insert p (pt_frames s)"
    using map_page_fresh [OF pg np a(1) p(1,2) nw kv fl, of pa] by blast
  have uf: "pmm_stack_max u = pmm_stack_max ?s" "pmm_stack_loc u = pmm_stack_loc ?s"
    "pmm_paging_active u = pmm_paging_active ?s"
    by (subst u(5), simp)+
  have tr: "translate u x = translate ?s x" if x: "in_stack ?s x" for x
  proof -
    have "in_stack s x" using x by (simp add: in_stack_def)
    then have "frame x \<noteq> frame va" using in_stack_frame [OF sok0, of x va] ns by auto
    moreover have "translate s x = None"
      if "PGDIR_IDX_FROM_ADDR x = self_slot s" "PGTAB_IDX_FROM_ADDR x = ?i"
    proof -
      have "frame (pde_at s (self_slot s)) = frame (cr3 s)" and "cr0_pg s"
        using pg by (simp_all add: paging_ok_def self_mapped_def)
      then have "pte_at s x = 0"
        using that np by (simp add: pte_at_def pte_addr_def pde_at_def entry_def)
      with \<open>cr0_pg s\<close> show ?thesis by (simp add: translate_def)
    qed
    moreover have "translate s x \<noteq> None"
      using stack_okD(1) [OF sok0] \<open>in_stack s x\<close> unfolding stack_mapped_def by blast
    ultimately show ?thesis by (auto simp: u(3))
  qed
  have F: "{p, frame (cr3 s)} \<inter> stack_frames ?s = {}"
    using stack_okD(2) [OF sok0] p(3) cr3_in_pt_frames [of s] sf by blast
  have pt: "pt_frames u \<inter> (set (free_pages ?s) \<union> stack_frames ?s) = {}"
    using pok stack_okD(2) [OF sok0] p pool by (auto simp: u(6) pool_ok_def a(3) sf)
  have same: "same_except {p, frame (cr3 s)} (ram ?s) (ram u)" using u(4) by simp
  show ?thesis using mm_transfer [OF a(2) u(2) same F tr uf pt] u(1,3) a(3) by blast
qed

lemma map_page_spec:
  assumes ok: "mm_ok s" and va: "mappable s va" and fl: "frame flags = 0"
    and table: "present (pde_at s (PGDIR_IDX_FROM_ADDR va)) \<or> free_pages s \<noteq> []"
  shows "\<exists>t. map_page va pa flags s = Inr ((), t) \<and> mm_ok t
    \<and> free_pages t = (if present (pde_at s (PGDIR_IDX_FROM_ADDR va)) then free_pages s
        else butlast (free_pages s))
    \<and> (\<forall>x. PGDIR_IDX_FROM_ADDR x \<noteq> self_slot s \<longrightarrow>
        translate t x = (if frame x = frame va then Some (frame pa + off x) else translate s x))"
proof (cases "present (pde_at s (PGDIR_IDX_FROM_ADDR va))")
  case True
  with map_page_mm_ok_existing [OF ok True va fl, of pa] show ?thesis by auto
next
  case False
  then have z: "pde_at s (PGDIR_IDX_FROM_ADDR va) = 0"
    using ok PGDIR_less [of va] unfolding mm_ok_def paging_ok_def tables_ok_def by blast
  from False table obtain xs p where xp: "free_pages s = xs @ [p]"
    by (cases "free_pages s" rule: rev_cases) auto
  with False map_page_mm_ok_fresh [OF ok z xp va fl, of pa] show ?thesis by auto
qed

section \<open>The concrete state satisfies the invariant\<close>

lemma demo_in_stack: "in_stack demo a \<longleftrightarrow> frame a = 0xFF7FF000"
proof -
  have "frame a = 0xFF7FF000 \<longleftrightarrow> unat (0xFF7FF000 :: u32) \<le> unat a \<and> unat a < unat (0xFF7FF000 :: u32) + 4096"
    by (rule page_range) (simp add: PAGE_FLAGS_MASK_def)
  then show ?thesis
    by (simp add: in_stack_def demo_def word_le_nat_alt word_less_nat_alt PMM_STACK_START_def)
qed

lemma demo_stack_translate:
  assumes "frame a = 0xFF7FF000"
  shows "translate demo a = Some (0x4000 + off a)"
proof -
  have "frame a = frame 0xFF7FF000" using assms by (simp add: PAGE_ADDR_MASK_def)
  then have idx: "PGDIR_IDX_FROM_ADDR a = 1021" "PGTAB_IDX_FROM_ADDR a = 1023"
    by (simp_all add: frame_eq_iff_idx) (simp_all add: PGDIR_IDX_FROM_ADDR_def PGTAB_IDX_FROM_ADDR_def)
  have "pte_at demo a = 0x4003"
    by (simp add: pte_at_def pte_addr_def idx demo_pde) (simp add: demo_def demo_entry)
  moreover have "cr0_pg demo" by (simp add: demo_def)
  moreover have "present 0x4003" "present 0x3003" by (simp_all add: present_def PAGE_PRESENT_def)
  ultimately show ?thesis by (simp add: translate_def idx demo_pde)
qed

lemma demo_stack_frames: "stack_frames demo = {0x4000}"
proof -
  have f: "frame (0x4000 + off a) = 0x4000" for a
    using frame_add [OF off_less, of "0x4000" a] by simp
  have top: "frame (0xFF7FF000 :: u32) = 0xFF7FF000" by (simp add: PAGE_ADDR_MASK_def)
  have "p = 0x4000 + off a" if "in_stack demo a" "translate demo a = Some p" for a p
    using that demo_stack_translate [of a] by (simp add: demo_in_stack)
  then have "stack_frames demo \<subseteq> {0x4000}" unfolding stack_frames_def using f by blast
  moreover have "0x4000 \<in> stack_frames demo"
    using demo_stack_translate [OF top] f [of "0xFF7FF000"] top
    unfolding stack_frames_def mem_Collect_eq demo_in_stack
    by (intro exI [of _ "0x4000 + off 0xFF7FF000"] exI [of _ "0xFF7FF000"]) simp
  ultimately show ?thesis by blast
qed

lemma demo_pt_frames: "pt_frames demo = {0x1000, 0x2000, 0x3000, 0x5000}"
proof -
  have "present 0x5003" "present 0x3003" "present 0x2003" "present 0x1003"
    by (simp_all add: present_def PAGE_PRESENT_def)
  then have "{i. i < 1024 \<and> present (pde_at demo i)} = {960, 1021, 1022, 1023}"
    by (auto simp: demo_pde split: if_splits)
  moreover have "frame (cr3 demo) = 0x1000" by (simp add: demo_def)
  ultimately show ?thesis by (auto simp: pt_frames_def demo_pde)
qed

lemma demo_free_pages: "free_pages demo = [0x8000, 0x9000, 0xA000]"
proof -
  have slot: "stack_slot k = 0xFF7FF000 + 4 * of_nat k" for k
    by (simp add: stack_slot_def PMM_STACK_START_def)
  have f: "frame (0xFF7FF000 :: u32) = 0xFF7FF000" by (simp add: PAGE_ADDR_MASK_def)
  have word: "stack_word demo k = ld32 demo_ram (entry 0x4000 (of_nat k))" if "k < 3" for k
  proof -
    have k4: "4 * (of_nat k :: u32) < 0x1000" proof -
      have "k = 0 \<or> k = 1 \<or> k = 2" using that by linarith
      then show ?thesis by (elim disjE) simp_all
    qed
    have "frame (stack_slot k) = 0xFF7FF000" "off (stack_slot k) = 4 * of_nat k"
      using frame_add [OF k4, of "0xFF7FF000"] off_add [OF k4, of "0xFF7FF000"] by (simp_all add: slot f)
    then have "translate demo (stack_slot k) = Some (entry 0x4000 (of_nat k))"
      by (simp add: demo_stack_translate entry_def)
    then show ?thesis by (simp add: stack_word_def) (simp add: demo_def)
  qed
  have "stack_depth demo = 3" by (simp add: stack_depth_def demo_def PMM_STACK_START_def)
  then have "free_pages demo = map (stack_word demo) [0, 1, 2]" by (simp add: free_pages_def upt_rec numeral_2_eq_2)
  then show ?thesis by (simp add: word demo_entry)
qed

lemma demo_mm_ok: "mm_ok demo"
proof -
  have "stack_mapped demo"
    unfolding stack_mapped_def demo_stack_frames demo_pt_frames
    by (auto simp: demo_in_stack demo_stack_translate)
  then have "stack_ok demo"
    by (simp add: stack_ok_def) (simp add: demo_def PMM_STACK_START_def PMM_STACK_END_def
      aligned4_def PAGE_FLAGS_MASK_def)
  moreover have "pool_ok demo"
    by (simp add: pool_ok_def demo_free_pages demo_stack_frames demo_pt_frames PAGE_ADDR_MASK_def)
  ultimately show ?thesis using demo_paging_ok by (simp add: mm_ok_def)
qed

section \<open>Unmapping keeps the invariant\<close>

lemma unmap_store:
  assumes ok: "mm_ok s" and va: "mappable s va" and pr: "present (pde_at s (PGDIR_IDX_FROM_ADDR va))"
  defines "t \<equiv> s\<lparr>ram := st32 (ram s) (pte_addr s va) 0\<rparr>"
  shows "unmap va s = Inr ((), t)" and "mm_ok t" and "free_pages t = free_pages s"
    and "stack_frames t = stack_frames s" and "pt_frames t = pt_frames s" and "pte_at t va = 0"
    and "translate t = (\<lambda>x. if frame x = frame va then None else translate s x)"
    and "same_except (pt_frames s) (ram s) (ram t)"
proof -
  have pg: "paging_ok s" and sok: "stack_ok s" and pool: "pool_ok s" using ok by (simp_all add: mm_ok_def)
  have self: "self_mapped s" using pg by (simp add: paging_ok_def)
  have nw: "\<not> window s va" and ns: "\<not> in_stack s va" using va by (simp_all add: mappable_def)
  show "unmap va s = Inr ((), t)"
    using page_window_walk [OF self, of va] pr page_window_aligned [OF self, of va]
    by (simp add: unmap_def cmd_simps vst32_aligned t_def)
  note st = store_pte [OF pg pr nw, of 0, folded t_def]
  show tr: "translate t = (\<lambda>x. if frame x = frame va then None else translate s x)"
    using st(2) by (simp add: fun_eq_iff)
  show pt: "pt_frames t = pt_frames s" by (rule st(4))
  have pde: "pde_at t (PGDIR_IDX_FROM_ADDR va) = pde_at s (PGDIR_IDX_FROM_ADDR va)"
    using st(1) [of "PGDIR_IDX_FROM_ADDR va"] by (simp add: PGDIR_less)
  then show "pte_at t va = 0"
    by (simp add: t_def pte_at_def pte_addr_def ld32_st32_entry PGTAB_less)
  have same: "same_except {frame (pde_at s (PGDIR_IDX_FROM_ADDR va))} (ram s) (ram t)"
    unfolding pte_addr_def t_def by (simp, rule same_except_st32) (simp_all add: page_simps PGTAB_less)
  then show "same_except (pt_frames s) (ram s) (ram t)"
    by (rule same_except_mono) (use pde_in_pt_frames [OF PGDIR_less pr] in blast)
  have F: "{frame (pde_at s (PGDIR_IDX_FROM_ADDR va))} \<inter> stack_frames s = {}"
    using stack_okD(2) [OF sok] pde_in_pt_frames [OF PGDIR_less pr] by blast
  have dis: "pt_frames t \<inter> (set (free_pages s) \<union> stack_frames s) = {}"
    using pool stack_okD(2) [OF sok] by (auto simp: pt pool_ok_def)
  have trs: "translate t a = translate s a" if "in_stack s a" for a
    using in_stack_frame [OF sok that, of va] ns by (auto simp: tr)
  have f: "pmm_stack_max t = pmm_stack_max s" "pmm_stack_loc t = pmm_stack_loc s"
    "pmm_paging_active t = pmm_paging_active s" by (simp_all add: t_def)
  show "mm_ok t" "free_pages t = free_pages s" "stack_frames t = stack_frames s"
    by (rule mm_transfer [OF ok st(3) same F trs f dis]; assumption)+
qed

lemma unmap_mm_ok:
  assumes "mm_ok s" and "mappable s va" and "present (pde_at s (PGDIR_IDX_FROM_ADDR va))"
  shows "\<exists>t. unmap va s = Inr ((), t) \<and> mm_ok t \<and> free_pages t = free_pages s
    \<and> pte_at t va = 0
    \<and> translate t = (\<lambda>x. if frame x = frame va then None else translate s x)"
  using unmap_store [OF assms] by blast

lemma demo_mappable: "mappable demo 0xF0001000" "mappable demo 0xE0001000"
proof -
  have w: "self_slot demo = 1023" "directory (curdir demo) = 0xFFBFF000"
    by (simp_all add: self_slot_def demo_def PGDIR_IDX_FROM_ADDR_def)
  have k: "kernel_view demo 0xF0001000"
  proof -
    have i: "PGDIR_IDX_FROM_ADDR 0xF0001000 = 960" by (simp add: PGDIR_IDX_FROM_ADDR_def)
    have self: "self_mapped demo" using demo_paging_ok by (simp add: paging_ok_def)
    have "present (pde_at demo (PGDIR_IDX_FROM_ADDR 0xF0001000))"
      by (simp add: i demo_pde present_def PAGE_PRESENT_def)
    with page_window_walk [OF self, of "0xF0001000"] page_window_aligned [OF self, of "0xF0001000"]
    show ?thesis by (simp add: kernel_view_def Let_def) (simp add: demo_def)
  qed
  show "mappable demo 0xF0001000"
    using k by (simp add: mappable_def window_def w demo_in_stack)
      (simp add: PAGE_ADDR_MASK_def PGDIR_IDX_FROM_ADDR_def)
  show "mappable demo 0xE0001000"
    by (simp add: mappable_def window_def w demo_in_stack kernel_view_def)
      (simp add: PAGE_ADDR_MASK_def PGDIR_IDX_FROM_ADDR_def KERNEL_ADDRESS_SPACE_def)
qed

lemma demo_heap_table: "present (pde_at demo (PGDIR_IDX_FROM_ADDR 0xF0001000))"
proof -
  have "PGDIR_IDX_FROM_ADDR 0xF0001000 = 960" by (simp add: PGDIR_IDX_FROM_ADDR_def)
  then show ?thesis by (simp add: demo_pde present_def PAGE_PRESENT_def)
qed

lemma demo_user_table: "pde_at demo (PGDIR_IDX_FROM_ADDR 0xE0001000) = 0"
proof -
  have "PGDIR_IDX_FROM_ADDR 0xE0001000 = 896" by (simp add: PGDIR_IDX_FROM_ADDR_def)
  then show ?thesis by (simp add: demo_pde)
qed

section \<open>Properties of the memory managers\<close>

text \<open>C1: \<open>map\<close> installs exactly the requested page. In a state of the memory
  managers' invariant, for an address that is neither in a window on the tables nor
  in the stack of free frames, with its table present or a frame free to become the
  table, \<open>map\<close> returns, keeps the invariant, takes at most the one frame
  on top of the free stack, and the MMU then translates every address of the page to the
  requested frame and every other address (outside the table window) as before.\<close>

theorem map_installs_one_page:
  assumes "mm_ok s" and "mappable s va" and "frame flags = 0"
    and "present (pde_at s (PGDIR_IDX_FROM_ADDR va)) \<or> free_pages s \<noteq> []"
  shows "\<exists>t. map_page va pa flags s = Inr ((), t) \<and> mm_ok t
    \<and> free_pages t = (if present (pde_at s (PGDIR_IDX_FROM_ADDR va)) then free_pages s
        else butlast (free_pages s))
    \<and> (\<forall>x. PGDIR_IDX_FROM_ADDR x \<noteq> self_slot s \<longrightarrow>
        translate t x = (if frame x = frame va then Some (frame pa + off x) else translate s x))"
  by (rule map_page_spec [OF assms])

theorem map_installs_one_page_witness:
  "\<exists>t. map_page 0xE0001000 0x7000 PAGE_USER demo = Inr ((), t) \<and> mm_ok t
    \<and> free_pages t = [0x8000, 0x9000] \<and> translate t 0xE0001234 = Some 0x7234"
proof -
  obtain t where t: "map_page 0xE0001000 0x7000 PAGE_USER demo = Inr ((), t)" "mm_ok t"
    "free_pages t = [0x8000, 0x9000]"
    "\<forall>x. PGDIR_IDX_FROM_ADDR x \<noteq> self_slot demo \<longrightarrow> translate t x =
      (if frame x = frame 0xE0001000 then Some (frame 0x7000 + off x) else translate demo x)"
    using map_installs_one_page [OF demo_mm_ok demo_mappable(2), of PAGE_USER "0x7000"]
    by (auto simp: demo_user_table demo_free_pages PAGE_USER_def PAGE_ADDR_MASK_def)
  have "self_slot demo = 1023" by (simp add: self_slot_def demo_def PGDIR_IDX_FROM_ADDR_def)
  with t(4) have "translate t 0xE0001234 = Some 0x7234"
    by (simp add: PGDIR_IDX_FROM_ADDR_def PAGE_ADDR_MASK_def PAGE_FLAGS_MASK_def)
  with t show ?thesis by blast
qed

text \<open>C2: What was mapped is what \<open>get_mapping\<close> answers: after \<open>map(va, pa, flags)\<close> it
  returns 1 and the physical address of the very byte asked for, frame of \<open>pa\<close> plus
  offset of the address, without changing the state.\<close>

theorem map_get_mapping_roundtrip:
  assumes "mm_ok s" and "mappable s va" and "frame flags = 0" and "frame b = frame va"
    and "present (pde_at s (PGDIR_IDX_FROM_ADDR va)) \<or> free_pages s \<noteq> []"
  shows "\<exists>t. map_page va pa flags s = Inr ((), t) \<and> get_mapping b t = Inr (Some (frame pa + off b), t)"
proof -
  obtain t where t: "map_page va pa flags s = Inr ((), t)" "mm_ok t"
    "\<And>x. PGDIR_IDX_FROM_ADDR x \<noteq> self_slot s \<Longrightarrow> translate t x =
      (if frame x = frame va then Some (frame pa + off x) else translate s x)"
    using map_page_spec [OF assms(1-3,5), of pa] by blast
  have "PGDIR_IDX_FROM_ADDR b \<noteq> self_slot s"
    using assms(2,4) by (simp add: mappable_def window_def frame_eq_iff_idx)
  then have tr: "translate t b = Some (frame pa + off b)" using t(3) assms(4) by simp
  have "paging_ok t" using t(2) by (simp add: mm_ok_def)
  moreover have "cr0_pg t" using calculation by (simp add: paging_ok_def self_mapped_def)
  then have "present (pte_at t b)" using tr by (auto simp: translate_def split: if_splits)
  ultimately have "get_mapping b t = Inr (translate t b, t)" by (simp add: get_mapping_translate)
  with t(1) tr show ?thesis by simp
qed

theorem map_get_mapping_roundtrip_witness:
  "\<exists>t. map_page 0xF0001000 0x7000 3 demo = Inr ((), t)
    \<and> get_mapping 0xF0001234 t = Inr (Some 0x7234, t)"
  using map_get_mapping_roundtrip [OF demo_mm_ok demo_mappable(1), of 3 "0xF0001234" "0x7000"] demo_heap_table
  by (simp add: PAGE_ADDR_MASK_def PAGE_FLAGS_MASK_def)

text \<open>C3: \<open>unmap\<close> takes exactly one page away: afterwards the MMU faults on the page and
  \<open>get_mapping\<close> returns 0 for it, every other translation is unchanged, and the free
  frames and the invariant are kept.\<close>

theorem unmap_removes_one_page:
  assumes "mm_ok s" and "mappable s va" and "present (pde_at s (PGDIR_IDX_FROM_ADDR va))"
  shows "\<exists>t. unmap va s = Inr ((), t) \<and> mm_ok t \<and> free_pages t = free_pages s
    \<and> get_mapping va t = Inr (None, t)
    \<and> translate t = (\<lambda>x. if frame x = frame va then None else translate s x)"
proof -
  obtain t where t: "unmap va s = Inr ((), t)" "mm_ok t" "free_pages t = free_pages s" "pte_at t va = 0"
    "translate t = (\<lambda>x. if frame x = frame va then None else translate s x)"
    using unmap_mm_ok [OF assms] by blast
  moreover have "get_mapping va t = Inr (None, t)" using t(2,4) by (simp add: mm_ok_def get_mapping_run)
  ultimately show ?thesis by blast
qed

theorem unmap_removes_one_page_witness:
  "\<exists>t. unmap 0xF0001000 demo = Inr ((), t) \<and> get_mapping 0xF0001000 t = Inr (None, t)
    \<and> free_pages t = [0x8000, 0x9000, 0xA000]"
  using unmap_removes_one_page [OF demo_mm_ok demo_mappable(1) demo_heap_table] demo_free_pages by auto

text \<open>C4: \<open>get_mapping\<close>, which reads the tables through the recursive window, agrees with
  the walk of the MMU: it never faults, never changes the state, and answers
  1 with the MMU's physical address for a mapped address and 0 for an empty one.\<close>

theorem get_mapping_is_mmu_walk:
  assumes "paging_ok s" and "pte_at s va = 0 \<or> present (pte_at s va)"
  shows "get_mapping va s = Inr (translate s va, s)"
  by (rule get_mapping_translate [OF assms])

theorem get_mapping_is_mmu_walk_witness:
  "get_mapping 0xFF7FF123 demo = Inr (Some 0x4123, demo)"
proof -
  have f: "frame 0xFF7FF123 = 0xFF7FF000" "off 0xFF7FF123 = 0x123"
    by (simp_all add: PAGE_ADDR_MASK_def PAGE_FLAGS_MASK_def)
  have tr: "translate demo 0xFF7FF123 = Some 0x4123" using demo_stack_translate [OF f(1)] f(2) by simp
  moreover have "cr0_pg demo" by (simp add: demo_def)
  ultimately have "present (pte_at demo 0xFF7FF123)" by (auto simp: translate_def split: if_splits)
  with get_mapping_is_mmu_walk [OF demo_paging_ok, of "0xFF7FF123"] tr show ?thesis by simp
qed

text \<open>C5: The frames handed out by any number of calls of \<open>pmm_alloc_page\<close>, up to the depth of
  the stack, are pairwise different, were all free, are no longer free, and none is a page
  table or a page of the stack itself; and the invariant still holds.\<close>

theorem pmm_allocations_are_fresh:
  assumes "mm_ok s" and "n \<le> length (free_pages s)"
  shows "\<exists>ps t. crepeat n pmm_alloc_page s = Inr (ps, t) \<and> length ps = n \<and> distinct ps
    \<and> set ps \<subseteq> set (free_pages s) \<and> set ps \<inter> set (free_pages t) = {}
    \<and> set ps \<inter> (pt_frames t \<union> stack_frames t) = {} \<and> mm_ok t"
  by (rule pmm.allocs_fresh [OF assms])

theorem pmm_allocations_are_fresh_witness:
  "\<exists>ps t. crepeat 2 pmm_alloc_page demo = Inr (ps, t) \<and> length ps = 2 \<and> distinct ps \<and> mm_ok t"
  using pmm_allocations_are_fresh [OF demo_mm_ok, of 2] demo_free_pages by fastforce

text \<open>Asking for more frames than are free ends in the panic
  \<open>PMM Stack: no free pages.\<close>\<close>

lemma pmm_allocations_exhaust:
  assumes "mm_ok s" and "length (free_pages s) < n"
  shows "crepeat n pmm_alloc_page s = Inl (Panic ''PMM Stack: no free pages.'')"
  using assms
proof (induction n arbitrary: s)
  case (Suc n)
  show ?case
  proof (cases "free_pages s" rule: rev_cases)
    case Nil
    with pmm_alloc_page_empty_panics [OF Suc.prems(1)] show ?thesis by (simp add: cmd_simps)
  next
    case (snoc xs p)
    then obtain t where "pmm_alloc_page s = Inr (p, t)" "mm_ok t" "free_pages t = xs"
      using pmm_alloc_page_pops [OF Suc.prems(1)] by blast
    with Suc snoc show ?thesis by (simp add: cmd_simps)
  qed
qed simp

text \<open>C20: The stack of free frames is last in, first out: a frame freed while the mapped stack
  has room is the next one \<open>pmm_alloc_page\<close> returns, and the pool is then as before.\<close>

theorem pmm_free_then_alloc:
  assumes "mm_ok s" and "stack_accepts s p"
  shows "\<exists>t. bnd (pmm_free_page p) (\<lambda>_. pmm_alloc_page) s = Inr (p, t) \<and> mm_ok t
    \<and> free_pages t = free_pages s"
  by (rule pmm.release_alloc [OF assms])

theorem pmm_free_then_alloc_witness:
  "\<exists>t. bnd (pmm_free_page 0xB000) (\<lambda>_. pmm_alloc_page) demo = Inr (0xB000, t) \<and> mm_ok t
    \<and> free_pages t = [0x8000, 0x9000, 0xA000]"
proof -
  have "stack_accepts demo 0xB000"
    by (simp add: stack_accepts_def demo_free_pages demo_pt_frames demo_stack_frames)
      (simp add: demo_def PAGE_ADDR_MASK_def)
  from pmm_free_then_alloc [OF demo_mm_ok this] show ?thesis by (simp add: demo_free_pages)
qed

text \<open>The same address space with no page of the stack mapped: the state that \<open>init_vmm\<close> leaves.\<close>

definition demo_start :: vm where
  "demo_start = demo\<lparr>pmm_stack_loc := 0xFF7FF000, pmm_stack_max := 0xFF7FF000\<rparr>"

lemma demo_start_stack:
  "\<not> in_stack demo_start a" "stack_frames demo_start = {}" "free_pages demo_start = []"
  "pt_frames demo_start = {0x1000, 0x2000, 0x3000, 0x5000}"
proof -
  show a: "\<not> in_stack demo_start a" for a by (auto simp: in_stack_def demo_start_def PMM_STACK_START_def)
  then show "stack_frames demo_start = {}" by (simp add: stack_frames_def)
  show "free_pages demo_start = []"
    by (simp add: free_pages_def stack_depth_def demo_start_def PMM_STACK_START_def)
  show "pt_frames demo_start = {0x1000, 0x2000, 0x3000, 0x5000}"
    by (simp add: demo_start_def demo_pt_frames)
qed

lemma demo_start_mm_ok: "mm_ok demo_start"
proof -
  have "paging_ok demo_start" using demo_paging_ok by (simp add: demo_start_def)
  moreover have "stack_mapped demo_start" by (simp add: stack_mapped_def demo_start_stack)
  then have "stack_ok demo_start"
    by (simp add: stack_ok_def) (simp add: demo_start_def demo_def PMM_STACK_START_def PMM_STACK_END_def
      aligned4_def PAGE_FLAGS_MASK_def)
  ultimately show ?thesis by (simp add: mm_ok_def pool_ok_def demo_start_stack)
qed

text \<open>C19: When the mapped part of the stack is full, the freed frame is not lost: \<open>pmm_free_page\<close>
  maps it as the next page of the stack, which becomes 4096 bytes larger;
  the free frames stay the same and the invariant holds.\<close>

theorem pmm_free_page_extends_stack:
  assumes "mm_ok s" and "pmm_location s \<le> frame p" and "pmm_stack_loc s = pmm_stack_max s"
    and "pmm_stack_max s < PMM_STACK_END"
    and "present (pde_at s (PGDIR_IDX_FROM_ADDR (pmm_stack_max s)))"
    and "\<not> window s (pmm_stack_max s)" and "kernel_view s (pmm_stack_max s)"
    and "frame p \<notin> set (free_pages s) \<union> pt_frames s \<union> stack_frames s"
  shows "\<exists>t. pmm_free_page p s = Inr ((), t) \<and> mm_ok t \<and> free_pages t = free_pages s
    \<and> pmm_stack_max t = pmm_stack_max s + PAGE_SIZE
    \<and> translate t (pmm_stack_max s) = Some (frame p)"
proof -
  obtain t where t: "pmm_free_page p s = Inr ((), t)" "mm_ok t" "free_pages t = free_pages s"
    "pmm_stack_max t = pmm_stack_max s + PAGE_SIZE"
    "translate t = (\<lambda>x. if frame x = frame (pmm_stack_max s) then Some (frame p + off x) else translate s x)"
    using pmm_free_page_grows [OF assms] by blast
  moreover have "off (pmm_stack_max s) = 0" using assms(1) by (simp add: mm_ok_def stack_ok_def)
  ultimately show ?thesis by auto
qed

theorem pmm_free_page_extends_stack_witness:
  "\<exists>t. pmm_free_page 0xB000 demo_start = Inr ((), t) \<and> mm_ok t \<and> pmm_stack_max t = 0xFF800000
    \<and> translate t 0xFF7FF000 = Some 0xB000"
proof -
  have m: "pmm_stack_max demo_start = 0xFF7FF000" "pmm_stack_loc demo_start = 0xFF7FF000"
    "pmm_location demo_start = 0x6000"
    by (simp_all add: demo_start_def demo_def)
  have i: "PGDIR_IDX_FROM_ADDR 0xFF7FF000 = 1021" by (simp add: PGDIR_IDX_FROM_ADDR_def)
  have "pde_at demo_start 1021 = 0x3003" by (simp add: demo_start_def demo_pde)
  then have pr: "present (pde_at demo_start 1021)" by (simp add: present_def PAGE_PRESENT_def)
  have w: "\<not> window demo_start 0xFF7FF000"
    by (simp add: window_def self_slot_def demo_start_def demo_def PGDIR_IDX_FROM_ADDR_def PAGE_ADDR_MASK_def)
  have self: "self_mapped demo_start" using demo_start_mm_ok by (simp add: mm_ok_def paging_ok_def)
  have k: "kernel_view demo_start 0xFF7FF000"
    using page_window_walk [OF self, of "0xFF7FF000"] page_window_aligned [OF self, of "0xFF7FF000"] pr
    by (simp add: i kernel_view_def Let_def) (simp add: demo_start_def demo_def)
  from pmm_free_page_extends_stack [OF demo_start_mm_ok, of "0xB000"] show ?thesis
    using pr w k by (simp add: m i demo_start_stack) (auto simp: PAGE_ADDR_MASK_def PMM_STACK_END_def PAGE_SIZE_def)
qed

text \<open>The two refusals of \<open>pmm_free_page\<close>: a page below \<open>pmm_location\<close> (the kernel image, the
  boot tables) is ignored and never enters the stack; and once the stack fills its whole
  range the call panics and does not write past it.\<close>

lemma pmm_free_page_refusals:
  "(frame p < pmm_location s \<longrightarrow> pmm_free_page p s = Inr ((), s))
   \<and> (pmm_location s \<le> frame p \<and> pmm_stack_max s \<le> pmm_stack_loc s \<and> PMM_STACK_END \<le> pmm_stack_max s
      \<longrightarrow> pmm_free_page p s = Inl (Panic ''PMM Stack: out of mem for free pages.''))"
  by (simp add: pmm_free_page_reserved pmm_free_page_full_panics)

end
