(* ===== verification/Kernel_Map.thy ===== *)
theory Kernel_Map
  imports Kernel_Frames
begin

text \<open>
  What \<open>map\<close> and \<open>pmm_alloc_page\<close> may change, as one relation between states
  that composes: the frame condition that the users of the memory managers
  (range allocation, kernel heap, threads) build on.
\<close>

section \<open>All that map changes\<close>

text \<open>
  \<open>grows s t\<close>: from \<open>s\<close> to \<open>t\<close> only the free stack's top, the log and
  memory in page tables and free frames changed, and no mapping was lost.
\<close>

definition grows :: "'a vm_scheme \<Rightarrow> 'a vm_scheme \<Rightarrow> bool" where
  "grows s t \<longleftrightarrow> mm_ok t
     \<and> t = s\<lparr>pmm_stack_loc := pmm_stack_loc t, ram := ram t, klog := klog t\<rparr>
     \<and> same_except (pt_frames s \<union> set (free_pages s)) (ram s) (ram t)
     \<and> pt_frames t \<union> set (free_pages t) \<subseteq> pt_frames s \<union> set (free_pages s)
     \<and> (\<forall>x. translate s x \<noteq> None \<longrightarrow> translate t x \<noteq> None)"

lemma grows_refl: "mm_ok s \<Longrightarrow> grows s s"
  by (simp add: grows_def)

lemma grows_trans:
  assumes "grows s t" and "grows t u"
  shows "grows s u"
proof -
  have t: "t = s\<lparr>pmm_stack_loc := pmm_stack_loc t, ram := ram t, klog := klog t\<rparr>"
    and u: "u = t\<lparr>pmm_stack_loc := pmm_stack_loc u, ram := ram u, klog := klog u\<rparr>"
    using assms unfolding grows_def by blast+
  have "u = s\<lparr>pmm_stack_loc := pmm_stack_loc u, ram := ram u, klog := klog u\<rparr>"
    by (subst u, subst t) simp
  moreover have "same_except (pt_frames s \<union> set (free_pages s)) (ram s) (ram u)"
    using assms unfolding grows_def by (meson same_except_mono same_except_trans)
  ultimately show ?thesis using assms unfolding grows_def by (meson subset_trans)
qed

lemma grows_fields:
  assumes "grows s t"
  shows "cr3 t = cr3 s" "cr0_pg t = cr0_pg s" "current_directory t = current_directory s"
    "dirs t = dirs s" "pmm_stack_max t = pmm_stack_max s" "vm.more t = vm.more s"
    "self_slot t = self_slot s" "window t = window s" "in_stack t = in_stack s"
proof -
  have t: "t = s\<lparr>pmm_stack_loc := pmm_stack_loc t, ram := ram t, klog := klog t\<rparr>"
    using assms by (simp add: grows_def)
  show f: "cr3 t = cr3 s" "cr0_pg t = cr0_pg s" "current_directory t = current_directory s"
    "dirs t = dirs s" "pmm_stack_max t = pmm_stack_max s" "vm.more t = vm.more s"
    by (subst t, simp)+
  show g: "self_slot t = self_slot s" by (simp add: self_slot_def f)
  show "window t = window s" by (simp add: window_def fun_eq_iff f g)
  show "in_stack t = in_stack s" by (simp add: in_stack_def fun_eq_iff f)
qed

lemma grows_mappable: "grows s t \<Longrightarrow> mappable s va \<Longrightarrow> mappable t va"
  using grows_fields [of s t]
  by (auto simp: mappable_def kernel_view_def Let_def grows_def)

lemma grows_alloc:
  assumes ok: "mm_ok s" and ne: "free_pages s = xs @ [p]"
  shows "\<exists>t. pmm_alloc_page s = Inr (p, t) \<and> grows s t \<and> free_pages t = xs
    \<and> (\<forall>x. translate t x = translate s x) \<and> pt_frames t = pt_frames s"
proof -
  have a: "pmm_alloc_page s = Inr (p, s\<lparr>pmm_stack_loc := pmm_stack_loc s - 4\<rparr>)"
    "mm_ok (s\<lparr>pmm_stack_loc := pmm_stack_loc s - 4\<rparr>)"
    "free_pages (s\<lparr>pmm_stack_loc := pmm_stack_loc s - 4\<rparr>) = xs"
    using pmm_alloc_page_pops [OF ok ne] by auto
  with ne show ?thesis by (intro exI [of _ "s\<lparr>pmm_stack_loc := pmm_stack_loc s - 4\<rparr>"]) (auto simp: grows_def)
qed

lemma map_page_grows:
  assumes ok: "mm_ok s" and va: "mappable s va" and fl: "frame flags = 0"
    and table: "present (pde_at s (PGDIR_IDX_FROM_ADDR va)) \<or> free_pages s \<noteq> []"
  shows "\<exists>t. map_page va pa flags s = Inr ((), t) \<and> grows s t
    \<and> length (free_pages s) \<le> Suc (length (free_pages t))
    \<and> (\<forall>x. PGDIR_IDX_FROM_ADDR x \<noteq> self_slot s \<longrightarrow>
        translate t x = (if frame x = frame va then Some (frame pa + off x) else translate s x))"
proof -
  have pg: "paging_ok s" and pool: "pool_ok s" using ok by (simp_all add: mm_ok_def)
  have nw: "\<not> window s va" "kernel_view s va" using va by (simp_all add: mappable_def)
  obtain t where t: "map_page va pa flags s = Inr ((), t)" "mm_ok t"
    "free_pages t = (if present (pde_at s (PGDIR_IDX_FROM_ADDR va)) then free_pages s
        else butlast (free_pages s))"
    "\<forall>x. PGDIR_IDX_FROM_ADDR x \<noteq> self_slot s \<longrightarrow>
        translate t x = (if frame x = frame va then Some (frame pa + off x) else translate s x)"
    using map_page_spec [OF assms, of pa] by blast
  have "grows s t"
  proof (cases "present (pde_at s (PGDIR_IDX_FROM_ADDR va))")
    case True
    from map_page_existing [OF pg True nw fl, of pa] t(1) have
      u: "translate t = (\<lambda>x. if frame x = frame va then Some (frame pa + off x) else translate s x)"
      "same_except {frame (pde_at s (PGDIR_IDX_FROM_ADDR va))} (ram s) (ram t)"
      "t = s\<lparr>ram := ram t, klog := klog t\<rparr>" "pt_frames t = pt_frames s"
      by auto
    have "pmm_stack_loc t = pmm_stack_loc s" by (subst u(3)) simp
    then have "t = s\<lparr>pmm_stack_loc := pmm_stack_loc t, ram := ram t, klog := klog t\<rparr>"
      using u(3) by simp
    moreover have "same_except (pt_frames s \<union> set (free_pages s)) (ram s) (ram t)"
      by (rule same_except_mono [OF u(2)]) (simp add: pde_in_pt_frames PGDIR_less True)
    ultimately show ?thesis using t(2,3) True u(1,4) by (simp add: grows_def)
  next
    case False
    then have z: "pde_at s (PGDIR_IDX_FROM_ADDR va) = 0"
      using pg PGDIR_less [of va] unfolding paging_ok_def tables_ok_def by blast
    obtain xs p where xp: "free_pages s = xs @ [p]"
      using table False by (cases "free_pages s" rule: rev_cases) auto
    have a: "pmm_alloc_page s = Inr (p, s\<lparr>pmm_stack_loc := pmm_stack_loc s - 4\<rparr>)"
      using pmm_alloc_page_pops [OF ok xp] by auto
    have p: "frame p = p" "p \<notin> pt_frames s" using pool xp by (auto simp: pool_ok_def)
    from map_page_fresh [OF pg z a p nw fl, of pa] t(1) have
      u: "translate t = (\<lambda>x. if frame x = frame va then Some (frame pa + off x)
        else if PGDIR_IDX_FROM_ADDR x = self_slot s \<and> PGTAB_IDX_FROM_ADDR x = PGDIR_IDX_FROM_ADDR va
        then Some (p + off x) else translate s x)"
      "same_except {p, frame (cr3 s)} (ram s) (ram t)"
      "t = s\<lparr>pmm_stack_loc := pmm_stack_loc s - 4, ram := ram t, klog := klog t\<rparr>"
      "pt_frames t = insert p (pt_frames s)"
      by auto
    have "pmm_stack_loc t = pmm_stack_loc s - 4" by (subst u(3)) simp
    then have "t = s\<lparr>pmm_stack_loc := pmm_stack_loc t, ram := ram t, klog := klog t\<rparr>"
      using u(3) by simp
    moreover have "same_except (pt_frames s \<union> set (free_pages s)) (ram s) (ram t)"
      by (rule same_except_mono [OF u(2)]) (simp add: xp)
    ultimately show ?thesis using t(2,3) False u(1,4) xp by (auto simp: grows_def)
  qed
  then show ?thesis using t by (intro exI [of _ t]) auto
qed

end
