(* ===== verification/Kernel_Space.thy ===== *)
theory Kernel_Space
  imports Kernel_Map
begin

text \<open>
  Ranges of the address space, from \<open>kernel/mm/vmm.c\<close>: the search for a free
  range, the allocation of a range, and the mount points through which a
  directory other than the current one is seen. A loop over pages has at most
  2^20 rounds before its variable repeats, so the bound \<open>page_fuel\<close> runs out
  only on a loop that never ends.
\<close>

section \<open>Search for a free range\<close>

definition page_fuel :: nat where "page_fuel = 1048577"

primrec scan_range :: "nat \<Rightarrow> u32 \<Rightarrow> u32 \<Rightarrow> ('a vm_scheme, u32) cmd" where
  "scan_range 0 va stop = fault Out_of_Fuel"
| "scan_range (Suc n) va stop =
     (if va < stop then
        bnd (get_mapping va) (\<lambda>m. if m \<noteq> None then ret va else scan_range n (va + PAGE_SIZE) stop)
      else ret va)"

primrec skip_past :: "nat \<Rightarrow> u32 \<Rightarrow> u32 \<Rightarrow> u32 \<Rightarrow> ('a vm_scheme, u32) cmd" where
  "skip_past 0 va_start va step = fault Out_of_Fuel"
| "skip_past (Suc n) va_start va step =
     (if va_start \<le> va then skip_past n (va_start + step) va step else ret va_start)"

primrec search_range :: "nat \<Rightarrow> u32 \<Rightarrow> u32 \<Rightarrow> u32 \<Rightarrow> u32 \<Rightarrow> ('a vm_scheme, u32) cmd" where
  "search_range 0 va_start va_end sz step = fault Out_of_Fuel"
| "search_range (Suc n) va_start va_end sz step =
     (if va_start < va_end then
        bnd (scan_range page_fuel va_start (va_start + sz)) (\<lambda>va.
        if va = va_start + sz then ret va_start
        else bnd (skip_past page_fuel va_start va step) (\<lambda>next.
          search_range n next va_end sz step))
      else ret va_end)"

definition find_free_range :: "u32 \<Rightarrow> u32 \<Rightarrow> u32 \<Rightarrow> bool \<Rightarrow> ('a vm_scheme, u32) cmd" where
  "find_free_range va_start va_end sz size_aligned =
     (let va_start = PAGE_ROUND_DOWN va_start; va_end = PAGE_ROUND_UP va_end; sz = PAGE_ROUND_UP sz;
          step = (if size_aligned then sz else PAGE_SIZE)
      in search_range page_fuel va_start va_end sz step)"

section \<open>Allocation of a range\<close>

definition allocate_page :: "u32 \<Rightarrow> u32 \<Rightarrow> ('a vm_scheme, unit) cmd" where
  "allocate_page va flags =
     bnd (get_mapping va) (\<lambda>m.
     case m of
       Some pa \<Rightarrow> map_page va pa flags
     | None \<Rightarrow> bnd pmm_alloc_page (\<lambda>p. map_page va p flags))"

primrec allocate_loop :: "nat \<Rightarrow> u32 \<Rightarrow> u32 \<Rightarrow> u32 \<Rightarrow> ('a vm_scheme, u32) cmd" where
  "allocate_loop 0 va va_end flags = fault Out_of_Fuel"
| "allocate_loop (Suc n) va va_end flags =
     (if va < va_end then
        bnd (allocate_page va flags) (\<lambda>_.
        allocate_loop n (va + PAGE_SIZE) va_end flags)
      else ret va_end)"

definition allocate_range :: "u32 \<Rightarrow> u32 \<Rightarrow> u32 \<Rightarrow> ('a vm_scheme, u32) cmd" where
  "allocate_range va_start va_end flags =
     allocate_loop page_fuel (PAGE_ROUND_DOWN va_start) (PAGE_ROUND_UP va_end) flags"

section \<open>Mount points\<close>

text \<open>A \<open>page_directory_mount_t\<close>: the addresses of the two windows.\<close>

record page_directory_mount =
  m_directory :: u32
  m_pages :: u32

definition NOT_PAGE_ALIGNED :: "u32 \<Rightarrow> bool" where
  "NOT_PAGE_ALIGNED va \<longleftrightarrow> PG_OFFSET_FROM_ADDR va \<noteq> 0"

definition NOT_DIR_ENTRY_ALIGNED :: "u32 \<Rightarrow> bool" where
  "NOT_DIR_ENTRY_ALIGNED va \<longleftrightarrow> PGTAB_IDX_FROM_ADDR va \<noteq> 0"

text \<open>The first loop: the result is the last assignment to \<open>mount->directory\<close>, or 0.\<close>

primrec find_mount_dir :: "nat \<Rightarrow> u32 \<Rightarrow> u32 \<Rightarrow> ('a vm_scheme, u32) cmd" where
  "find_mount_dir 0 va d = fault Out_of_Fuel"
| "find_mount_dir (Suc n) va d =
     (if va < MOUNT_DIR_END \<and> d = 0 then
        bnd (get_mapping va) (\<lambda>m.
        find_mount_dir n (va + PAGE_SIZE) (if m = None then va else d))
      else ret d)"

primrec find_mount_tabs :: "nat \<Rightarrow> u32 \<Rightarrow> u32 \<Rightarrow> ('a vm_scheme, u32) cmd" where
  "find_mount_tabs 0 va p = fault Out_of_Fuel"
| "find_mount_tabs (Suc n) va p =
     (if va < MOUNT_TABS_END \<and> p = 0 then
        bnd (gets curdir) (\<lambda>c.
        bnd (vld32 (dir_slot c (PGDIR_IDX_FROM_ADDR va))) (\<lambda>e.
        find_mount_tabs n (va + 1024 * PAGE_SIZE) (if e = 0 then va else p)))
      else ret p)"

definition find_mount_point :: "('a vm_scheme, page_directory_mount) cmd" where
  "find_mount_point =
     bnd (find_mount_dir page_fuel MOUNT_DIR_START 0) (\<lambda>d.
     bnd (find_mount_tabs page_fuel MOUNT_TABS_START 0) (\<lambda>p.
     if d = 0 \<or> p = 0 then panic ''VMM: there's no free mount points.''
     else ret \<lparr>m_directory = d, m_pages = p\<rparr>))"

definition mount_directory :: "dirref \<Rightarrow> ('a vm_scheme, page_directory_mount) cmd" where
  "mount_directory dir =
     bnd find_mount_point (\<lambda>mount.
     if NOT_PAGE_ALIGNED (m_directory mount) \<or> NOT_DIR_ENTRY_ALIGNED (m_pages mount)
     then panic ''VMM: mountpoint corrupted''
     else
       let dir_idx = PGDIR_IDX_FROM_ADDR (m_pages mount) in
       bnd (get_mapping (m_directory mount)) (\<lambda>m.
       bnd (gets curdir) (\<lambda>c.
       bnd (if m \<noteq> None then ret True
            else bnd (vld32 (dir_slot c dir_idx)) (\<lambda>e. ret (e \<noteq> 0))) (\<lambda>occupied.
       if occupied then panic ''VMM: mountpoint occupied.''
       else
         bnd (gets (\<lambda>s. physical (dirs s dir))) (\<lambda>ph.
         bnd (map_page (m_directory mount) ph (PAGE_PRESENT OR PAGE_WRITE)) (\<lambda>_.
         bnd (gets curdir) (\<lambda>c.
         bnd (vst32 (dir_slot c dir_idx) (ph OR PAGE_PRESENT OR PAGE_WRITE)) (\<lambda>_.
         ret mount))))))))"

definition umount_directory :: "page_directory_mount \<Rightarrow> ('a vm_scheme, unit) cmd" where
  "umount_directory mount =
     bnd (unmap (m_directory mount)) (\<lambda>_.
     bnd (gets curdir) (\<lambda>c.
     vst32 (dir_slot c (PGDIR_IDX_FROM_ADDR (m_pages mount))) 0))"

section \<open>Comparison of two directories\<close>

definition diff_directories :: "dirref \<Rightarrow> dirref \<Rightarrow> ('a vm_scheme, unit) cmd" where
  "diff_directories adir bdir =
     bnd (mount_directory adir) (\<lambda>amp.
     bnd (mount_directory bdir) (\<lambda>bmp.
     bnd (kprintf_log (''start diff'' @ [CHR 0x0A]) []) (\<lambda>_.
     bnd (cfor [0..<1024] (\<lambda>pd.
        bnd (vld32 (m_directory amp + 4 * of_nat pd)) (\<lambda>a.
        bnd (vld32 (m_directory bmp + 4 * of_nat pd)) (\<lambda>b.
        bnd (if a \<noteq> b then kprintf_log (''dir: %d'' @ [CHR 0x0A]) [of_nat pd] else skip) (\<lambda>_.
        if a \<noteq> 0 then
          cfor [0..<1024] (\<lambda>pg.
            bnd (vld32 (m_pages amp + 4 * of_nat pg)) (\<lambda>x.
            bnd (vld32 (m_pages bmp + 4 * of_nat pg)) (\<lambda>y.
            if x \<noteq> y then kprintf_log (''page: %d'' @ [CHR 0x0A]) [of_nat pd * 1024 + of_nat pg] else skip)))
        else skip))))) (\<lambda>_.
     bnd (kprintf_log (''end diff'' @ [CHR 0x0A]) []) (\<lambda>_.
     bnd (umount_directory amp) (\<lambda>_.
     umount_directory bmp))))))"

section \<open>The page fault handler\<close>

text \<open>
  \<open>cr2\<close>, \<open>eip\<close> and \<open>err_code\<close> are what the processor saved; \<open>str_kernel\<close> and
  \<open>str_empty\<close> are the addresses of the two string literals that \<open>%s\<close> may print.
\<close>

definition page_fault :: "u32 \<Rightarrow> u32 \<Rightarrow> u32 \<Rightarrow> u32 \<Rightarrow> u32 \<Rightarrow> ('a vm_scheme, unit) cmd" where
  "page_fault cr2 eip err_code str_kernel str_empty =
     bnd (gets current_directory) (\<lambda>r.
     bnd (gets curdir) (\<lambda>c.
     bnd (kprintf_log (''Current directory: 0x%.8x %s'' @ [CHR 0x0A])
        [physical c, if r = Kernel_Directory then str_kernel else str_empty]) (\<lambda>_.
     bnd (kprintf_log (''Page fault: eip: 0x%x, faulting address: 0x%x'' @ [CHR 0x0A]) [eip, cr2]) (\<lambda>_.
     bnd (kprintf_log (''Error code: %x'' @ [CHR 0x0A]) [err_code]) (\<lambda>_.
     panic '''')))))"

section \<open>The search is exhaustive and ends\<close>

definition mapping :: "'a vm_scheme \<Rightarrow> u32 \<Rightarrow> u32 option" where
  "mapping s va = (case get_mapping va s of Inl e \<Rightarrow> None | Inr (m, t) \<Rightarrow> m)"

lemma get_mapping_mapping: "paging_ok s \<Longrightarrow> get_mapping va s = Inr (mapping s va, s)"
  by (simp add: mapping_def get_mapping_run)

lemma page_step:
  assumes "off x = 0" and "off y = 0" and "x < y"
  shows "unat (x + PAGE_SIZE) = unat x + 4096" and "off (x + PAGE_SIZE) = 0"
    and "x + PAGE_SIZE \<le> y"
proof -
  have m: "unat x mod 4096 = 0" "unat y mod 4096 = 0" and lt: "unat x < unat y"
    using assms by (simp_all add: word_unat_eq_iff unat_off word_less_nat_alt)
  obtain i j where ij: "unat x = 4096 * i" "unat y = 4096 * j"
    using m by (meson dvd_def mod_eq_0_iff_dvd)
  then have le: "unat x + 4096 \<le> unat y" using lt by simp
  then show u: "unat (x + PAGE_SIZE) = unat x + 4096"
    using unat_u32_less [of y] by (simp add: PAGE_SIZE_def unat_word_ariths)
  then show "off (x + PAGE_SIZE) = 0" using ij by (simp add: word_unat_eq_iff unat_off)
  show "x + PAGE_SIZE \<le> y" using le u by (simp add: word_le_nat_alt)
qed

lemma page_between:
  assumes "off x = 0" "off y = 0" "x \<le> z" "z < y" "off z = 0" "z \<noteq> x"
  shows "x + PAGE_SIZE \<le> z"
  using page_step(3) [of x z] assms by (simp add: order.strict_iff_order)

lemma scan_range_spec:
  assumes "paging_ok s" and "off va = 0" and "off stop = 0" and "va \<le> stop"
    and "(unat stop - unat va) div 4096 < n"
  shows "\<exists>w. scan_range n va stop s = Inr (w, s) \<and> off w = 0 \<and> va \<le> w \<and> w \<le> stop
    \<and> (\<forall>x. off x = 0 \<longrightarrow> va \<le> x \<longrightarrow> x < w \<longrightarrow> mapping s x = None)
    \<and> (w < stop \<longrightarrow> mapping s w \<noteq> None)"
  using assms(2-)
proof (induction n arbitrary: va)
  case 0
  then show ?case by simp
next
  case (Suc n)
  show ?case
  proof (cases "va < stop \<and> mapping s va = None")
    case True
    note st = page_step [OF Suc.prems(1,2), of ] and lt = True [THEN conjunct1]
    have le: "unat va + 4096 \<le> unat stop"
      using st(1,3) [OF lt] by (simp add: word_le_nat_alt)
    have "(unat stop - unat va) div 4096 = Suc ((unat stop - unat (va + PAGE_SIZE)) div 4096)"
      using st(1) [OF lt] le by (simp add: le_div_geq)
    then have "(unat stop - unat (va + PAGE_SIZE)) div 4096 < n" using Suc.prems(4) by simp
    from Suc.IH [OF st(2) [OF lt] Suc.prems(2) st(3) [OF lt] this] obtain w where
      w: "scan_range n (va + PAGE_SIZE) stop s = Inr (w, s)" "off w = 0" "va + PAGE_SIZE \<le> w" "w \<le> stop"
        "\<forall>x. off x = 0 \<longrightarrow> va + PAGE_SIZE \<le> x \<longrightarrow> x < w \<longrightarrow> mapping s x = None"
        "w < stop \<longrightarrow> mapping s w \<noteq> None" by blast
    have "va \<le> va + PAGE_SIZE" using st(1) [OF lt] by (simp add: word_le_nat_alt)
    then have "va \<le> w" using w(3) by simp
    moreover have "mapping s x = None" if "off x = 0" "va \<le> x" "x < w" for x
      using that w(2,5) True page_between [OF Suc.prems(1) w(2) that(2,3,1)] by (cases "x = va") auto
    moreover have "scan_range (Suc n) va stop s = Inr (w, s)"
      using True w(1) by (simp add: cmd_simps get_mapping_mapping [OF assms(1)])
    ultimately show ?thesis using w(2,4,6) by blast
  next
    case False
    then have "scan_range (Suc n) va stop s = Inr (va, s)"
      by (auto simp: cmd_simps get_mapping_mapping [OF assms(1)])
    with False Suc.prems show ?thesis by (auto simp: not_less)
  qed
qed

lemma skip_past_spec:
  assumes "0 < unat step" and "unat vs + q * unat step < 4294967296"
    and "unat va < unat vs + q * unat step" and "q = 0 \<or> unat vs + (q - 1) * unat step \<le> unat va"
    and "q < n"
  shows "skip_past n vs va step s = Inr (vs + of_nat q * step, s)"
  using assms(2-)
proof (induction n arbitrary: vs q)
  case 0
  then show ?case by simp
next
  case (Suc n)
  show ?case
  proof (cases q)
    case 0
    then show ?thesis using Suc.prems(2) by (simp add: word_le_nat_alt cmd_simps)
  next
    case (Suc k)
    have u: "unat (vs + step) = unat vs + unat step"
      using Suc.prems(1) Suc by (simp add: unat_word_ariths)
    have e: "unat (vs + step) + k * unat step = unat vs + q * unat step" using u Suc by simp
    have "k = 0 \<or> unat (vs + step) + (k - 1) * unat step \<le> unat va"
      using Suc.prems(3) Suc u by (cases k) auto
    with Suc.IH [of "vs + step" k] Suc.prems Suc e
    have "skip_past n (vs + step) va step s = Inr (vs + of_nat q * step, s)"
      by (simp add: algebra_simps)
    moreover have "unat vs \<le> unat va" using Suc.prems(3) Suc by auto
    ultimately show ?thesis by (simp add: word_le_nat_alt)
  qed
qed

text \<open>All pages of the \<open>n\<close> bytes from \<open>c\<close> are unmapped.\<close>

definition range_free :: "'a vm_scheme \<Rightarrow> nat \<Rightarrow> nat \<Rightarrow> bool" where
  "range_free s c n \<longleftrightarrow>
     (\<forall>x. off x = 0 \<longrightarrow> c \<le> unat x \<longrightarrow> unat x < c + n \<longrightarrow> mapping s x = None)"

text \<open>The lowest free candidate among \<open>a, a + st, a + 2 st, \<dots>\<close> below \<open>e\<close>, or \<open>e\<close>.\<close>

definition first_free :: "'a vm_scheme \<Rightarrow> nat \<Rightarrow> nat \<Rightarrow> nat \<Rightarrow> nat \<Rightarrow> nat \<Rightarrow> bool" where
  "first_free s a e n st r \<longleftrightarrow>
     (\<forall>k. a + k * st < r \<longrightarrow> a + k * st < e \<longrightarrow> \<not> range_free s (a + k * st) n)
     \<and> (r = e \<or> r < e \<and> (\<exists>k. r = a + k * st) \<and> range_free s r n)"

lemma first_free_skip:
  assumes ff: "first_free s (a + q * st) e n st r"
    and early: "\<And>k. k < q \<Longrightarrow> \<not> range_free s (a + k * st) n"
  shows "first_free s a e n st r"
  unfolding first_free_def
proof (intro conjI allI impI)
  fix k assume k: "a + k * st < r" "a + k * st < e"
  show "\<not> range_free s (a + k * st) n"
  proof (cases "k < q")
    case False
    then obtain j where "k = q + j" using le_Suc_ex by (metis not_less)
    then have eq: "a + k * st = a + q * st + j * st" by (simp add: add_mult_distrib)
    show ?thesis using ff k unfolding first_free_def eq by blast
  qed (rule early)
next
  have eq: "\<exists>j. a + q * st + k * st = a + j * st" for k
    by (rule exI [of _ "q + k"]) (simp add: add_mult_distrib)
  then have "\<exists>k. r = a + k * st" if "\<exists>k. r = a + q * st + k * st" using that by blast
  then show "r = e \<or> r < e \<and> (\<exists>k. r = a + k * st) \<and> range_free s r n"
    using ff unfolding first_free_def by blast
qed

lemma search_range_spec:
  assumes ok: "paging_ok s" and al: "off e = 0" "off sz = 0"
    and st: "4096 dvd unat step" "unat step dvd unat sz" "0 < unat sz"
    and lim: "unat e + unat sz < 4294967296"
    and vs: "off vs = 0" and fuel: "(unat e - unat vs) div 4096 < n" and small: "unat sz div 4096 < page_fuel"
  shows "\<exists>r. search_range n vs e sz step s = Inr (r, s)
    \<and> (if vs < e then first_free s (unat vs) (unat e) (unat sz) (unat step) (unat r) else r = e)"
  using vs fuel
proof (induction n arbitrary: vs)
  case 0
  then show ?case by simp
next
  case (Suc n)
  show ?case
  proof (cases "vs < e")
    case False
    then show ?thesis by (simp add: cmd_simps)
  next
    case lt: True
    let ?st = "unat step" and ?stop = "vs + sz"
    have sp: "0 < ?st" using st(2,3) by (auto intro: gr0I)
    have stop: "unat ?stop = unat vs + unat sz"
      using lt lim by (simp add: unat_word_ariths word_less_nat_alt)
    have vsm: "unat vs mod 4096 = 0" using Suc.prems(1) by (simp add: word_unat_eq_iff unat_off)
    have szm: "unat sz mod 4096 = 0" using al(2) by (simp add: word_unat_eq_iff unat_off)
    have so: "off ?stop = 0"
      using vsm szm by (simp add: word_unat_eq_iff unat_off stop mod_add_eq [symmetric])
    have le: "vs \<le> ?stop" by (simp add: word_le_nat_alt stop)
    obtain w where w: "scan_range page_fuel vs ?stop s = Inr (w, s)" "off w = 0" "vs \<le> w" "w \<le> ?stop"
      "\<forall>x. off x = 0 \<longrightarrow> vs \<le> x \<longrightarrow> x < w \<longrightarrow> mapping s x = None"
      "w < ?stop \<longrightarrow> mapping s w \<noteq> None"
      using scan_range_spec [OF ok Suc.prems(1) so le, of page_fuel] small stop by auto
    show ?thesis
    proof (cases "w = ?stop")
      case True
      have "range_free s (unat vs) (unat sz)"
        unfolding range_free_def using w(5) True stop by (auto simp: word_le_nat_alt word_less_nat_alt)
      then have "first_free s (unat vs) (unat e) (unat sz) ?st (unat vs)"
        using lt by (auto simp: first_free_def word_less_nat_alt intro: exI [of _ 0])
      moreover have "search_range (Suc n) vs e sz step s = Inr (vs, s)"
        using lt w(1) True by (simp add: cmd_simps)
      ultimately show ?thesis using lt by auto
    next
      case False
      then have wl: "unat w < unat vs + unat sz" and wm: "mapping s w \<noteq> None" and wg: "unat vs \<le> unat w"
        using w(3,4,6) stop by (auto simp: word_le_nat_alt word_less_nat_alt word_unat_eq_iff order.strict_iff_order)
      define d where "d = (unat w - unat vs) div ?st"
      have d1: "d * ?st \<le> unat w - unat vs" unfolding d_def by simp
      have d2: "unat w - unat vs < Suc d * ?st"
        using dividend_less_div_times [OF sp, of "unat w - unat vs"] by (simp add: d_def)
      have "d < unat sz div ?st"
        unfolding d_def by (rule less_mult_imp_div_less) (use wl wg st(2) in simp)
      then have q: "Suc d * ?st \<le> unat sz"
        using st(2) by (metis Suc_leI dvd_div_mult_self mult_le_mono1)
      let ?next = "vs + of_nat (Suc d) * step"
      have evl: "unat vs < unat e" using lt by (simp add: word_less_nat_alt)
      have nx: "unat ?next = unat vs + Suc d * ?st"
      proof -
        have b: "Suc d * ?st < 4294967296" using q lim by linarith
        have "Suc d \<le> Suc d * ?st" using sp mult_le_mono2 [of 1 ?st "Suc d"] by (simp del: mult_Suc)
        then have "Suc d < 4294967296" using b by linarith
        then have "unat (of_nat (Suc d) * step) = Suc d * ?st"
          using b by (simp add: unat_word_ariths unat_of_nat del: of_nat_Suc mult_Suc)
        then show ?thesis using q lim evl by (simp add: unat_word_ariths(1) del: of_nat_Suc mult_Suc)
      qed
      have d3: "d < page_fuel - 1"
      proof -
        have "4096 \<le> ?st" using st(1) sp by (simp add: dvd_imp_le)
        then have "d * 4096 \<le> d * ?st" by simp
        moreover have "d * ?st < unat sz" using q sp by simp
        ultimately have "d * 4096 < unat sz" by linarith
        then show ?thesis using lim by (simp add: page_fuel_def)
      qed
      have sk: "skip_past page_fuel vs w step s = Inr (?next, s)"
      proof (rule skip_past_spec [OF sp])
        show "unat vs + Suc d * ?st < 4294967296" using q lim evl by linarith
        show "unat w < unat vs + Suc d * ?st" using d2 wg by linarith
        show "Suc d = 0 \<or> unat vs + (Suc d - 1) * ?st \<le> unat w" using d1 wg by simp
        show "Suc d < page_fuel" using d3 by simp
      qed
      have run: "search_range (Suc n) vs e sz step s = search_range n ?next e sz step s"
        using lt w(1) False sk by (simp add: cmd_simps del: of_nat_Suc)
      have no: "off ?next = 0"
      proof -
        have "(unat vs + Suc d * ?st) mod 4096 = 0" using vsm st(1) by (simp add: mod_eq_0_iff_dvd del: mult_Suc)
        then show ?thesis by (simp add: word_unat_eq_iff unat_off nx del: of_nat_Suc mult_Suc)
      qed
      have nf: "(unat e - unat ?next) div 4096 < n"
      proof -
        have "4096 \<le> Suc d * ?st" using st(1) sp by (simp add: dvd_imp_le trans_le_add1)
        then have "unat e - unat ?next \<le> unat e - unat vs - 4096" unfolding nx by linarith
        moreover have "4096 \<le> unat e - unat vs"
          using page_step(3) [OF Suc.prems(1) al(1) lt] page_step(1) [OF Suc.prems(1) al(1) lt]
          by (simp add: word_le_nat_alt)
        moreover have "(x - 4096) div 4096 < n" if "4096 \<le> x" "x div 4096 < Suc n" for x :: nat
          using that by (simp add: le_div_geq)
        ultimately show ?thesis
          using Suc.prems(2) by (meson div_le_mono le_less_trans)
      qed
      have nf0: "\<not> range_free s (unat vs + k * ?st) (unat sz)" if "k < Suc d" for k
      proof -
        have "k * ?st \<le> d * ?st" using that by simp
        then have "unat vs + k * ?st \<le> unat w" using d1 wg by linarith
        then show ?thesis unfolding range_free_def using wl wm w(2) by (meson add_le_mono1 le_add1 less_le_trans)
      qed
      obtain r where r: "search_range n ?next e sz step s = Inr (r, s)"
        "if ?next < e then first_free s (unat ?next) (unat e) (unat sz) ?st (unat r) else r = e"
        using Suc.IH [OF no nf] by blast
      have "first_free s (unat vs + Suc d * ?st) (unat e) (unat sz) ?st (unat r)"
        using r(2) nx by (auto simp: first_free_def word_less_nat_alt simp del: of_nat_Suc mult_Suc split: if_splits)
      then have "first_free s (unat vs) (unat e) (unat sz) ?st (unat r)"
        by (rule first_free_skip) (rule nf0)
      then show ?thesis using run r(1) lt by auto
    qed
  qed
qed

section \<open>Allocation of a range of pages\<close>

lemma get_mapping_present:
  assumes "paging_ok s" and "translate s x \<noteq> None"
  shows "mapping s x = translate s x"
proof -
  have "present (pte_at s x)" "present (pde_at s (PGDIR_IDX_FROM_ADDR x))" "cr0_pg s"
    using assms by (auto simp: translate_def paging_ok_def self_mapped_def split: if_splits)
  then show ?thesis using assms(1)
    by (auto simp: mapping_def get_mapping_run translate_def dest: present_nonzero)
qed

lemma allocate_step:
  assumes ok: "mm_ok s" and va: "mappable s va" "off va = 0" and fl: "frame flags = 0"
    and free: "2 \<le> length (free_pages s)"
  shows "\<exists>t. allocate_page va flags s = Inr ((), t)
    \<and> grows s t \<and> length (free_pages s) \<le> length (free_pages t) + 2
    \<and> (\<forall>x. frame x = va \<longrightarrow> translate t x \<noteq> None)
    \<and> (\<forall>x. PGDIR_IDX_FROM_ADDR x \<noteq> self_slot s \<longrightarrow> frame x \<noteq> va \<or> translate s x \<noteq> None \<longrightarrow>
         translate t x = translate s x)"
proof -
  have pg: "paging_ok s" using ok by (simp add: mm_ok_def)
  have fv: "frame va = va" using va(2) frame_plus_off [of va] by simp
  have ns: "PGDIR_IDX_FROM_ADDR x \<noteq> self_slot s" if "frame x = va" for x
    using that va(1) fv frame_eq_iff_idx [of x va] by (auto simp: mappable_def window_def)
  show ?thesis
  proof (cases "mapping s va")
    case (Some pa)
    have ne: "free_pages s \<noteq> []" using free by auto
    obtain t where t: "map_page va pa flags s = Inr ((), t)" "grows s t"
      "length (free_pages s) \<le> Suc (length (free_pages t))"
      "\<forall>x. PGDIR_IDX_FROM_ADDR x \<noteq> self_slot s \<longrightarrow>
         translate t x = (if frame x = va then Some (frame pa + off x) else translate s x)"
      using map_page_grows [OF ok va(1) fl disjI2 [OF ne], of pa] fv by auto
    have "translate t x = translate s x" if x: "frame x = va" "translate s x \<noteq> None" for x
    proof -
      have "translate s va \<noteq> None"
        using x translate_in_page [of s x _ va] fv by auto
      then have "translate s va = Some pa" using get_mapping_present [OF pg] Some by metis
      moreover have "cr0_pg s" using pg by (simp add: paging_ok_def self_mapped_def)
      ultimately have "translate s x = Some (frame pa + off x)"
        using translate_in_page [of s va pa x] x(1) fv by simp
      with t(4) ns x(1) show ?thesis by simp
    qed
    with t ns show ?thesis
      by (intro exI [of _ t]) (auto simp: allocate_page_def cmd_simps get_mapping_mapping [OF pg] Some)
  next
    case None
    then have un: "translate s va = None" using get_mapping_present [OF pg] by metis
    obtain xs p where xp: "free_pages s = xs @ [p]"
      using free by (cases "free_pages s" rule: rev_cases) auto
    obtain u where u: "pmm_alloc_page s = Inr (p, u)" "grows s u" "free_pages u = xs"
      "\<forall>x. translate u x = translate s x" using grows_alloc [OF ok xp] by blast
    have uok: "mm_ok u" using u(2) by (simp add: grows_def)
    have ne: "free_pages u \<noteq> []" using free xp u(3) by auto
    obtain t where t: "map_page va p flags u = Inr ((), t)" "grows u t"
      "length (free_pages u) \<le> Suc (length (free_pages t))"
      "\<forall>x. PGDIR_IDX_FROM_ADDR x \<noteq> self_slot s \<longrightarrow>
         translate t x = (if frame x = va then Some (frame p + off x) else translate s x)"
      using map_page_grows [OF uok grows_mappable [OF u(2) va(1)] fl disjI2 [OF ne], of p] fv u(4)
        grows_fields(7) [OF u(2)] by auto
    have "translate s x = None" if "frame x = va" for x
      using un translate_in_page [of s x _ va] that fv by (cases "translate s x") (auto split: if_splits)
    moreover have "allocate_page va flags s = Inr ((), t)"
      using u(1) t(1) by (simp add: allocate_page_def cmd_simps get_mapping_mapping [OF pg] None)
    moreover have "length (free_pages s) \<le> length (free_pages t) + 2" using t(3) u(3) xp by simp
    ultimately show ?thesis using t(4) ns grows_trans [OF u(2) t(2)] by (intro exI [of _ t]) auto
  qed
qed

text \<open>The pages that an access to \<open>[va, e)\<close> touches, both page aligned.\<close>

lemma in_first_page:
  assumes "off va = 0" and "off e = 0" and "va < e"
  shows "va \<le> x \<and> x < e \<longleftrightarrow> frame x = va \<or> va + PAGE_SIZE \<le> x \<and> x < e"
proof -
  note st = page_step [OF assms]
  have "frame x = va \<longleftrightarrow> va \<le> x \<and> unat x < unat va + 4096"
  proof -
    have m: "unat va mod 4096 = 0" using assms(1) by (simp add: word_unat_eq_iff unat_off)
    then obtain i where i: "unat va = 4096 * i" by (meson dvd_def mod_eq_0_iff_dvd)
    have "unat x div 4096 = i \<longleftrightarrow> 4096 * i \<le> unat x \<and> unat x < 4096 * i + 4096"
      using div_mult_mod_eq [of "unat x" 4096] mod_less_divisor [of 4096 "unat x"]
        div_nat_eqI [of i 4096 "unat x"] by auto
    then show ?thesis by (simp add: word_unat_eq_iff unat_frame i word_le_nat_alt)
  qed
  then show ?thesis using st(1,3) assms(3)
    by (auto simp: word_le_nat_alt word_less_nat_alt)
qed

lemma allocate_loop_spec:
  assumes "mm_ok s" and "off va = 0" and "off e = 0" and "va \<le> e" and fl: "frame flags = 0"
    and "\<forall>x. off x = 0 \<longrightarrow> va \<le> x \<longrightarrow> x < e \<longrightarrow> mappable s x"
    and "2 * ((unat e - unat va) div 4096) \<le> length (free_pages s)"
    and "(unat e - unat va) div 4096 < n"
  shows "\<exists>t. allocate_loop n va e flags s = Inr (e, t) \<and> grows s t
    \<and> (\<forall>x. va \<le> x \<longrightarrow> x < e \<longrightarrow> translate t x \<noteq> None)
    \<and> (\<forall>x. PGDIR_IDX_FROM_ADDR x \<noteq> self_slot s \<longrightarrow> \<not> (va \<le> x \<and> x < e) \<or> translate s x \<noteq> None \<longrightarrow>
         translate t x = translate s x)"
  using assms(1,2,4,6-)
proof (induction n arbitrary: va s)
  case 0
  then show ?case by simp
next
  case (Suc n)
  show ?case
  proof (cases "va < e")
    case False
    with Suc.prems show ?thesis by (intro exI [of _ s]) (auto simp: cmd_simps grows_refl)
  next
    case lt: True
    note st = page_step [OF Suc.prems(2) assms(3) lt]
    have le: "unat va + 4096 \<le> unat e" using st(1,3) by (simp add: word_le_nat_alt)
    have len: "(unat e - unat va) div 4096 = Suc ((unat e - unat (va + PAGE_SIZE)) div 4096)"
      using st(1) le by (simp add: le_div_geq)
    have free: "2 \<le> length (free_pages s)" using Suc.prems(5) len by simp
    have "mappable s va" using Suc.prems(2,4) lt by simp
    from allocate_step [OF Suc.prems(1) this Suc.prems(2) fl free] obtain u where
      u: "allocate_page va flags s = Inr ((), u)"
      "grows s u" "length (free_pages s) \<le> length (free_pages u) + 2"
      "\<forall>x. frame x = va \<longrightarrow> translate u x \<noteq> None"
      "\<forall>x. PGDIR_IDX_FROM_ADDR x \<noteq> self_slot s \<longrightarrow> frame x \<noteq> va \<or> translate s x \<noteq> None \<longrightarrow>
         translate u x = translate s x" by blast
    have uok: "mm_ok u" using u(2) by (simp add: grows_def)
    note inp = in_first_page [OF Suc.prems(2) assms(3) lt]
    have mp: "\<forall>x. off x = 0 \<longrightarrow> va + PAGE_SIZE \<le> x \<longrightarrow> x < e \<longrightarrow> mappable u x"
      using Suc.prems(4) inp grows_mappable [OF u(2)] by blast
    have "2 * ((unat e - unat (va + PAGE_SIZE)) div 4096) \<le> length (free_pages u)"
      "(unat e - unat (va + PAGE_SIZE)) div 4096 < n"
      using len Suc.prems(5,6) u(3) by simp_all
    from Suc.IH [OF uok st(2,3) mp this] obtain t where
      t: "allocate_loop n (va + PAGE_SIZE) e flags u = Inr (e, t)" "grows u t"
      "\<forall>x. va + PAGE_SIZE \<le> x \<longrightarrow> x < e \<longrightarrow> translate t x \<noteq> None"
      "\<forall>x. PGDIR_IDX_FROM_ADDR x \<noteq> self_slot u \<longrightarrow>
         \<not> (va + PAGE_SIZE \<le> x \<and> x < e) \<or> translate u x \<noteq> None \<longrightarrow> translate t x = translate u x"
      by blast
    have kept: "translate t x \<noteq> None" if "translate u x \<noteq> None" for x
      using t(2) that unfolding grows_def by blast
    have "allocate_loop (Suc n) va e flags s = Inr (e, t)"
      using u(1) t(1) lt by (simp add: bnd_run)
    moreover have "\<forall>x. va \<le> x \<longrightarrow> x < e \<longrightarrow> translate t x \<noteq> None"
      using inp u(4) t(3) kept by blast
    moreover have "translate t x = translate s x"
      if "PGDIR_IDX_FROM_ADDR x \<noteq> self_slot s" "\<not> (va \<le> x \<and> x < e) \<or> translate s x \<noteq> None" for x
      using that u(5) t(4) inp [of x] grows_fields(7) [OF u(2)] by metis
    ultimately show ?thesis using grows_trans [OF u(2) t(2)] by blast
  qed
qed

section \<open>Properties\<close>

lemma round_down: "off (PAGE_ROUND_DOWN x) = 0" "off (PAGE_ROUND_UP x) = 0"
  by (simp_all add: PAGE_ROUND_DOWN_def PAGE_ROUND_UP_def)

lemma unat_round_up:
  assumes "unat x + 4095 < 4294967296"
  shows "unat (PAGE_ROUND_UP x) = (unat x + 4095) div 4096 * 4096"
proof -
  have "unat (x + 4095) = unat x + 4095" using assms by (simp add: unat_word_ariths)
  moreover have "PAGE_ROUND_UP x = frame (x + 4095)" by (simp add: PAGE_ROUND_UP_def PAGE_SIZE_def add.commute)
  ultimately show ?thesis by (simp add: unat_frame)
qed

lemma round_up_bounds:
  assumes "unat x + 4095 < 4294967296"
  shows "unat (PAGE_ROUND_UP x) \<le> unat x + 4095" and "unat x \<le> unat (PAGE_ROUND_UP x)"
    and "4096 dvd unat (PAGE_ROUND_UP x)"
proof -
  have "(n + 4095) div 4096 * 4096 \<le> n + 4095" "n \<le> (n + 4095) div 4096 * 4096" for n :: nat
    using div_mult_mod_eq [of "n + 4095" 4096] mod_less_divisor [of 4096 "n + 4095"] by linarith+
  then show "unat (PAGE_ROUND_UP x) \<le> unat x + 4095" "unat x \<le> unat (PAGE_ROUND_UP x)"
    "4096 dvd unat (PAGE_ROUND_UP x)"
    unfolding unat_round_up [OF assms] by simp_all
qed

lemma find_free_range_run:
  assumes ok: "paging_ok s" and sz: "0 < sz" and lim: "unat va_end + unat sz + 8190 < 4294967296"
  shows "\<exists>r. find_free_range va_start va_end sz size_aligned s = Inr (r, s)
    \<and> (if PAGE_ROUND_DOWN va_start < PAGE_ROUND_UP va_end
       then first_free s (unat (PAGE_ROUND_DOWN va_start)) (unat (PAGE_ROUND_UP va_end))
         (unat (PAGE_ROUND_UP sz)) (if size_aligned then unat (PAGE_ROUND_UP sz) else 4096) (unat r)
       else r = PAGE_ROUND_UP va_end)"
proof -
  let ?sz = "PAGE_ROUND_UP sz" and ?e = "PAGE_ROUND_UP va_end"
  let ?step = "if size_aligned then ?sz else PAGE_SIZE"
  have l: "unat sz + 4095 < 4294967296" "unat va_end + 4095 < 4294967296" using lim by linarith+
  note b = round_up_bounds [OF l(1)] and be = round_up_bounds [OF l(2)]
  have pos: "0 < unat ?sz" using b(2) sz by (simp add: word_less_nat_alt)
  have st: "4096 dvd unat ?step" "unat ?step dvd unat ?sz"
    using b(3) by (simp_all add: PAGE_SIZE_def)
  have lim': "unat ?e + unat ?sz < 4294967296" using b(1) be(1) lim by linarith
  have fuel: "unat x div 4096 < page_fuel" for x :: u32
    using unat_u32_less [of x] by (simp add: page_fuel_def less_mult_imp_div_less)
  have f1: "(unat ?e - unat (PAGE_ROUND_DOWN va_start)) div 4096 < page_fuel"
    using fuel [of ?e] by (meson diff_le_self div_le_mono le_less_trans)
  have e: "(if size_aligned then unat ?sz else 4096) = unat ?step" by (simp add: PAGE_SIZE_def)
  show ?thesis
    unfolding find_free_range_def Let_def e
    by (rule search_range_spec [OF ok round_down(2) round_down(2) st pos lim' round_down(1) f1 fuel])
qed

text \<open>C18: \<open>find_free_range\<close> ends, changes nothing and answers the lowest free range. The
  candidates are the addresses from the rounded start in steps of a page (of the size, when
  \<open>size_aligned\<close>) below the rounded end; the answer is the first candidate whose pages are
  all unmapped, or the rounded end when no candidate is free. Skipping several candidates at a time
  behind a mapped page loses none. The end of the range itself may lie above \<open>va_end\<close>. The
  hypotheses are the MMU's invariant, a size above 0 and addresses that do not wrap.\<close>

theorem find_free_range_correct:
  assumes ok: "paging_ok s" and sz: "0 < sz" and lim: "unat va_end + unat sz + 8190 < 4294967296"
  shows "\<exists>r. find_free_range va_start va_end sz size_aligned s = Inr (r, s)
    \<and> (if PAGE_ROUND_DOWN va_start < PAGE_ROUND_UP va_end
       then first_free s (unat (PAGE_ROUND_DOWN va_start)) (unat (PAGE_ROUND_UP va_end))
         (unat (PAGE_ROUND_UP sz)) (if size_aligned then unat (PAGE_ROUND_UP sz) else 4096) (unat r)
       else r = PAGE_ROUND_UP va_end)"
  by (rule find_free_range_run [OF assms])

theorem find_free_range_correct_witness:
  "\<exists>r. find_free_range 0xE0000123 0xE0010000 0x1800 True demo = Inr (r, demo)
    \<and> first_free demo 0xE0000000 0xE0010000 0x2000 0x2000 (unat r)"
  using find_free_range_correct [OF demo_paging_ok, of "0x1800" "0xE0010000" "0xE0000123" True]
  by (simp add: PAGE_ROUND_DOWN_def PAGE_ROUND_UP_def PAGE_ADDR_MASK_def PAGE_SIZE_def)

text \<open>C17: \<open>allocate_range\<close> maps every page of the range and nothing else. With two free frames for
  each page (one for the page, one for a page table that may be missing) it returns the rounded end,
  the invariant of the memory managers holds, every address of the range is translated, a page that
  was mapped before keeps its frame, and no translation outside the range changes (the window
  on the tables, where new tables appear, apart).\<close>

theorem allocate_range_maps:
  assumes ok: "mm_ok s" and fl: "frame flags = 0"
    and le: "PAGE_ROUND_DOWN va_start \<le> PAGE_ROUND_UP va_end"
    and mp: "\<forall>x. off x = 0 \<longrightarrow> PAGE_ROUND_DOWN va_start \<le> x \<longrightarrow> x < PAGE_ROUND_UP va_end \<longrightarrow> mappable s x"
    and free: "2 * ((unat (PAGE_ROUND_UP va_end) - unat (PAGE_ROUND_DOWN va_start)) div 4096)
      \<le> length (free_pages s)"
  shows "\<exists>t. allocate_range va_start va_end flags s = Inr (PAGE_ROUND_UP va_end, t) \<and> mm_ok t
    \<and> (\<forall>x. PAGE_ROUND_DOWN va_start \<le> x \<longrightarrow> x < PAGE_ROUND_UP va_end \<longrightarrow> translate t x \<noteq> None)
    \<and> (\<forall>x. PGDIR_IDX_FROM_ADDR x \<noteq> self_slot s \<longrightarrow>
         \<not> (PAGE_ROUND_DOWN va_start \<le> x \<and> x < PAGE_ROUND_UP va_end) \<or> translate s x \<noteq> None \<longrightarrow>
         translate t x = translate s x)"
proof -
  have "unat (PAGE_ROUND_UP va_end) div 4096 < page_fuel"
    using unat_u32_less [of "PAGE_ROUND_UP va_end"] by (simp add: page_fuel_def less_mult_imp_div_less)
  then have "(unat (PAGE_ROUND_UP va_end) - unat (PAGE_ROUND_DOWN va_start)) div 4096 < page_fuel"
    by (meson diff_le_self div_le_mono le_less_trans)
  from allocate_loop_spec [OF ok round_down le fl mp free this]
  show ?thesis unfolding allocate_range_def grows_def by blast
qed

theorem allocate_range_maps_witness:
  "\<exists>t. allocate_range 0xF0001004 0xF0001FFF 3 demo = Inr (0xF0002000, t)
    \<and> mm_ok t \<and> translate t 0xF0001ABC \<noteq> None"
proof -
  have r: "PAGE_ROUND_DOWN 0xF0001004 = 0xF0001000" "PAGE_ROUND_UP 0xF0001FFF = 0xF0002000"
    by (simp_all add: PAGE_ROUND_DOWN_def PAGE_ROUND_UP_def PAGE_ADDR_MASK_def PAGE_SIZE_def)
  have "frame 0xF0001000 = 0xF0001000" by (simp add: PAGE_ADDR_MASK_def)
  then have one: "x = 0xF0001000" if x: "off x = 0" "0xF0001000 \<le> x" "x < 0xF0002000" for x
    using page_between [of "0xF0001000" "0xF0002000" x] x
    by (auto simp: PAGE_FLAGS_MASK_def PAGE_SIZE_def not_less [symmetric])
  have fl: "frame 3 = 0" by (simp add: PAGE_ADDR_MASK_def)
  have mp: "\<forall>x. off x = 0 \<longrightarrow> 0xF0001000 \<le> x \<longrightarrow> x < 0xF0002000 \<longrightarrow> mappable demo x"
    using one demo_mappable(1) by blast
  obtain t where t: "allocate_range 0xF0001004 0xF0001FFF 3 demo = Inr (0xF0002000, t)" "mm_ok t"
    "\<forall>x. 0xF0001000 \<le> x \<longrightarrow> x < 0xF0002000 \<longrightarrow> translate t x \<noteq> None"
    using allocate_range_maps [OF demo_mm_ok fl, of "0xF0001004" "0xF0001FFF"] mp
    by (simp add: r demo_free_pages) blast
  from t(3) have "translate t 0xF0001ABC \<noteq> None" by simp
  with t(1,2) show ?thesis by blast
qed

end
