(* ===== verification/Kernel_Heap.thy ===== *)
theory Kernel_Heap
  imports Kernel_Space Kernel_String
begin

text \<open>
  The kernel heap of \<open>kernel/mm/kheap.c\<close>: a doubly linked list of chunks, each
  behind a header of 12 bytes in the virtual memory it manages. A header is
  \<open>prev\<close>, \<open>next\<close> and one word whose bit 0 is \<open>allocated\<close> and whose upper 31 bits are
  \<open>length\<close>, the length of the chunk with its header.
\<close>

section \<open>Headers\<close>

record heap = vm +
  kheap_max :: u32
  kheap_first :: u32

definition sizeof_kheader :: u32 where "sizeof_kheader = 12"

definition chunk_prev :: "u32 \<Rightarrow> ('a vm_scheme, u32) cmd" where
  "chunk_prev h = vld32 h"

definition chunk_next :: "u32 \<Rightarrow> ('a vm_scheme, u32) cmd" where
  "chunk_next h = vld32 (h + 4)"

definition chunk_allocated :: "u32 \<Rightarrow> ('a vm_scheme, u32) cmd" where
  "chunk_allocated h = bnd (vld32 (h + 8)) (\<lambda>w. ret (w AND 1))"

definition chunk_length :: "u32 \<Rightarrow> ('a vm_scheme, u32) cmd" where
  "chunk_length h = bnd (vld32 (h + 8)) (\<lambda>w. ret (drop_bit 1 w))"

definition set_prev :: "u32 \<Rightarrow> u32 \<Rightarrow> ('a vm_scheme, unit) cmd" where
  "set_prev h v = vst32 h v"

definition set_next :: "u32 \<Rightarrow> u32 \<Rightarrow> ('a vm_scheme, unit) cmd" where
  "set_next h v = vst32 (h + 4) v"

definition set_allocated :: "u32 \<Rightarrow> u32 \<Rightarrow> ('a vm_scheme, unit) cmd" where
  "set_allocated h v = bnd (vld32 (h + 8)) (\<lambda>w. vst32 (h + 8) (w AND NOT 1 OR v AND 1))"

definition set_length :: "u32 \<Rightarrow> u32 \<Rightarrow> ('a vm_scheme, unit) cmd" where
  "set_length h v = bnd (vld32 (h + 8)) (\<lambda>w. vst32 (h + 8) (w AND 1 OR push_bit 1 v))"

section \<open>Growing and shrinking\<close>

primrec alloc_chunk_loop :: "nat \<Rightarrow> u32 \<Rightarrow> ('a heap_scheme, unit) cmd" where
  "alloc_chunk_loop 0 limit = fault Out_of_Fuel"
| "alloc_chunk_loop (Suc n) limit =
     bnd (gets kheap_max) (\<lambda>m.
     if limit > m then
       bnd pmm_alloc_page (\<lambda>page.
       bnd (map_page m page (PAGE_PRESENT OR PAGE_WRITE)) (\<lambda>_.
       bnd (upd (\<lambda>s. s\<lparr>kheap_max := kheap_max s + 0x1000\<rparr>)) (\<lambda>_.
       alloc_chunk_loop n limit)))
     else skip)"

definition alloc_chunk :: "u32 \<Rightarrow> u32 \<Rightarrow> ('a heap_scheme, unit) cmd" where
  "alloc_chunk start len =
     (if KHEAP_END - start < len then panic ''Heap: out of memory.''
      else alloc_chunk_loop page_fuel (start + len))"

text \<open>
  The variable \<open>page\<close> is set only when the page is mapped; its value is indeterminate
  otherwise, and passing it on has no meaning.
\<close>

primrec free_chunk_loop :: "nat \<Rightarrow> u32 \<Rightarrow> ('a heap_scheme, unit) cmd" where
  "free_chunk_loop 0 chunk = fault Out_of_Fuel"
| "free_chunk_loop (Suc n) chunk =
     bnd (gets kheap_max) (\<lambda>m.
     if m - 0x1000 \<ge> chunk then
       bnd (upd (\<lambda>s. s\<lparr>kheap_max := kheap_max s - 0x1000\<rparr>)) (\<lambda>_.
       bnd (gets kheap_max) (\<lambda>m.
       bnd (get_mapping m) (\<lambda>page.
       bnd (case page of None \<Rightarrow> fault Bad_Access | Some pa \<Rightarrow> pmm_free_page pa) (\<lambda>_.
       bnd (unmap m) (\<lambda>_.
       free_chunk_loop n chunk)))))
     else skip)"

definition free_chunk :: "u32 \<Rightarrow> ('a heap_scheme, unit) cmd" where
  "free_chunk chunk =
     bnd (chunk_prev chunk) (\<lambda>p.
     bnd (set_next p 0) (\<lambda>_.
     bnd (chunk_prev chunk) (\<lambda>p.
     bnd (if p = 0 then upd (\<lambda>s. s\<lparr>kheap_first := 0\<rparr>) else skip) (\<lambda>_.
     free_chunk_loop page_fuel chunk))))"

section \<open>Splitting and joining\<close>

definition split_chunk :: "u32 \<Rightarrow> u32 \<Rightarrow> ('a heap_scheme, unit) cmd" where
  "split_chunk chunk len =
     bnd (chunk_length chunk) (\<lambda>l.
     if l - len > sizeof_kheader then
       let newchunk = chunk + l in
       bnd (set_prev newchunk chunk) (\<lambda>_.
       bnd (chunk_next chunk) (\<lambda>nx.
       bnd (set_next newchunk nx) (\<lambda>_.
       bnd (set_allocated newchunk 0) (\<lambda>_.
       bnd (chunk_length chunk) (\<lambda>l.
       bnd (set_length newchunk (l - len)) (\<lambda>_.
       bnd (set_next chunk newchunk) (\<lambda>_.
       set_length chunk len)))))))
     else skip)"

text \<open>The successor of a chunk is free; its predecessor is free.\<close>

definition next_free :: "u32 \<Rightarrow> ('a heap_scheme, bool) cmd" where
  "next_free chunk =
     bnd (chunk_next chunk) (\<lambda>n.
     if n = 0 then ret False else bnd (chunk_allocated n) (\<lambda>a. ret (a = 0)))"

definition prev_free :: "u32 \<Rightarrow> ('a heap_scheme, bool) cmd" where
  "prev_free chunk =
     bnd (chunk_prev chunk) (\<lambda>p.
     if p = 0 then ret False else bnd (chunk_allocated p) (\<lambda>a. ret (a = 0)))"

definition glue_next :: "u32 \<Rightarrow> ('a heap_scheme, unit) cmd" where
  "glue_next chunk =
     bnd (chunk_length chunk) (\<lambda>l.
     bnd (chunk_next chunk) (\<lambda>n.
     bnd (chunk_length n) (\<lambda>ln.
     bnd (set_length chunk (l + ln)) (\<lambda>_.
     bnd (chunk_next chunk) (\<lambda>n.
     bnd (chunk_next n) (\<lambda>nn.
     bnd (set_prev nn chunk) (\<lambda>_.
     bnd (chunk_next chunk) (\<lambda>n.
     bnd (chunk_next n) (\<lambda>nn.
     set_next chunk nn)))))))))"

definition glue_prev :: "u32 \<Rightarrow> ('a heap_scheme, u32) cmd" where
  "glue_prev chunk =
     bnd (chunk_prev chunk) (\<lambda>p.
     bnd (chunk_length p) (\<lambda>lp.
     bnd (chunk_length chunk) (\<lambda>l.
     bnd (set_length p (lp + l)) (\<lambda>_.
     bnd (chunk_prev chunk) (\<lambda>p.
     bnd (chunk_next chunk) (\<lambda>n.
     bnd (set_next p n) (\<lambda>_.
     bnd (chunk_next chunk) (\<lambda>n.
     bnd (chunk_prev chunk) (\<lambda>p.
     bnd (set_prev n p) (\<lambda>_.
     chunk_prev chunk))))))))))"

definition glue_chunk :: "u32 \<Rightarrow> ('a heap_scheme, unit) cmd" where
  "glue_chunk chunk =
     bnd (next_free chunk) (\<lambda>nf.
     bnd (if nf then glue_next chunk else skip) (\<lambda>_.
     bnd (prev_free chunk) (\<lambda>pf.
     bnd (if pf then glue_prev chunk else ret chunk) (\<lambda>chunk.
     bnd (chunk_next chunk) (\<lambda>n.
     if n = 0 then free_chunk chunk else skip)))))"

section \<open>Allocation and release\<close>

definition init_kheap :: "('a heap_scheme, unit) cmd" where
  "init_kheap = skip"

text \<open>A list of chunks that is not circular has fewer than 2^32 members.\<close>

definition heap_fuel :: nat where "heap_fuel = 4294967297"

text \<open>The first free chunk of at least \<open>len\<close> bytes, or 0, and the chunk before it.\<close>

primrec find_chunk :: "nat \<Rightarrow> u32 \<Rightarrow> u32 \<Rightarrow> u32 \<Rightarrow> ('a heap_scheme, u32 \<times> u32) cmd" where
  "find_chunk 0 len cur_header prev_header = fault Out_of_Fuel"
| "find_chunk (Suc n) len cur_header prev_header =
     (if cur_header \<noteq> 0 then
        bnd (chunk_allocated cur_header) (\<lambda>a.
        bnd (if a = 0 then bnd (chunk_length cur_header) (\<lambda>l. ret (l \<ge> len)) else ret False) (\<lambda>fits.
        if fits then ret (cur_header, prev_header)
        else bnd (chunk_next cur_header) (\<lambda>nx. find_chunk n len nx cur_header)))
      else ret (0, prev_header))"

text \<open>A new chunk behind the last one, or at the start of an empty heap.\<close>

definition append_chunk :: "u32 \<Rightarrow> u32 \<Rightarrow> ('a heap_scheme, u32) cmd" where
  "append_chunk len prev_header =
     bnd (if prev_header \<noteq> 0
          then bnd (chunk_length prev_header) (\<lambda>l. ret (prev_header + l))
          else bnd (upd (\<lambda>s. s\<lparr>kheap_first := KHEAP_START\<rparr>)) (\<lambda>_. ret KHEAP_START)) (\<lambda>chunk_start.
     bnd (alloc_chunk chunk_start len) (\<lambda>_.
     bnd (set_prev chunk_start prev_header) (\<lambda>_.
     bnd (set_next chunk_start 0) (\<lambda>_.
     bnd (set_allocated chunk_start 1) (\<lambda>_.
     bnd (set_length chunk_start len) (\<lambda>_.
     bnd (set_next prev_header chunk_start) (\<lambda>_.
     ret (chunk_start + sizeof_kheader))))))))"

definition kmalloc :: "u32 \<Rightarrow> ('a heap_scheme, u32) cmd" where
  "kmalloc len =
     (let len = len + sizeof_kheader in
      bnd (gets kheap_first) (\<lambda>first.
      bnd (find_chunk heap_fuel len first 0) (\<lambda>(cur_header, prev_header).
      if cur_header \<noteq> 0 then
        bnd (split_chunk cur_header len) (\<lambda>_.
        bnd (set_allocated cur_header 1) (\<lambda>_.
        ret (cur_header + sizeof_kheader)))
      else append_chunk len prev_header)))"

definition kmalloc_zero :: "u32 \<Rightarrow> ('a heap_scheme, u32) cmd" where
  "kmalloc_zero sz =
     bnd (kmalloc sz) (\<lambda>addr. bnd (memset addr 0 sz) (\<lambda>_. ret addr))"

definition kfree :: "u32 \<Rightarrow> ('a heap_scheme, unit) cmd" where
  "kfree p =
     (let header = p - sizeof_kheader in
      bnd (set_allocated header 0) (\<lambda>_. glue_chunk header))"

end
