(* ===== verification/Kernel_List.thy ===== *)
theory Kernel_List
  imports Kernel_Heap "HOL-Library.Multiset"
begin

text \<open>
  The arrays of pointers of \<open>kernel/lib/list.c\<close>. A \<open>list_t\<close> and its array of
  elements are objects that \<open>kmalloc\<close> returned: the state holds them by address, each
  with the type the C code gives it. An access to an address that holds no such
  object, or outside an array, is \<open>Bad_Access\<close>; a slot that was never
  written is \<open>None\<close>.
\<close>

section \<open>State\<close>

record list_t =
  elems :: u32
  capacity :: u32
  list_size :: u32
  curr :: u32

record objects = heap +
  lists :: "u32 \<Rightarrow> list_t option"
  arrays :: "u32 \<Rightarrow> u32 option list option"

definition INITIAL_CAPACITY :: u32 where "INITIAL_CAPACITY = 8"

definition sizeof_list :: u32 where "sizeof_list = 16"

definition the_obj :: "'b option \<Rightarrow> ('s, 'b) cmd" where
  "the_obj x = (case x of None \<Rightarrow> fault Bad_Access | Some v \<Rightarrow> ret v)"

definition get_list :: "u32 \<Rightarrow> ('a objects_scheme, list_t) cmd" where
  "get_list l = bnd (gets (\<lambda>s. lists s l)) the_obj"

definition put_list :: "u32 \<Rightarrow> list_t \<Rightarrow> ('a objects_scheme, unit) cmd" where
  "put_list l r = upd (\<lambda>s. s\<lparr>lists := (lists s)(l := Some r)\<rparr>)"

definition get_elem :: "u32 \<Rightarrow> u32 \<Rightarrow> ('a objects_scheme, u32) cmd" where
  "get_elem arr i =
     bnd (gets (\<lambda>s. arrays s arr)) (\<lambda>a.
     bnd (the_obj a) (\<lambda>xs.
     if unat i < length xs then the_obj (xs ! unat i) else fault Bad_Access))"

definition put_elem :: "u32 \<Rightarrow> u32 \<Rightarrow> u32 \<Rightarrow> ('a objects_scheme, unit) cmd" where
  "put_elem arr i v =
     bnd (gets (\<lambda>s. arrays s arr)) (\<lambda>a.
     bnd (the_obj a) (\<lambda>xs.
     if unat i < length xs
     then upd (\<lambda>s. s\<lparr>arrays := (arrays s)(arr := Some (xs[unat i := Some v]))\<rparr>)
     else fault Bad_Access))"

section \<open>Creation and destruction\<close>

definition list_new :: "('a objects_scheme, u32) cmd" where
  "list_new =
     bnd (kmalloc_zero sizeof_list) (\<lambda>l.
     bnd (kmalloc (4 * 6)) (\<lambda>e.
     bnd (upd (\<lambda>s. s\<lparr>arrays := (arrays s)(e := Some (replicate 6 None))\<rparr>)) (\<lambda>_.
     bnd (put_list l \<lparr>elems = e, capacity = INITIAL_CAPACITY, list_size = 0, curr = 0\<rparr>) (\<lambda>_.
     ret l))))"

definition destroy_list :: "u32 \<Rightarrow> ('a objects_scheme, unit) cmd" where
  "destroy_list l =
     bnd (get_list l) (\<lambda>r.
     bnd (kfree (elems r)) (\<lambda>_.
     bnd (upd (\<lambda>s. s\<lparr>arrays := (arrays s)(elems r := None)\<rparr>)) (\<lambda>_.
     bnd (kfree l) (\<lambda>_.
     upd (\<lambda>s. s\<lparr>lists := (lists s)(l := None)\<rparr>)))))"

section \<open>The cursor\<close>

definition list_current :: "u32 \<Rightarrow> ('a objects_scheme, u32) cmd" where
  "list_current l =
     bnd (get_list l) (\<lambda>r. if curr r < list_size r then get_elem (elems r) (curr r) else ret 0)"

definition list_next :: "u32 \<Rightarrow> ('a objects_scheme, u32) cmd" where
  "list_next l =
     bnd (get_list l) (\<lambda>r.
     bnd (put_list l (r\<lparr>curr := curr r + 1\<rparr>)) (\<lambda>_. list_current l))"

definition list_is_end :: "u32 \<Rightarrow> ('a objects_scheme, bool) cmd" where
  "list_is_end l = bnd (get_list l) (\<lambda>r. ret (curr r \<ge> list_size r))"

definition list_is_empty :: "u32 \<Rightarrow> ('a objects_scheme, bool) cmd" where
  "list_is_empty l = bnd (get_list l) (\<lambda>r. ret (list_size r = 0))"

definition list_rewind :: "u32 \<Rightarrow> ('a objects_scheme, unit) cmd" where
  "list_rewind l = bnd (get_list l) (\<lambda>r. put_list l (r\<lparr>curr := 0\<rparr>))"

definition list_cyc_next :: "u32 \<Rightarrow> ('a objects_scheme, u32) cmd" where
  "list_cyc_next l =
     bnd (list_is_end l) (\<lambda>e. bnd (if e then list_rewind l else skip) (\<lambda>_. list_next l))"

section \<open>Elements\<close>

definition list_push_back :: "u32 \<Rightarrow> u32 \<Rightarrow> ('a objects_scheme, unit) cmd" where
  "list_push_back l ptr =
     bnd (get_list l) (\<lambda>r.
     bnd (put_list l (r\<lparr>list_size := list_size r + 1\<rparr>)) (\<lambda>_.
     put_elem (elems r) (list_size r) ptr))"

definition list_remove :: "u32 \<Rightarrow> ('a objects_scheme, unit) cmd" where
  "list_remove l =
     bnd (list_is_end l) (\<lambda>e.
     if e then skip
     else
       bnd (get_list l) (\<lambda>r.
       bnd (get_elem (elems r) (list_size r - 1)) (\<lambda>tmp.
       bnd (get_elem (elems r) (curr r)) (\<lambda>c.
       bnd (put_elem (elems r) (list_size r - 1) c) (\<lambda>_.
       bnd (put_elem (elems r) (curr r) tmp) (\<lambda>_.
       put_list l (r\<lparr>list_size := list_size r - 1\<rparr>)))))))"

section \<open>Change of capacity\<close>

text \<open>
  \<open>__resize\<close> is in the source with its calls commented out. Doubling or halving
  ends after at most 32 rounds or never (a product that becomes 0). \<open>memcpy\<close> moves a number
  of bytes, so the last word may be moved in part.
\<close>

definition umin :: "u32 \<Rightarrow> u32 \<Rightarrow> u32" where
  "umin a b = (if a < b then a else b)"

primrec grow_capacity :: "nat \<Rightarrow> u32 \<Rightarrow> u32 \<Rightarrow> ('s, u32) cmd" where
  "grow_capacity 0 desired c = fault Out_of_Fuel"
| "grow_capacity (Suc n) desired c = (if desired > c then grow_capacity n desired (c * 2) else ret c)"

primrec shrink_capacity :: "nat \<Rightarrow> u32 \<Rightarrow> u32 \<Rightarrow> ('s, u32) cmd" where
  "shrink_capacity 0 desired c = fault Out_of_Fuel"
| "shrink_capacity (Suc n) desired c = (if 2 * desired < c then shrink_capacity n desired (c div 2) else ret c)"

text \<open>\<open>n\<close> bytes of an array of words, copied over another.\<close>

definition copy_word :: "nat \<Rightarrow> u32 option \<Rightarrow> u32 option \<Rightarrow> u32 option" where
  "copy_word k old new =
     (if 4 \<le> k then old else if k = 0 then new
      else case (old, new) of (Some v, Some w) \<Rightarrow> Some (v AND mask (8 * k) OR w AND NOT (mask (8 * k))) | _ \<Rightarrow> None)"

definition copy_words :: "nat \<Rightarrow> u32 option list \<Rightarrow> u32 option list \<Rightarrow> u32 option list option" where
  "copy_words n old new =
     (if n \<le> 4 * length old \<and> n \<le> 4 * length new
      then Some (map (\<lambda>i. if i < length old then copy_word (n - 4 * i) (old ! i) (new ! i) else new ! i)
             [0..<length new])
      else None)"

definition resize :: "u32 \<Rightarrow> u32 \<Rightarrow> ('a objects_scheme, unit) cmd" where
  "resize l desired_capacity =
     (if INITIAL_CAPACITY > desired_capacity then skip
      else
        bnd (get_list l) (\<lambda>r.
        bnd (grow_capacity 33 desired_capacity (capacity r + (if capacity r = 0 then 1 else 0))) (\<lambda>c.
        bnd (shrink_capacity 33 desired_capacity c) (\<lambda>new_capacity.
        bnd (kmalloc_zero (4 * new_capacity)) (\<lambda>new_elems.
        bnd (upd (\<lambda>s. s\<lparr>arrays := (arrays s)(new_elems := Some (replicate (unat new_capacity) (Some 0)))\<rparr>)) (\<lambda>_.
        bnd (if elems r \<noteq> 0 then
               bnd (gets (\<lambda>s. arrays s (elems r))) (\<lambda>a.
               bnd (the_obj a) (\<lambda>old.
               bnd (the_obj (copy_words (unat (umin (capacity r) new_capacity)) old
                     (replicate (unat new_capacity) (Some 0)))) (\<lambda>xs.
               bnd (upd (\<lambda>s. s\<lparr>arrays := (arrays s)(new_elems := Some xs, elems r := None)\<rparr>)) (\<lambda>_.
               kfree (elems r)))))
             else skip) (\<lambda>_.
        put_list l (r\<lparr>capacity := new_capacity, elems := new_elems\<rparr>))))))))"

section \<open>What the lists stand for\<close>

text \<open>The list at \<open>l\<close> holds \<open>xs\<close>, its cursor is \<open>c\<close>, and its array has \<open>slots s l\<close> elements.\<close>

definition list_rep :: "'a objects_scheme \<Rightarrow> u32 \<Rightarrow> u32 list \<Rightarrow> nat \<Rightarrow> bool" where
  "list_rep s l xs c \<longleftrightarrow> (\<exists>r arr. lists s l = Some r \<and> arrays s (elems r) = Some arr
     \<and> list_size r = of_nat (length xs) \<and> curr r = of_nat c \<and> c < 4294967295
     \<and> length xs \<le> length arr \<and> length arr < 4294967295 \<and> take (length xs) arr = map Some xs)"

definition slots :: "'a objects_scheme \<Rightarrow> u32 \<Rightarrow> nat" where
  "slots s l = (case lists s l of None \<Rightarrow> 0
     | Some r \<Rightarrow> (case arrays s (elems r) of None \<Rightarrow> 0 | Some arr \<Rightarrow> length arr))"

lemma list_repE:
  assumes "list_rep s l xs c"
  obtains r arr where "lists s l = Some r" "arrays s (elems r) = Some arr"
    "list_size r = of_nat (length xs)" "curr r = of_nat c" "unat (curr r) = c"
    "unat (list_size r) = length xs" "length xs \<le> length arr" "length arr < 4294967295"
    "c < 4294967295" "take (length xs) arr = map Some xs"
  using assms unfolding list_rep_def by (force simp: unat_of_nat)

lemma the_obj_Some [cmd_simps]: "the_obj (Some x) s = Inr (x, s)"
  by (simp add: the_obj_def ret_def)

lemma get_list_run: "lists s l = Some r \<Longrightarrow> get_list l s = Inr (r, s)"
  by (simp add: get_list_def cmd_simps)

lemma put_list_run [cmd_simps]: "put_list l r s = Inr ((), s\<lparr>lists := (lists s)(l := Some r)\<rparr>)"
  by (simp add: put_list_def cmd_simps)

lemma slot_of_prefix:
  "take n arr = map Some xs \<Longrightarrow> length xs = n \<Longrightarrow> i < n \<Longrightarrow> arr ! i = Some (xs ! i)"
  by (metis nth_map nth_take)

lemma list_is_end_run: "list_rep s l xs c \<Longrightarrow> list_is_end l s = Inr (length xs \<le> c, s)"
  by (erule list_repE) (simp add: list_is_end_def get_list_run cmd_simps word_le_nat_alt)

lemma list_is_empty_run: "list_rep s l xs c \<Longrightarrow> list_is_empty l s = Inr (xs = [], s)"
  by (erule list_repE) (auto simp: list_is_empty_def get_list_run cmd_simps word_unat_eq_iff)

lemma list_current_run:
  "list_rep s l xs c \<Longrightarrow> list_current l s = Inr (if c < length xs then xs ! c else 0, s)"
  by (erule list_repE)
    (simp add: list_current_def get_list_run get_elem_def cmd_simps word_less_nat_alt slot_of_prefix)

text \<open>Only the cursor of the list changes.\<close>

definition with_cursor :: "'a objects_scheme \<Rightarrow> u32 \<Rightarrow> nat \<Rightarrow> 'a objects_scheme" where
  "with_cursor s l c = s\<lparr>lists := (lists s)(l := map_option (\<lambda>r. r\<lparr>curr := of_nat c\<rparr>) (lists s l))\<rparr>"

lemma list_rep_cursor: "list_rep s l xs c \<Longrightarrow> c' < 4294967295 \<Longrightarrow> list_rep (with_cursor s l c') l xs c'"
  by (force simp: list_rep_def with_cursor_def)

lemma list_rep_cursor_other: "l' \<noteq> l \<Longrightarrow> list_rep (with_cursor s l c) l' xs d = list_rep s l' xs d"
  by (simp add: list_rep_def with_cursor_def)

lemma list_rewind_run: "list_rep s l xs c \<Longrightarrow> list_rewind l s = Inr ((), with_cursor s l 0)"
  by (erule list_repE) (simp add: list_rewind_def get_list_run with_cursor_def cmd_simps)

lemma list_next_run:
  assumes "list_rep s l xs c" and "c < length xs"
  shows "list_next l s = Inr (if Suc c < length xs then xs ! Suc c else 0, with_cursor s l (Suc c))"
proof -
  obtain r where r: "lists s l = Some r" "curr r = of_nat c" "length xs < 4294967295"
    using assms(1) by (rule list_repE) auto
  have "put_list l (r\<lparr>curr := curr r + 1\<rparr>) s = Inr ((), with_cursor s l (Suc c))"
    using r by (simp add: cmd_simps with_cursor_def add.commute)
  moreover have "list_rep (with_cursor s l (Suc c)) l xs (Suc c)"
    using assms r by (intro list_rep_cursor) auto
  ultimately show ?thesis
    using r by (simp add: list_next_def get_list_run list_current_run bnd_run)
qed

lemma slots_with_cursor [simp]: "slots (with_cursor s l c) l' = slots s l'"
  by (simp add: slots_def with_cursor_def split: option.splits)

section \<open>Adding and removing\<close>

lemma list_push_back_room:
  assumes rep: "list_rep s l xs c" and room: "length xs < slots s l"
  shows "\<exists>t. list_push_back l x s = Inr ((), t) \<and> list_rep t l (xs @ [x]) c \<and> slots t l = slots s l"
proof -
  obtain r arr where r: "lists s l = Some r" "arrays s (elems r) = Some arr"
    "list_size r = of_nat (length xs)" "curr r = of_nat c"
    "unat (list_size r) = length xs" "length arr < 4294967295" "c < 4294967295"
    "take (length xs) arr = map Some xs" using rep by (rule list_repE)
  have len: "length xs < length arr" using room r by (simp add: slots_def)
  let ?t = "s\<lparr>lists := (lists s)(l := Some (r\<lparr>list_size := list_size r + 1\<rparr>)),
      arrays := (arrays s)(elems r := Some (arr[length xs := Some x]))\<rparr>"
  have "list_push_back l x s = Inr ((), ?t)"
    using r len by (simp add: list_push_back_def get_list_run put_elem_def cmd_simps)
  moreover have "take (Suc (length xs)) (arr[length xs := Some x]) = map Some xs @ [Some x]"
    using len r(8) by (simp add: take_Suc_conv_app_nth)
  then have "list_rep ?t l (xs @ [x]) c" using r len by (auto simp: list_rep_def add.commute)
  moreover have "slots ?t l = slots s l" using r by (simp add: slots_def)
  ultimately show ?thesis by blast
qed

lemma list_push_back_full:
  assumes "list_rep s l xs c" and "length xs = slots s l"
  shows "list_push_back l x s = Inl Bad_Access"
  using assms(1)
  by (rule list_repE) (use assms(2) in \<open>simp add: list_push_back_def get_list_run put_elem_def slots_def cmd_simps\<close>)

lemma swap_prefix:
  assumes "take n arr = map Some xs" and "length xs = n" and "c < n" and "n \<le> length arr"
  shows "take (n - 1) (arr[n - 1 := Some (xs ! c), c := Some (xs ! (n - 1))])
    = map Some (butlast (xs[c := last xs]))"
proof (rule nth_equalityI)
  show "length (take (n - 1) (arr[n - 1 := Some (xs ! c), c := Some (xs ! (n - 1))]))
      = length (map Some (butlast (xs[c := last xs])))" using assms(2,4) by simp
  fix i assume "i < length (take (n - 1) (arr[n - 1 := Some (xs ! c), c := Some (xs ! (n - 1))]))"
  then have i: "i < n - 1" by simp
  have l: "last xs = xs ! (n - 1)" using assms(2,3) by (intro trans [OF last_conv_nth]) auto
  have e: "arr ! i = Some (xs ! i)" using i by (intro slot_of_prefix [OF assms(1,2)]) simp
  have len: "i < length arr" "i < length (butlast (xs[c := last xs]))" using i assms(2,4) by simp_all
  have "take (n - 1) (arr[n - 1 := Some (xs ! c), c := Some (xs ! (n - 1))]) ! i
      = (if i = c then Some (xs ! (n - 1)) else Some (xs ! i))"
    using i len e by (simp add: nth_list_update)
  also have "\<dots> = map Some (butlast (xs[c := last xs])) ! i"
    using len i assms(2) by (simp add: nth_butlast nth_list_update l)
  finally show "take (n - 1) (arr[n - 1 := Some (xs ! c), c := Some (xs ! (n - 1))]) ! i
      = map Some (butlast (xs[c := last xs])) ! i" .
qed

lemma list_remove_run:
  assumes rep: "list_rep s l xs c" and c: "c < length xs"
  shows "\<exists>t. list_remove l s = Inr ((), t) \<and> list_rep t l (butlast (xs[c := last xs])) c
    \<and> slots t l = slots s l"
proof -
  obtain r arr where r: "lists s l = Some r" "arrays s (elems r) = Some arr"
    "list_size r = of_nat (length xs)" "curr r = of_nat c" "unat (curr r) = c"
    "unat (list_size r) = length xs" "length xs \<le> length arr" "length arr < 4294967295"
    "take (length xs) arr = map Some xs" using rep by (rule list_repE)
  let ?n = "length xs" and ?arr = "arr[length xs - 1 := Some (xs ! c), c := Some (xs ! (length xs - 1))]"
  let ?t = "s\<lparr>arrays := (arrays s)(elems r := Some ?arr),
      lists := (lists s)(l := Some (r\<lparr>list_size := list_size r - 1\<rparr>))\<rparr>"
  have one: "1 \<le> list_size r" using c r(6) by (simp add: word_le_nat_alt)
  then have u: "unat (list_size r - 1) = ?n - 1" by (simp add: unat_sub r(6))
  have e: "arr ! c = Some (xs ! c)" "arr ! (?n - 1) = Some (xs ! (?n - 1))"
    using slot_of_prefix [OF r(9) refl] c by simp_all
  have end': "list_is_end l s = Inr (False, s)" using list_is_end_run [OF rep] c by simp
  have "list_remove l s = Inr ((), ?t)"
    using r c e u by (simp add: list_remove_def end' get_list_run get_elem_def put_elem_def cmd_simps)
  moreover have "list_rep ?t l (butlast (xs[c := last xs])) c"
  proof -
    have "list_size r - 1 = of_nat (?n - 1)" unfolding u [symmetric] by simp
    moreover have "take (?n - 1) ?arr = map Some (butlast (xs[c := last xs]))"
      by (rule swap_prefix [OF r(9) refl c r(7)])
    ultimately show ?thesis using r c unfolding list_rep_def
      by (intro exI [of _ "r\<lparr>list_size := list_size r - 1\<rparr>"] exI [of _ ?arr]) auto
  qed
  moreover have "slots ?t l = slots s l" using r by (simp add: slots_def)
  ultimately show ?thesis by blast
qed

section \<open>The interface\<close>

text \<open>
  What the users of a list rely on: a sequence with a cursor. \<open>rep\<close> relates a state to
  the sequence and the cursor that a handle stands for, \<open>room\<close> is how many
  elements the handle can hold.
\<close>

locale cursor_list =
  fixes rep :: "'s \<Rightarrow> 'h \<Rightarrow> 'e list \<Rightarrow> nat \<Rightarrow> bool"
    and room :: "'s \<Rightarrow> 'h \<Rightarrow> nat"
    and null :: 'e
    and at_end :: "'h \<Rightarrow> ('s, bool) cmd"
    and current :: "'h \<Rightarrow> ('s, 'e) cmd"
    and advance :: "'h \<Rightarrow> ('s, 'e) cmd"
    and rewind :: "'h \<Rightarrow> ('s, unit) cmd"
    and push :: "'h \<Rightarrow> 'e \<Rightarrow> ('s, unit) cmd"
    and remove :: "'h \<Rightarrow> ('s, unit) cmd"
  assumes at_end: "rep s l xs c \<Longrightarrow> at_end l s = Inr (length xs \<le> c, s)"
    and current: "rep s l xs c \<Longrightarrow> current l s = Inr (if c < length xs then xs ! c else null, s)"
    and advance: "rep s l xs c \<Longrightarrow> c < length xs \<Longrightarrow>
      \<exists>t. advance l s = Inr (if Suc c < length xs then xs ! Suc c else null, t) \<and> rep t l xs (Suc c)"
    and rewind: "rep s l xs c \<Longrightarrow> \<exists>t. rewind l s = Inr ((), t) \<and> rep t l xs 0"
    and push: "rep s l xs c \<Longrightarrow> length xs < room s l \<Longrightarrow>
      \<exists>t. push l x s = Inr ((), t) \<and> rep t l (xs @ [x]) c \<and> room t l = room s l"
    and remove: "rep s l xs c \<Longrightarrow> c < length xs \<Longrightarrow>
      \<exists>t. remove l s = Inr ((), t) \<and> rep t l (butlast (xs[c := last xs])) c \<and> room t l = room s l"
begin

lemma push_all:
  "rep s l xs c \<Longrightarrow> length xs + length ys \<le> room s l \<Longrightarrow>
   \<exists>t. cfor ys (push l) s = Inr ((), t) \<and> rep t l (xs @ ys) c \<and> room t l = room s l"
proof (induction ys arbitrary: s xs)
  case Nil
  then show ?case by simp
next
  case (Cons y ys)
  obtain u where u: "push l y s = Inr ((), u)" "rep u l (xs @ [y]) c" "room u l = room s l"
    using push [OF Cons.prems(1), of y] Cons.prems(2) by auto
  have "length (xs @ [y]) + length ys \<le> room u l" using Cons.prems(2) u(3) by simp
  from Cons.IH [OF u(2) this] u(1,3) show ?case by auto
qed

lemma collect:
  "rep s l xs c \<Longrightarrow> c + n \<le> length xs \<Longrightarrow>
   \<exists>t. crepeat n (bnd (current l) (\<lambda>x. bnd (advance l) (\<lambda>_. ret x))) s = Inr (take n (drop c xs), t)
     \<and> rep t l xs (c + n)"
proof (induction n arbitrary: s c)
  case 0
  then show ?case by (auto simp: ret_run)
next
  case (Suc n)
  have c: "c < length xs" using Suc.prems(2) by simp
  obtain u where u: "advance l s = Inr (if Suc c < length xs then xs ! Suc c else null, u)"
    "rep u l xs (Suc c)" using advance [OF Suc.prems(1) c] by blast
  have "Suc c + n \<le> length xs" using Suc.prems(2) by simp
  from Suc.IH [OF u(2) this] obtain t where t:
    "crepeat n (bnd (current l) (\<lambda>x. bnd (advance l) (\<lambda>_. ret x))) u = Inr (take n (drop (Suc c) xs), t)"
    "rep t l xs (Suc c + n)" by blast
  have "take (Suc n) (drop c xs) = xs ! c # take n (drop (Suc c) xs)"
    using c by (simp add: Cons_nth_drop_Suc [symmetric])
  define g where "g = bnd (current l) (\<lambda>x. bnd (advance l) (\<lambda>_. ret x))"
  have "g s = Inr (xs ! c, u)"
    using current [OF Suc.prems(1)] c u(1) by (simp add: g_def bnd_run ret_run)
  then have "crepeat (Suc n) g s = Inr (xs ! c # take n (drop (Suc c) xs), t)"
    using t(1) unfolding g_def [symmetric] by (simp add: bnd_run ret_run)
  then show ?case using t(2) \<open>take (Suc n) _ = _\<close> unfolding g_def [symmetric] by simp
qed

lemma fill_and_read:
  assumes "rep s l [] c" and "length ys \<le> room s l"
  shows "\<exists>t. bnd (cfor ys (push l)) (\<lambda>_. bnd (rewind l) (\<lambda>_.
      crepeat (length ys) (bnd (current l) (\<lambda>x. bnd (advance l) (\<lambda>_. ret x))))) s = Inr (ys, t)
    \<and> rep t l ys (length ys) \<and> at_end l t = Inr (True, t)"
proof -
  obtain u where u: "cfor ys (push l) s = Inr ((), u)" "rep u l ys c"
    using push_all [OF assms(1), of ys] assms(2) by auto
  obtain v where v: "rewind l u = Inr ((), v)" "rep v l ys 0" using rewind [OF u(2)] by blast
  obtain t where t: "crepeat (length ys) (bnd (current l) (\<lambda>x. bnd (advance l) (\<lambda>_. ret x))) v = Inr (ys, t)"
    "rep t l ys (length ys)" using collect [OF v(2), of "length ys"] by auto
  show ?thesis using u(1) v(1) t at_end [OF t(2)] by (simp add: bnd_run)
qed

text \<open>Removing while walking: the elements that are not removed stay, each as often as before.\<close>

lemma remove_keeps_others:
  assumes "rep s l xs c" and "c < length xs"
  shows "\<exists>t ys. remove l s = Inr ((), t) \<and> rep t l ys c \<and> mset ys = mset xs - {#xs ! c#}
    \<and> Suc (length ys) = length xs"
proof -
  let ?ys = "butlast (xs[c := last xs])"
  have ne: "xs \<noteq> []" using assms(2) by auto
  have l: "last (xs[c := last xs]) = last xs"
    using assms(2) by (cases "c = length xs - 1") (auto simp: last_conv_nth nth_list_update ne)
  have "mset (xs[c := last xs]) = mset xs - {#xs ! c#} + {#last xs#}"
    using assms(2) by (simp add: mset_update)
  moreover have "mset (xs[c := last xs]) = mset ?ys + {#last xs#}"
    using append_butlast_last_id [of "xs[c := last xs]"] ne l
    by (metis list_update_nonempty mset.simps mset_append add_mset_add_single union_mset_add_mset_right add.right_neutral)
  ultimately have "mset ?ys = mset xs - {#xs ! c#}" by simp
  moreover have "Suc (length ?ys) = length xs" using assms(2) by simp
  ultimately show ?thesis using remove [OF assms] by blast
qed

end

interpretation klist: cursor_list list_rep slots 0 list_is_end list_current list_next list_rewind
  list_push_back list_remove
proof (unfold_locales, goal_cases)
  case 1
  then show ?case by (rule list_is_end_run)
next
  case 2
  then show ?case by (rule list_current_run)
next
  case (3 s l xs c)
  have "Suc c < 4294967295" using 3 by (elim list_repE) simp
  then show ?case using list_next_run [OF 3] list_rep_cursor [OF 3(1)] by blast
next
  case (4 s l xs c)
  then show ?case using list_rewind_run [OF 4] list_rep_cursor [OF 4, of 0] by simp
next
  case 5
  then show ?case by (rule list_push_back_room)
next
  case 6
  then show ?case by (rule list_remove_run)
qed

section \<open>Properties\<close>

text \<open>A list as \<open>list_new\<close> sets it up: capacity 8, an array of 6 slots.\<close>

definition demo_list :: objects where
  "demo_list = heap.extend (vm.extend demo (heap.fields 0xF0001000 0xF0000000))
     (objects.fields
       ((\<lambda>_. None)(0xF000000C := Some \<lparr>elems = 0xF0000028, capacity = 8, list_size = 0, curr = 0\<rparr>))
       ((\<lambda>_. None)(0xF0000028 := Some (replicate 6 None))))"

lemma demo_list_rep: "list_rep demo_list 0xF000000C [] 0" "slots demo_list 0xF000000C = 6"
  by (simp_all add: list_rep_def slots_def demo_list_def objects.defs heap.defs vm.defs)

text \<open>C27: A list gives back what was put in. Elements pushed onto an empty list, in any number that its
  array has slots for, are what a walk from the rewound cursor reads, in order; the walk ends
  at the end of the list.\<close>

theorem list_fill_and_read:
  assumes "list_rep s l [] c" and "length ys \<le> slots s l"
  shows "\<exists>t. bnd (cfor ys (list_push_back l)) (\<lambda>_. bnd (list_rewind l) (\<lambda>_.
      crepeat (length ys) (bnd (list_current l) (\<lambda>x. bnd (list_next l) (\<lambda>_. ret x))))) s = Inr (ys, t)
    \<and> list_rep t l ys (length ys) \<and> list_is_end l t = Inr (True, t)"
  using assms by (rule klist.fill_and_read)

theorem list_fill_and_read_witness:
  "\<exists>t. bnd (cfor [7, 5, 9] (list_push_back 0xF000000C)) (\<lambda>_. bnd (list_rewind 0xF000000C) (\<lambda>_.
      crepeat 3 (bnd (list_current 0xF000000C) (\<lambda>x. bnd (list_next 0xF000000C) (\<lambda>_. ret x)))))
      demo_list = Inr ([7, 5, 9], t)"
  using list_fill_and_read [OF demo_list_rep(1), of "[7, 5, 9]"] demo_list_rep(2)
  by (auto simp: numeral_3_eq_3 simp del: crepeat.simps)

text \<open>C28: The array bounds the list, the capacity does not. Pushing an element succeeds as long as a
  slot is left and writes outside the array when none is; removing the element under the cursor
  keeps every other element as often as before. \<open>list_new\<close> allocates 6 slots and
  records a capacity of 8, which \<open>list_push_back\<close> never reads: the seventh push is the bad one.\<close>

theorem list_push_back_bounds:
  assumes "list_rep s l xs c"
  shows "(length xs < slots s l \<longrightarrow> (\<exists>t. list_push_back l x s = Inr ((), t) \<and> list_rep t l (xs @ [x]) c))
    \<and> (length xs = slots s l \<longrightarrow> list_push_back l x s = Inl Bad_Access)
    \<and> (c < length xs \<longrightarrow> (\<exists>t ys. list_remove l s = Inr ((), t) \<and> list_rep t l ys c
      \<and> mset ys = mset xs - {#xs ! c#} \<and> Suc (length ys) = length xs))"
  using list_push_back_room [OF assms, of x] list_push_back_full [OF assms, of x]
    klist.remove_keeps_others [OF assms] by blast

theorem list_push_back_bounds_witness:
  "\<exists>t. cfor [1, 2, 3, 4, 5, 6] (list_push_back 0xF000000C) demo_list = Inr ((), t)
    \<and> list_push_back 0xF000000C 7 t = Inl Bad_Access
    \<and> (\<exists>r. lists t 0xF000000C = Some r \<and> list_size r = 6)"
proof -
  obtain t where t: "cfor [1, 2, 3, 4, 5, 6] (list_push_back 0xF000000C) demo_list = Inr ((), t)"
    "list_rep t 0xF000000C [1, 2, 3, 4, 5, 6] 0" "slots t 0xF000000C = 6"
    using klist.push_all [OF demo_list_rep(1), of "[1, 2, 3, 4, 5, 6]"] demo_list_rep(2) by auto
  have "list_push_back 0xF000000C 7 t = Inl Bad_Access"
    using list_push_back_bounds [OF t(2), of 7] by (simp add: t(3))
  moreover have "\<exists>r. lists t 0xF000000C = Some r \<and> list_size r = 6"
    using t(2) by (auto simp: list_rep_def)
  ultimately show ?thesis using t(1) by blast
qed

end
