(* ===== verification/Kernel_Clone.thy ===== *)
theory Kernel_Clone
  imports Kernel_Heap
begin

text \<open>
  Copies of address spaces: \<open>clone_directory\<close> and \<open>destroy_directory\<close> of
  \<open>kernel/mm/vmm.c\<close>, which build and take apart the tables of another directory
  through two mount points, and \<open>copy_page_physical\<close> of \<open>kernel/asm/vmm.s\<close>.
\<close>

section \<open>Copying a page\<close>

text \<open>
  The routine switches paging off and moves 1024 words. Its first argument is the
  address it reads, its second the address it writes.
\<close>

definition copy_page_physical :: "u32 \<Rightarrow> u32 \<Rightarrow> ('a vm_scheme, unit) cmd" where
  "copy_page_physical ebx ecx =
     cfor [0..<1024] (\<lambda>k. upd (\<lambda>s. s\<lparr>ram := st32 (ram s) (ecx + 4 * of_nat k)
       (ld32 (ram s) (ebx + 4 * of_nat k))\<rparr>))"

section \<open>Cloning\<close>

definition sizeof_page_directory :: u32 where "sizeof_page_directory = 12"

text \<open>\<open>PAGE_PRESENT | PAGE_WRITE\<close> and the same with \<open>PAGE_USER\<close>.\<close>

abbreviation kernel_flags :: "u32 \<Rightarrow> u32" where
  "kernel_flags p \<equiv> p OR PAGE_PRESENT OR PAGE_WRITE"

abbreviation user_flags :: "u32 \<Rightarrow> u32" where
  "user_flags p \<equiv> p OR PAGE_PRESENT OR PAGE_WRITE OR PAGE_USER"

definition clone_page :: "page_directory_mount \<Rightarrow> page_directory_mount \<Rightarrow> u32 \<Rightarrow> ('a vm_scheme, unit) cmd" where
  "clone_page src dest j =
     bnd (vld32 (m_pages src + 4 * j)) (\<lambda>x.
     if x = 0 then skip
     else
       bnd pmm_alloc_page (\<lambda>p.
       bnd (vst32 (m_pages dest + 4 * j) (user_flags p)) (\<lambda>_.
       bnd (vld32 (m_pages dest + 4 * j)) (\<lambda>d.
       bnd (vld32 (m_pages src + 4 * j)) (\<lambda>x.
       bnd (copy_page_physical d (PAGE_ADDR_MASK AND x)) (\<lambda>_.
       bnd (vld32 (m_pages src + 4 * j)) (\<lambda>x.
       bnd (vld32 (m_pages dest + 4 * j)) (\<lambda>d.
       vst32 (m_pages dest + 4 * j) (d OR (PAGE_FLAGS_MASK AND x))))))))))"

definition clone_table :: "page_directory_mount \<Rightarrow> page_directory_mount \<Rightarrow> nat \<Rightarrow> ('a vm_scheme, unit) cmd" where
  "clone_table src dest i =
     bnd (vld32 (m_directory src + 4 * of_nat i)) (\<lambda>e.
     if e = 0 then skip
     else
       bnd (gets (\<lambda>s. dirs s Kernel_Directory)) (\<lambda>k.
       bnd (vld32 (dir_slot k (of_nat i))) (\<lambda>ke.
       if e = ke then vst32 (m_directory dest + 4 * of_nat i) e
       else
         bnd pmm_alloc_page (\<lambda>p.
         bnd (vst32 (m_directory dest + 4 * of_nat i) (user_flags p)) (\<lambda>_.
         bnd (memset (m_pages dest + 4 * (of_nat i * 1024)) 0 PAGE_SIZE) (\<lambda>_.
         cfor [1024 * i..<1024 * (i + 1)] (\<lambda>j. clone_page src dest (of_nat j))))))))"

definition clone_directory :: "dirref \<Rightarrow> ('a heap_scheme, dirref) cmd" where
  "clone_directory src_dir =
     bnd (kmalloc sizeof_page_directory) (\<lambda>a.
     let dest_dir = Heap_Directory a in
     bnd pmm_alloc_page (\<lambda>ph.
     bnd (upd (\<lambda>s. s\<lparr>dirs := (dirs s)(dest_dir := (dirs s dest_dir)\<lparr>physical := ph\<rparr>)\<rparr>)) (\<lambda>_.
     bnd (mount_directory src_dir) (\<lambda>src.
     bnd (mount_directory dest_dir) (\<lambda>dest.
     bnd (memset (m_directory dest) 0 PAGE_SIZE) (\<lambda>_.
     bnd (cfor [0..<1024] (clone_table src dest)) (\<lambda>_.
     bnd (upd (\<lambda>s. s\<lparr>dirs := (dirs s)(dest_dir :=
       (dirs s dest_dir)\<lparr>directory := USER_DIR_VIRTUAL, pages := USER_TABLES_VIRTUAL\<rparr>)\<rparr>)) (\<lambda>_.
     bnd pmm_alloc_page (\<lambda>p.
     bnd (vst32 (m_directory dest + 4 * PGDIR_IDX_FROM_ADDR USER_DIR_VIRTUAL) (kernel_flags p)) (\<lambda>_.
     bnd (vst32 (m_pages dest + 4 * PG_NUM_FROM_ADDR USER_DIR_VIRTUAL) (kernel_flags ph)) (\<lambda>_.
     bnd (vst32 (m_directory dest + 4 * PGDIR_IDX_FROM_ADDR USER_TABLES_VIRTUAL) (kernel_flags ph)) (\<lambda>_.
     bnd (umount_directory src) (\<lambda>_.
     bnd (umount_directory dest) (\<lambda>_.
     ret dest_dir))))))))))))))"

section \<open>Destruction\<close>

definition destroy_table :: "page_directory_mount \<Rightarrow> u32 \<Rightarrow> u32 \<Rightarrow> nat \<Rightarrow> ('a vm_scheme, unit) cmd" where
  "destroy_table mp dir_entry page_num i =
     bnd (vld32 (m_directory mp + 4 * of_nat i)) (\<lambda>e.
     bnd (gets (\<lambda>s. dirs s Kernel_Directory)) (\<lambda>k.
     bnd (if e = 0 then ret True
          else bnd (vld32 (dir_slot k (of_nat i))) (\<lambda>ke. ret (e = ke \<or> of_nat i = dir_entry))) (\<lambda>spare.
     if spare then skip
     else
       bnd (cfor [1024 * i..<1024 * (i + 1)] (\<lambda>j.
         bnd (vld32 (m_pages mp + 4 * of_nat j)) (\<lambda>x.
         if x = 0 \<or> of_nat j = page_num then skip
         else pmm_free_page (x AND PAGE_ADDR_MASK)))) (\<lambda>_.
       bnd (vld32 (m_directory mp + 4 * of_nat i)) (\<lambda>e.
       pmm_free_page (e AND PAGE_ADDR_MASK))))))"

definition destroy_directory :: "dirref \<Rightarrow> ('a heap_scheme, unit) cmd" where
  "destroy_directory dir =
     (case dir of
       Kernel_Directory \<Rightarrow> panic ''VMM: deleting kernel (reference) directory.''
     | Heap_Directory a \<Rightarrow>
         bnd (mount_directory dir) (\<lambda>mp.
         bnd (gets (\<lambda>s. dirs s dir)) (\<lambda>d.
         let dir_entry = PGDIR_IDX_FROM_ADDR (pages d); page_num = PG_NUM_FROM_ADDR (directory d);
             kernel_limit = unat (PGDIR_IDX_FROM_ADDR KERNEL_ADDRESS_SPACE) in
         bnd (cfor [0..<kernel_limit] (destroy_table mp dir_entry page_num)) (\<lambda>_.
         bnd (pmm_free_page (physical d)) (\<lambda>_.
         bnd (umount_directory mp) (\<lambda>_.
         kfree a))))))"

end
