(* ===== verification/Kernel_Thread.thy ===== *)
theory Kernel_Thread
  imports Kernel_List Kernel_Clone
begin

text \<open>
  Threads and tasks: \<open>kernel/sched/thread.c\<close>, \<open>kernel/sched/task.c\<close> and the register
  handling of \<open>kernel/asm/thread.s\<close> and \<open>kernel/asm/task.s\<close>. A \<open>thread_t\<close> and a \<open>task_t\<close>
  are objects by address, like the lists of \<open>Kernel_List\<close>; the fields keep the names of
  the C structures behind \<open>th_\<close> and \<open>task_\<close>.
\<close>

section \<open>Data\<close>

definition THREAD_RUNNING :: u8 where "THREAD_RUNNING = 1"
definition THREAD_WAITING :: u8 where "THREAD_WAITING = 2"
definition THREAD_DYING :: u8 where "THREAD_DYING = 4"
definition THREAD_STACK_SIZE :: u32 where "THREAD_STACK_SIZE = 0x1000"

record thread =
  th_esp :: u32
  th_ebp :: u32
  th_ebx :: u32
  th_esi :: u32
  th_edi :: u32
  th_eflags :: u32
  th_esp0 :: u32
  th_tid :: u32
  th_stack_size :: u32
  th_state :: u8

record task =
  task_page_directory :: dirref
  task_pid :: u32
  task_threads :: u32

text \<open>The registers that a switch of threads saves and loads.\<close>

record registers_saved =
  sv_esp :: u32
  sv_ebp :: u32
  sv_ebx :: u32
  sv_esi :: u32
  sv_edi :: u32
  sv_eflags :: u32

record threading = objects +
  thread_objs :: "u32 \<Rightarrow> thread option"
  task_objs :: "u32 \<Rightarrow> task option"
  current_thread :: u32
  next_tid :: u32
  kernel_thread :: u32
  current_task :: u32
  next_pid :: u32
  kernel_task :: u32
  cpu :: registers_saved
  interrupts :: bool

definition sizeof_thread :: u32 where "sizeof_thread = 40"
definition sizeof_task :: u32 where "sizeof_task = 12"

definition zero_thread :: thread where
  "zero_thread = \<lparr>th_esp = 0, th_ebp = 0, th_ebx = 0, th_esi = 0, th_edi = 0, th_eflags = 0,
     th_esp0 = 0, th_tid = 0, th_stack_size = 0, th_state = 0\<rparr>"

definition get_thread :: "u32 \<Rightarrow> ('a threading_scheme, thread) cmd" where
  "get_thread p = bnd (gets (\<lambda>s. thread_objs s p)) the_obj"

definition put_thread :: "u32 \<Rightarrow> thread \<Rightarrow> ('a threading_scheme, unit) cmd" where
  "put_thread p t = upd (\<lambda>s. s\<lparr>thread_objs := (thread_objs s)(p := Some t)\<rparr>)"

definition get_task :: "u32 \<Rightarrow> ('a threading_scheme, task) cmd" where
  "get_task p = bnd (gets (\<lambda>s. task_objs s p)) the_obj"

definition put_task :: "u32 \<Rightarrow> task \<Rightarrow> ('a threading_scheme, unit) cmd" where
  "put_task p t = upd (\<lambda>s. s\<lparr>task_objs := (task_objs s)(p := Some t)\<rparr>)"

text \<open>\<open>next_tid++\<close> and \<open>next_pid++\<close>.\<close>

definition fresh_tid :: "('a threading_scheme, u32) cmd" where
  "fresh_tid = bnd (gets next_tid) (\<lambda>n. bnd (upd (\<lambda>s. s\<lparr>next_tid := next_tid s + 1\<rparr>)) (\<lambda>_. ret n))"

definition fresh_pid :: "('a threading_scheme, u32) cmd" where
  "fresh_pid = bnd (gets next_pid) (\<lambda>n. bnd (upd (\<lambda>s. s\<lparr>next_pid := next_pid s + 1\<rparr>)) (\<lambda>_. ret n))"

section \<open>Registers\<close>

definition saved :: "registers_saved \<Rightarrow> thread \<Rightarrow> thread" where
  "saved c t = t\<lparr>th_esp := sv_esp c, th_ebp := sv_ebp c, th_ebx := sv_ebx c, th_esi := sv_esi c,
     th_edi := sv_edi c, th_eflags := sv_eflags c\<rparr>"

definition loaded :: "thread \<Rightarrow> registers_saved" where
  "loaded t = \<lparr>sv_esp = th_esp t, sv_ebp = th_ebp t, sv_ebx = th_ebx t, sv_esi = th_esi t,
     sv_edi = th_edi t, sv_eflags = th_eflags t\<rparr>"

definition save_thread_state :: "u32 \<Rightarrow> ('a threading_scheme, unit) cmd" where
  "save_thread_state p =
     bnd (get_thread p) (\<lambda>t. bnd (gets cpu) (\<lambda>c. put_thread p (saved c t)))"

definition load_thread_state :: "u32 \<Rightarrow> ('a threading_scheme, unit) cmd" where
  "load_thread_state p = bnd (get_thread p) (\<lambda>t. upd (\<lambda>s. s\<lparr>cpu := loaded t\<rparr>))"

text \<open>A \<open>task\<close> of 0 keeps the current task and its address space. The flags go to their register through the
  new stack (\<open>push\<close>, \<open>popf\<close>); the word below its top that this overwrites is not in the model.\<close>

definition switch_context :: "u32 \<Rightarrow> u32 \<Rightarrow> ('a threading_scheme, unit) cmd" where
  "switch_context th task =
     bnd (gets current_thread) (\<lambda>old.
     bnd (save_thread_state old) (\<lambda>_.
     bnd (upd (\<lambda>s. s\<lparr>current_thread := th\<rparr>)) (\<lambda>_.
     bnd (if task = 0 then skip
          else
            bnd (upd (\<lambda>s. s\<lparr>current_task := task\<rparr>)) (\<lambda>_.
            bnd (get_task task) (\<lambda>t.
            upd (\<lambda>s. s\<lparr>current_directory := task_page_directory t,
              cr3 := physical (dirs s (task_page_directory t))\<rparr>)))) (\<lambda>_.
     load_thread_state th))))"

section \<open>Threads\<close>

definition init_threading :: "u32 \<Rightarrow> u32 \<Rightarrow> ('a threading_scheme, u32) cmd" where
  "init_threading kstack_top kstack_bottom =
     bnd (kmalloc_zero sizeof_thread) (\<lambda>p.
     bnd (upd (\<lambda>s. s\<lparr>kernel_thread := p, current_thread := p\<rparr>)) (\<lambda>_.
     bnd fresh_tid (\<lambda>tid.
     bnd (put_thread p (zero_thread\<lparr>th_tid := tid, th_state := THREAD_RUNNING,
        th_stack_size := kstack_top - kstack_bottom + 4, th_esp0 := kstack_top\<rparr>)) (\<lambda>_.
     gets current_thread))))"

definition allocate_stack :: "u32 \<Rightarrow> ('a vm_scheme, u32) cmd" where
  "allocate_stack sz =
     bnd (find_free_range USER_STACKS_START USER_STACKS_END sz True) (\<lambda>va.
     if va = USER_STACKS_END then panic ''No place for stacks.''
     else bnd (allocate_range va (va + sz) (PAGE_USER OR PAGE_WRITE)) (\<lambda>_. ret (va + sz)))"

text \<open>\<open>*--stack = v\<close>; the result is the new \<open>stack\<close>.\<close>

definition push :: "u32 \<Rightarrow> u32 \<Rightarrow> ('a vm_scheme, u32) cmd" where
  "push stack v = bnd (vst32 (stack - 4) v) (\<lambda>_. ret (stack - 4))"

text \<open>\<open>exit\<close> is the address of \<open>thread_exit\<close>.\<close>

definition create_thread :: "u32 \<Rightarrow> u32 \<Rightarrow> u32 \<Rightarrow> u32 \<Rightarrow> u32 \<Rightarrow> ('a threading_scheme, u32) cmd" where
  "create_thread exit fn arg stack stack_size =
     bnd (kmalloc_zero sizeof_thread) (\<lambda>p.
     bnd fresh_tid (\<lambda>tid.
     let t = zero_thread\<lparr>th_tid := tid, th_state := THREAD_RUNNING, th_stack_size := stack_size,
       th_esp0 := stack\<rparr> in
     bnd (put_thread p t) (\<lambda>_.
     bnd (push stack 0) (\<lambda>sp.
     bnd (push sp arg) (\<lambda>sp.
     bnd (push sp exit) (\<lambda>sp.
     bnd (push sp fn) (\<lambda>sp.
     bnd (put_thread p (t\<lparr>th_esp := sp, th_ebp := 0, th_eflags := 0x200\<rparr>)) (\<lambda>_.
     ret p))))))))"

definition destroy_thread :: "u32 \<Rightarrow> ('a threading_scheme, unit) cmd" where
  "destroy_thread p =
     bnd (kfree p) (\<lambda>_. upd (\<lambda>s. s\<lparr>thread_objs := (thread_objs s)(p := None)\<rparr>))"

text \<open>What a thread does before it spins forever; \<open>val\<close> is its result, in \<open>eax\<close>.\<close>

definition thread_exit :: "u32 \<Rightarrow> ('a threading_scheme, unit) cmd" where
  "thread_exit val =
     bnd (gets current_thread) (\<lambda>p.
     bnd (get_thread p) (\<lambda>t.
     bnd (put_thread p (t\<lparr>th_state := THREAD_DYING\<rparr>)) (\<lambda>_.
     kprintf_log (''thread exited with value %d'' @ [CHR 0x0A]) [val])))"

section \<open>Tasks\<close>

definition create_task :: "u32 \<Rightarrow> dirref \<Rightarrow> ('a threading_scheme, u32) cmd" where
  "create_task main_thread dir =
     bnd (kmalloc_zero sizeof_task) (\<lambda>p.
     bnd fresh_pid (\<lambda>pid.
     bnd list_new (\<lambda>l.
     bnd (put_task p \<lparr>task_page_directory = dir, task_pid = pid, task_threads = l\<rparr>) (\<lambda>_.
     bnd (list_push_back l main_thread) (\<lambda>_.
     ret p)))))"

definition init_tasking :: "u32 \<Rightarrow> ('a threading_scheme, u32) cmd" where
  "init_tasking init_thread =
     bnd (gets current_directory) (\<lambda>dir.
     bnd (create_task init_thread dir) (\<lambda>p.
     bnd (upd (\<lambda>s. s\<lparr>kernel_task := p, current_task := p\<rparr>)) (\<lambda>_.
     gets current_task)))"

definition task_add_thread :: "u32 \<Rightarrow> u32 \<Rightarrow> ('a threading_scheme, unit) cmd" where
  "task_add_thread task th =
     bnd (get_task task) (\<lambda>t. list_push_back (task_threads t) th)"

text \<open>The loop of \<open>destroy_task\<close>: the cursor rises in every round, so 2^32 rounds are enough.\<close>

primrec destroy_threads :: "nat \<Rightarrow> u32 \<Rightarrow> ('a threading_scheme, unit) cmd" where
  "destroy_threads 0 l = fault Out_of_Fuel"
| "destroy_threads (Suc n) l =
     bnd (list_is_end l) (\<lambda>e.
     if e then skip
     else bnd (list_next l) (\<lambda>th. bnd (destroy_thread th) (\<lambda>_. destroy_threads n l)))"

definition destroy_task :: "u32 \<Rightarrow> ('a threading_scheme, unit) cmd" where
  "destroy_task p =
     bnd (get_task p) (\<lambda>t.
     bnd (list_rewind (task_threads t)) (\<lambda>_.
     bnd (destroy_threads heap_fuel (task_threads t)) (\<lambda>_.
     bnd (destroy_list (task_threads t)) (\<lambda>_.
     bnd (destroy_directory (task_page_directory t)) (\<lambda>_.
     bnd (kfree p) (\<lambda>_.
     upd (\<lambda>s. s\<lparr>task_objs := (task_objs s)(p := None)\<rparr>)))))))"

end
