(* ===== verification/Kernel_Sched.thy ===== *)
theory Kernel_Sched
  imports Kernel_Thread
begin

text \<open>
  The scheduler of \<open>kernel/sched/sched.c\<close>. \<open>tasks\<close> and \<open>threads\<close> are the list of
  tasks and the list of threads of the task that is being served, each with its own cursor.
\<close>

section \<open>State\<close>

record sched = threading +
  tasks :: u32
  threads :: u32

definition init_scheduler :: "u32 \<Rightarrow> ('a sched_scheme, unit) cmd" where
  "init_scheduler initial_task =
     bnd list_new (\<lambda>l.
     bnd (upd (\<lambda>s. s\<lparr>tasks := l\<rparr>)) (\<lambda>_.
     bnd (list_push_back l initial_task) (\<lambda>_.
     bnd (get_task initial_task) (\<lambda>t.
     bnd (upd (\<lambda>s. s\<lparr>threads := task_threads t\<rparr>)) (\<lambda>_.
     bnd (list_next (task_threads t)) (\<lambda>_. skip))))))"

definition schedule_add_task :: "u32 \<Rightarrow> ('a sched_scheme, unit) cmd" where
  "schedule_add_task new_task = bnd (gets tasks) (\<lambda>l. list_push_back l new_task)"

section \<open>The choice of the next thread\<close>

text \<open>The inner loop: every round but the last removes a task.\<close>

primrec pick_task :: "nat \<Rightarrow> ('a sched_scheme, u32) cmd" where
  "pick_task 0 = fault Out_of_Fuel"
| "pick_task (Suc n) =
     bnd (gets tasks) (\<lambda>ts.
     bnd (list_is_end ts) (\<lambda>e.
     bnd (if e then list_rewind ts else skip) (\<lambda>_.
     bnd (list_current ts) (\<lambda>new_task.
     bnd (get_task new_task) (\<lambda>t.
     bnd (list_is_empty (task_threads t)) (\<lambda>empty.
     if empty then
       bnd (list_remove ts) (\<lambda>_.
       bnd (destroy_task new_task) (\<lambda>_. pick_task n))
     else bnd (list_next ts) (\<lambda>_. ret new_task)))))))"

text \<open>The part of a round that changes to another task; the result is \<open>new_task\<close>.\<close>

definition change_task :: "u32 \<Rightarrow> ('a sched_scheme, u32) cmd" where
  "change_task new_task =
     bnd (gets threads) (\<lambda>ths.
     bnd (list_is_end ths) (\<lambda>e.
     if \<not> e then ret new_task
     else
       bnd (list_rewind ths) (\<lambda>_.
       bnd (pick_task heap_fuel) (\<lambda>new_task.
       bnd (get_task new_task) (\<lambda>t.
       bnd (upd (\<lambda>s. s\<lparr>threads := task_threads t\<rparr>)) (\<lambda>_.
       bnd (list_rewind (task_threads t)) (\<lambda>_.
       bnd (gets current_task) (\<lambda>c.
       ret (if new_task = c then 0 else new_task)))))))))"

text \<open>The part of a round that looks at a thread; the result is \<open>new_thread\<close>.\<close>

definition try_thread :: "('a sched_scheme, u32) cmd" where
  "try_thread =
     bnd (gets threads) (\<lambda>ths.
     bnd (list_current ths) (\<lambda>new_thread.
     bnd (get_thread new_thread) (\<lambda>t.
     if th_state t = THREAD_DYING then
       bnd (list_remove ths) (\<lambda>_. bnd (destroy_thread new_thread) (\<lambda>_. ret 0))
     else if th_state t = THREAD_WAITING then ret 0
     else bnd (list_next ths) (\<lambda>_. ret new_thread))))"

text \<open>A round that ends without a thread has removed one, or will never end.\<close>

primrec pick_thread :: "nat \<Rightarrow> u32 \<Rightarrow> ('a sched_scheme, u32 \<times> u32) cmd" where
  "pick_thread 0 new_task = fault Out_of_Fuel"
| "pick_thread (Suc n) new_task =
     bnd (change_task new_task) (\<lambda>new_task.
     bnd try_thread (\<lambda>new_thread.
     if new_thread = 0 then pick_thread n new_task else ret (new_thread, new_task)))"

definition schedule :: "('a sched_scheme, unit) cmd" where
  "schedule =
     bnd (gets tasks) (\<lambda>ts.
     if ts = 0 then skip
     else
       bnd (pick_thread heap_fuel 0) (\<lambda>(new_thread, new_task).
       bnd (gets current_thread) (\<lambda>c.
       if c \<noteq> new_thread then switch_context new_thread new_task else skip)))"

section \<open>States of threads\<close>

definition preempt :: "('a sched_scheme, unit) cmd" where
  "preempt = schedule"

definition set_state :: "u32 \<Rightarrow> u8 \<Rightarrow> ('a threading_scheme, unit) cmd" where
  "set_state p v = bnd (get_thread p) (\<lambda>t. put_thread p (t\<lparr>th_state := v\<rparr>))"

definition sleep :: "('a sched_scheme, unit) cmd" where
  "sleep = bnd (gets current_thread) (\<lambda>c. bnd (set_state c THREAD_WAITING) (\<lambda>_. preempt))"

definition wakeup :: "u32 \<Rightarrow> ('a sched_scheme, unit) cmd" where
  "wakeup th = set_state th THREAD_RUNNING"

definition kill :: "u32 \<Rightarrow> ('a sched_scheme, unit) cmd" where
  "kill th = bnd (gets current_thread) (\<lambda>c. if th \<noteq> c then set_state th THREAD_DYING else skip)"

section \<open>The run queue\<close>

text \<open>
  The tasks in the order of their list, each as its address, the address of its list of
  threads, and the threads.
\<close>

type_synonym run_queue = "(u32 \<times> u32 \<times> u32 list) list"

abbreviation task_of :: "run_queue \<Rightarrow> nat \<Rightarrow> u32" where "task_of ts i \<equiv> fst (ts ! i)"
abbreviation list_of :: "run_queue \<Rightarrow> nat \<Rightarrow> u32" where "list_of ts i \<equiv> fst (snd (ts ! i))"
abbreviation threads_of :: "run_queue \<Rightarrow> nat \<Rightarrow> u32 list" where "threads_of ts i \<equiv> snd (snd (ts ! i))"

text \<open>
  The queue in the state: task number \<open>k\<close> is being served and its cursor is \<open>c\<close>; the cursor of
  the list of tasks is \<open>tc\<close>. Every thread is \<open>THREAD_RUNNING\<close>.
\<close>

definition queue_shape :: "run_queue \<Rightarrow> u32 \<Rightarrow> bool" where
  "queue_shape ts l \<longleftrightarrow> distinct (map fst ts) \<and> distinct (map (fst \<circ> snd) ts)
     \<and> (\<forall>i < length ts. task_of ts i \<noteq> 0 \<and> threads_of ts i \<noteq> [] \<and> list_of ts i \<noteq> l)
     \<and> (\<forall>i < length ts. \<forall>j < length ts. i \<noteq> j \<longrightarrow> set (threads_of ts i) \<inter> set (threads_of ts j) = {})"

definition ready :: "'a threading_scheme \<Rightarrow> u32 \<Rightarrow> bool" where
  "ready s x \<longleftrightarrow> x \<noteq> 0 \<and> (\<exists>t. thread_objs s x = Some t \<and> th_state t = THREAD_RUNNING)"

definition tasks_in :: "'a threading_scheme \<Rightarrow> run_queue \<Rightarrow> bool" where
  "tasks_in s ts \<longleftrightarrow> (\<forall>i < length ts. (\<exists>t. task_objs s (task_of ts i) = Some t \<and> task_threads t = list_of ts i)
     \<and> (\<exists>d. list_rep s (list_of ts i) (threads_of ts i) d) \<and> (\<forall>x \<in> set (threads_of ts i). ready s x))"

definition runq :: "'a sched_scheme \<Rightarrow> run_queue \<Rightarrow> nat \<Rightarrow> nat \<Rightarrow> nat \<Rightarrow> bool" where
  "runq s ts tc k c \<longleftrightarrow> tasks s \<noteq> 0 \<and> queue_shape ts (tasks s) \<and> tasks_in s ts
     \<and> list_rep s (tasks s) (map fst ts) tc \<and> tc \<le> length ts
     \<and> k < length ts \<and> threads s = list_of ts k \<and> list_rep s (list_of ts k) (threads_of ts k) c
     \<and> c \<le> length (threads_of ts k)
     \<and> current_task s = task_of ts k \<and> current_thread s \<in> set (threads_of ts k)"

text \<open>Round robin: the next position of the queue, and the thread that runs there.\<close>

definition round_robin :: "run_queue \<Rightarrow> nat \<times> nat \<times> nat \<Rightarrow> (nat \<times> nat \<times> nat) \<times> u32" where
  "round_robin ts p = (case p of (tc, k, c) \<Rightarrow>
     if c < length (threads_of ts k) then ((tc, k, Suc c), threads_of ts k ! c)
     else let i = (if tc < length ts then tc else 0) in ((Suc i, i, 1), threads_of ts i ! 0))"

lemma list_rep_lists_only:
  "lists t = lists s \<Longrightarrow> arrays t = arrays s \<Longrightarrow> list_rep t l xs c = list_rep s l xs c"
  by (simp add: list_rep_def)

lemma with_cursor_twice [simp]: "with_cursor (with_cursor s l a) l b = with_cursor s l b"
  by (simp add: with_cursor_def fun_eq_iff option.map_comp comp_def)

lemma with_cursor_fields [simp]:
  "tasks (with_cursor s l c) = tasks (s :: 'a sched_scheme)" "threads (with_cursor s l c) = threads s"
  "task_objs (with_cursor s l c) = task_objs s" "thread_objs (with_cursor s l c) = thread_objs s"
  "current_task (with_cursor s l c) = current_task s" "current_thread (with_cursor s l c) = current_thread s"
  by (simp_all add: with_cursor_def)

lemma get_task_run: "task_objs s p = Some t \<Longrightarrow> get_task p s = Inr (t, s)"
  by (simp add: get_task_def cmd_simps)

lemma get_thread_run: "thread_objs s p = Some t \<Longrightarrow> get_thread p s = Inr (t, s)"
  by (simp add: get_thread_def cmd_simps)

lemma try_thread_running:
  assumes "list_rep s (threads s) xs c" and "c < length xs" and "ready s (xs ! c)"
  shows "try_thread s = Inr (xs ! c, with_cursor s (threads s) (Suc c))"
proof -
  obtain t where "thread_objs s (xs ! c) = Some t" "th_state t = THREAD_RUNNING"
    using assms(3) by (auto simp: ready_def)
  then show ?thesis
    using list_current_run [OF assms(1)] list_next_run [OF assms(1,2)] assms(2)
    by (simp add: try_thread_def cmd_simps get_thread_run THREAD_RUNNING_def THREAD_DYING_def THREAD_WAITING_def)
qed

lemma try_thread_waiting:
  assumes "list_rep s (threads s) xs c" and "c < length xs"
    and "thread_objs s (xs ! c) = Some t" and "th_state t = THREAD_WAITING"
  shows "try_thread s = Inr (0, s)"
  using list_current_run [OF assms(1)] assms(2-)
  by (simp add: try_thread_def cmd_simps get_thread_run THREAD_DYING_def THREAD_WAITING_def)

text \<open>The next task in the list of tasks, from the start again at its end.\<close>

lemma pick_task_next:
  assumes ts: "list_rep s (tasks s) (map fst ts) tc" "tc \<le> length ts" "ts \<noteq> []"
    and all: "\<forall>i < length ts. (\<exists>t. task_objs s (task_of ts i) = Some t \<and> task_threads t = list_of ts i)
      \<and> (\<exists>d. list_rep s (list_of ts i) (threads_of ts i) d) \<and> threads_of ts i \<noteq> [] \<and> list_of ts i \<noteq> tasks s"
  defines "i \<equiv> (if tc < length ts then tc else 0)"
  shows "pick_task (Suc n) s = Inr (task_of ts i, with_cursor s (tasks s) (Suc i))"
proof -
  have i: "i < length ts" using ts(3) by (simp add: i_def)
  let ?r = "if length ts \<le> tc then with_cursor s (tasks s) 0 else s"
  have rep: "list_rep ?r (tasks s) (map fst ts) i"
    using ts list_rep_cursor [OF ts(1), of 0] by (auto simp: i_def)
  obtain t d where t: "task_objs s (task_of ts i) = Some t" "task_threads t = list_of ts i"
    "list_rep s (list_of ts i) (threads_of ts i) d" "threads_of ts i \<noteq> []" "list_of ts i \<noteq> tasks s"
    using all i by blast
  have rewind: "(if length ts \<le> tc then list_rewind (tasks s) else skip) s = Inr ((), ?r)"
    using list_rewind_run [OF ts(1)] by (simp add: cmd_simps)
  have emp: "list_is_empty (list_of ts i) ?r = Inr (False, ?r)"
    using list_is_empty_run [of ?r "list_of ts i" "threads_of ts i" d] t by (simp add: list_rep_cursor_other)
  have cur: "list_current (tasks s) ?r = Inr (task_of ts i, ?r)"
    using list_current_run [OF rep] i by simp
  have nx: "\<exists>y. list_next (tasks s) ?r = Inr (y, with_cursor s (tasks s) (Suc i))"
    using list_next_run [OF rep] i by (auto split: if_splits)
  have tk: "get_task (task_of ts i) ?r = Inr (t, ?r)" by (rule get_task_run) (simp add: t(1))
  show ?thesis
    using list_is_end_run [OF ts(1)] rewind cur tk emp nx t(2)
    by (auto simp: bnd_run gets_run ret_run)
qed

lemma list_rep_threads [simp]: "list_rep (s\<lparr>threads := x\<rparr>) = list_rep s"
  by (simp add: list_rep_def fun_eq_iff)

lemma some_cursor:
  "\<exists>d. list_rep s l' xs d \<Longrightarrow> c < 4294967295 \<Longrightarrow> \<exists>d. list_rep (with_cursor s l c) l' xs d"
  using list_rep_cursor [of s l xs _ c] list_rep_cursor_other [of l' l s c] by (cases "l' = l") auto

lemma ready_with_cursor [simp]: "ready (with_cursor s l c) = ready s"
  by (simp add: ready_def fun_eq_iff with_cursor_def)

lemma ready_threads [simp]: "ready (s\<lparr>threads := x\<rparr>) = ready s"
  by (simp add: ready_def fun_eq_iff)

lemma tasks_in_with_cursor:
  "tasks_in s ts \<Longrightarrow> c < 4294967295 \<Longrightarrow> tasks_in (with_cursor s l c) ts"
  using some_cursor [of s _ _ c l] by (simp add: tasks_in_def with_cursor_def [of s l c, THEN arg_cong, of task_objs])

lemma tasks_in_threads [simp]: "tasks_in (s\<lparr>threads := x\<rparr>) ts = tasks_in s ts"
  by (simp add: tasks_in_def)

lemma list_of_eq_iff:
  "queue_shape ts l \<Longrightarrow> i < length ts \<Longrightarrow> j < length ts \<Longrightarrow> list_of ts i = list_of ts j \<longleftrightarrow> i = j"
  using nth_eq_iff_index_eq [of "map (fst \<circ> snd) ts" i j] by (simp add: queue_shape_def)

lemma task_of_eq_iff:
  "queue_shape ts l \<Longrightarrow> i < length ts \<Longrightarrow> j < length ts \<Longrightarrow> task_of ts i = task_of ts j \<longleftrightarrow> i = j"
  using nth_eq_iff_index_eq [of "map fst ts" i j] by (simp add: queue_shape_def)

text \<open>What the choice of the next thread does to the state.\<close>

lemma pick_thread_next:
  assumes q: "runq s ts tc k c" and rr: "round_robin ts (tc, k, c) = ((tc', k', c'), x)"
  shows "\<exists>u. pick_thread (Suc n) 0 s = Inr ((x, if k' = k then 0 else task_of ts k'), u)
    \<and> u = s\<lparr>lists := lists u, threads := list_of ts k'\<rparr>
    \<and> list_rep u (tasks s) (map fst ts) tc' \<and> tc' \<le> length ts \<and> tasks_in u ts
    \<and> k' < length ts \<and> list_rep u (list_of ts k') (threads_of ts k') c' \<and> c' \<le> length (threads_of ts k')
    \<and> x \<in> set (threads_of ts k')"
proof -
  have sh: "queue_shape ts (tasks s)" and ti: "tasks_in s ts" and rt: "list_rep s (tasks s) (map fst ts) tc"
    and tc: "tc \<le> length ts" and k: "k < length ts" and th: "threads s = list_of ts k"
    and rk: "list_rep s (list_of ts k) (threads_of ts k) c" and c: "c \<le> length (threads_of ts k)"
    and ct: "current_task s = task_of ts k"
    using q by (simp_all add: runq_def)
  have kt: "list_of ts i \<noteq> tasks s" "threads_of ts i \<noteq> []" if "i < length ts" for i
    using sh that by (simp_all add: queue_shape_def)
  have small: "c < 4294967295" "tc < 4294967295" using rk rt by (auto simp: list_rep_def)
  have lk: "length (threads_of ts k) < 4294967295" using rk by (auto simp: list_rep_def)
  show ?thesis
  proof (cases "c < length (threads_of ts k)")
    case True
    have r: "tc' = tc" "k' = k" "c' = Suc c" "x = threads_of ts k ! c"
      using rr True by (auto simp: round_robin_def)
    have rdy: "ready s x" using ti k True by (simp add: tasks_in_def r)
    let ?u = "with_cursor s (list_of ts k) (Suc c)"
    have "try_thread s = Inr (x, ?u)"
      using try_thread_running [of s "threads_of ts k" c] rk True rdy by (simp add: th r)
    moreover have "change_task 0 s = Inr (0, s)"
      using list_is_end_run [OF rk] True by (simp add: change_task_def cmd_simps th)
    moreover have "x \<noteq> 0" using rdy by (simp add: ready_def)
    ultimately have "pick_thread (Suc n) 0 s = Inr ((x, 0), ?u)" by (simp add: cmd_simps)
    moreover have "?u = s\<lparr>lists := lists ?u, threads := list_of ts k\<rparr>"
      using th by (simp add: with_cursor_def)
    moreover have "Suc c < 4294967295" using True lk by simp
    moreover have "list_rep ?u (tasks s) (map fst ts) tc"
      using rt kt(1) [OF k] by (simp add: list_rep_cursor_other)
    ultimately show ?thesis
      using tc k True ti tasks_in_with_cursor [OF ti, of "Suc c"] list_rep_cursor [OF rk, of "Suc c"]
      by (intro exI [of _ ?u]) (auto simp: r)
  next
    case False
    define i where "i = (if tc < length ts then tc else 0)"
    have r: "tc' = Suc i" "k' = i" "c' = 1" "x = threads_of ts i ! 0"
      using rr False by (auto simp: round_robin_def i_def Let_def)
    have i: "i < length ts" using k by (auto simp: i_def)
    have si: "Suc i < 4294967295" using rt i by (auto simp: list_rep_def)
    let ?s1 = "with_cursor s (list_of ts k) 0"
    let ?s2 = "with_cursor ?s1 (tasks s) (Suc i)"
    let ?s3 = "?s2\<lparr>threads := list_of ts i\<rparr>"
    let ?u = "with_cursor ?s3 (list_of ts i) 1"
    have ti1: "tasks_in ?s1 ts" by (rule tasks_in_with_cursor [OF ti]) simp
    have ti2: "tasks_in ?s2 ts" by (rule tasks_in_with_cursor [OF ti1 si])
    have rt1: "list_rep ?s1 (tasks s) (map fst ts) tc"
      using rt kt(1) [OF k] by (simp add: list_rep_cursor_other)
    have pick: "pick_task heap_fuel ?s1 = Inr (task_of ts i, ?s2)"
    proof -
      have ne: "ts \<noteq> []" using k by auto
      have all: "\<forall>i < length ts. (\<exists>t. task_objs ?s1 (task_of ts i) = Some t \<and> task_threads t = list_of ts i)
          \<and> (\<exists>d. list_rep ?s1 (list_of ts i) (threads_of ts i) d) \<and> threads_of ts i \<noteq> []
          \<and> list_of ts i \<noteq> tasks ?s1"
        using ti1 kt by (simp add: tasks_in_def)
      have rt1': "list_rep ?s1 (tasks ?s1) (map fst ts) tc" using rt1 by simp
      obtain m where m: "heap_fuel = Suc m" by (simp add: heap_fuel_def)
      have "pick_task (Suc m) ?s1 = Inr (task_of ts i, with_cursor ?s1 (tasks ?s1) (Suc i))"
        unfolding i_def by (rule pick_task_next [OF rt1' tc ne all])
      then show ?thesis unfolding m by (simp only: with_cursor_fields)
    qed
    obtain t where t: "task_objs s (task_of ts i) = Some t" "task_threads t = list_of ts i"
      using ti i by (auto simp: tasks_in_def)
    obtain d where d: "list_rep ?s3 (list_of ts i) (threads_of ts i) d"
      using ti2 i by (auto simp: tasks_in_def)
    have get: "get_task (task_of ts i) ?s2 = Inr (t, ?s2)" by (rule get_task_run) (simp add: t(1))
    have rw: "list_rewind (list_of ts i) ?s3 = Inr ((), with_cursor ?s3 (list_of ts i) 0)"
      by (rule list_rewind_run [OF d])
    have rep0: "list_rep (with_cursor ?s3 (list_of ts i) 0) (list_of ts i) (threads_of ts i) 0"
      by (rule list_rep_cursor [OF d]) simp
    have change: "change_task 0 s =
        Inr (if i = k then 0 else task_of ts i, with_cursor ?s3 (list_of ts i) 0)"
      using list_is_end_run [OF rk] list_rewind_run [OF rk] False c pick get rw t(2) ct
        task_of_eq_iff [OF sh i k]
      by (simp add: change_task_def th bnd_run gets_run ret_run upd_run)
    have rdy: "ready s x" using ti i kt(2) [OF i] by (simp add: tasks_in_def r)
    have "try_thread (with_cursor ?s3 (list_of ts i) 0) = Inr (x, ?u)"
      using try_thread_running [of "with_cursor ?s3 (list_of ts i) 0" "threads_of ts i" 0] rep0 rdy kt(2) [OF i]
      by (simp add: r)
    moreover have "x \<noteq> 0" using rdy by (simp add: ready_def)
    ultimately have "pick_thread (Suc n) 0 s = Inr ((x, if i = k then 0 else task_of ts i), ?u)"
      using change by (simp add: bnd_run ret_run)
    moreover have "?u = s\<lparr>lists := lists ?u, threads := list_of ts i\<rparr>"
      by (simp add: with_cursor_def)
    moreover have "list_rep ?s3 (tasks s) (map fst ts) (Suc i)"
      using list_rep_cursor [OF rt1 si] by simp
    then have "list_rep ?u (tasks s) (map fst ts) (Suc i)"
      using kt(1) [OF i] by (simp add: list_rep_cursor_other)
    moreover have "list_rep ?u (list_of ts i) (threads_of ts i) 1"
      by (rule list_rep_cursor [OF d]) simp
    moreover have "tasks_in ?u ts" by (rule tasks_in_with_cursor) (simp_all add: ti2)
    moreover have "1 \<le> length (threads_of ts i)" "x \<in> set (threads_of ts i)"
      using kt(2) [OF i] by (auto simp: r Suc_le_eq)
    ultimately show ?thesis using i by (intro exI [of _ ?u]) (simp add: r)
  qed
qed

section \<open>One call of the scheduler\<close>

text \<open>
  What a switch leaves behind: the registers of the old thread are in its structure, those of the
  new thread are in the processor, and a change of task changes the address space.
\<close>

definition switched :: "'a sched_scheme \<Rightarrow> 'a sched_scheme \<Rightarrow> u32 \<Rightarrow> bool" where
  "switched s t x \<longleftrightarrow> current_thread t = x
     \<and> (x = current_thread s \<longrightarrow> cpu t = cpu s)
     \<and> (x \<noteq> current_thread s \<longrightarrow>
          (\<exists>old new. thread_objs s (current_thread s) = Some old \<and> thread_objs s x = Some new
             \<and> thread_objs t (current_thread s) = Some (saved (cpu s) old) \<and> cpu t = loaded new))
     \<and> (current_task t \<noteq> current_task s \<longrightarrow>
          (\<exists>task. task_objs s (current_task t) = Some task
             \<and> current_directory t = task_page_directory task
             \<and> cr3 t = physical (dirs s (task_page_directory task))))
     \<and> (current_task t = current_task s \<longrightarrow> current_directory t = current_directory s \<and> cr3 t = cr3 s)"

lemma switch_context_run:
  assumes old: "thread_objs u (current_thread u) = Some old" and new: "thread_objs u x = Some new"
    and ne: "x \<noteq> current_thread u" and nt: "nt = 0 \<or> task_objs u nt = Some task"
  shows "switch_context x nt u = Inr ((), (if nt = 0 then u
      else u\<lparr>current_task := nt, current_directory := task_page_directory task,
        cr3 := physical (dirs u (task_page_directory task))\<rparr>)
      \<lparr>thread_objs := (thread_objs u)(current_thread u := Some (saved (cpu u) old)),
        current_thread := x, cpu := loaded new\<rparr>)"
proof -
  have put: "put_thread p t s = Inr ((), s\<lparr>thread_objs := (thread_objs s)(p := Some t)\<rparr>)"
    for p t and s :: "'a threading_scheme" by (simp add: put_thread_def cmd_simps)
  let ?v = "u\<lparr>thread_objs := (thread_objs u)(current_thread u := Some (saved (cpu u) old)), current_thread := x\<rparr>"
  have save: "save_thread_state (current_thread u) u
      = Inr ((), u\<lparr>thread_objs := (thread_objs u)(current_thread u := Some (saved (cpu u) old))\<rparr>)"
    using get_thread_run [OF old] put by (simp add: save_thread_state_def cmd_simps)
  have load: "load_thread_state x w = Inr ((), w\<lparr>cpu := loaded new\<rparr>)"
    if "thread_objs w x = Some new" for w :: "'a threading_scheme"
    using get_thread_run [OF that] by (simp add: load_thread_state_def cmd_simps)
  show ?thesis
  proof (cases "nt = 0")
    case True
    have "load_thread_state x ?v = Inr ((), ?v\<lparr>cpu := loaded new\<rparr>)"
      using load [of ?v] new ne by simp
    then show ?thesis using True save by (simp add: switch_context_def bnd_run gets_run upd_run skip_run)
  next
    case False
    let ?w = "?v\<lparr>current_task := nt\<rparr>"
    let ?y = "?w\<lparr>current_directory := task_page_directory task, cr3 := physical (dirs u (task_page_directory task))\<rparr>"
    have "get_task nt ?w = Inr (task, ?w)" by (rule get_task_run) (use nt False in simp)
    moreover have "load_thread_state x ?y = Inr ((), ?y\<lparr>cpu := loaded new\<rparr>)"
      using load [of ?y] new ne by simp
    ultimately show ?thesis using False save
      by (simp add: switch_context_def bnd_run gets_run upd_run)
  qed
qed

lemma runq_transfer:
  assumes u: "list_rep u l (map fst ts) tc'" "tc' \<le> length ts" "tasks_in u ts" "k' < length ts"
      "list_rep u (list_of ts k') (threads_of ts k') c'" "c' \<le> length (threads_of ts k')"
    and sh: "queue_shape ts l" "l \<noteq> 0"
    and t: "lists t = lists u" "arrays t = arrays u" "task_objs t = task_objs u" "tasks t = l"
      "threads t = list_of ts k'" "current_task t = task_of ts k'"
    and ready: "\<forall>x. ready u x \<longrightarrow> ready t x" and x: "current_thread t \<in> set (threads_of ts k')"
  shows "runq t ts tc' k' c'"
proof -
  have "tasks_in t ts"
    using u(3) ready unfolding tasks_in_def t(3) list_rep_lists_only [OF t(1,2)] by blast
  then show ?thesis
    using u sh x by (simp add: runq_def t list_rep_lists_only [OF t(1,2)])
qed

lemma schedule_step:
  assumes q: "runq s ts tc k c" and rr: "round_robin ts (tc, k, c) = ((tc', k', c'), x)"
  shows "\<exists>t. schedule s = Inr ((), t) \<and> runq t ts tc' k' c' \<and> switched s t x"
proof -
  obtain m where m: "heap_fuel = Suc m" by (simp add: heap_fuel_def)
  let ?nt = "if k' = k then 0 else task_of ts k'"
  obtain u where u: "pick_thread heap_fuel 0 s = Inr ((x, ?nt), u)"
    "u = s\<lparr>lists := lists u, threads := list_of ts k'\<rparr>"
    "list_rep u (tasks s) (map fst ts) tc'" "tc' \<le> length ts" "tasks_in u ts" "k' < length ts"
    "list_rep u (list_of ts k') (threads_of ts k') c'" "c' \<le> length (threads_of ts k')"
    "x \<in> set (threads_of ts k')"
    using pick_thread_next [OF assms, of m] unfolding m by blast
  have f: "thread_objs u = thread_objs s" "task_objs u = task_objs s" "tasks u = tasks s"
    "threads u = list_of ts k'" "current_thread u = current_thread s" "current_task u = current_task s"
    "cpu u = cpu s" "dirs u = dirs s" "current_directory u = current_directory s" "cr3 u = cr3 s"
    "arrays u = arrays s"
    by (subst u(2), simp)+
  have ct: "current_task s = task_of ts k" "current_thread s \<in> set (threads_of ts k)" "k < length ts"
    "tasks s \<noteq> 0" and sh: "queue_shape ts (tasks s)" and ti: "tasks_in s ts"
    using q by (simp_all add: runq_def)
  have n0: "task_of ts k' \<noteq> 0" using sh u(6) by (simp add: queue_shape_def)
  have ne: "task_of ts k' \<noteq> task_of ts k" if "k' \<noteq> k"
    using task_of_eq_iff [OF sh u(6) ct(3)] that by simp
  show ?thesis
  proof (cases "x = current_thread s")
    case True
    have "k' = k"
    proof (rule ccontr)
      assume "k' \<noteq> k"
      then have "set (threads_of ts k') \<inter> set (threads_of ts k) = {}"
        using sh u(6) ct(3) by (simp add: queue_shape_def)
      with u(9) ct(2) True show False by blast
    qed
    have "schedule s = Inr ((), u)"
      using u(1) ct(4) True f by (simp add: schedule_def cmd_simps)
    moreover have "runq u ts tc' k' c'"
      by (rule runq_transfer [OF u(3-8) sh ct(4)]) (use f ct u(9) True \<open>k' = k\<close> in auto)
    moreover have "switched s u x" using f True by (simp add: switched_def)
    ultimately show ?thesis by blast
  next
    case False
    obtain old where old: "thread_objs s (current_thread s) = Some old" "th_state old = THREAD_RUNNING"
      using ti ct(2,3) unfolding tasks_in_def ready_def by blast
    obtain new where new: "thread_objs s x = Some new"
      using ti u(6,9) unfolding tasks_in_def ready_def by blast
    obtain task where task: "task_objs s (task_of ts k') = Some task"
      using ti u(6) unfolding tasks_in_def by blast
    let ?base = "if ?nt = 0 then u else u\<lparr>current_task := ?nt, current_directory := task_page_directory task,
        cr3 := physical (dirs u (task_page_directory task))\<rparr>"
    let ?t = "?base\<lparr>thread_objs := (thread_objs u)(current_thread u := Some (saved (cpu u) old)),
        current_thread := x, cpu := loaded new\<rparr>"
    have nt: "?nt = 0 \<or> task_objs u ?nt = Some task" using task f by simp
    have old': "thread_objs u (current_thread u) = Some old" and new': "thread_objs u x = Some new"
      and ne': "x \<noteq> current_thread u" using old new False f by simp_all
    have "switch_context x ?nt u = Inr ((), ?t)"
      by (rule switch_context_run [OF old' new' ne' nt])
    then have "schedule s = Inr ((), ?t)"
      using u(1) ct(4) False f by (simp add: schedule_def bnd_run gets_run)
    moreover have "runq ?t ts tc' k' c'"
    proof (rule runq_transfer [OF u(3-8) sh ct(4)])
      have "th_state (saved (cpu u) old) = THREAD_RUNNING" using old(2) by (simp add: saved_def)
      then show "\<forall>y. ready u y \<longrightarrow> ready ?t y" by (auto simp: ready_def)
      show "lists ?t = lists u" "arrays ?t = arrays u" "task_objs ?t = task_objs u" "tasks ?t = tasks s"
        "threads ?t = list_of ts k'" by (simp_all add: f)
      show "current_task ?t = task_of ts k'" using ct(1) n0 f by simp
      show "current_thread ?t \<in> set (threads_of ts k')" using u(9) by simp
    qed
    moreover have "switched s ?t x"
      using False f old(1) new task n0 ct(1) ne by (auto simp: switched_def)
    ultimately show ?thesis by blast
  qed
qed

section \<open>Many calls\<close>

lemma crepeat_append:
  "crepeat a f s = Inr (xs, u) \<Longrightarrow> crepeat b f u = Inr (ys, t) \<Longrightarrow> crepeat (a + b) f s = Inr (xs @ ys, t)"
proof (induction a arbitrary: s xs)
  case 0
  then show ?case by (simp add: ret_run)
next
  case (Suc a)
  then show ?case by (fastforce simp: bnd_run ret_run split: sum.splits)
qed

text \<open>One call, and the thread that runs after it.\<close>

definition served :: "('a sched_scheme, u32) cmd" where
  "served = bnd schedule (\<lambda>_. gets current_thread)"

lemma served_step:
  assumes "runq s ts tc k c" and "round_robin ts (tc, k, c) = ((tc', k', c'), x)"
  shows "\<exists>t. served s = Inr (x, t) \<and> runq t ts tc' k' c'"
  using schedule_step [OF assms] by (auto simp: served_def switched_def cmd_simps)

lemma served_rest:
  "runq s ts tc k c \<Longrightarrow> c + n \<le> length (threads_of ts k) \<Longrightarrow>
   \<exists>t. crepeat n served s = Inr (take n (drop c (threads_of ts k)), t) \<and> runq t ts tc k (c + n)"
proof (induction n arbitrary: s c)
  case 0
  then show ?case by (simp add: ret_run)
next
  case (Suc n)
  have c: "c < length (threads_of ts k)" using Suc.prems(2) by simp
  have "round_robin ts (tc, k, c) = ((tc, k, Suc c), threads_of ts k ! c)"
    using c by (simp add: round_robin_def)
  from served_step [OF Suc.prems(1) this] obtain u where
    u: "served s = Inr (threads_of ts k ! c, u)" "runq u ts tc k (Suc c)" by blast
  have "Suc c + n \<le> length (threads_of ts k)" using Suc.prems(2) by simp
  from Suc.IH [OF u(2) this] obtain t where
    t: "crepeat n served u = Inr (take n (drop (Suc c) (threads_of ts k)), t)" "runq t ts tc k (Suc c + n)"
    by blast
  have "take (Suc n) (drop c (threads_of ts k)) = threads_of ts k ! c # take n (drop (Suc c) (threads_of ts k))"
    using c by (simp add: Cons_nth_drop_Suc [symmetric])
  then show ?case using u(1) t by (simp add: bnd_run ret_run)
qed

text \<open>The turn of the next task, from the end of a turn to its own end.\<close>

lemma served_turn:
  assumes q: "runq s ts tc k (length (threads_of ts k))"
  defines "i \<equiv> tc mod length ts"
  shows "\<exists>t. crepeat (length (threads_of ts i)) served s = Inr (threads_of ts i, t)
    \<and> runq t ts (Suc i) i (length (threads_of ts i))"
proof -
  have k: "k < length ts" and tc: "tc \<le> length ts" and sh: "queue_shape ts (tasks s)"
    using q by (simp_all add: runq_def)
  have i: "i < length ts" unfolding i_def by (rule mod_less_divisor) (use k in linarith)
  have ie: "i = (if tc < length ts then tc else 0)" using tc by (auto simp: i_def)
  obtain x xs where xs: "threads_of ts i = x # xs"
    using sh i by (cases "threads_of ts i") (auto simp: queue_shape_def)
  have "round_robin ts (tc, k, length (threads_of ts k)) = ((Suc i, i, 1), x)"
    using xs by (simp add: round_robin_def Let_def ie [symmetric])
  from served_step [OF q this] obtain u where u: "served s = Inr (x, u)" "runq u ts (Suc i) i 1" by blast
  from served_rest [OF u(2), of "length xs"] xs obtain t where
    "crepeat (length xs) served u = Inr (xs, t)" "runq t ts (Suc i) i (Suc (length xs))" by auto
  then show ?thesis using u(1) xs by (auto simp: bnd_run ret_run)
qed

lemma served_turns:
  "runq s ts tc k (length (threads_of ts k)) \<Longrightarrow>
   \<exists>t k'. crepeat (\<Sum>j<m. length (threads_of ts ((tc + j) mod length ts))) served s
       = Inr (concat (map (\<lambda>j. threads_of ts ((tc + j) mod length ts)) [0..<m]), t)
     \<and> runq t ts (if m = 0 then tc else Suc ((tc + m - 1) mod length ts)) k' (length (threads_of ts k'))"
proof (induction m)
  case 0
  then show ?case by (auto simp: ret_run)
next
  case (Suc m)
  let ?tc = "if m = 0 then tc else Suc ((tc + m - 1) mod length ts)"
  obtain u k' where u: "crepeat (\<Sum>j<m. length (threads_of ts ((tc + j) mod length ts))) served s
       = Inr (concat (map (\<lambda>j. threads_of ts ((tc + j) mod length ts)) [0..<m]), u)"
    "runq u ts ?tc k' (length (threads_of ts k'))" using Suc.IH [OF Suc.prems] by blast
  have e: "?tc mod length ts = (tc + m) mod length ts"
    by (cases m) (simp_all add: mod_Suc_eq)
  obtain t where t: "crepeat (length (threads_of ts ((tc + m) mod length ts))) served u
      = Inr (threads_of ts ((tc + m) mod length ts), t)"
    "runq t ts (Suc ((tc + m) mod length ts)) ((tc + m) mod length ts)
      (length (threads_of ts ((tc + m) mod length ts)))"
    using served_turn [OF u(2)] unfolding e by blast
  show ?case using crepeat_append [OF u(1) t(1)] t(2) by auto
qed

lemma round_covers:
  fixes i n tc :: nat
  assumes "i < n"
  shows "i \<in> (\<lambda>j. (tc + j) mod n) ` {..<n}"
proof -
  have "(tc + (n - tc mod n + i) mod n) mod n = (tc mod n + (n - tc mod n + i)) mod n"
    by (simp add: mod_add_eq mod_simps)
  also have "tc mod n + (n - tc mod n + i) = n + i"
    using mod_less_divisor [of n tc] assms by linarith
  finally show ?thesis using assms by (intro image_eqI [of _ _ "(n - tc mod n + i) mod n"]) auto
qed

section \<open>Properties\<close>

text \<open>Two tasks of two and one threads; the first thread runs.\<close>

definition demo_thread :: "u32 \<Rightarrow> thread" where
  "demo_thread n = zero_thread\<lparr>th_tid := n, th_esp := 0x100 * n, th_state := THREAD_RUNNING\<rparr>"

definition demo_queue :: run_queue where
  "demo_queue = [(0x100, 2, [0x10, 0x20]), (0x200, 3, [0x30])]"

definition demo_sched :: sched where
  "demo_sched = threading.extend
     (objects.extend
       (heap.extend (vm.extend demo (heap.fields 0xF0001000 0xF0000000))
         (objects.fields
           ((\<lambda>_. None)(1 := Some \<lparr>elems = 0xA1, capacity = 8, list_size = 2, curr = 0\<rparr>,
              2 := Some \<lparr>elems = 0xA2, capacity = 8, list_size = 2, curr = 1\<rparr>,
              3 := Some \<lparr>elems = 0xA3, capacity = 8, list_size = 1, curr = 0\<rparr>))
           ((\<lambda>_. None)(0xA1 := Some [Some 0x100, Some 0x200, None, None, None, None],
              0xA2 := Some [Some 0x10, Some 0x20, None, None, None, None],
              0xA3 := Some [Some 0x30, None, None, None, None, None]))))
       (threading.fields
         ((\<lambda>_. None)(0x10 := Some (demo_thread 1), 0x20 := Some (demo_thread 2), 0x30 := Some (demo_thread 3)))
         ((\<lambda>_. None)(0x100 := Some \<lparr>task_page_directory = Kernel_Directory, task_pid = 0, task_threads = 2\<rparr>,
            0x200 := Some \<lparr>task_page_directory = Heap_Directory 0xF0000800, task_pid = 1, task_threads = 3\<rparr>))
         0x10 4 0x10 0x100 2 0x100 (loaded (demo_thread 9)) True))
     (sched.fields 1 2)"

lemmas demo_sched_defs = demo_sched_def sched.defs threading.defs objects.defs heap.defs vm.defs

lemma demo_runq: "runq demo_sched demo_queue 0 0 1"
proof -
  have two: "i < length demo_queue \<longleftrightarrow> i = 0 \<or> i = 1" for i by (auto simp: demo_queue_def)
  have rep: "list_rep demo_sched 1 [0x100, 0x200] 0" "list_rep demo_sched 2 [0x10, 0x20] 1"
    "list_rep demo_sched 3 [0x30] 0"
    by (simp_all add: list_rep_def demo_sched_defs)
  have rdy: "ready demo_sched 0x10" "ready demo_sched 0x20" "ready demo_sched 0x30"
    by (simp_all add: ready_def demo_sched_defs demo_thread_def)
  have f: "tasks demo_sched = 1" "threads demo_sched = 2" "current_task demo_sched = 0x100"
    "current_thread demo_sched = 0x10" by (simp_all add: demo_sched_defs)
  have tk: "\<exists>t. task_objs demo_sched 0x100 = Some t \<and> task_threads t = 2"
    "\<exists>t. task_objs demo_sched 0x200 = Some t \<and> task_threads t = 3" by (simp_all add: demo_sched_defs)
  have "queue_shape demo_queue 1"
    unfolding queue_shape_def two by (auto simp: demo_queue_def)
  moreover have "tasks_in demo_sched demo_queue"
    unfolding tasks_in_def two using rep rdy tk by (auto simp: demo_queue_def)
  ultimately show ?thesis using rep f by (simp add: runq_def two) (simp add: demo_queue_def)
qed

text \<open>C10: The scheduler is round robin. While every thread of every task is \<open>THREAD_RUNNING\<close>, a
  call of \<open>schedule\<close> ends, and the queue in memory takes exactly the step of the abstract
  round robin: the next thread of the task, or the first thread of the next task in the list of
  tasks, from its start again at its end. The thread that is chosen runs: the registers of the old thread
  are saved, those of the new one are in the processor, and the address space is the
  chosen task's when the task has changed and untouched otherwise.\<close>

theorem schedule_round_robin:
  assumes "runq s ts tc k c" and "round_robin ts (tc, k, c) = ((tc', k', c'), x)"
  shows "\<exists>t. schedule s = Inr ((), t) \<and> runq t ts tc' k' c' \<and> switched s t x"
  using assms by (rule schedule_step)

theorem schedule_round_robin_witness:
  "\<exists>t. schedule demo_sched = Inr ((), t) \<and> current_thread t = 0x20 \<and> sv_esp (cpu t) = 0x200"
proof -
  have "round_robin demo_queue (0, 0, 1) = ((0, 0, 2), 0x20)"
    by (simp add: round_robin_def demo_queue_def)
  from schedule_round_robin [OF demo_runq this] obtain t where
    t: "schedule demo_sched = Inr ((), t)" "switched demo_sched t 0x20" by blast
  have "current_thread demo_sched = 0x10" "thread_objs demo_sched 0x20 = Some (demo_thread 2)"
    by (simp_all add: demo_sched_defs)
  with t show ?thesis by (auto simp: switched_def loaded_def demo_thread_def)
qed

text \<open>C11: No thread starves. While every thread is \<open>THREAD_RUNNING\<close>, repeated calls of \<open>schedule\<close>
  first serve the rest of the current task and then each task in turn, every one of its threads
  once: after as many calls as there are threads left in the current task and threads in
  all, every thread has run.\<close>

theorem schedule_serves_all:
  assumes q: "runq s ts tc k c"
  shows "\<exists>t picks. crepeat (length (threads_of ts k) - c + (\<Sum>j<length ts. length (threads_of ts ((tc + j) mod length ts))))
      (bnd schedule (\<lambda>_. gets current_thread)) s = Inr (picks, t)
    \<and> picks = drop c (threads_of ts k) @ concat (map (\<lambda>j. threads_of ts ((tc + j) mod length ts)) [0..<length ts])
    \<and> (\<forall>i < length ts. set (threads_of ts i) \<subseteq> set picks)"
proof -
  let ?n = "length (threads_of ts k) - c"
  let ?picks = "drop c (threads_of ts k) @ concat (map (\<lambda>j. threads_of ts ((tc + j) mod length ts)) [0..<length ts])"
  have c: "c \<le> length (threads_of ts k)" using q by (simp add: runq_def)
  obtain u where u: "crepeat ?n served s = Inr (drop c (threads_of ts k), u)"
    "runq u ts tc k (length (threads_of ts k))" using served_rest [OF q, of ?n] c by auto
  obtain t where t: "crepeat (\<Sum>j<length ts. length (threads_of ts ((tc + j) mod length ts))) served u
      = Inr (concat (map (\<lambda>j. threads_of ts ((tc + j) mod length ts)) [0..<length ts]), t)"
    using served_turns [OF u(2), of "length ts"] by blast
  have "set (threads_of ts i) \<subseteq> set ?picks" if i: "i < length ts" for i
  proof -
    obtain j where "j < length ts" "i = (tc + j) mod length ts" using round_covers [OF i] by auto
    then show ?thesis by auto
  qed
  then show ?thesis using crepeat_append [OF u(1) t] unfolding served_def by blast
qed

theorem schedule_serves_all_witness:
  "\<exists>t. crepeat 4 (bnd schedule (\<lambda>_. gets current_thread)) demo_sched = Inr ([0x20, 0x10, 0x20, 0x30], t)"
proof -
  have "[0..<length demo_queue] = [0, 1]" "{..<length demo_queue} = {0, 1}" by (auto simp: demo_queue_def)
  then show ?thesis
    using schedule_serves_all [OF demo_runq] by (auto simp: demo_queue_def eval_nat_numeral simp del: crepeat.simps)
qed

text \<open>C26: A waiting thread stops the system. When the cursor of the served list is at a thread that
  is \<open>THREAD_WAITING\<close>, the loop of \<open>schedule\<close> looks at that thread again and again, because only the other
  branches move the cursor: no number of rounds ends it, and \<open>schedule\<close> never returns. This is the
  state that \<open>sleep\<close> leads to as soon as the list comes round to the sleeping thread.\<close>

theorem schedule_waiting_never_ends:
  assumes "tasks s \<noteq> 0" and "list_rep s (threads s) xs c" and "c < length xs"
    and "thread_objs s (xs ! c) = Some t" and "th_state t = THREAD_WAITING"
  shows "pick_thread n nt s = Inl Out_of_Fuel \<and> schedule s = Inl Out_of_Fuel"
proof -
  have change: "change_task nt s = Inr (nt, s)" for nt
    using list_is_end_run [OF assms(2)] assms(3) by (simp add: change_task_def cmd_simps)
  have pick: "pick_thread n nt s = Inl Out_of_Fuel" for n nt
    by (induction n) (simp_all add: bnd_run fault_run change try_thread_waiting [OF assms(2-)])
  have "schedule s = Inl Out_of_Fuel" using assms(1) pick by (simp add: schedule_def bnd_run gets_run)
  then show ?thesis using pick by blast
qed

theorem schedule_waiting_never_ends_witness:
  "\<exists>s. set_state 0x20 THREAD_WAITING demo_sched = Inr ((), s) \<and> schedule s = Inl Out_of_Fuel"
proof -
  let ?s = "demo_sched\<lparr>thread_objs := (thread_objs demo_sched)
      (0x20 := Some ((demo_thread 2)\<lparr>th_state := THREAD_WAITING\<rparr>))\<rparr>"
  have d: "thread_objs demo_sched 0x20 = Some (demo_thread 2)" by (simp add: demo_sched_defs)
  have "set_state 0x20 THREAD_WAITING demo_sched = Inr ((), ?s)"
    by (simp add: set_state_def bnd_run get_thread_run [OF d] put_thread_def upd_run)
  moreover have "tasks ?s \<noteq> 0" "list_rep ?s (threads ?s) [0x10, 0x20] 1"
    by (simp_all add: list_rep_def demo_sched_defs)
  ultimately show ?thesis
    using schedule_waiting_never_ends [of ?s "[0x10, 0x20]" 1] by auto
qed

end
