(* ===== verification/Kernel_Words.thy ===== *)
theory Kernel_Words
  imports Kernel_String
begin

text \<open>
  Words in the memory that the program sees: a 32-bit load or store through the page tables reads
  or writes the four bytes of a word, whatever its alignment.
\<close>

definition word_bytes :: "u32 \<Rightarrow> u8 list" where
  "word_bytes v = [ucast v, ucast (drop_bit 8 v), ucast (drop_bit 16 v), ucast (drop_bit 24 v)]"

lemma length_word_bytes: "length (word_bytes v) = 4"
  by (simp add: word_bytes_def)

definition bytes_word :: "u8 \<Rightarrow> u8 \<Rightarrow> u8 \<Rightarrow> u8 \<Rightarrow> u32" where
  "bytes_word b0 b1 b2 b3 = ucast b0 OR push_bit 8 (ucast b1) OR push_bit 16 (ucast b2) OR push_bit 24 (ucast b3)"

definition word_at :: "'a vm_scheme \<Rightarrow> u32 \<Rightarrow> u32 \<Rightarrow> bool" where
  "word_at s a v \<longleftrightarrow> holds s a (word_bytes v)"

lemma bytes_word_bytes:
  "bytes_word (ucast v) (ucast (drop_bit 8 v)) (ucast (drop_bit 16 v)) (ucast (drop_bit 24 v)) = v"
proof (rule bit_word_eqI)
  fix n assume n: "n < LENGTH(32)"
  consider "n < 8" | "8 \<le> n" "n < 16" | "16 \<le> n" "n < 24" | "24 \<le> n" by linarith
  then show "bit (bytes_word (ucast v) (ucast (drop_bit 8 v)) (ucast (drop_bit 16 v)) (ucast (drop_bit 24 v))) n
      \<longleftrightarrow> bit v n"
    using n by cases (auto simp: bytes_word_def bit_simps)
qed

lemma word_bytes_word: "word_bytes (bytes_word b0 b1 b2 b3) = [b0, b1, b2, b3]"
proof -
  have "ucast (bytes_word b0 b1 b2 b3) = b0"
    by (rule bit_word_eqI) (auto simp: bytes_word_def bit_simps dest: bit_imp_le_length)
  moreover have "ucast (drop_bit 8 (bytes_word b0 b1 b2 b3)) = b1"
    by (rule bit_word_eqI) (auto simp: bytes_word_def bit_simps dest: bit_imp_le_length)
  moreover have "ucast (drop_bit 16 (bytes_word b0 b1 b2 b3)) = b2"
    by (rule bit_word_eqI) (auto simp: bytes_word_def bit_simps dest: bit_imp_le_length)
  moreover have "ucast (drop_bit 24 (bytes_word b0 b1 b2 b3)) = b3"
    by (rule bit_word_eqI) (auto simp: bytes_word_def bit_simps dest: bit_imp_le_length)
  ultimately show ?thesis by (simp add: word_bytes_def)
qed

lemma run_of_4: "run_of a 4 = {a, a + 1, a + 2, a + 3}"
proof -
  have "{..<4 :: nat} = {0, 1, 2, 3}" by auto
  then show ?thesis by (simp add: run_of_def)
qed

lemma word_at_bytes:
  "word_at s a v \<longleftrightarrow> view s a = Some (ucast v) \<and> view s (a + 1) = Some (ucast (drop_bit 8 v))
     \<and> view s (a + 2) = Some (ucast (drop_bit 16 v)) \<and> view s (a + 3) = Some (ucast (drop_bit 24 v))"
  by (simp add: word_at_def word_bytes_def holds_Cons add.commute)

lemma vld32_word: "word_at s a v \<Longrightarrow> vld32 a s = Inr (v, s)"
  using bytes_word_bytes [of v]
  by (auto simp: word_at_bytes view_def vld32_def vtrans32_def bytes_word_def)

lemma word_at_unique: "word_at s a v \<Longrightarrow> word_at s a w \<Longrightarrow> v = w"
  using vld32_word [of s a v] vld32_word [of s a w] by simp

lemma buffer_word:
  assumes "buffer s A" and "run_of a 4 \<subseteq> A"
  shows "\<exists>v. word_at s a v"
proof -
  have "\<exists>b. view s x = Some b" if "x \<in> A" for x
    using assms(1) that unfolding buffer_def view_def by fastforce
  then obtain b0 b1 b2 b3 where "view s a = Some b0" "view s (a + 1) = Some b1"
    "view s (a + 2) = Some b2" "view s (a + 3) = Some b3"
    using assms(2) unfolding run_of_4 by (meson insert_subset)
  then have "holds s a [b0, b1, b2, b3]" by (simp add: holds_Cons add.commute)
  then show ?thesis using word_bytes_word [of b0 b1 b2 b3] unfolding word_at_def by metis
qed

lemma vst32_word:
  assumes b: "buffer s A" and a: "run_of a 4 \<subseteq> A"
  shows "\<exists>t. vst32 a v s = Inr ((), t) \<and> buffer t A \<and> t = s\<lparr>ram := ram t\<rparr> \<and> word_at t a v
    \<and> translate t = translate s \<and> pt_frames t = pt_frames s
    \<and> same_except (frame ` (\<lambda>x. the (translate s x)) ` run_of a 4) (ram s) (ram t)
    \<and> (\<forall>x \<in> A - run_of a 4. view t x = view s x)"
proof -
  have inj: "inj_on (translate s) A" using b by (simp add: buffer_def)
  obtain p0 p1 p2 p3 where p: "translate s a = Some p0" "translate s (a + 1) = Some p1"
    "translate s (a + 2) = Some p2" "translate s (a + 3) = Some p3"
    and np: "{frame p0, frame p1, frame p2, frame p3} \<inter> pt_frames s = {}"
  proof -
    have "\<exists>p. translate s x = Some p \<and> frame p \<notin> pt_frames s" if "x \<in> run_of a 4" for x
      using b a that unfolding buffer_def by blast
    then have "\<forall>x \<in> {a, a + 1, a + 2, a + 3}. \<exists>p. translate s x = Some p \<and> frame p \<notin> pt_frames s"
      unfolding run_of_4 by blast
    then show ?thesis using that by auto
  qed
  have dist: "x = y" if "translate s x = translate s y" "x \<in> A" "y \<in> A" for x y
    using inj that by (rule inj_onD)
  have aA: "a \<in> A" "a + 1 \<in> A" "a + 2 \<in> A" "a + 3 \<in> A" using a by (simp_all add: run_of_4)
  have ne: "p0 \<noteq> p1" "p0 \<noteq> p2" "p0 \<noteq> p3" "p1 \<noteq> p2" "p1 \<noteq> p3" "p2 \<noteq> p3"
    using dist [of a "a + 1"] dist [of a "a + 2"] dist [of a "a + 3"] dist [of "a + 1" "a + 2"]
      dist [of "a + 1" "a + 3"] dist [of "a + 2" "a + 3"] aA p by auto
  let ?m = "(ram s)(p0 := ucast v, p1 := ucast (drop_bit 8 v), p2 := ucast (drop_bit 16 v), p3 := ucast (drop_bit 24 v))"
  let ?t = "s\<lparr>ram := ?m\<rparr>" and ?F = "{frame p0, frame p1, frame p2, frame p3}"
  have same: "same_except ?F (ram s) ?m" by (auto simp: same_except_def)
  note tr = translate_same [OF same np] and pt = pt_frames_same [OF same np]
  have run: "vst32 a v s = Inr ((), ?t)" by (simp add: vst32_def vtrans32_def p)
  have tr': "translate ?t = translate s" using tr by auto
  have "word_at ?t a v" using ne by (simp add: word_at_bytes view_def tr' p)
  moreover have "view ?t x = view s x" if "x \<in> A - run_of a 4" for x
  proof -
    have "translate s x \<noteq> Some p0" "translate s x \<noteq> Some p1" "translate s x \<noteq> Some p2" "translate s x \<noteq> Some p3"
      using that dist [of x a] dist [of x "a + 1"] dist [of x "a + 2"] dist [of x "a + 3"] aA p
      by (auto simp: run_of_4)
    then show ?thesis by (cases "translate s x") (auto simp: view_def tr')
  qed
  moreover have "buffer ?t A" using b by (simp add: buffer_def tr' pt)
  moreover have "frame ` (\<lambda>x. the (translate s x)) ` run_of a 4 = ?F" by (simp add: run_of_4 p)
  ultimately show ?thesis using run tr' pt same by (intro exI [of _ ?t]) simp
qed

text \<open>A word outside the run that changed is as before.\<close>

lemma word_at_outside:
  assumes "\<forall>x \<in> A - D. view t x = view s x" and "run_of b 4 \<subseteq> A" and "run_of b 4 \<inter> D = {}"
  shows "word_at t b w \<longleftrightarrow> word_at s b w"
proof -
  have "view t x = view s x" if "x \<in> run_of b 4" for x using assms that by blast
  then show ?thesis by (simp add: word_at_bytes run_of_4)
qed

text \<open>With paging off every address is physical; here the page of \<open>cr3\<close> is empty.\<close>

lemma flat_buffer_any:
  assumes "\<not> cr0_pg s" and "cr3 s = 0x1000" and "\<forall>a. frame a = 0x1000 \<longrightarrow> ram s a = 0"
    and "\<forall>a \<in> A. frame a \<noteq> 0x1000"
  shows "buffer s A"
proof -
  have f: "frame 0x1000 = (0x1000 :: u32)" by (simp add: PAGE_ADDR_MASK_def)
  have "pde_at s i = 0" if "i < 1024" for i
  proof -
    have a: "aligned4 (entry 0x1000 i)" "frame (entry 0x1000 i) = 0x1000" using that f by (simp_all add: page_simps)
    have "frame (entry 0x1000 i + k) = 0x1000" if "k < 4" for k
      using frame_plus_in_word(1) [OF a(1) that] a(2) by simp
    from this [of 0] this [of 1] this [of 2] this [of 3] show ?thesis
      using assms(2,3) by (simp add: pde_at_def ld32_def)
  qed
  then have "pt_frames s = {0x1000}" using f assms(2) by (auto simp: pt_frames_def present_def)
  then show ?thesis using assms(1,4) by (auto simp: buffer_def inj_on_def translate_def)
qed

section \<open>Bytes and words at natural addresses\<close>

lemma run_of_nat:
  assumes "a + n \<le> 4294967296"
  shows "x \<in> run_of (of_nat a) n \<longleftrightarrow> a \<le> unat x \<and> unat x < a + n"
proof
  assume "x \<in> run_of (of_nat a) n"
  then obtain i where i: "i < n" "x = of_nat (a + i)" by (auto simp: run_of_def)
  moreover have "unat (of_nat (a + i) :: u32) = a + i" using i(1) assms by (subst unat_of_nat) simp
  ultimately show "a \<le> unat x \<and> unat x < a + n" by simp
next
  assume x: "a \<le> unat x \<and> unat x < a + n"
  then have "unat x - a < n" "x = of_nat a + of_nat (unat x - a)"
    by (auto simp flip: of_nat_add)
  then show "x \<in> run_of (of_nat a) n" using in_run_of by metis
qed

lemma word_at_nat:
  assumes "\<And>x. b \<le> unat x \<Longrightarrow> unat x < b + 4 \<Longrightarrow> view t x = view s x" and "b + 4 \<le> 4294967296"
  shows "word_at t (of_nat b) v = word_at s (of_nat b) v"
proof -
  have "view t x = view s x" if "x \<in> run_of (of_nat b) 4" for x
    using assms run_of_nat [of b 4 x] that by simp
  then show ?thesis by (simp add: word_at_bytes run_of_4)
qed

lemma buffer_store_at:
  assumes b: "buffer s A" and A: "\<And>x. b \<le> unat x \<Longrightarrow> unat x < b + 4 \<Longrightarrow> x \<in> A" and lim: "b + 4 \<le> 4294967296"
  shows "\<exists>t. vst32 (of_nat b) v s = Inr ((), t) \<and> buffer t A \<and> t = s\<lparr>ram := ram t\<rparr> \<and> word_at t (of_nat b) v
    \<and> (\<forall>x \<in> A. unat x < b \<or> b + 4 \<le> unat x \<longrightarrow> view t x = view s x) \<and> alters A s t"
proof -
  have sub: "run_of (of_nat b) 4 \<subseteq> A" using A run_of_nat [OF lim] by blast
  obtain t where t: "vst32 (of_nat b) v s = Inr ((), t)" "buffer t A" "t = s\<lparr>ram := ram t\<rparr>" "word_at t (of_nat b) v"
    "translate t = translate s" "same_except (frame ` (\<lambda>x. the (translate s x)) ` run_of (of_nat b) 4) (ram s) (ram t)"
    "\<forall>x \<in> A - run_of (of_nat b) 4. view t x = view s x"
    using vst32_word [OF b sub, of v] by blast
  have "x \<in> A - run_of (of_nat b) 4" if "x \<in> A" "unat x < b \<or> b + 4 \<le> unat x" for x
    using that run_of_nat [OF lim, of x] by auto
  moreover have "frame ` (\<lambda>x. the (translate s x)) ` run_of (of_nat b) 4 \<subseteq> (\<lambda>x. frame (the (translate s x))) ` A"
    using sub by blast
  then have "alters A s t" unfolding alters_def using t(3,5) same_except_mono [OF t(6)] by simp
  ultimately show ?thesis using t(1-4,7) by (intro exI [of _ t]) simp
qed

end
