(* ===== verification/Kernel_Initrd.thy ===== *)
theory Kernel_Initrd
  imports Kernel_Fs Kernel_Sched Kernel_Words
begin

text \<open>
  The initial ramdisk of \<open>kernel/fs/initrd.c\<close>: an image of a word, 64 file headers of
  76 bytes and the contents of the files, mounted in place as a file system
  with one directory. The kernel's state grows from theory to theory, so the
  record is on top of the scheduler's.
\<close>

section \<open>State\<close>

record initrd = sched +
  initrd_header :: u32
  file_headers :: u32
  initrd_root :: u32
  initrd_dev :: u32
  root_nodes :: u32
  nroot_nodes :: u32
  fs_root :: u32

text \<open>
  The addresses that the linker chose: the static \<open>dirent\<close>, the string literals and
  the functions.
\<close>

record image =
  at_dirent :: u32
  at_str_initrd :: u32
  at_str_dev :: u32
  at_initrd_read :: u32
  at_initrd_readdir :: u32
  at_initrd_finddir :: u32

definition HEADER_MAGIC :: u32 where "HEADER_MAGIC = 0xBF"

definition sizeof_initrd_header :: u32 where "sizeof_initrd_header = 4"
definition sizeof_file_header :: u32 where "sizeof_file_header = 76"

text \<open>The places of the fields of an \<open>initrd_file_header_t\<close>; \<open>magic\<close> is its first byte.\<close>

definition header_at :: "u32 \<Rightarrow> u32 \<Rightarrow> u32" where
  "header_at base i = base + sizeof_file_header * i"

definition header_name :: "u32 \<Rightarrow> u32" where "header_name h = h + 1"
definition header_offset :: "u32 \<Rightarrow> u32" where "header_offset h = h + 68"
definition header_length :: "u32 \<Rightarrow> u32" where "header_length h = h + 72"

definition root_node :: "u32 \<Rightarrow> u32 \<Rightarrow> u32" where
  "root_node base i = base + sizeof_fs_node * i"

section \<open>Reading\<close>

definition initrd_read :: "'a initrd_scheme read_fn" where
  "initrd_read node offset sz buf =
     bnd (node_get node Inode) (\<lambda>i.
     bnd (gets file_headers) (\<lambda>hs.
     bnd (vld32 (header_offset (header_at hs i))) (\<lambda>h_offset.
     bnd (vld32 (header_length (header_at hs i))) (\<lambda>h_length.
     if offset > h_length then ret 0
     else
       let sz = (if offset + sz > h_length then h_length - offset else sz) in
       bnd (memcpy buf (h_offset + offset) sz) (\<lambda>_. ret sz)))))"

section \<open>Directories\<close>

definition initrd_readdir :: "image \<Rightarrow> u32 \<Rightarrow> u32 \<Rightarrow> ('a initrd_scheme, u32) cmd" where
  "initrd_readdir im node index =
     bnd (gets initrd_root) (\<lambda>root.
     if node = root \<and> index = 0 then
       bnd (strcpy (at_dirent im) (at_str_dev im)) (\<lambda>_.
       bnd (vst8 (at_dirent im + 3) 0) (\<lambda>_.
       bnd (vst32 (dirent_inode (at_dirent im)) 0) (\<lambda>_.
       ret (at_dirent im))))
     else
       bnd (gets nroot_nodes) (\<lambda>n.
       if index - 1 \<ge> n then ret 0
       else
         bnd (gets root_nodes) (\<lambda>base.
         let nd = root_node base (index - 1) in
         bnd (strcpy (at_dirent im) nd) (\<lambda>_.
         bnd (strlen nd) (\<lambda>len.
         bnd (vst8 (at_dirent im + len) 0) (\<lambda>_.
         bnd (node_get nd Inode) (\<lambda>i.
         bnd (vst32 (dirent_inode (at_dirent im)) i) (\<lambda>_.
         ret (at_dirent im)))))))))"

primrec find_node :: "nat \<Rightarrow> u32 \<Rightarrow> u32 \<Rightarrow> ('a initrd_scheme, u32) cmd" where
  "find_node 0 i name = fault Out_of_Fuel"
| "find_node (Suc n) i name =
     bnd (gets nroot_nodes) (\<lambda>count.
     if i < count then
       bnd (gets root_nodes) (\<lambda>base.
       bnd (strcmp name (root_node base i)) (\<lambda>c.
       if c = 0 then ret (root_node base i) else find_node n (i + 1) name))
     else ret 0)"

definition initrd_finddir :: "image \<Rightarrow> u32 \<Rightarrow> u32 \<Rightarrow> ('a initrd_scheme, u32) cmd" where
  "initrd_finddir im node name =
     bnd (gets initrd_root) (\<lambda>root.
     bnd (if node = root then bnd (strcmp name (at_str_dev im)) (\<lambda>c. ret (c = 0)) else ret False) (\<lambda>dev.
     if dev then gets initrd_dev else find_node string_fuel 0 name))"

section \<open>Mounting\<close>

definition init_directory :: "image \<Rightarrow> u32 \<Rightarrow> u32 \<Rightarrow> ('a initrd_scheme, unit) cmd" where
  "init_directory im node name =
     bnd (memset node 0 sizeof_fs_node) (\<lambda>_.
     bnd (strcpy node name) (\<lambda>_.
     bnd (node_put node Flags FS_DIRECTORY) (\<lambda>_.
     bnd (node_put node Readdir (at_initrd_readdir im)) (\<lambda>_.
     node_put node Finddir (at_initrd_finddir im)))))"

definition mount_file :: "image \<Rightarrow> u32 \<Rightarrow> u32 \<Rightarrow> ('a initrd_scheme, unit) cmd" where
  "mount_file im location i =
     bnd (gets file_headers) (\<lambda>hs.
     bnd (gets root_nodes) (\<lambda>base.
     let h = header_at hs i; nd = root_node base i in
     bnd (vld8 h) (\<lambda>magic.
     if HEADER_MAGIC \<noteq> ucast magic then panic ''Initial ramdisk corrupted.''
     else
       bnd (vld32 (header_offset h)) (\<lambda>o'.
       bnd (vst32 (header_offset h) (o' + location)) (\<lambda>_.
       bnd (strcpy nd (header_name h)) (\<lambda>_.
       bnd (vld32 (header_length h)) (\<lambda>len.
       bnd (node_put nd Length len) (\<lambda>_.
       bnd (node_put nd Inode i) (\<lambda>_.
       bnd (node_put nd Flags FS_FILE) (\<lambda>_.
       node_put nd Read (at_initrd_read im)))))))))))"

primrec mount_files :: "nat \<Rightarrow> image \<Rightarrow> u32 \<Rightarrow> u32 \<Rightarrow> ('a initrd_scheme, unit) cmd" where
  "mount_files 0 im location i = fault Out_of_Fuel"
| "mount_files (Suc n) im location i =
     bnd (gets nroot_nodes) (\<lambda>count.
     if i < count then bnd (mount_file im location i) (\<lambda>_. mount_files n im location (i + 1))
     else skip)"

definition init_initrd :: "image \<Rightarrow> u32 \<Rightarrow> ('a initrd_scheme, u32) cmd" where
  "init_initrd im location =
     bnd (upd (\<lambda>s. s\<lparr>initrd_header := location, file_headers := location + sizeof_initrd_header\<rparr>)) (\<lambda>_.
     bnd (kmalloc_zero sizeof_fs_node) (\<lambda>root.
     bnd (upd (\<lambda>s. s\<lparr>initrd_root := root\<rparr>)) (\<lambda>_.
     bnd (init_directory im root (at_str_initrd im)) (\<lambda>_.
     bnd (kmalloc_zero sizeof_fs_node) (\<lambda>dev.
     bnd (upd (\<lambda>s. s\<lparr>initrd_dev := dev\<rparr>)) (\<lambda>_.
     bnd (init_directory im dev (at_str_dev im)) (\<lambda>_.
     bnd (vld32 location) (\<lambda>nfiles.
     bnd (kmalloc (sizeof_fs_node * nfiles)) (\<lambda>nodes.
     bnd (upd (\<lambda>s. s\<lparr>root_nodes := nodes\<rparr>)) (\<lambda>_.
     bnd (vld32 location) (\<lambda>nfiles.
     bnd (memset nodes 0 (sizeof_fs_node * nfiles)) (\<lambda>_.
     bnd (vld32 location) (\<lambda>nfiles.
     bnd (upd (\<lambda>s. s\<lparr>nroot_nodes := nfiles\<rparr>)) (\<lambda>_.
     bnd (mount_files string_fuel im location 0) (\<lambda>_.
     gets initrd_root)))))))))))))))"

section \<open>The functions of a mounted ramdisk\<close>

text \<open>
  What the function pointers of its nodes call. A call of any other address runs code
  that is no function of this table.
\<close>

definition call_read :: "image \<Rightarrow> u32 \<Rightarrow> 'a initrd_scheme read_fn" where
  "call_read im f node offset sz buf =
     (if f = at_initrd_read im then initrd_read node offset sz buf else fault Bad_Access)"

definition call_readdir :: "image \<Rightarrow> u32 \<Rightarrow> u32 \<Rightarrow> u32 \<Rightarrow> ('a initrd_scheme, u32) cmd" where
  "call_readdir im f node index =
     (if f = at_initrd_readdir im then initrd_readdir im node index else fault Bad_Access)"

definition call_finddir :: "image \<Rightarrow> u32 \<Rightarrow> u32 \<Rightarrow> u32 \<Rightarrow> ('a initrd_scheme, u32) cmd" where
  "call_finddir im f node name =
     (if f = at_initrd_finddir im then initrd_finddir im node name else fault Bad_Access)"

definition call_open :: "u32 \<Rightarrow> u32 \<Rightarrow> u8 \<Rightarrow> u8 \<Rightarrow> ('a initrd_scheme, unit) cmd" where
  "call_open f node r w = fault Bad_Access"

definition call_close :: "u32 \<Rightarrow> u32 \<Rightarrow> ('a initrd_scheme, unit) cmd" where
  "call_close f node = fault Bad_Access"

section \<open>Reading a file\<close>

text \<open>
  What a client of the file system relies on: \<open>is_file s node bs\<close> says that the node
  is a file with contents \<open>bs\<close>, \<open>target s node buf n\<close> that \<open>n\<close> bytes at \<open>buf\<close> can be
  written without touching the file. A read gives the part of the file that the request
  and the end of the file allow.
\<close>

locale file_reader =
  fixes rd :: "'a vm_scheme read_fn"
    and is_file :: "'a vm_scheme \<Rightarrow> u32 \<Rightarrow> u8 list \<Rightarrow> bool"
    and target :: "'a vm_scheme \<Rightarrow> u32 \<Rightarrow> u32 \<Rightarrow> nat \<Rightarrow> bool"
  assumes read_part: "is_file s node bs \<Longrightarrow> unat offset \<le> length bs \<Longrightarrow>
      unat offset + unat sz < 4294967296 \<Longrightarrow> n = min (unat sz) (length bs - unat offset) \<Longrightarrow>
      target s node buf n \<Longrightarrow>
      \<exists>t. rd node offset sz buf s = Inr (of_nat n, t) \<and> holds t buf (take n (drop (unat offset) bs))
        \<and> is_file t node bs \<and> t = s\<lparr>ram := ram t\<rparr>"
    and read_beyond: "is_file s node bs \<Longrightarrow> length bs < unat offset \<Longrightarrow> rd node offset sz buf s = Inr (0, s)"
    and file_size: "is_file s node bs \<Longrightarrow> length bs < 4294967296"
begin

lemma read_all:
  assumes "is_file s node bs" and "length bs \<le> unat sz" and "target s node buf (length bs)"
  shows "\<exists>t. rd node 0 sz buf s = Inr (of_nat (length bs), t) \<and> holds t buf bs \<and> is_file t node bs"
  using read_part [of s node bs 0 sz "length bs" buf] assms unat_u32_less [of sz] by auto

lemma read_at_end:
  assumes "is_file s node bs" and "target s node buf 0" and "length bs + unat sz < 4294967296"
  shows "\<exists>t. rd node (of_nat (length bs)) sz buf s = Inr (0, t) \<and> is_file t node bs"
proof -
  have "unat (of_nat (length bs) :: u32) = length bs" using file_size [OF assms(1)] by (simp add: unat_of_nat)
  with read_part [of s node bs "of_nat (length bs)" sz 0 buf] assms show ?thesis by auto
qed

end

text \<open>The ramdisk's files: the node names a header, the header the place and length of the contents.\<close>

definition file_parts :: "'a initrd_scheme \<Rightarrow> u32 \<Rightarrow> u32 \<Rightarrow> u32 \<Rightarrow> nat \<Rightarrow> u32 set" where
  "file_parts s node i place n = run_of (node + 144) 4 \<union> run_of (node + 156) 4
     \<union> run_of (header_offset (header_at (file_headers s) i)) 4
     \<union> run_of (header_length (header_at (file_headers s) i)) 4 \<union> run_of place n"

definition file_at :: "'a initrd_scheme \<Rightarrow> u32 \<Rightarrow> u32 \<Rightarrow> u32 \<Rightarrow> u8 list \<Rightarrow> bool" where
  "file_at s node i place bs \<longleftrightarrow> word_at s (node + 144) i
     \<and> word_at s (header_offset (header_at (file_headers s) i)) place
     \<and> word_at s (header_length (header_at (file_headers s) i)) (of_nat (length bs))
     \<and> holds s place bs \<and> length bs < 4294967296"

definition initrd_file :: "image \<Rightarrow> 'a initrd_scheme \<Rightarrow> u32 \<Rightarrow> u8 list \<Rightarrow> bool" where
  "initrd_file im s node bs \<longleftrightarrow> at_initrd_read im \<noteq> 0 \<and> word_at s (node + 156) (at_initrd_read im)
     \<and> (\<exists>i place. file_at s node i place bs)"

definition initrd_target :: "'a initrd_scheme \<Rightarrow> u32 \<Rightarrow> u32 \<Rightarrow> nat \<Rightarrow> bool" where
  "initrd_target s node buf n \<longleftrightarrow> (\<exists>A. buffer s A \<and> run_of buf n \<subseteq> A
     \<and> (\<forall>i place bs. file_at s node i place bs \<longrightarrow>
          file_parts s node i place (length bs) \<subseteq> A \<and> run_of buf n \<inter> file_parts s node i place (length bs) = {}))"

lemma run_of_mono: "m \<le> n \<Longrightarrow> run_of a m \<subseteq> run_of a n"
  by (auto simp: run_of_def)

lemma run_of_drop: "k + n \<le> m \<Longrightarrow> run_of (a + of_nat k) n \<subseteq> run_of a m"
proof
  fix x assume k: "k + n \<le> m" and "x \<in> run_of (a + of_nat k) n"
  then obtain i where i: "i < n" "x = a + of_nat (k + i)" by (auto simp: run_of_def algebra_simps)
  then show "x \<in> run_of a m" using k unfolding i(2) by (intro in_run_of) simp
qed

lemma holds_drop: "holds s a bs \<Longrightarrow> holds s (a + of_nat k) (drop k bs)"
  unfolding holds_def
proof (intro allI impI)
  fix i assume h: "\<forall>i < length bs. view s (a + of_nat i) = Some (bs ! i)" and i: "i < length (drop k bs)"
  then have "k + i < length bs" by simp
  with h have "view s (a + of_nat (k + i)) = Some (bs ! (k + i))" by blast
  then show "view s (a + of_nat k + of_nat i) = Some (drop k bs ! i)" using i by (simp add: add.assoc)
qed

lemma holds_take: "holds s a bs \<Longrightarrow> holds s a (take n bs)"
  by (simp add: holds_def)

lemma holds_same:
  assumes "\<forall>x \<in> run_of a (length bs). view t x = view s x"
  shows "holds t a bs = holds s a bs"
  using assms in_run_of [of _ "length bs" a] by (simp add: holds_def)

lemma initrd_read_run:
  assumes f: "file_at s node i place bs"
  shows "initrd_read node offset sz buf s =
    (if length bs < unat offset then Inr (0, s)
     else let n = (if of_nat (length bs) < offset + sz then of_nat (length bs) - offset else sz) in
       (case memcpy buf (place + offset) n s of Inl e \<Rightarrow> Inl e | Inr (_, t) \<Rightarrow> Inr (n, t)))"
proof -
  have w: "vld32 (node + 144) s = Inr (i, s)"
    "vld32 (header_offset (header_at (file_headers s) i)) s = Inr (place, s)"
    "vld32 (header_length (header_at (file_headers s) i)) s = Inr (of_nat (length bs), s)"
    using f unfolding file_at_def by (blast intro: vld32_word)+
  have "(of_nat (length bs) :: u32) < offset \<longleftrightarrow> length bs < unat offset"
    using f by (simp add: file_at_def word_less_nat_alt unat_of_nat)
  then show ?thesis
    using w by (simp add: initrd_read_def node_get_def cmd_simps Let_def split: sum.splits)
qed

lemma initrd_read_part:
  assumes f: "file_at s node i place bs" and off: "unat offset \<le> length bs"
    and nw: "unat offset + unat sz < 4294967296" and n: "n = min (unat sz) (length bs - unat offset)"
    and A: "buffer s A" "run_of buf n \<subseteq> A" "file_parts s node i place (length bs) \<subseteq> A"
      "run_of buf n \<inter> file_parts s node i place (length bs) = {}"
  shows "\<exists>t. initrd_read node offset sz buf s = Inr (of_nat n, t) \<and> holds t buf (take n (drop (unat offset) bs))
    \<and> t = s\<lparr>ram := ram t\<rparr> \<and> (\<forall>x \<in> A - run_of buf n. view t x = view s x)"
proof -
  have lb: "length bs < 4294967296" and hp: "holds s place bs" using f by (simp_all add: file_at_def)
  have ul: "unat (of_nat (length bs) :: u32) = length bs" using lb by (simp add: unat_of_nat)
  have us: "unat (offset + sz) = unat offset + unat sz" using nw by (simp add: unat_word_ariths)
  let ?n = "if of_nat (length bs) < offset + sz then of_nat (length bs) - offset else sz"
  have un: "unat ?n = n"
  proof (cases "(of_nat (length bs) :: u32) < offset + sz")
    case True
    then have "length bs < unat offset + unat sz" using ul us by (simp add: word_less_nat_alt)
    moreover have "unat (of_nat (length bs) - offset) = length bs - unat offset"
      using off ul by (simp add: unat_sub word_le_nat_alt)
    ultimately show ?thesis using True n by simp
  next
    case False
    then have "unat offset + unat sz \<le> length bs" using ul us by (simp add: word_less_nat_alt)
    then show ?thesis using False n by simp
  qed
  let ?bs = "take n (drop (unat offset) bs)"
  have len: "length ?bs = n" using n by simp
  have src: "holds s (place + offset) ?bs"
    using holds_take [OF holds_drop [OF hp, of "unat offset"], of n] by simp
  have "run_of (place + of_nat (unat offset)) n \<subseteq> run_of place (length bs)"
    by (rule run_of_drop) (use n off in linarith)
  then have ro: "run_of (place + offset) n \<subseteq> run_of place (length bs)" by simp
  then have sA: "run_of (place + offset) n \<subseteq> A" "run_of buf n \<inter> run_of (place + offset) n = {}"
    using A(3,4) unfolding file_parts_def by blast+
  have small: "length ?bs < 4294967296" using len lb n by linarith
  obtain t where t: "memcpy_loop n buf (place + offset) s = Inr ((), t)" "holds t buf ?bs"
    "t = s\<lparr>ram := ram t\<rparr>" "\<forall>x \<in> A - run_of buf n. view t x = view s x"
    using memcpy_loop_copies [OF A(1), of buf ?bs "place + offset"] A(2) sA src small unfolding len by blast
  have "memcpy buf (place + offset) ?n s = Inr (buf, t)"
    using t(1) unfolding memcpy_def un by (simp add: bnd_run ret_run)
  moreover have "?n = of_nat n" unfolding un [symmetric] by simp
  ultimately have "initrd_read node offset sz buf s = Inr (of_nat n, t)"
    using off by (simp add: initrd_read_run [OF f] Let_def)
  with t show ?thesis by blast
qed

lemma file_at_same:
  assumes "t = s\<lparr>ram := ram t\<rparr>" and "\<forall>x \<in> file_parts s node i place (length bs). view t x = view s x"
  shows "file_at t node i place bs = file_at s node i place bs"
proof -
  have h: "file_headers t = file_headers s" by (subst assms(1)) simp
  have w: "word_at t a v = word_at s a v" if "run_of a 4 \<subseteq> file_parts s node i place (length bs)" for a v
    using assms(2) that unfolding word_at_def
    by (intro holds_same) (auto simp: length_word_bytes)
  have p: "run_of (node + 144) 4 \<subseteq> file_parts s node i place (length bs)"
    "run_of (header_offset (header_at (file_headers s) i)) 4 \<subseteq> file_parts s node i place (length bs)"
    "run_of (header_length (header_at (file_headers s) i)) 4 \<subseteq> file_parts s node i place (length bs)"
    by (auto simp: file_parts_def)
  have "holds t place bs = holds s place bs"
    by (rule holds_same) (use assms(2) in \<open>simp add: file_parts_def\<close>)
  then show ?thesis using w [OF p(1)] w [OF p(2)] w [OF p(3)] by (simp add: file_at_def h)
qed

lemma fs_read_initrd:
  assumes "at_initrd_read im \<noteq> 0" and "word_at s (node + 156) (at_initrd_read im)"
  shows "fs_read (call_read im) node offset sz buf s = initrd_read node offset sz buf s"
  using assms(1) vld32_word [OF assms(2)]
  by (simp add: fs_read_def node_get_def call_read_def bnd_run)

interpretation ramdisk: file_reader "fs_read (call_read im)" "initrd_file im" initrd_target for im
proof (unfold_locales, goal_cases)
  case (1 s node bs offset sz n buf)
  obtain i place where f: "file_at s node i place bs" and r: "at_initrd_read im \<noteq> 0"
    "word_at s (node + 156) (at_initrd_read im)" using 1(1) by (auto simp: initrd_file_def)
  obtain A where A: "buffer s A" "run_of buf n \<subseteq> A" "file_parts s node i place (length bs) \<subseteq> A"
    "run_of buf n \<inter> file_parts s node i place (length bs) = {}"
    using 1(5) f unfolding initrd_target_def by blast
  obtain t where t: "initrd_read node offset sz buf s = Inr (of_nat n, t)"
    "holds t buf (take n (drop (unat offset) bs))" "t = s\<lparr>ram := ram t\<rparr>"
    "\<forall>x \<in> A - run_of buf n. view t x = view s x"
    using initrd_read_part [OF f 1(2-4) A] by blast
  have same: "\<forall>x \<in> file_parts s node i place (length bs). view t x = view s x" using A(3,4) t(4) by blast
  have "file_at t node i place bs" using file_at_same [OF t(3) same] f by simp
  moreover have "word_at t (node + 156) (at_initrd_read im)"
  proof -
    have "word_at t (node + 156) (at_initrd_read im) = word_at s (node + 156) (at_initrd_read im)"
      unfolding word_at_def by (rule holds_same) (use same in \<open>simp add: length_word_bytes file_parts_def\<close>)
    then show ?thesis using r(2) by simp
  qed
  ultimately have "initrd_file im t node bs" using r(1) by (auto simp: initrd_file_def)
  then show ?case using t fs_read_initrd [OF r] by auto
next
  case (2 s node bs offset sz buf)
  then show ?case using fs_read_initrd [of im s node] initrd_read_run [of s node _ _ bs offset sz buf]
    by (auto simp: initrd_file_def)
next
  case (3 s node bs)
  then show ?case by (auto simp: initrd_file_def file_at_def)
qed

section \<open>Properties\<close>

text \<open>
  A node at 0x20000 for header 0 at 0x20200, three bytes of contents at 0x20300. The function
  \<open>initrd_read\<close> is at 0x1000. Paging is off.
\<close>

definition demo_image :: image where
  "demo_image = \<lparr>at_dirent = 0, at_str_initrd = 0, at_str_dev = 0, at_initrd_read = 0x1000,
     at_initrd_readdir = 0x1100, at_initrd_finddir = 0x1200\<rparr>"

definition demo_disk_ram :: bytes where
  "demo_disk_ram = (\<lambda>_. 0)(0x2009D := 0x10, 0x20245 := 3, 0x20246 := 2,
     0x20248 := 3, 0x20300 := 0x61, 0x20301 := 0x62, 0x20302 := 0x63)"

definition demo_disk :: initrd where
  "demo_disk = sched.extend (threading.extend (objects.extend (heap.extend
     (vm.extend (flat_memory demo_disk_ram) (heap.fields 0 0))
     (objects.fields (\<lambda>_. None) (\<lambda>_. None)))
     (threading.fields (\<lambda>_. None) (\<lambda>_. None) 0 0 0 0 0 0 (loaded zero_thread) False))
     (sched.fields 0 0))
     (initrd.fields 0x201FC 0x20200 0 0 0x20000 1 0)"

lemmas demo_disk_defs = demo_disk_def initrd.defs sched.defs threading.defs objects.defs heap.defs vm.defs
  flat_memory_def

lemma demo_disk_state [simp]:
  "view demo_disk a = Some (demo_disk_ram a)" "file_headers demo_disk = 0x20200"
  by (simp_all add: view_def translate_def demo_disk_defs)

lemma demo_disk_buffer: "buffer demo_disk {0x20000 .. 0x20FFF}"
proof (rule flat_buffer_any)
  show "\<not> cr0_pg demo_disk" "cr3 demo_disk = 0x1000" by (simp_all add: demo_disk_defs)
  have "frame a = 0x1000 \<Longrightarrow> a \<notin> {0x2009D, 0x20245, 0x20246, 0x20248, 0x20300, 0x20301, 0x20302}" for a
    by (auto simp: PAGE_ADDR_MASK_def)
  then show "\<forall>a. frame a = 0x1000 \<longrightarrow> ram demo_disk a = 0"
    by (auto simp: demo_disk_ram_def demo_disk_defs)
  show "\<forall>a \<in> {0x20000 .. 0x20FFF}. frame a \<noteq> 0x1000"
    by (auto simp: word_le_nat_alt word_unat_eq_iff unat_frame)
qed

lemma demo_disk_file: "file_at demo_disk 0x20000 i place bs \<longleftrightarrow> i = 0 \<and> place = 0x20300 \<and> bs = [0x61, 0x62, 0x63]"
proof -
  have h: "header_offset (header_at 0x20200 0) = 0x20244" "header_length (header_at 0x20200 0) = 0x20248"
    by (simp_all add: header_offset_def header_length_def header_at_def)
  have w: "word_at demo_disk 0x20090 0" "word_at demo_disk 0x20244 0x20300" "word_at demo_disk 0x20248 3"
    by (simp_all add: word_at_bytes demo_disk_ram_def drop_bit_eq_div)
  have c: "holds demo_disk 0x20300 [0x61, 0x62, 0x63]" by (simp add: holds_Cons demo_disk_ram_def)
  have "bs = [0x61, 0x62, 0x63]" if "holds demo_disk 0x20300 bs" "(of_nat (length bs) :: u32) = 3" "length bs < 4294967296"
  proof -
    have "unat (of_nat (length bs) :: u32) = length bs" using that(3) by (simp add: unat_of_nat)
    then have "length bs = 3" using that(2) by simp
    then obtain x y z where "bs = [x, y, z]" by (auto simp: numeral_3_eq_3 length_Suc_conv)
    with that(1) show ?thesis by (simp add: holds_Cons demo_disk_ram_def)
  qed
  note contents = this
  show ?thesis
  proof
    assume f: "file_at demo_disk 0x20000 i place bs"
    then have "word_at demo_disk 0x20090 i" by (simp add: file_at_def)
    then have i: "i = 0" using w(1) by (rule word_at_unique)
    have p: "word_at demo_disk 0x20244 place" "word_at demo_disk 0x20248 (of_nat (length bs))"
      using f h by (simp_all add: file_at_def i)
    have "place = 0x20300" using p(1) w(2) by (rule word_at_unique)
    moreover have "(of_nat (length bs) :: u32) = 3" using p(2) w(3) by (rule word_at_unique)
    ultimately show "i = 0 \<and> place = 0x20300 \<and> bs = [0x61, 0x62, 0x63]"
      using f i contents by (simp add: file_at_def)
  next
    assume "i = 0 \<and> place = 0x20300 \<and> bs = [0x61, 0x62, 0x63]"
    then show "file_at demo_disk 0x20000 i place bs" using w c h by (simp add: file_at_def)
  qed
qed

text \<open>C21: Reading a file of the ramdisk through the file system gives the part of the file that the
  request and the end of the file allow: the result is that number of bytes, they are in the buffer, and
  the file is as it was; an offset beyond the end reads nothing and changes nothing. The
  buffer must be writable memory apart from the file's node, header and contents, and the
  end of the request must not wrap around.\<close>

theorem initrd_read_file:
  assumes is_file: "initrd_file im s node bs"
  shows "(length bs < unat offset \<longrightarrow> fs_read (call_read im) node offset sz buf s = Inr (0, s))
    \<and> (\<forall>n. unat offset \<le> length bs \<and> unat offset + unat sz < 4294967296
        \<and> n = min (unat sz) (length bs - unat offset) \<and> initrd_target s node buf n \<longrightarrow>
      (\<exists>t. fs_read (call_read im) node offset sz buf s = Inr (of_nat n, t)
        \<and> holds t buf (take n (drop (unat offset) bs)) \<and> initrd_file im t node bs))"
  using ramdisk.read_beyond [OF is_file] ramdisk.read_part [OF is_file] by blast

theorem initrd_read_file_witness:
  "\<exists>t. fs_read (call_read demo_image) 0x20000 1 10 0x20400 demo_disk = Inr (2, t)
    \<and> holds t 0x20400 [0x62, 0x63]"
proof -
  have w: "word_at demo_disk 0x2009C 0x1000" by (simp add: word_at_bytes demo_disk_ram_def drop_bit_eq_div)
  have is_file: "initrd_file demo_image demo_disk 0x20000 [0x61, 0x62, 0x63]"
    using w by (simp add: initrd_file_def demo_disk_file demo_image_def)
  have two: "run_of a 2 = {a, a + 1}" for a by (auto simp: run_of_def numeral_2_eq_2 lessThan_Suc)
  have three: "run_of a (Suc (Suc (Suc 0))) = {a, a + 1, a + 2}" for a by (auto simp: run_of_def lessThan_Suc)
  have "file_parts demo_disk 0x20000 0 0x20300 (Suc (Suc (Suc 0))) = {0x20090, 0x20091, 0x20092, 0x20093, 0x2009C, 0x2009D,
      0x2009E, 0x2009F, 0x20244, 0x20245, 0x20246, 0x20247, 0x20248, 0x20249, 0x2024A, 0x2024B,
      0x20300, 0x20301, 0x20302}"
    by (auto simp: file_parts_def run_of_4 three header_offset_def header_length_def header_at_def)
  note parts = this
  let ?A = "{0x20000 .. 0x20FFF} :: u32 set"
  have sub: "run_of 0x20400 2 \<subseteq> ?A" "file_parts demo_disk 0x20000 0 0x20300 (Suc (Suc (Suc 0))) \<subseteq> ?A"
    unfolding two parts by simp_all
  have dis: "run_of 0x20400 2 \<inter> file_parts demo_disk 0x20000 0 0x20300 (Suc (Suc (Suc 0))) = {}"
    unfolding two parts by simp
  have len: "length [0x61, 0x62, 0x63 :: u8] = Suc (Suc (Suc 0))" by simp
  have "initrd_target demo_disk 0x20000 0x20400 2"
    unfolding initrd_target_def
  proof (intro exI conjI allI impI)
    show "buffer demo_disk ?A" "run_of 0x20400 2 \<subseteq> ?A" by (rule demo_disk_buffer sub(1))+
    fix i place bs assume "file_at demo_disk 0x20000 i place bs"
    then have e: "i = 0" "place = 0x20300" "length bs = Suc (Suc (Suc 0))"
      using len unfolding demo_disk_file by blast+
    show "file_parts demo_disk 0x20000 i place (length bs) \<subseteq> ?A"
      "run_of 0x20400 2 \<inter> file_parts demo_disk 0x20000 i place (length bs) = {}"
      unfolding e by (rule sub(2) dis)+
  qed
  note target = this
  have n: "unat (1 :: u32) \<le> length [0x61, 0x62, 0x63 :: u8]" "unat (1 :: u32) + unat (10 :: u32) < 4294967296"
    "(2 :: nat) = min (unat (10 :: u32)) (length [0x61, 0x62, 0x63 :: u8] - unat (1 :: u32))"
    by simp_all
  have b: "take 2 (drop (unat (1 :: u32)) [0x61, 0x62, 0x63 :: u8]) = [0x62, 0x63]" by simp
  have two: "(of_nat 2 :: u32) = 2" by simp
  note all = initrd_read_file [OF is_file, where offset = 1 and sz = 10 and buf = "0x20400", THEN conjunct2,
    THEN spec, of 2]
  have "\<exists>t. fs_read (call_read demo_image) 0x20000 1 10 0x20400 demo_disk = Inr (of_nat 2, t)
    \<and> holds t 0x20400 (take 2 (drop (unat (1 :: u32)) [0x61, 0x62, 0x63]))
    \<and> initrd_file demo_image t 0x20000 [0x61, 0x62, 0x63]"
    by (rule all [THEN mp]) (intro conjI n target)
  then show ?thesis unfolding b two by blast
qed

end
