(* ===== verification/Kernel_Mkinitrd.thy ===== *)
theory Kernel_Mkinitrd
  imports Kernel_Initrd
begin

text \<open>
  The host program \<open>tools/make_initrd.c\<close>, which builds the image that \<open>kernel/fs/initrd.c\<close>
  mounts. Its state is the array of 64 file headers, as bytes: it lies on the stack and is not cleared, so
  it starts with any contents \<open>junk\<close>. The files of the host are a parameter; what the
  program prints is left out.
\<close>

section \<open>The program\<close>

type_synonym host_files = "u8 list \<Rightarrow> u8 list option"

text \<open>Stores and loads in the array; a store outside it is an error.\<close>

definition put_bytes :: "nat \<Rightarrow> u8 list \<Rightarrow> (u8 list, unit) cmd" where
  "put_bytes a bs = (\<lambda>m. if a + length bs \<le> length m
     then Inr ((), take a m @ bs @ drop (a + length bs) m) else Inl Bad_Access)"

definition get_word :: "nat \<Rightarrow> (u8 list, u32) cmd" where
  "get_word a = (\<lambda>m. if a + 4 \<le> length m
     then Inr (bytes_word (m ! a) (m ! (a + 1)) (m ! (a + 2)) (m ! (a + 3)), m) else Inl Bad_Access)"

text \<open>
  One round of the first loop. \<open>None\<close> is the return with \<open>file not found\<close>; otherwise the result is the
  new value of \<open>offset\<close>. \<open>strcpy\<close> is the host's and copies the terminator.
\<close>

definition fill_header :: "host_files \<Rightarrow> nat \<Rightarrow> u32 \<Rightarrow> u8 list \<Rightarrow> (u8 list, u32 option) cmd" where
  "fill_header files i offset name =
     bnd (put_bytes (76 * i + 1) (name @ [0])) (\<lambda>_.
     bnd (put_bytes (76 * i + 1 + length name) [0]) (\<lambda>_.
     bnd (put_bytes (76 * i + 68) (word_bytes offset)) (\<lambda>_.
     case files name of
       None \<Rightarrow> ret None
     | Some c \<Rightarrow>
         bnd (put_bytes (76 * i + 72) (word_bytes (of_nat (length c)))) (\<lambda>_.
         bnd (get_word (76 * i + 72)) (\<lambda>len.
         bnd (put_bytes (76 * i) [ucast HEADER_MAGIC]) (\<lambda>_.
         ret (Some (offset + len))))))))"

primrec fill_headers :: "host_files \<Rightarrow> u8 list list \<Rightarrow> nat \<Rightarrow> u32 \<Rightarrow> (u8 list, u32 option) cmd" where
  "fill_headers files [] i offset = ret (Some offset)"
| "fill_headers files (name # names) i offset =
     bnd (fill_header files i offset name) (\<lambda>r.
     case r of None \<Rightarrow> ret None | Some offset \<Rightarrow> fill_headers files names (i + 1) offset)"

text \<open>
  The second loop: every file is read into a buffer of the recorded length and written out. A
  file that is gone, or shorter than recorded, leaves the buffer undefined.
\<close>

primrec copy_files :: "host_files \<Rightarrow> u8 list list \<Rightarrow> nat \<Rightarrow> (u8 list, u8 list) cmd" where
  "copy_files files [] i = ret []"
| "copy_files files (name # names) i =
     bnd (get_word (76 * i + 72)) (\<lambda>len.
     case files name of
       None \<Rightarrow> fault Bad_Access
     | Some c \<Rightarrow>
         if length c < unat len then fault Bad_Access
         else bnd (copy_files files names (i + 1)) (\<lambda>rest. ret (take (unat len) c @ rest)))"

text \<open>The exit code, and the image if it was written.\<close>

definition make_initrd :: "host_files \<Rightarrow> u8 list \<Rightarrow> u8 list list \<Rightarrow> fault + int \<times> u8 list option" where
  "make_initrd files junk names =
     (case fill_headers files names 0 (76 * 64 + 4) junk of
        Inl e \<Rightarrow> Inl e
      | Inr (None, headers) \<Rightarrow> Inr (1, None)
      | Inr (Some offset, headers) \<Rightarrow>
          (case copy_files files names 0 headers of
             Inl e \<Rightarrow> Inl e
           | Inr (contents, headers) \<Rightarrow>
               Inr (0, Some (word_bytes (of_nat (length names)) @ headers @ contents))))"

section \<open>What is in an array\<close>

definition bytes_at :: "u8 list \<Rightarrow> nat \<Rightarrow> u8 list \<Rightarrow> bool" where
  "bytes_at m a bs \<longleftrightarrow> a + length bs \<le> length m \<and> (\<forall>i < length bs. m ! (a + i) = bs ! i)"

lemma put_bytes_run:
  assumes "a + length bs \<le> length m"
  shows "\<exists>m'. put_bytes a bs m = Inr ((), m') \<and> length m' = length m \<and> bytes_at m' a bs
    \<and> (\<forall>k < length m. k < a \<or> a + length bs \<le> k \<longrightarrow> m' ! k = m ! k)"
  using assms by (auto simp: put_bytes_def bytes_at_def nth_append min_def)

lemma get_word_run: "bytes_at m a (word_bytes v) \<Longrightarrow> get_word a m = Inr (v, m)"
proof -
  assume b: "bytes_at m a (word_bytes v)"
  have "m ! (a + i) = word_bytes v ! i" if "i < 4" for i using b that by (simp add: bytes_at_def length_word_bytes)
  from this [of 0] this [of 1] this [of 2] this [of 3] show ?thesis
    using b bytes_word_bytes [of v] by (simp add: bytes_at_def get_word_def length_word_bytes word_bytes_def)
qed

lemma bytes_at_same:
  "bytes_at m b cs \<Longrightarrow> length m' = length m \<Longrightarrow> \<forall>k. b \<le> k \<and> k < b + length cs \<longrightarrow> m' ! k = m ! k \<Longrightarrow> bytes_at m' b cs"
  by (auto simp: bytes_at_def)

text \<open>A complete header.\<close>

definition header_in :: "u8 list \<Rightarrow> nat \<Rightarrow> u8 list \<Rightarrow> u32 \<Rightarrow> u32 \<Rightarrow> bool" where
  "header_in m a name offset len \<longleftrightarrow> bytes_at m a [ucast HEADER_MAGIC] \<and> bytes_at m (a + 1) (name @ [0])
     \<and> bytes_at m (a + 68) (word_bytes offset) \<and> bytes_at m (a + 72) (word_bytes len)"

lemma header_in_same:
  assumes "header_in m a name off' len" and "length m' = length m" and "length name < 64"
    and "\<forall>k. a \<le> k \<and> k < a + 76 \<longrightarrow> m' ! k = m ! k"
  shows "header_in m' a name off' len"
  using assms unfolding header_in_def by (auto intro!: bytes_at_same [of m] simp: length_word_bytes)

lemma fill_header_run:
  assumes f: "files name = Some c" and n: "length name < 64" and i: "76 * i + 76 \<le> length m"
  shows "\<exists>m'. fill_header files i offset name m = Inr (Some (offset + of_nat (length c)), m')
    \<and> length m' = length m \<and> header_in m' (76 * i) name offset (of_nat (length c))
    \<and> (\<forall>k < length m. k < 76 * i \<or> 76 * i + 76 \<le> k \<longrightarrow> m' ! k = m ! k)"
proof -
  let ?a = "76 * i" and ?l = "of_nat (length c) :: u32"
  obtain m1 where m1: "put_bytes (?a + 1) (name @ [0]) m = Inr ((), m1)" "length m1 = length m"
    "bytes_at m1 (?a + 1) (name @ [0])"
    "\<forall>k < length m. k < ?a + 1 \<or> ?a + 1 + length (name @ [0]) \<le> k \<longrightarrow> m1 ! k = m ! k"
    using put_bytes_run [of "?a + 1" "name @ [0]" m] n i by auto
  obtain m2 where m2: "put_bytes (?a + 1 + length name) [0] m1 = Inr ((), m2)" "length m2 = length m"
    "bytes_at m2 (?a + 1 + length name) [0]"
    "\<forall>k < length m. k < ?a + 1 + length name \<or> ?a + 2 + length name \<le> k \<longrightarrow> m2 ! k = m1 ! k"
    using put_bytes_run [of "?a + 1 + length name" "[0]" m1] n i m1(2) by auto
  have nm2: "bytes_at m2 (?a + 1) (name @ [0])"
    unfolding bytes_at_def
  proof (intro conjI allI impI)
    show "?a + 1 + length (name @ [0]) \<le> length m2" using m2(2) n i by simp
    fix k assume "k < length (name @ [0])"
    then consider "k < length name" | "k = length name" by fastforce
    then show "m2 ! (?a + 1 + k) = (name @ [0]) ! k"
    proof cases
      case 1
      then have "m2 ! (?a + 1 + k) = m1 ! (?a + 1 + k)" using m2(4) n i by simp
      then show ?thesis using m1(3) 1 by (simp add: bytes_at_def)
    next
      case 2
      then show ?thesis using m2(3) by (simp add: bytes_at_def)
    qed
  qed
  obtain m3 where m3: "put_bytes (?a + 68) (word_bytes offset) m2 = Inr ((), m3)" "length m3 = length m"
    "bytes_at m3 (?a + 68) (word_bytes offset)"
    "\<forall>k < length m. k < ?a + 68 \<or> ?a + 72 \<le> k \<longrightarrow> m3 ! k = m2 ! k"
    using put_bytes_run [of "?a + 68" "word_bytes offset" m2] i m2(2) by (auto simp: length_word_bytes)
  obtain m4 where m4: "put_bytes (?a + 72) (word_bytes ?l) m3 = Inr ((), m4)" "length m4 = length m"
    "bytes_at m4 (?a + 72) (word_bytes ?l)"
    "\<forall>k < length m. k < ?a + 72 \<or> ?a + 76 \<le> k \<longrightarrow> m4 ! k = m3 ! k"
    using put_bytes_run [of "?a + 72" "word_bytes ?l" m3] i m3(2) by (auto simp: length_word_bytes)
  obtain m5 where m5: "put_bytes ?a [ucast HEADER_MAGIC] m4 = Inr ((), m5)" "length m5 = length m"
    "bytes_at m5 ?a [ucast HEADER_MAGIC]" "\<forall>k < length m. k < ?a \<or> ?a + 1 \<le> k \<longrightarrow> m5 ! k = m4 ! k"
    using put_bytes_run [of ?a "[ucast HEADER_MAGIC]" m4] i m4(2) by auto
  have "bytes_at m5 (?a + 1) (name @ [0])"
    by (rule bytes_at_same [OF nm2]) (use m5 m4 m3 m2 n i in auto)
  moreover have "bytes_at m5 (?a + 68) (word_bytes offset)"
    by (rule bytes_at_same [OF m3(3)]) (use m5 m4 m3 i in \<open>auto simp: length_word_bytes\<close>)
  moreover have "bytes_at m5 (?a + 72) (word_bytes ?l)"
    by (rule bytes_at_same [OF m4(3)]) (use m5 m4 i in \<open>auto simp: length_word_bytes\<close>)
  ultimately have "header_in m5 ?a name offset ?l" using m5(3) by (simp add: header_in_def)
  moreover have "\<forall>k < length m. k < ?a \<or> ?a + 76 \<le> k \<longrightarrow> m5 ! k = m ! k"
    using m5(4) m4(4) m3(4) m2(4) m1(4) n by auto
  moreover have "fill_header files i offset name m = Inr (Some (offset + ?l), m5)"
    using m1(1) m2(1) m3(1) m4(1) m5(1) get_word_run [OF m4(3)] f by (simp add: fill_header_def bnd_run ret_run)
  ultimately show ?thesis using m5(2) by blast
qed

section \<open>The image\<close>

text \<open>Where the contents of file \<open>i\<close> start.\<close>

definition file_start :: "u8 list list \<Rightarrow> nat \<Rightarrow> nat" where
  "file_start cs i = 4868 + sum_list (map length (take i cs))"

lemma fill_headers_run:
  assumes "map files names = map Some cs" and "\<forall>n \<in> set names. length n < 64"
    and "76 * (i + length names) \<le> length m" and "offset = of_nat start"
  shows "\<exists>m'. fill_headers files names i offset m = Inr (Some (of_nat (start + sum_list (map length cs))), m')
    \<and> length m' = length m \<and> (\<forall>k < length m. k < 76 * i \<longrightarrow> m' ! k = m ! k)
    \<and> (\<forall>j < length names. header_in m' (76 * (i + j)) (names ! j)
          (of_nat (start + sum_list (map length (take j cs)))) (of_nat (length (cs ! j))))"
  using assms
proof (induction names arbitrary: i cs m offset start)
  case Nil
  then show ?case by (simp add: ret_run)
next
  case (Cons n names)
  obtain c ds where cs: "cs = c # ds" "files n = Some c" "map files names = map Some ds" using Cons.prems(1) by auto
  have l: "length n < 64" "76 * i + 76 \<le> length m" using Cons.prems(2,3) by simp_all
  obtain m1 where m1: "fill_header files i offset n m = Inr (Some (offset + of_nat (length c)), m1)"
    "length m1 = length m" "header_in m1 (76 * i) n offset (of_nat (length c))"
    "\<forall>k < length m. k < 76 * i \<or> 76 * i + 76 \<le> k \<longrightarrow> m1 ! k = m ! k"
    using fill_header_run [of files n c i m offset, OF cs(2) l] by blast
  have o': "offset + of_nat (length c) = of_nat (start + length c)" using Cons.prems(4) by simp
  obtain m' where m': "fill_headers files names (i + 1) (of_nat (start + length c)) m1
      = Inr (Some (of_nat (start + length c + sum_list (map length ds))), m')"
    "length m' = length m1" "\<forall>k < length m1. k < 76 * (i + 1) \<longrightarrow> m' ! k = m1 ! k"
    "\<forall>j < length names. header_in m' (76 * (i + 1 + j)) (names ! j)
      (of_nat (start + length c + sum_list (map length (take j ds)))) (of_nat (length (ds ! j)))"
    using Cons.IH [OF cs(3), of "i + 1" m1 "of_nat (start + length c)" "start + length c"] Cons.prems(2,3) m1(2) by auto
  have h0: "header_in m' (76 * i) n offset (of_nat (length c))"
    by (rule header_in_same [OF m1(3) m'(2) l(1)]) (use m'(3) m1(2) l(2) in auto)
  have "header_in m' (76 * (i + j)) ((n # names) ! j)
      (of_nat (start + sum_list (map length (take j cs)))) (of_nat (length (cs ! j)))" if "j < length (n # names)" for j
  proof (cases j)
    case 0
    then show ?thesis using h0 Cons.prems(4) by (simp add: cs(1))
  next
    case (Suc k)
    then show ?thesis using m'(4) that by (simp add: cs(1) add.assoc)
  qed
  moreover have "fill_headers files (n # names) i offset m
      = Inr (Some (of_nat (start + sum_list (map length cs))), m')"
    using m1(1) m'(1) by (simp add: bnd_run o' cs(1) add.assoc del: of_nat_add)
  moreover have "\<forall>k < length m. k < 76 * i \<longrightarrow> m' ! k = m ! k" using m'(3) m1(2,4) by simp
  ultimately show ?case using m'(2) m1(2) by (intro exI [of _ m']) (simp del: fill_headers.simps)
qed

lemma copy_files_run:
  assumes "map files names = map Some cs"
    and "\<forall>j < length names. bytes_at m (76 * (i + j) + 72) (word_bytes (of_nat (length (cs ! j))))"
    and "\<forall>c \<in> set cs. length c < 4294967296"
  shows "copy_files files names i m = Inr (concat cs, m)"
  using assms
proof (induction names arbitrary: i cs)
  case Nil
  then show ?case by (simp add: ret_run)
next
  case (Cons n names)
  obtain c ds where cs: "cs = c # ds" "files n = Some c" "map files names = map Some ds" using Cons.prems(1) by auto
  have w: "get_word (76 * i + 72) m = Inr (of_nat (length c), m)"
    using Cons.prems(2) by (intro get_word_run) (auto simp: cs(1) dest: spec [of _ 0])
  have "copy_files files names (i + 1) m = Inr (concat ds, m)"
  proof (rule Cons.IH [OF cs(3)])
    show "\<forall>j < length names. bytes_at m (76 * (i + 1 + j) + 72) (word_bytes (of_nat (length (ds ! j))))"
      using Cons.prems(2) by (auto simp: cs(1) dest: spec [of _ "Suc _"])
    show "\<forall>c \<in> set ds. length c < 4294967296" using Cons.prems(3) by (simp add: cs(1))
  qed
  moreover have "unat (of_nat (length c) :: u32) = length c" using Cons.prems(3) by (simp add: cs(1) unat_of_nat)
  ultimately show ?case using w by (simp add: cs bnd_run ret_run)
qed

text \<open>An image: the number of files, the headers, the contents one after the other.\<close>

definition image_of :: "u8 list list \<Rightarrow> u8 list list \<Rightarrow> u8 list \<Rightarrow> bool" where
  "image_of names cs img \<longleftrightarrow> bytes_at img 0 (word_bytes (of_nat (length names)))
     \<and> length img = 4868 + sum_list (map length cs)
     \<and> (\<forall>i < length names. header_in img (4 + 76 * i) (names ! i) (of_nat (file_start cs i)) (of_nat (length (cs ! i)))
          \<and> bytes_at img (file_start cs i) (cs ! i))"

lemma concat_nth:
  assumes "i < length cs" and "k < length (cs ! i)"
  shows "concat cs ! (sum_list (map length (take i cs)) + k) = cs ! i ! k"
  using assms
proof (induction cs arbitrary: i)
  case (Cons c cs)
  then show ?case by (cases i) (auto simp: nth_append)
qed simp

lemma sum_list_take_le: "i < length cs \<Longrightarrow> sum_list (map length (take i cs)) + length (cs ! i) \<le> sum_list (map length cs)"
proof (induction cs arbitrary: i)
  case (Cons c cs)
  then show ?case by (cases i) auto
qed simp

lemma bytes_at_shift: "bytes_at m a bs \<Longrightarrow> bytes_at (xs @ m @ ys) (length xs + a) bs"
  by (auto simp: bytes_at_def nth_append add.assoc)

lemma header_in_shift: "header_in m a name off' len \<Longrightarrow> header_in (xs @ m @ ys) (length xs + a) name off' len"
  unfolding header_in_def add.assoc by (blast intro: bytes_at_shift)

theorem make_initrd_image:
  assumes ok: "map files names = map Some cs" "\<forall>n \<in> set names. length n < 64" "length names \<le> 64"
    and junk: "length junk = 4864" and size: "4868 + sum_list (map length cs) < 4294967296"
  shows "\<exists>img. make_initrd files junk names = Inr (0, Some img) \<and> image_of names cs img"
proof -
  have lc: "length cs = length names" using ok(1) by (metis length_map)
  obtain m where m: "fill_headers files names 0 4868 junk = Inr (Some (of_nat (4868 + sum_list (map length cs))), m)"
    "length m = length junk" "\<forall>j < length names. header_in m (76 * (0 + j)) (names ! j)
      (of_nat (4868 + sum_list (map length (take j cs)))) (of_nat (length (cs ! j)))"
    using fill_headers_run [OF ok(1,2), of 0 junk 4868 4868] ok(3) junk by auto
  have small: "\<forall>c \<in> set cs. length c < 4294967296"
    using size member_le_sum_list [of _ "map length cs"] by fastforce
  have copy: "copy_files files names 0 m = Inr (concat cs, m)"
    by (rule copy_files_run [OF ok(1) _ small]) (use m(3) in \<open>simp add: header_in_def\<close>)
  let ?img = "word_bytes (of_nat (length names)) @ m @ concat cs"
  have "make_initrd files junk names = Inr (0, Some ?img)" using m(1) copy by (simp add: make_initrd_def)
  moreover have "image_of names cs ?img"
    unfolding image_of_def
  proof (intro conjI allI impI)
    show "bytes_at ?img 0 (word_bytes (of_nat (length names)))" by (simp add: bytes_at_def nth_append)
    show "length ?img = 4868 + sum_list (map length cs)" using m(2) junk by (simp add: length_word_bytes length_concat)
    fix i assume i: "i < length names"
    have n: "length (names ! i) < 64" using ok(2) i by simp
    have "76 * i + 76 \<le> length m" using i ok(3) m(2) junk by simp
    then show "header_in ?img (4 + 76 * i) (names ! i) (of_nat (file_start cs i)) (of_nat (length (cs ! i)))"
      using header_in_shift [of m "76 * i" "names ! i" _ _ "word_bytes (of_nat (length names))" "concat cs"] m(3) i
      by (simp add: length_word_bytes file_start_def)
    show "bytes_at ?img (file_start cs i) (cs ! i)"
      using sum_list_take_le [of i cs] concat_nth [of i cs] i lc m(2) junk
      by (auto simp: bytes_at_def file_start_def nth_append length_word_bytes length_concat)
  qed
  ultimately show ?thesis by blast
qed

end
