(* ===== verification/Kernel_Mount.thy ===== *)
theory Kernel_Mount
  imports Kernel_Mkinitrd
begin

text \<open>
  The image that \<open>tools/make_initrd.c\<close> writes, mounted by \<open>kernel/fs/initrd.c\<close>: what the
  loop of \<open>init_initrd\<close> makes of the headers and the nodes, and the search for a name among them.
  \<open>Kernel_Ramdisk\<close> has the whole of \<open>init_initrd\<close> and of the lookup.
\<close>

section \<open>Regions at natural addresses\<close>

definition spans :: "u32 set \<Rightarrow> nat \<Rightarrow> nat \<Rightarrow> bool" where
  "spans A a n \<longleftrightarrow> a + n \<le> 4294967296 \<and> (\<forall>x. a \<le> unat x \<and> unat x < a + n \<longrightarrow> x \<in> A)"

text \<open>Two memories that read alike on \<open>A\<close> outside the region.\<close>

definition same_but :: "u32 set \<Rightarrow> (nat \<Rightarrow> bool) \<Rightarrow> 'a vm_scheme \<Rightarrow> 'a vm_scheme \<Rightarrow> bool" where
  "same_but A R s t \<longleftrightarrow> (\<forall>x \<in> A. \<not> R (unat x) \<longrightarrow> view t x = view s x)"

lemma same_but_refl [intro]: "same_but A R s s"
  by (simp add: same_but_def)

lemma same_but_trans: "same_but A R s t \<Longrightarrow> same_but A Q t u \<Longrightarrow> same_but A (\<lambda>a. R a \<or> Q a) s u"
  by (auto simp: same_but_def)

lemma same_but_mono: "same_but A R s t \<Longrightarrow> (\<And>a. R a \<Longrightarrow> Q a) \<Longrightarrow> same_but A Q s t"
  by (auto simp: same_but_def)

lemma unat_in_span: "spans A a n \<Longrightarrow> i < n \<Longrightarrow> unat (of_nat (a + i) :: u32) = a + i"
  by (simp add: spans_def unat_of_nat del: of_nat_add)

lemma spans_part: "spans A a n \<Longrightarrow> a \<le> b \<Longrightarrow> b + m \<le> a + n \<Longrightarrow> spans A b m"
  by (auto simp: spans_def)

lemma spans_run: "spans A a n \<Longrightarrow> run_of (of_nat a) n \<subseteq> A"
  by (auto simp: spans_def run_of_nat)

lemma holds_same_but:
  assumes "same_but A R s t" and "spans A a (length bs)" and "\<And>i. i < length bs \<Longrightarrow> \<not> R (a + i)"
  shows "holds t (of_nat a) bs = holds s (of_nat a) bs"
proof -
  have "view t (of_nat (a + i)) = view s (of_nat (a + i))" if i: "i < length bs" for i
  proof -
    have u: "unat (of_nat (a + i) :: u32) = a + i" using assms(2) i by (rule unat_in_span)
    then have "(of_nat (a + i) :: u32) \<in> A" using assms(2) i unfolding spans_def by simp
    then show ?thesis using assms(1) assms(3) [OF i] u unfolding same_but_def by metis
  qed
  then show ?thesis by (simp add: holds_def)
qed

lemma word_same_but:
  assumes "same_but A R s t" and "spans A a 4" and "\<And>i. i < 4 \<Longrightarrow> \<not> R (a + i)"
  shows "word_at t (of_nat a) v = word_at s (of_nat a) v"
  unfolding word_at_def by (rule holds_same_but [OF assms(1)]) (use assms in \<open>simp_all add: length_word_bytes\<close>)

lemma store_in_span:
  assumes "buffer s A" and "spans A a 4"
  shows "\<exists>t. vst32 (of_nat a) v s = Inr ((), t) \<and> buffer t A \<and> alters A s t \<and> word_at t (of_nat a) v
    \<and> same_but A (\<lambda>b. a \<le> b \<and> b < a + 4) s t"
proof -
  have "\<exists>t. vst32 (of_nat a) v s = Inr ((), t) \<and> buffer t A \<and> t = s\<lparr>ram := ram t\<rparr> \<and> word_at t (of_nat a) v
    \<and> (\<forall>x \<in> A. unat x < a \<or> a + 4 \<le> unat x \<longrightarrow> view t x = view s x) \<and> alters A s t"
    by (rule buffer_store_at) (use assms in \<open>auto simp: spans_def\<close>)
  then show ?thesis by (auto simp: same_but_def not_less not_le)
qed

section \<open>One file\<close>

text \<open>Addresses of headers and nodes.\<close>

lemma header_nat: "header_at (of_nat hs) (of_nat k) = of_nat (hs + 76 * k)"
  by (simp add: header_at_def sizeof_file_header_def)

lemma node_nat: "root_node (of_nat nb) (of_nat k) = of_nat (nb + 184 * k)"
  by (simp add: root_node_def sizeof_fs_node_def)

lemma nat_offsets:
  "header_offset (of_nat h) = of_nat (h + 68)" "header_length (of_nat h) = of_nat (h + 72)"
  "header_name (of_nat h) = of_nat (h + 1)" "(of_nat nd :: u32) + 140 = of_nat (nd + 140)"
  "(of_nat nd :: u32) + 144 = of_nat (nd + 144)" "(of_nat nd :: u32) + 148 = of_nat (nd + 148)"
  "(of_nat nd :: u32) + 156 = of_nat (nd + 156)"
  by (simp_all add: header_offset_def header_length_def header_name_def)

text \<open>What the loader left in a header, and what mounting makes of the header and the node.\<close>

definition raw_file :: "'a vm_scheme \<Rightarrow> nat \<Rightarrow> nat \<Rightarrow> u8 list \<Rightarrow> u32 \<Rightarrow> u32 \<Rightarrow> bool" where
  "raw_file s h nd name off' len \<longleftrightarrow> view s (of_nat h) = Some (ucast HEADER_MAGIC) \<and> cstring s (of_nat (h + 1)) name
     \<and> word_at s (of_nat (h + 68)) off' \<and> word_at s (of_nat (h + 72)) len
     \<and> view s (of_nat (nd + length name)) = Some 0"

definition mounted_file :: "image \<Rightarrow> 'a vm_scheme \<Rightarrow> nat \<Rightarrow> nat \<Rightarrow> u32 \<Rightarrow> u8 list \<Rightarrow> u32 \<Rightarrow> u32 \<Rightarrow> bool" where
  "mounted_file im s h nd i name place len \<longleftrightarrow> cstring s (of_nat nd) name
     \<and> word_at s (of_nat (nd + 144)) i \<and> word_at s (of_nat (nd + 156)) (at_initrd_read im)
     \<and> word_at s (of_nat (h + 68)) place \<and> word_at s (of_nat (h + 72)) len"

lemma mount_file_run:
  assumes b: "buffer s A" and hs: "file_headers s = of_nat hs" "root_nodes s = of_nat nb"
    and h: "h = hs + 76 * k" "spans A h 76" and nd: "nd = nb + 184 * k" "spans A nd 184"
    and apart: "h + 76 \<le> nd \<or> nd + 184 \<le> h" and name: "name \<noteq> []" "length name < 64"
    and raw: "raw_file s h nd name off' len"
  shows "\<exists>t. mount_file im loc (of_nat k) s = Inr ((), t) \<and> buffer t A \<and> alters A s t
    \<and> mounted_file im t h nd (of_nat k) name (off' + loc) len
    \<and> same_but A (\<lambda>a. h + 68 \<le> a \<and> a < h + 72 \<or> nd \<le> a \<and> a < nd + 184) s t"
proof -
  let ?n = "length name"
  have hp: "spans A (h + 1) 65" "spans A (h + 68) 4" "spans A (h + 72) 4"
    by (rule spans_part [OF h(2)]; simp)+
  have np: "spans A nd ?n" "spans A (nd + 140) 4" "spans A (nd + 144) 4" "spans A (nd + 148) 4" "spans A (nd + 156) 4"
    by (rule spans_part [OF nd(2)]; use name in simp)+
  note r = raw [unfolded raw_file_def]
  obtain s1 where s1: "vst32 (of_nat (h + 68)) (off' + loc) s = Inr ((), s1)" "buffer s1 A" "alters A s s1"
    "word_at s1 (of_nat (h + 68)) (off' + loc)" "same_but A (\<lambda>a. h + 68 \<le> a \<and> a < h + 68 + 4) s s1"
    using store_in_span [OF b hp(2)] by blast
  have n1: "cstring s1 (of_nat (h + 1)) name"
  proof -
    have "holds s1 (of_nat (h + 1)) (name @ [0]) = holds s (of_nat (h + 1)) (name @ [0])"
      by (rule holds_same_but [OF s1(5)]) (use name spans_part [OF hp(1), of "h + 1" "Suc ?n"] in auto)
    then show ?thesis using r by (simp add: cstring_def)
  qed
  obtain s2 where s2: "strcpy (of_nat nd) (of_nat (h + 1)) s1 = Inr (of_nat nd, s2)" "holds s2 (of_nat nd) name"
    "buffer s2 A" "alters A s1 s2" "same_but A (\<lambda>a. nd \<le> a \<and> a < nd + ?n) s1 s2"
  proof -
    obtain c cs where c: "name = c # cs" using name(1) by (cases name) auto
    have lim: "nd + ?n \<le> 4294967296" "h + 1 + Suc ?n \<le> 4294967296"
      using np(1) hp(1) name(2) by (simp_all add: spans_def)
    have sub: "run_of (of_nat nd) ?n \<subseteq> A" "run_of (of_nat (h + 1)) (Suc ?n) \<subseteq> A"
      by (rule spans_run, rule np(1), rule spans_run, rule spans_part [OF hp(1)]) (use name in auto)
    have dis: "run_of (of_nat nd) ?n \<inter> run_of (of_nat (h + 1)) (Suc ?n) = {}"
    proof -
      have "\<not> (x \<in> run_of (of_nat nd) ?n \<and> x \<in> run_of (of_nat (h + 1)) (Suc ?n))" for x
        unfolding run_of_nat [OF lim(1)] run_of_nat [OF lim(2)] using apart name(2) by linarith
      then show ?thesis by blast
    qed
    have "\<exists>t. copy_loop string_fuel (of_nat nd) (of_nat (h + 1)) s1 = Inr (of_nat nd + of_nat (Suc (length cs)), t)
      \<and> holds t (of_nat nd) (c # cs) \<and> buffer t A \<and> t = s1\<lparr>ram := ram t\<rparr>
      \<and> (\<forall>x \<in> A - run_of (of_nat nd) (Suc (length cs)). view t x = view s1 x) \<and> alters A s1 t"
      by (rule copy_loop_copies) (use n1 s1(2) sub dis c name(2) in \<open>simp_all add: string_fuel_def\<close>)
    then obtain t where t: "copy_loop string_fuel (of_nat nd) (of_nat (h + 1)) s1 = Inr (of_nat nd + of_nat ?n, t)"
      "holds t (of_nat nd) name" "buffer t A" "alters A s1 t"
      "\<forall>x \<in> A - run_of (of_nat nd) ?n. view t x = view s1 x" unfolding c by auto
    have "same_but A (\<lambda>a. nd \<le> a \<and> a < nd + ?n) s1 t"
      using t(5) by (simp add: same_but_def run_of_nat [OF lim(1)])
    with t show ?thesis by (intro that) (simp_all add: strcpy_def bnd_run ret_run)
  qed
  obtain s3 where s3: "vst32 (of_nat (nd + 148)) len s2 = Inr ((), s3)" "buffer s3 A" "alters A s2 s3"
    "same_but A (\<lambda>a. nd + 148 \<le> a \<and> a < nd + 148 + 4) s2 s3"
    using store_in_span [OF s2(3) np(4)] by blast
  obtain s4 where s4: "vst32 (of_nat (nd + 144)) (of_nat k) s3 = Inr ((), s4)" "buffer s4 A" "alters A s3 s4"
    "word_at s4 (of_nat (nd + 144)) (of_nat k)" "same_but A (\<lambda>a. nd + 144 \<le> a \<and> a < nd + 144 + 4) s3 s4"
    using store_in_span [OF s3(2) np(3)] by blast
  obtain s5 where s5: "vst32 (of_nat (nd + 140)) FS_FILE s4 = Inr ((), s5)" "buffer s5 A" "alters A s4 s5"
    "same_but A (\<lambda>a. nd + 140 \<le> a \<and> a < nd + 140 + 4) s4 s5"
    using store_in_span [OF s4(2) np(2)] by blast
  obtain t where t: "vst32 (of_nat (nd + 156)) (at_initrd_read im) s5 = Inr ((), t)" "buffer t A" "alters A s5 t"
    "word_at t (of_nat (nd + 156)) (at_initrd_read im)" "same_but A (\<lambda>a. nd + 156 \<le> a \<and> a < nd + 156 + 4) s5 t"
    using store_in_span [OF s5(2) np(5)] by blast
  have s5t: "same_but A (\<lambda>a. nd + 140 \<le> a \<and> a < nd + 144 \<or> nd + 156 \<le> a \<and> a < nd + 160) s4 t"
    by (rule same_but_mono [OF same_but_trans [OF s5(4) t(5)]]) auto
  have s2t: "same_but A (\<lambda>a. nd + 140 \<le> a \<and> a < nd + 160) s2 t"
    by (rule same_but_mono [OF same_but_trans [OF s3(4) same_but_trans [OF s4(5) s5t]]]) auto
  have s1t: "same_but A (\<lambda>a. nd \<le> a \<and> a < nd + 184) s1 t"
    by (rule same_but_mono [OF same_but_trans [OF s2(5) s2t]]) (use name in auto)
  have st: "same_but A (\<lambda>a. h + 68 \<le> a \<and> a < h + 72 \<or> nd \<le> a \<and> a < nd + 184) s t"
    by (rule same_but_mono [OF same_but_trans [OF s1(5) s1t]]) auto
  have len2: "word_at s2 (of_nat (h + 72)) len"
  proof -
    have "word_at s2 (of_nat (h + 72)) len = word_at s1 (of_nat (h + 72)) len"
      by (rule word_same_but [OF s2(5) hp(3)]) (use apart name in linarith)
    moreover have "word_at s1 (of_nat (h + 72)) len = word_at s (of_nat (h + 72)) len"
      by (rule word_same_but [OF s1(5) hp(3)]) linarith
    ultimately show ?thesis using r by blast
  qed
  have "word_at t (of_nat (h + 68)) (off' + loc) = word_at s1 (of_nat (h + 68)) (off' + loc)"
    by (rule word_same_but [OF s1t hp(2)]) (use apart in linarith)
  then have off1: "word_at t (of_nat (h + 68)) (off' + loc)" using s1(4) by blast
  have "word_at t (of_nat (h + 72)) len = word_at s2 (of_nat (h + 72)) len"
    by (rule word_same_but [OF s2t hp(3)]) (use apart in linarith)
  then have lent: "word_at t (of_nat (h + 72)) len" using len2 by blast
  have "word_at t (of_nat (nd + 144)) (of_nat k) = word_at s4 (of_nat (nd + 144)) (of_nat k)"
    by (rule word_same_but [OF s5t np(3)]) linarith
  then have inode: "word_at t (of_nat (nd + 144)) (of_nat k)" using s4(4) by blast
  have nm: "cstring t (of_nat nd) name"
  proof -
    have sp: "spans A nd (Suc ?n)" by (rule spans_part [OF nd(2)]) (use name in auto)
    have un: "unat (of_nat (nd + ?n) :: u32) = nd + ?n" by (rule unat_in_span [OF sp]) simp
    then have inA: "(of_nat (nd + ?n) :: u32) \<in> A" using sp by (simp add: spans_def)
    have "same_but A (\<lambda>a. h + 68 \<le> a \<and> a < h + 72 \<or> nd \<le> a \<and> a < nd + ?n \<or> nd + 140 \<le> a \<and> a < nd + 160) s t"
      by (rule same_but_mono [OF same_but_trans [OF s1(5) same_but_trans [OF s2(5) s2t]]]) auto
    then have "view t (of_nat (nd + ?n)) = Some 0"
      using inA un r apart name(2) unfolding same_but_def by fastforce
    moreover have "holds t (of_nat nd) name"
      using holds_same_but [OF s2t np(1)] s2(2) name by simp
    ultimately have "holds t (of_nat nd) (name @ [0])"
      by (auto simp: holds_def nth_append less_Suc_eq)
    then show ?thesis using r by (simp add: cstring_def)
  qed
  have un: "unat (of_nat h :: u32) = h" using h(2) by (simp add: spans_def unat_of_nat)
  have hs1: "file_headers s1 = file_headers s" by (subst alters_ram [OF s1(3)]) simp
  have run: "mount_file im loc (of_nat k) s = Inr ((), t)"
  proof -
    have m: "vld8 (of_nat h) s = Inr (ucast HEADER_MAGIC, s)" using r by (blast intro: vld8_view)
    have o': "vld32 (of_nat (h + 68)) s = Inr (off', s)" using r by (blast intro: vld32_word)
    have l: "vld32 (of_nat (h + 72)) s2 = Inr (len, s2)" by (rule vld32_word [OF len2])
    show ?thesis
      using m o' s1(1) s2(1) l s3(1) s4(1) s5(1) t(1)
      unfolding mount_file_def Let_def
      by (simp add: hs header_nat node_nat nat_offsets node_put_def h(1) [symmetric] nd(1) [symmetric] cmd_simps
          HEADER_MAGIC_def del: of_nat_add)
  qed
  have "alters A s t" by (rule alters_trans [OF s1(3) alters_trans [OF s2(4) alters_trans [OF s3(3) alters_trans [OF s4(3) alters_trans [OF s5(3) t(3)]]]]])
  then show ?thesis using run t(2,4) nm inode off1 lent st by (auto simp: mounted_file_def)
qed

section \<open>All files\<close>

lemma view_same_but:
  assumes "same_but A R s t" and "spans A a 1" and "\<not> R a"
  shows "view t (of_nat a) = view s (of_nat a)"
proof -
  have "unat (of_nat a :: u32) = a" "(of_nat a :: u32) \<in> A"
    using unat_in_span [OF assms(2), of 0] assms(2) by (simp_all add: spans_def)
  then show ?thesis using assms(1,3) by (simp add: same_but_def)
qed

lemma raw_file_same:
  assumes "same_but A R s t" and h: "spans A h 76" and nd: "spans A nd 184" and n: "length name < 64"
    and R: "\<And>a. h \<le> a \<Longrightarrow> a < h + 76 \<Longrightarrow> \<not> R a" "\<And>a. nd \<le> a \<Longrightarrow> a < nd + 184 \<Longrightarrow> \<not> R a"
    and raw: "raw_file s h nd name off' len"
  shows "raw_file t h nd name off' len"
proof -
  have sp: "spans A h 1" "spans A (h + 68) 4" "spans A (h + 72) 4" "spans A (h + 1) (length (name @ [0 :: u8]))"
    "spans A (nd + length name) 1"
    by (rule spans_part [OF h] spans_part [OF nd]; use n in simp)+
  have "view t (of_nat h) = view s (of_nat h)" by (rule view_same_but [OF assms(1) sp(1)]) (simp add: R(1))
  moreover have "view t (of_nat (nd + length name)) = view s (of_nat (nd + length name))"
    by (rule view_same_but [OF assms(1) sp(5)]) (use n in \<open>simp add: R(2)\<close>)
  moreover have "word_at t (of_nat (h + 68)) off' = word_at s (of_nat (h + 68)) off'"
    by (rule word_same_but [OF assms(1) sp(2)]) (rule R(1); simp)
  moreover have "word_at t (of_nat (h + 72)) len = word_at s (of_nat (h + 72)) len"
    by (rule word_same_but [OF assms(1) sp(3)]) (rule R(1); simp)
  moreover have "holds t (of_nat (h + 1)) (name @ [0]) = holds s (of_nat (h + 1)) (name @ [0])"
    by (rule holds_same_but [OF assms(1) sp(4)]) (rule R(1); use n in simp)
  ultimately show ?thesis using raw unfolding raw_file_def cstring_def by metis
qed

lemma mounted_file_same:
  assumes "same_but A R s t" and h: "spans A h 76" and nd: "spans A nd 184" and n: "length name < 64"
    and R: "\<And>a. h \<le> a \<Longrightarrow> a < h + 76 \<Longrightarrow> \<not> R a" "\<And>a. nd \<le> a \<Longrightarrow> a < nd + 184 \<Longrightarrow> \<not> R a"
    and "mounted_file im s h nd i name place len"
  shows "mounted_file im t h nd i name place len"
proof -
  have sp: "spans A (h + 68) 4" "spans A (h + 72) 4" "spans A nd (length (name @ [0 :: u8]))"
    "spans A (nd + 144) 4" "spans A (nd + 156) 4"
    by (rule spans_part [OF h] spans_part [OF nd]; use n in simp)+
  have "word_at t (of_nat (h + 68)) place = word_at s (of_nat (h + 68)) place"
    by (rule word_same_but [OF assms(1) sp(1)]) (rule R(1); simp)
  moreover have "word_at t (of_nat (h + 72)) len = word_at s (of_nat (h + 72)) len"
    by (rule word_same_but [OF assms(1) sp(2)]) (rule R(1); simp)
  moreover have "word_at t (of_nat (nd + 144)) i = word_at s (of_nat (nd + 144)) i"
    by (rule word_same_but [OF assms(1) sp(4)]) (rule R(2); simp)
  moreover have "word_at t (of_nat (nd + 156)) (at_initrd_read im) = word_at s (of_nat (nd + 156)) (at_initrd_read im)"
    by (rule word_same_but [OF assms(1) sp(5)]) (rule R(2); simp)
  moreover have "holds t (of_nat nd) (name @ [0]) = holds s (of_nat nd) (name @ [0])"
    by (rule holds_same_but [OF assms(1) sp(3)]) (rule R(2); use n in simp)
  ultimately show ?thesis using assms(7) unfolding mounted_file_def cstring_def by metis
qed

text \<open>Tables of \<open>n\<close> headers at \<open>hs\<close> and of \<open>n\<close> nodes at \<open>nb\<close>, and round \<open>k\<close> of the loop.\<close>

definition tables :: "u32 set \<Rightarrow> nat \<Rightarrow> nat \<Rightarrow> nat \<Rightarrow> 'a initrd_scheme \<Rightarrow> bool" where
  "tables A hs nb n s \<longleftrightarrow> buffer s A \<and> spans A hs (76 * n) \<and> spans A nb (184 * n)
     \<and> (hs + 76 * n \<le> nb \<or> nb + 184 * n \<le> hs) \<and> n \<le> 64
     \<and> file_headers s = of_nat hs \<and> root_nodes s = of_nat nb \<and> nroot_nodes s = of_nat n"

lemma tables_ram: "tables A hs nb n s \<Longrightarrow> t = s\<lparr>ram := ram t\<rparr> \<Longrightarrow> buffer t A \<Longrightarrow> tables A hs nb n t"
proof -
  assume s: "tables A hs nb n s" and t: "t = s\<lparr>ram := ram t\<rparr>" and b: "buffer t A"
  have "file_headers t = file_headers s" "root_nodes t = root_nodes s" "nroot_nodes t = nroot_nodes s" by (subst t, simp)+
  then show ?thesis using s b by (simp add: tables_def)
qed

abbreviation touched :: "nat \<Rightarrow> nat \<Rightarrow> nat \<Rightarrow> nat \<Rightarrow> nat \<Rightarrow> bool" where
  "touched hs nb k n a \<equiv> hs + 76 * k \<le> a \<and> a < hs + 76 * n \<or> nb + 184 * k \<le> a \<and> a < nb + 184 * n"

lemma mount_files_run:
  assumes tb: "tables A hs nb n s" and k: "k \<le> n" "n - k < fuel"
    and names: "\<And>i. i < n \<Longrightarrow> name i \<noteq> [] \<and> length (name i) < 64"
    and raw: "\<And>i. k \<le> i \<Longrightarrow> i < n \<Longrightarrow> raw_file s (hs + 76 * i) (nb + 184 * i) (name i) (off' i) (len i)"
  shows "\<exists>t. mount_files fuel im loc (of_nat k) s = Inr ((), t) \<and> buffer t A \<and> alters A s t
    \<and> (\<forall>i. k \<le> i \<and> i < n \<longrightarrow>
        mounted_file im t (hs + 76 * i) (nb + 184 * i) (of_nat i) (name i) (off' i + loc) (len i))
    \<and> same_but A (touched hs nb k n) s t"
  using tb k raw
proof (induction fuel arbitrary: k s)
  case 0
  then show ?case by simp
next
  case (Suc fuel)
  note tab = Suc.prems(1) [unfolded tables_def]
  have le: "(of_nat k :: u32) < of_nat n \<longleftrightarrow> k < n"
    using tab Suc.prems(2) by (simp add: word_less_nat_alt unat_of_nat)
  show ?case
  proof (cases "k < n")
    case False
    then show ?thesis using tab le Suc.prems(2) by (auto simp: cmd_simps alters_def)
  next
    case True
    have whole: "spans A hs (76 * n)" "spans A nb (184 * n)" using tab by blast+
    have sp: "spans A (hs + 76 * i) 76" "spans A (nb + 184 * i) 184" if "i < n" for i
      by (rule spans_part [OF whole(1)] spans_part [OF whole(2)]; use that in simp)+
    have apart: "hs + 76 * i + 76 \<le> nb + 184 * j \<or> nb + 184 * j + 184 \<le> hs + 76 * i" if "i < n" "j < n" for i j
      using tab that by linarith
    have f: "buffer s A" "file_headers s = of_nat hs" "root_nodes s = of_nat nb" using tab by blast+
    have nk: "name k \<noteq> []" "length (name k) < 64" using names [OF True] by blast+
    note one = mount_file_run [OF f refl sp(1) [OF True] refl sp(2) [OF True] apart [OF True True] nk
        Suc.prems(4) [OF order.refl True], of im loc]
    obtain u where u: "mount_file im loc (of_nat k) s = Inr ((), u)" "buffer u A" "alters A s u"
      "mounted_file im u (hs + 76 * k) (nb + 184 * k) (of_nat k) (name k) (off' k + loc) (len k)"
      "same_but A (\<lambda>a. hs + 76 * k + 68 \<le> a \<and> a < hs + 76 * k + 72 \<or> nb + 184 * k \<le> a \<and> a < nb + 184 * k + 184) s u"
      using one by blast
    have tu: "tables A hs nb n u" by (rule tables_ram [OF Suc.prems(1) alters_ram [OF u(3)] u(2)])
    have raw: "raw_file u (hs + 76 * i) (nb + 184 * i) (name i) (off' i) (len i)" if i: "k + 1 \<le> i" "i < n" for i
    proof (rule raw_file_same [OF u(5) sp [OF i(2)]])
      show "raw_file s (hs + 76 * i) (nb + 184 * i) (name i) (off' i) (len i)" using Suc.prems(4) i by simp
      show "length (name i) < 64" using names i by simp
      show "\<not> (hs + 76 * k + 68 \<le> a \<and> a < hs + 76 * k + 72 \<or> nb + 184 * k \<le> a \<and> a < nb + 184 * k + 184)"
        if "hs + 76 * i \<le> a" "a < hs + 76 * i + 76" for a
        using that i(1) apart [OF i(2) True] by (elim disjE) auto
      show "\<not> (hs + 76 * k + 68 \<le> a \<and> a < hs + 76 * k + 72 \<or> nb + 184 * k \<le> a \<and> a < nb + 184 * k + 184)"
        if "nb + 184 * i \<le> a" "a < nb + 184 * i + 184" for a
        using that i(1) apart [OF True i(2)] by (elim disjE) auto
    qed
    have k': "k + 1 \<le> n" "n - (k + 1) < fuel" using True Suc.prems(3) by simp_all
    obtain t where t: "mount_files fuel im loc (of_nat (k + 1)) u = Inr ((), t)" "buffer t A" "alters A u t"
      "\<forall>i. k + 1 \<le> i \<and> i < n \<longrightarrow>
        mounted_file im t (hs + 76 * i) (nb + 184 * i) (of_nat i) (name i) (off' i + loc) (len i)"
      "same_but A (touched hs nb (k + 1) n) u t"
      using Suc.IH [OF tu k' raw] by blast
    have mk: "mounted_file im t (hs + 76 * k) (nb + 184 * k) (of_nat k) (name k) (off' k + loc) (len k)"
    proof (rule mounted_file_same [OF t(5) sp [OF True] _ _ _ u(4)])
      show "length (name k) < 64" using names True by simp
      have nb: "hs + 76 * n \<le> nb \<or> nb + 184 * n \<le> hs" using tab by blast
      show "\<not> touched hs nb (k + 1) n a" if "hs + 76 * k \<le> a" "a < hs + 76 * k + 76" for a
        using that nb True by (elim disjE) auto
      show "\<not> touched hs nb (k + 1) n a" if "nb + 184 * k \<le> a" "a < nb + 184 * k + 184" for a
        using that nb True by (elim disjE) auto
    qed
    have "mounted_file im t (hs + 76 * i) (nb + 184 * i) (of_nat i) (name i) (off' i + loc) (len i)"
      if "k \<le> i" "i < n" for i using t(4) mk that by (cases "i = k") auto
    moreover have "same_but A (touched hs nb k n) s t"
      by (rule same_but_mono [OF same_but_trans [OF u(5) t(5)]]) (use True in auto)
    moreover have "mount_files (Suc fuel) im loc (of_nat k) s = Inr ((), t)"
      using tab le True u(1) t(1) by (simp add: cmd_simps add.commute)
    moreover have "alters A s t" by (rule alters_trans [OF u(3) t(3)])
    ultimately show ?thesis using t(2) by blast
  qed
qed

section \<open>Lookup by name\<close>

lemma strcmp_names:
  assumes "cstring s a xs" and "cstring s b ys" and "length ys < 64"
  shows "\<exists>c. strcmp a b s = Inr (c, s) \<and> (c = 0 \<longleftrightarrow> xs = ys)"
proof -
  have "min (length xs) (length ys) < string_fuel" using assms(3) by (simp add: string_fuel_def)
  moreover have "0 \<notin> set xs" "0 \<notin> set ys" using assms(1,2) by (simp_all add: cstring_def)
  ultimately show ?thesis
    using strcmp_loop_difference [OF assms(1,2)] by (simp add: strcmp_def first_difference_eq)
qed

lemma find_node_finds:
  assumes "nroot_nodes s = of_nat n" and "root_nodes s = of_nat nb" and n: "n = length names" "n \<le> 64"
    and names: "\<And>j. j < n \<Longrightarrow> cstring s (of_nat (nb + 184 * j)) (names ! j) \<and> length (names ! j) < 64" "distinct names"
    and p: "cstring s p (names ! i)" and j: "j \<le> i" "i < n" "i - j < fuel"
  shows "find_node fuel (of_nat j) p s = Inr (of_nat (nb + 184 * i), s)"
  using j
proof (induction fuel arbitrary: j)
  case (Suc fuel)
  have lt: "(of_nat j :: u32) < of_nat n" using Suc.prems n(2) by (simp add: word_less_nat_alt unat_of_nat)
  have jn: "j < n" using Suc.prems by simp
  obtain c where c: "strcmp p (of_nat (nb + 184 * j)) s = Inr (c, s)" "c = 0 \<longleftrightarrow> names ! i = names ! j"
    using strcmp_names [OF p] names(1) [OF jn] by blast
  have eq: "c = 0 \<longleftrightarrow> i = j" using c(2) nth_eq_iff_index_eq [OF names(2)] n(1) jn Suc.prems(2) by simp
  show ?case
  proof (cases "i = j")
    case True
    then show ?thesis using lt c(1) eq assms(1,2) by (simp add: cmd_simps node_nat del: of_nat_add)
  next
    case False
    have "find_node fuel (of_nat (j + 1)) p s = Inr (of_nat (nb + 184 * i), s)"
      by (rule Suc.IH) (use Suc.prems False in simp_all)
    then show ?thesis using lt c(1) eq False assms(1,2)
      by (simp add: cmd_simps node_nat add.commute del: of_nat_add)
  qed
qed simp

lemma find_node_misses:
  assumes "nroot_nodes s = of_nat n" and "root_nodes s = of_nat nb" and n: "n = length names" "n \<le> 64"
    and names: "\<And>j. j < n \<Longrightarrow> cstring s (of_nat (nb + 184 * j)) (names ! j) \<and> length (names ! j) < 64"
    and p: "cstring s p nm" "nm \<notin> set names" and j: "j \<le> n" "n - j < fuel"
  shows "find_node fuel (of_nat j) p s = Inr (0, s)"
  using j
proof (induction fuel arbitrary: j)
  case (Suc fuel)
  have lt: "(of_nat j :: u32) < of_nat n \<longleftrightarrow> j < n" using Suc.prems n(2) by (simp add: word_less_nat_alt unat_of_nat)
  show ?case
  proof (cases "j < n")
    case False
    then show ?thesis using lt assms(1) by (simp add: cmd_simps)
  next
    case True
    obtain c where c: "strcmp p (of_nat (nb + 184 * j)) s = Inr (c, s)" "c = 0 \<longleftrightarrow> nm = names ! j"
      using strcmp_names [OF p(1)] names [OF True] by blast
    have "c \<noteq> 0" using c(2) p(2) True n(1) by auto
    moreover have "find_node fuel (of_nat (j + 1)) p s = Inr (0, s)" by (rule Suc.IH) (use Suc.prems True in simp_all)
    ultimately show ?thesis using lt True c(1) assms(1,2) by (simp add: cmd_simps node_nat add.commute del: of_nat_add)
  qed
qed simp

section \<open>From the files of the host to the files of the kernel\<close>

lemma holds_part:
  assumes "holds s (of_nat l) img" and "bytes_at img a bs"
  shows "holds s (of_nat (l + a)) bs"
  using assms by (auto simp: holds_def bytes_at_def add.assoc simp flip: of_nat_add)

lemma image_raw_file:
  assumes img: "image_of names cs img" "i < length names" and s: "holds s (of_nat l) img"
    and zero: "holds s (of_nat nb) (replicate (184 * length names) 0)"
    and n: "length (names ! i) < 64" "0 \<notin> set (names ! i)"
  shows "raw_file s (l + 4 + 76 * i) (nb + 184 * i) (names ! i) (of_nat (file_start cs i)) (of_nat (length (cs ! i)))"
proof -
  have hd: "header_in img (4 + 76 * i) (names ! i) (of_nat (file_start cs i)) (of_nat (length (cs ! i)))"
    using img by (simp add: image_of_def)
  note parts = hd [unfolded header_in_def]
  have "holds s (of_nat (l + (4 + 76 * i))) [ucast HEADER_MAGIC]"
    "holds s (of_nat (l + (4 + 76 * i + 1))) (names ! i @ [0])"
    "word_at s (of_nat (l + (4 + 76 * i + 68))) (of_nat (file_start cs i))"
    "word_at s (of_nat (l + (4 + 76 * i + 72))) (of_nat (length (cs ! i)))"
    unfolding word_at_def using parts by (blast intro: holds_part [OF s])+
  moreover have "view s (of_nat nb + of_nat (184 * i + length (names ! i))) = Some 0"
  proof -
    have k: "184 * i + length (names ! i) < 184 * length names" using img(2) n(1) by linarith
    then show ?thesis using zero unfolding holds_def by (metis length_replicate nth_replicate)
  qed
  ultimately show ?thesis
    using n(2) by (simp add: raw_file_def cstring_def holds_Cons add_ac)
qed

lemma mounted_initrd_file:
  assumes m: "mounted_file im t h (nb + 184 * i) (of_nat i) name place (of_nat (length bs))"
    and h: "h = hs + 76 * i" "file_headers t = of_nat hs" and c: "holds t place bs" "length bs < 4294967296"
    and "at_initrd_read im \<noteq> 0"
  shows "initrd_file im t (root_node (of_nat nb) (of_nat i)) bs"
proof -
  have "file_at t (of_nat (nb + 184 * i)) (of_nat i) place bs"
    using m c unfolding file_at_def mounted_file_def h
    by (simp add: header_nat header_offset_def header_length_def add_ac)
  then show ?thesis using m assms(6) unfolding initrd_file_def mounted_file_def node_nat
    by (auto simp: nat_offsets)
qed

text \<open>The loop of \<open>init_initrd\<close> on an image that is loaded at \<open>l\<close>, with cleared nodes at \<open>nb\<close>.\<close>

lemma mount_image:
  assumes img: "image_of names cs img" "length img < 4294967296" "length cs = length names"
    and names: "\<forall>nm \<in> set names. nm \<noteq> [] \<and> length nm < 64 \<and> 0 \<notin> set nm"
    and loaded: "holds s (of_nat l) img" "spans A l (length img)" "l + length img \<le> nb \<or> nb + 184 * length names \<le> l"
    and tab: "tables A (l + 4) nb (length names) s" and zero: "holds s (of_nat nb) (replicate (184 * length names) 0)"
    and im: "at_initrd_read im \<noteq> 0"
  shows "\<exists>t. mount_files string_fuel im (of_nat l) 0 s = Inr ((), t) \<and> buffer t A \<and> alters A s t
    \<and> same_but A (touched (l + 4) nb 0 (length names)) s t
    \<and> (\<forall>i < length names. initrd_file im t (root_node (of_nat nb) (of_nat i)) (cs ! i)
        \<and> cstring t (of_nat (nb + 184 * i)) (names ! i))"
proof -
  let ?n = "length names"
  have n64: "?n \<le> 64" and st: "file_headers s = of_nat (l + 4)" using tab by (simp_all add: tables_def)
  have ns: "names ! i \<noteq> [] \<and> length (names ! i) < 64" "0 \<notin> set (names ! i)" if "i < ?n" for i
    using names that by simp_all
  have fuel: "0 \<le> ?n" "?n - 0 < string_fuel" using n64 by (simp_all add: string_fuel_def)
  obtain t where t: "mount_files string_fuel im (of_nat l) 0 s = Inr ((), t)" "buffer t A" "alters A s t"
    "\<forall>i. 0 \<le> i \<and> i < ?n \<longrightarrow> mounted_file im t (l + 4 + 76 * i) (nb + 184 * i) (of_nat i) (names ! i)
        (of_nat (file_start cs i) + of_nat l) (of_nat (length (cs ! i)))"
    "same_but A (touched (l + 4) nb 0 ?n) s t"
    using mount_files_run [OF tab fuel ns(1) image_raw_file [OF img(1) _ loaded(1) zero], of im "of_nat l"] ns by auto
  have tt: "file_headers t = of_nat (l + 4)" using st by (subst alters_ram [OF t(3)]) simp
  have "initrd_file im t (root_node (of_nat nb) (of_nat i)) (cs ! i)" if i: "i < ?n" for i
  proof (rule mounted_initrd_file)
    let ?p = "l + file_start cs i"
    have fs: "4868 \<le> file_start cs i" "file_start cs i + length (cs ! i) \<le> length img"
      using sum_list_take_le [of i cs] i img(1,3) by (simp_all add: file_start_def image_of_def)
    have sp: "spans A ?p (length (cs ! i))" by (rule spans_part [OF loaded(2)]) (use fs in simp_all)
    have "holds t (of_nat ?p) (cs ! i) = holds s (of_nat ?p) (cs ! i)"
      by (rule holds_same_but [OF t(5) sp]) (use fs n64 loaded(3) in auto)
    then have "holds t (of_nat ?p) (cs ! i)" using holds_part [OF loaded(1)] img(1) i by (simp add: image_of_def)
    then show "holds t (of_nat (file_start cs i) + of_nat l) (cs ! i)" by (simp add: add.commute)
    show "mounted_file im t (l + 4 + 76 * i) (nb + 184 * i) (of_nat i) (names ! i)
      (of_nat (file_start cs i) + of_nat l) (of_nat (length (cs ! i)))" using t(4) i by simp
    show "length (cs ! i) < 4294967296" using fs(2) img(2) by simp
  qed (use tt im in \<open>simp_all del: of_nat_add\<close>)
  moreover have "cstring t (of_nat (nb + 184 * i)) (names ! i)" if "i < ?n" for i
    using t(4) that by (simp add: mounted_file_def)
  ultimately show ?thesis using t(1,2,3,5) by blast
qed

end
