(* ===== verification/Kernel_Elf.thy ===== *)
theory Kernel_Elf
  imports Kernel_Fs Kernel_Space
begin

text \<open>
  Executable files and the kernel's own symbols: \<open>kernel/kernel/elf.c\<close> and the
  structures of \<open>kernel/include/kernel/elf.h\<close> that it reads, which are structures in memory,
  each field at its offset.
\<close>

section \<open>Structures\<close>

type_synonym Elf32_Addr = u32
type_synonym Elf32_Half = u16
type_synonym Elf32_Off = u32
type_synonym Elf32_Word = u32

definition PT_LOAD :: u32 where "PT_LOAD = 1"
definition PF_X :: u32 where "PF_X = 0x1"
definition STT_FUNC :: u8 where "STT_FUNC = 2"
definition SELFMAG :: u32 where "SELFMAG = 4"

definition ELFMAG :: "u8 list" where "ELFMAG = [0x7F, chr CHR ''E'', chr CHR ''L'', chr CHR ''F'']"

definition ELF_ST_TYPE :: "u8 \<Rightarrow> u8" where "ELF_ST_TYPE x = x AND 0xf"

definition vld16 :: "u32 \<Rightarrow> ('a vm_scheme, u16) cmd" where
  "vld16 a = bnd (vld8 a) (\<lambda>l. bnd (vld8 (a + 1)) (\<lambda>h. ret (ucast l OR push_bit 8 (ucast h))))"

text \<open>\<open>Elf32_Ehdr\<close>, of 52 bytes.\<close>

definition sizeof_ehdr :: u32 where "sizeof_ehdr = 52"

definition e_entry :: "u32 \<Rightarrow> ('a vm_scheme, Elf32_Addr) cmd" where "e_entry h = vld32 (h + 24)"
definition e_phoff :: "u32 \<Rightarrow> ('a vm_scheme, Elf32_Off) cmd" where "e_phoff h = vld32 (h + 28)"
definition e_phnum :: "u32 \<Rightarrow> ('a vm_scheme, Elf32_Half) cmd" where "e_phnum h = vld16 (h + 44)"

text \<open>\<open>Elf32_Phdr\<close>, of 32 bytes.\<close>

definition sizeof_phdr :: u32 where "sizeof_phdr = 32"

definition p_type :: "u32 \<Rightarrow> ('a vm_scheme, Elf32_Word) cmd" where "p_type h = vld32 h"
definition p_offset :: "u32 \<Rightarrow> ('a vm_scheme, Elf32_Off) cmd" where "p_offset h = vld32 (h + 4)"
definition p_vaddr :: "u32 \<Rightarrow> ('a vm_scheme, Elf32_Addr) cmd" where "p_vaddr h = vld32 (h + 8)"
definition p_filesz :: "u32 \<Rightarrow> ('a vm_scheme, Elf32_Word) cmd" where "p_filesz h = vld32 (h + 16)"
definition p_memsz :: "u32 \<Rightarrow> ('a vm_scheme, Elf32_Word) cmd" where "p_memsz h = vld32 (h + 20)"

text \<open>\<open>Elf32_Shdr\<close>, of 40 bytes.\<close>

definition sizeof_shdr :: u32 where "sizeof_shdr = 40"

definition sh_name :: "u32 \<Rightarrow> ('a vm_scheme, Elf32_Word) cmd" where "sh_name h = vld32 h"
definition sh_addr :: "u32 \<Rightarrow> ('a vm_scheme, Elf32_Addr) cmd" where "sh_addr h = vld32 (h + 12)"
definition sh_size :: "u32 \<Rightarrow> ('a vm_scheme, Elf32_Word) cmd" where "sh_size h = vld32 (h + 20)"

text \<open>\<open>Elf32_Sym\<close>, of 16 bytes.\<close>

definition sizeof_sym :: u32 where "sizeof_sym = 16"

definition st_name :: "u32 \<Rightarrow> ('a vm_scheme, Elf32_Word) cmd" where "st_name h = vld32 h"
definition st_value :: "u32 \<Rightarrow> ('a vm_scheme, Elf32_Addr) cmd" where "st_value h = vld32 (h + 4)"
definition st_size :: "u32 \<Rightarrow> ('a vm_scheme, Elf32_Word) cmd" where "st_size h = vld32 (h + 8)"
definition st_info :: "u32 \<Rightarrow> ('a vm_scheme, u8) cmd" where "st_info h = vld8 (h + 12)"

record Elf32_Sym_Map =
  symtab :: u32
  symtabsz :: u32
  strtab :: u32
  strtabsz :: u32

text \<open>\<open>multiboot_elf_section_header_table_t\<close>.\<close>

definition elf_sec_num :: "u32 \<Rightarrow> ('a vm_scheme, u32) cmd" where "elf_sec_num t = vld32 t"
definition elf_sec_addr :: "u32 \<Rightarrow> ('a vm_scheme, u32) cmd" where "elf_sec_addr t = vld32 (t + 8)"
definition elf_sec_shndx :: "u32 \<Rightarrow> ('a vm_scheme, u32) cmd" where "elf_sec_shndx t = vld32 (t + 12)"

section \<open>Loading an executable\<close>

text \<open>
  \<open>elf_hdr\<close> and \<open>p_hdr\<close> are the addresses of the local structures. One program header: its
  segment is allocated and read. The number of headers has 16 bits.
\<close>

definition elf_fuel :: nat where "elf_fuel = 65537"

definition load_segment :: "(u32 \<Rightarrow> 'a vm_scheme read_fn) \<Rightarrow> u32 \<Rightarrow> u32 \<Rightarrow> ('a vm_scheme, unit) cmd" where
  "load_segment call file p_hdr =
     bnd (p_type p_hdr) (\<lambda>ty.
     if PF_X = ty then
       bnd (p_vaddr p_hdr) (\<lambda>va.
       bnd (p_memsz p_hdr) (\<lambda>memsz.
       bnd (allocate_range va (va + memsz) (PAGE_WRITE OR PAGE_USER)) (\<lambda>_.
       bnd (p_offset p_hdr) (\<lambda>po.
       bnd (p_filesz p_hdr) (\<lambda>fsz.
       bnd (p_vaddr p_hdr) (\<lambda>va.
       bnd (fs_read call file po fsz va) (\<lambda>_. skip)))))))
     else skip)"

primrec load_segments :: "nat \<Rightarrow> (u32 \<Rightarrow> 'a vm_scheme read_fn) \<Rightarrow> u32 \<Rightarrow> u32 \<Rightarrow> u32 \<Rightarrow> u32 \<Rightarrow> u32 \<Rightarrow> ('a vm_scheme, unit) cmd" where
  "load_segments 0 call file elf_hdr p_hdr i offs = fault Out_of_Fuel"
| "load_segments (Suc n) call file elf_hdr p_hdr i offs =
     bnd (e_phnum elf_hdr) (\<lambda>num.
     if i < ucast num then
       bnd (fs_read call file offs sizeof_phdr p_hdr) (\<lambda>_.
       bnd (load_segment call file p_hdr) (\<lambda>_.
       load_segments n call file elf_hdr p_hdr (i + 1) (offs + sizeof_phdr)))
     else skip)"

text \<open>\<open>elfmag\<close> is the address of the literal \<open>ELFMAG\<close>.\<close>

definition load_elf_binary :: "(u32 \<Rightarrow> 'a vm_scheme read_fn) \<Rightarrow> u32 \<Rightarrow> u32 \<Rightarrow> u32 \<Rightarrow> u32 \<Rightarrow> ('a vm_scheme, u32) cmd" where
  "load_elf_binary call elf_hdr p_hdr elfmag file =
     bnd (fs_read call file 0 sizeof_ehdr elf_hdr) (\<lambda>_.
     bnd (memcmp elf_hdr elfmag SELFMAG) (\<lambda>c.
     if c \<noteq> 0 then panic ''ELF: This is not an elf file.''
     else
       bnd (e_phoff elf_hdr) (\<lambda>offs.
       bnd (load_segments elf_fuel call file elf_hdr p_hdr 0 offs) (\<lambda>_.
       e_entry elf_hdr))))"

section \<open>Symbols\<close>

text \<open>
  \<open>str_strtab\<close> and \<open>str_symtab\<close> are the addresses of the two literals. The structure
  that is returned starts out indeterminate: \<open>elf\<close> is what it holds.
\<close>

primrec sym_map_loop :: "nat \<Rightarrow> u32 \<Rightarrow> u32 \<Rightarrow> u32 \<Rightarrow> u32 \<Rightarrow> u32 \<Rightarrow> u32 \<Rightarrow> Elf32_Sym_Map \<Rightarrow> ('a vm_scheme, Elf32_Sym_Map) cmd" where
  "sym_map_loop 0 str_strtab str_symtab elf_sec sh shstrtab i elf = fault Out_of_Fuel"
| "sym_map_loop (Suc n) str_strtab str_symtab elf_sec sh shstrtab i elf =
     bnd (elf_sec_num elf_sec) (\<lambda>num.
     if i < num then
       let h = sh + sizeof_shdr * i in
       bnd (sh_name h) (\<lambda>nm.
       let name = shstrtab + nm in
       bnd (strcmp name str_strtab) (\<lambda>c.
       bnd (if c = 0
            then bnd (sh_addr h) (\<lambda>a. bnd (sh_size h) (\<lambda>z. ret (elf\<lparr>strtab := a, strtabsz := z\<rparr>)))
            else ret elf) (\<lambda>elf.
       bnd (strcmp name str_symtab) (\<lambda>c.
       bnd (if c = 0
            then bnd (sh_addr h) (\<lambda>a. bnd (sh_size h) (\<lambda>z. ret (elf\<lparr>symtab := a, symtabsz := z\<rparr>)))
            else ret elf) (\<lambda>elf.
       sym_map_loop n str_strtab str_symtab elf_sec sh shstrtab (i + 1) elf)))))
     else ret elf)"

definition elf_sym_map_from_multiboot :: "u32 \<Rightarrow> u32 \<Rightarrow> Elf32_Sym_Map \<Rightarrow> u32 \<Rightarrow> ('a vm_scheme, Elf32_Sym_Map) cmd" where
  "elf_sym_map_from_multiboot str_strtab str_symtab elf elf_sec =
     bnd (elf_sec_addr elf_sec) (\<lambda>sh.
     bnd (elf_sec_shndx elf_sec) (\<lambda>shndx.
     bnd (sh_addr (sh + sizeof_shdr * shndx)) (\<lambda>shstrtab.
     sym_map_loop string_fuel str_strtab str_symtab elf_sec sh shstrtab 0 elf)))"

text \<open>The symbols are tried in order; \<open>str_empty\<close> is the address of the empty literal.\<close>

primrec lookup_loop :: "nat \<Rightarrow> u32 \<Rightarrow> u32 \<Rightarrow> Elf32_Sym_Map \<Rightarrow> u32 \<Rightarrow> ('a vm_scheme, u32) cmd" where
  "lookup_loop 0 str_empty addr elf_sym i = fault Out_of_Fuel"
| "lookup_loop (Suc n) str_empty addr elf_sym i =
     (if i < symtabsz elf_sym div sizeof_sym then
        let sym = symtab elf_sym + sizeof_sym * i in
        bnd (st_info sym) (\<lambda>info.
        if ELF_ST_TYPE info \<noteq> STT_FUNC then lookup_loop n str_empty addr elf_sym (i + 1)
        else
          bnd (st_value sym) (\<lambda>v.
          bnd (st_size sym) (\<lambda>z.
          if v \<le> addr \<and> addr < v + z then bnd (st_name sym) (\<lambda>nm. ret (strtab elf_sym + nm))
          else lookup_loop n str_empty addr elf_sym (i + 1))))
      else ret str_empty)"

definition elf_sym_map_lookup :: "u32 \<Rightarrow> u32 \<Rightarrow> Elf32_Sym_Map \<Rightarrow> ('a vm_scheme, u32) cmd" where
  "elf_sym_map_lookup str_empty addr elf_sym = lookup_loop string_fuel str_empty addr elf_sym 0"

end
