(* ===== verification/Kernel_Owned.thy ===== *)
theory Kernel_Owned
  imports Kernel_Map Kernel_Words
begin

text \<open>
  Memory in use: addresses that are mapped to frames which the memory managers neither
  hold free nor use themselves. Stores there leave the managers alone, and
  neither an allocation nor a new mapping touches what is there.
\<close>

definition owned :: "'a vm_scheme \<Rightarrow> u32 set \<Rightarrow> bool" where
  "owned s A \<longleftrightarrow> mm_ok s \<and> buffer s A
     \<and> (\<forall>a \<in> A. PGDIR_IDX_FROM_ADDR a \<noteq> self_slot s
          \<and> frame (the (translate s a)) \<notin> set (free_pages s) \<union> stack_frames s)"

lemma owned_subset: "owned s A \<Longrightarrow> B \<subseteq> A \<Longrightarrow> owned s B"
  unfolding owned_def using buffer_subset by blast

lemma owned_word: "owned s A \<Longrightarrow> run_of a 4 \<subseteq> A \<Longrightarrow> \<exists>v. word_at s a v"
  unfolding owned_def by (blast intro: buffer_word)

section \<open>Stores\<close>

text \<open>Only memory changed, and no page table or free frame in it.\<close>

definition stores :: "'a vm_scheme \<Rightarrow> 'a vm_scheme \<Rightarrow> bool" where
  "stores s t \<longleftrightarrow> t = s\<lparr>ram := ram t\<rparr> \<and> translate t = translate s \<and> free_pages t = free_pages s"

lemma stores_refl [simp]: "stores s s"
  by (simp add: stores_def)

lemma stores_trans: "stores s t \<Longrightarrow> stores t u \<Longrightarrow> stores s u"
  unfolding stores_def by (metis vm.surjective vm.update_convs(1))

lemma stores_mappable: "stores s t \<Longrightarrow> mappable t x = mappable s x"
proof -
  assume s: "stores s t"
  then have t: "t = s\<lparr>ram := ram t\<rparr>" and tr: "translate t = translate s" by (simp_all add: stores_def)
  have "cr3 t = cr3 s" "current_directory t = current_directory s" "dirs t = dirs s"
    "pmm_stack_max t = pmm_stack_max s" by (subst t, simp)+
  then show ?thesis
    by (simp add: mappable_def window_def self_slot_def in_stack_def kernel_view_def tr)
qed

lemma owned_store:
  assumes own: "owned s A" and a: "run_of a 4 \<subseteq> A"
  shows "\<exists>t. vst32 a v s = Inr ((), t) \<and> owned t A \<and> stores s t \<and> word_at t a v
    \<and> (\<forall>x \<in> A - run_of a 4. view t x = view s x)"
proof -
  have ok: "mm_ok s" and b: "buffer s A" using own by (simp_all add: owned_def)
  have pg: "paging_ok s" using ok by (simp add: mm_ok_def)
  obtain t where t: "vst32 a v s = Inr ((), t)" "buffer t A" "t = s\<lparr>ram := ram t\<rparr>" "word_at t a v"
    "translate t = translate s" "pt_frames t = pt_frames s"
    "same_except (frame ` (\<lambda>x. the (translate s x)) ` run_of a 4) (ram s) (ram t)"
    "\<forall>x \<in> A - run_of a 4. view t x = view s x"
    using vst32_word [OF b a, of v] by blast
  let ?F = "frame ` (\<lambda>x. the (translate s x)) ` run_of a 4"
  have st: "?F \<inter> stack_frames s = {}" using own a unfolding owned_def by blast
  have np: "?F \<inter> pt_frames s = {}"
  proof -
    have "frame (the (translate s x)) \<notin> pt_frames s" if "x \<in> run_of a 4" for x
      using b a that unfolding buffer_def by fastforce
    then show ?thesis by blast
  qed
  have f: "pmm_stack_max t = pmm_stack_max s" "pmm_stack_loc t = pmm_stack_loc s"
    "pmm_paging_active t = pmm_paging_active s" by (subst t(3), simp)+
  have "paging_ok (s\<lparr>ram := ram t\<rparr>)"
    using pg pde_at_same [OF t(7) np] translate_same [OF t(7) np]
    by (simp add: paging_ok_def self_mapped_def tables_ok_def self_slot_def PGDIR_less)
  then have pt: "paging_ok t" using t(3) by metis
  have dis: "pt_frames t \<inter> (set (free_pages s) \<union> stack_frames s) = {}"
    using ok unfolding t(6) mm_ok_def pool_ok_def stack_ok_def stack_mapped_def by blast
  have tr: "translate t x = translate s x" for x by (simp add: t(5))
  note m = mm_transfer [OF ok pt t(7) st tr f dis]
  have "self_slot t = self_slot s" by (subst t(3)) (simp add: self_slot_def)
  then have "owned t A" using own m t(2) by (simp add: owned_def t(5))
  moreover have "stores s t" using t(3,5) m(2) by (simp add: stores_def)
  ultimately show ?thesis using t by blast
qed

section \<open>Allocations and mappings\<close>

lemma stack_not_window:
  assumes ok: "mm_ok s" and x: "in_stack s x"
  shows "PGDIR_IDX_FROM_ADDR x \<noteq> self_slot s"
proof
  assume w: "PGDIR_IDX_FROM_ADDR x = self_slot s"
  have sok: "stack_ok s" and self: "self_mapped s" using ok by (simp_all add: mm_ok_def paging_ok_def)
  obtain p where p: "translate s x = Some p"
    using stack_okD(1) [OF sok] x unfolding stack_mapped_def by blast
  have "frame (pde_at s (self_slot s)) = frame (cr3 s)" "cr0_pg s" using self by (simp_all add: self_mapped_def)
  then have "pte_at s x = pde_at s (PGTAB_IDX_FROM_ADDR x)"
    by (simp add: pte_at_def pte_addr_def pde_at_def entry_def w)
  then have "present (pde_at s (PGTAB_IDX_FROM_ADDR x))" "frame p = frame (pde_at s (PGTAB_IDX_FROM_ADDR x))"
    using p \<open>cr0_pg s\<close> frame_add [OF off_less] by (auto simp: translate_def split: if_splits)
  then have "frame p \<in> pt_frames s" using pde_in_pt_frames [OF PGTAB_less] by metis
  moreover have "frame p \<in> stack_frames s" using x p unfolding stack_frames_def by blast
  ultimately show False using stack_okD(2) [OF sok] by blast
qed

lemma stack_frames_translate:
  assumes "pmm_stack_max t = pmm_stack_max s" and "\<And>x. in_stack s x \<Longrightarrow> translate t x = translate s x"
  shows "stack_frames t = stack_frames s"
proof -
  have "in_stack t = in_stack s" by (simp add: in_stack_def assms(1) fun_eq_iff)
  with assms(2) show ?thesis unfolding stack_frames_def by (metis (no_types, lifting))
qed

text \<open>What is owned stays owned, with its contents, when the managers only grow.\<close>

lemma owned_grows:
  assumes own: "owned s A" and gr: "grows s t" and st: "stack_frames t = stack_frames s"
    and tr: "\<forall>x \<in> A. translate t x = translate s x"
  shows "owned t A" and "\<forall>x \<in> A. view t x = view s x"
proof -
  have b: "buffer s A" using own by (simp add: owned_def)
  have sub: "pt_frames t \<union> set (free_pages t) \<subseteq> pt_frames s \<union> set (free_pages s)"
    and same: "same_except (pt_frames s \<union> set (free_pages s)) (ram s) (ram t)" and ok: "mm_ok t"
    using gr unfolding grows_def by blast+
  have each: "\<exists>p. translate s x = Some p \<and> frame p \<notin> pt_frames s \<union> set (free_pages s) \<union> stack_frames s"
    if x: "x \<in> A" for x
  proof -
    obtain p where p: "translate s x = Some p" "frame p \<notin> pt_frames s" using b x unfolding buffer_def by blast
    then have "frame p \<notin> set (free_pages s) \<union> stack_frames s" using own x unfolding owned_def by force
    with p show ?thesis by simp
  qed
  have "inj_on (translate t) A" using b tr by (simp add: buffer_def inj_on_def)
  then have "buffer t A" using each tr sub unfolding buffer_def by fastforce
  moreover have "PGDIR_IDX_FROM_ADDR x \<noteq> self_slot t \<and> frame (the (translate t x)) \<notin> set (free_pages t) \<union> stack_frames t"
    if "x \<in> A" for x
    using each [OF that] own that tr sub grows_fields(7) [OF gr] st unfolding owned_def by fastforce
  ultimately show "owned t A" using ok by (simp add: owned_def)
  show "\<forall>x \<in> A. view t x = view s x"
    using each tr same unfolding view_def same_except_def by fastforce
qed

definition page_of :: "u32 \<Rightarrow> u32 set" where
  "page_of m = {x. frame x = frame m}"

text \<open>A fresh frame, mapped: its page is owned too.\<close>

lemma owned_map:
  assumes own: "owned s A" and va: "mappable s m" and fl: "frame flags = 0"
    and free: "2 \<le> length (free_pages s)" and new: "A \<inter> page_of m = {}"
  shows "\<exists>p u t. pmm_alloc_page s = Inr (p, u) \<and> map_page m p flags u = Inr ((), t)
    \<and> owned t (A \<union> page_of m) \<and> grows s t \<and> length (free_pages s) \<le> length (free_pages t) + 2
    \<and> (\<forall>x \<in> A. view t x = view s x)"
proof -
  have ok: "mm_ok s" using own by (simp add: owned_def)
  obtain xs p where xp: "free_pages s = xs @ [p]" using free by (cases "free_pages s" rule: rev_cases) auto
  have p: "frame p = p" "p \<notin> set xs" "p \<notin> pt_frames s" "p \<notin> stack_frames s"
    using ok xp by (auto simp: mm_ok_def pool_ok_def)
  obtain u where u: "pmm_alloc_page s = Inr (p, u)" "grows s u" "free_pages u = xs"
    "\<forall>x. translate u x = translate s x" "pt_frames u = pt_frames s"
    using grows_alloc [OF ok xp] by blast
  have uok: "mm_ok u" using u(2) by (simp add: grows_def)
  have su: "stack_frames u = stack_frames s"
    by (rule stack_frames_translate) (simp_all add: grows_fields(5) [OF u(2)] u(4))
  have au: "owned u A" "\<forall>x \<in> A. view u x = view s x" using owned_grows [OF own u(2) su] u(4) by blast+
  have ne: "free_pages u \<noteq> []" using free xp u(3) by auto
  have va': "mappable u m" by (rule grows_mappable [OF u(2) va])
  obtain t where t: "map_page m p flags u = Inr ((), t)" "grows u t"
    "length (free_pages u) \<le> Suc (length (free_pages t))"
    "\<forall>x. PGDIR_IDX_FROM_ADDR x \<noteq> self_slot u \<longrightarrow>
       translate t x = (if frame x = frame m then Some (frame p + off x) else translate u x)"
    using map_page_grows [OF uok va' fl disjI2 [OF ne], of p] by blast
  have sok: "stack_ok u" using uok by (simp add: mm_ok_def)
  have st: "stack_frames t = stack_frames u"
  proof (rule stack_frames_translate)
    show "pmm_stack_max t = pmm_stack_max u" by (rule grows_fields(5) [OF t(2)])
    fix x assume x: "in_stack u x"
    then have "frame x \<noteq> frame m" using in_stack_frame [OF sok x, of m] va' by (auto simp: mappable_def)
    then show "translate t x = translate u x" using t(4) stack_not_window [OF uok x] by simp
  qed
  have "translate t x = translate u x" if "x \<in> A" for x
    using t(4) that new au(1) by (auto simp: page_of_def owned_def)
  then have at: "owned t A" "\<forall>x \<in> A. view t x = view u x"
    using owned_grows [OF au(1) t(2) st] by blast+
  have tok: "mm_ok t" using at(1) by (simp add: owned_def)
  have idx: "PGDIR_IDX_FROM_ADDR x \<noteq> self_slot u" if "x \<in> page_of m" for x
    using that va' frame_eq_iff_idx [of x m] by (auto simp: page_of_def mappable_def window_def)
  have pt: "translate t x = Some (p + off x)" if "x \<in> page_of m" for x
    using t(4) idx [OF that] that p(1) by (simp add: page_of_def)
  have fp: "frame (p + off x) = p" for x using frame_add [OF off_less, of p x] p(1) by simp
  have sub: "pt_frames t \<union> set (free_pages t) \<subseteq> pt_frames s \<union> set xs"
    using t(2) u(3,5) unfolding grows_def by auto
  have "p \<notin> pt_frames t \<union> set (free_pages t) \<union> stack_frames t" using sub p st su by blast
  note pn = this
  have "buffer t (A \<union> page_of m)"
    unfolding buffer_def
  proof (intro conjI ballI)
    fix a assume "a \<in> A \<union> page_of m"
    then show "\<exists>q. translate t a = Some q \<and> frame q \<notin> pt_frames t"
    proof
      assume "a \<in> A"
      then show ?thesis using at(1) by (auto simp: owned_def buffer_def)
    next
      assume "a \<in> page_of m"
      then show ?thesis using pt pn fp by auto
    qed
  next
    show "inj_on (translate t) (A \<union> page_of m)"
      unfolding inj_on_Un
    proof (intro conjI)
      show "inj_on (translate t) A" using at(1) by (simp add: owned_def buffer_def)
      show "inj_on (translate t) (page_of m)"
      proof (rule inj_onI)
        fix x y assume xy: "x \<in> page_of m" "y \<in> page_of m" "translate t x = translate t y"
        then have "p + off x = p + off y" using pt [OF xy(1)] pt [OF xy(2)] by simp
        then have "off x = off y" by (rule add_left_imp_eq)
        moreover have "frame x = frame y" using xy(1,2) unfolding page_of_def mem_Collect_eq by metis
        ultimately show "x = y" using frame_plus_off [of x] frame_plus_off [of y] by metis
      qed
      have "translate t x \<noteq> translate t y" if "x \<in> A" "y \<in> page_of m" for x y
      proof
        assume "translate t x = translate t y"
        then have "translate t x = Some (p + off y)" using pt [OF that(2)] by simp
        moreover have "frame (the (translate s x)) \<noteq> p" using own that(1) xp unfolding owned_def by auto
        moreover have "translate t x = translate s x"
          using t(4) u(4) that(1) new au(1) by (auto simp: page_of_def owned_def)
        ultimately show False using fp by simp
      qed
      then show "translate t ` (A - page_of m) \<inter> translate t ` (page_of m - A) = {}" by blast
    qed
  qed
  moreover have "PGDIR_IDX_FROM_ADDR a \<noteq> self_slot t
      \<and> frame (the (translate t a)) \<notin> set (free_pages t) \<union> stack_frames t" if "a \<in> A \<union> page_of m" for a
    using that
  proof
    assume "a \<in> A"
    then show ?thesis using at(1) by (simp add: owned_def)
  next
    assume "a \<in> page_of m"
    then show ?thesis using pt pn fp idx grows_fields(7) [OF t(2)] by simp
  qed
  ultimately have "owned t (A \<union> page_of m)" using tok by (simp add: owned_def)
  moreover have "grows s t" by (rule grows_trans [OF u(2) t(2)])
  moreover have "length (free_pages s) \<le> length (free_pages t) + 2" using t(3) u(3) xp by simp
  ultimately show ?thesis using u(1) t(1) au(2) at(2) by (intro exI [of _ p] exI [of _ u] exI [of _ t]) simp
qed

end
