(* ===== verification/Kernel_Chunks.thy ===== *)
theory Kernel_Chunks
  imports Kernel_Owned Kernel_Heap
begin

text \<open>
  The list of chunks of the kernel heap: what the headers in memory say, as a list of
  \<open>(allocated, length)\<close> in the order of the addresses, without gaps. Addresses are
  natural numbers here, below 2^32.
\<close>

section \<open>Headers\<close>

definition chunk_word :: "bool \<Rightarrow> nat \<Rightarrow> u32" where
  "chunk_word al len = push_bit 1 (of_nat len) OR (if al then 1 else 0)"

definition chunk_at :: "'a vm_scheme \<Rightarrow> nat \<Rightarrow> u32 \<Rightarrow> u32 \<Rightarrow> bool \<Rightarrow> nat \<Rightarrow> bool" where
  "chunk_at s a p n al len \<longleftrightarrow> word_at s (of_nat a) p \<and> word_at s (of_nat a + 4) n
     \<and> word_at s (of_nat a + 8) (chunk_word al len)"

lemma chunk_word_bits:
  "chunk_word al len AND 1 = (if al then 1 else 0)"
  "len < 2147483648 \<Longrightarrow> drop_bit 1 (chunk_word al len) = of_nat len"
  "chunk_word al len AND NOT 1 OR (if b then 1 else 0) = chunk_word b len"
  "w AND 1 = (if b then 1 else 0) \<Longrightarrow> w AND 1 OR push_bit 1 (of_nat len) = chunk_word b len"
proof -
  show "chunk_word al len AND 1 = (if al then 1 else 0)"
    by (rule bit_word_eqI) (auto simp: chunk_word_def bit_simps simp del: push_bit_Suc One_nat_def)
  show "chunk_word al len AND NOT 1 OR (if b then 1 else 0) = chunk_word b len"
    by (rule bit_word_eqI) (auto simp: chunk_word_def bit_simps simp del: push_bit_Suc One_nat_def)
  show "w AND 1 = (if b then 1 else 0) \<Longrightarrow> w AND 1 OR push_bit 1 (of_nat len) = chunk_word b len"
    by (simp add: chunk_word_def or.commute)
  assume "len < 2147483648"
  then have "\<not> bit len 31" by (simp add: bit_iff_odd)
  then have "n < 31" if "bit len n" "n < 32" for n using that by (cases "n = 31") auto
  then show "drop_bit 1 (chunk_word al len) = of_nat len"
    by (intro bit_word_eqI) (auto simp: chunk_word_def bit_simps simp del: push_bit_Suc One_nat_def)
qed

lemma chunk_reads:
  assumes "chunk_at s a p n al len"
  shows "chunk_prev (of_nat a) s = Inr (p, s)" "chunk_next (of_nat a) s = Inr (n, s)"
    "chunk_allocated (of_nat a) s = Inr ((if al then 1 else 0), s)"
    "len < 2147483648 \<Longrightarrow> chunk_length (of_nat a) s = Inr (of_nat len, s)"
  using assms vld32_word [of s "of_nat a"] vld32_word [of s "of_nat a + 4"] vld32_word [of s "of_nat a + 8"]
  by (auto simp: chunk_at_def chunk_prev_def chunk_next_def chunk_allocated_def chunk_length_def
      bnd_run ret_run chunk_word_bits chunk_word_bits(2) [simplified])

lemma chunk_at_same:
  assumes "\<And>x. a \<le> unat x \<Longrightarrow> unat x < a + 12 \<Longrightarrow> view t x = view s x" and "a + 12 \<le> 4294967296"
  shows "chunk_at t a p n al len = chunk_at s a p n al len"
  using word_at_nat [of a t s] word_at_nat [of "a + 4" t s] word_at_nat [of "a + 8" t s] assms
  by (simp add: chunk_at_def)

section \<open>The list\<close>

type_synonym chunks = "(bool \<times> nat) list"

definition heap_end :: "nat \<Rightarrow> chunks \<Rightarrow> nat" where
  "heap_end a cs = a + sum_list (map snd cs)"

lemma heap_end_simps [simp]:
  "heap_end a [] = a" "heap_end a (c # cs) = heap_end (a + snd c) cs"
  "heap_end a (xs @ ys) = heap_end (heap_end a xs) ys"
  by (simp_all add: heap_end_def)

lemma heap_end_ge: "a \<le> heap_end a cs"
  by (simp add: heap_end_def)

text \<open>The last chunk's \<open>next\<close> is \<open>n\<close>, the first one's \<open>prev\<close> is \<open>p\<close>.\<close>

primrec chain :: "'a vm_scheme \<Rightarrow> u32 \<Rightarrow> nat \<Rightarrow> chunks \<Rightarrow> u32 \<Rightarrow> bool" where
  "chain s p a [] n \<longleftrightarrow> True"
| "chain s p a (c # cs) n \<longleftrightarrow> 12 \<le> snd c \<and> snd c < 2147483648
     \<and> chunk_at s a p (if cs = [] then n else of_nat (a + snd c)) (fst c) (snd c)
     \<and> chain s (of_nat a) (a + snd c) cs n"

definition prev_of :: "u32 \<Rightarrow> nat \<Rightarrow> chunks \<Rightarrow> u32" where
  "prev_of p a cs = (if cs = [] then p else of_nat (heap_end a (butlast cs)))"

definition head_of :: "nat \<Rightarrow> chunks \<Rightarrow> u32 \<Rightarrow> u32" where
  "head_of a cs n = (if cs = [] then n else of_nat a)"

lemma prev_of_simps [simp]:
  "prev_of p a [] = p" "prev_of p a (c # cs) = prev_of (of_nat a) (a + snd c) cs"
  "prev_of p a (xs @ [c]) = of_nat (heap_end a xs)"
  by (simp_all add: prev_of_def)

lemma chain_append:
  "chain s p a (xs @ ys) n \<longleftrightarrow>
     chain s p a xs (head_of (heap_end a xs) ys n) \<and> chain s (prev_of p a xs) (heap_end a xs) ys n"
  by (induction xs arbitrary: p a) (auto simp: head_of_def)

lemma chain_same:
  assumes "\<And>x. a \<le> unat x \<Longrightarrow> unat x < heap_end a cs \<Longrightarrow> view t x = view s x"
    and "heap_end a cs \<le> 4294967296"
  shows "chain t p a cs n = chain s p a cs n"
  using assms
proof (induction cs arbitrary: p a)
  case (Cons c cs)
  have e: "a + snd c \<le> heap_end (a + snd c) cs" by (rule heap_end_ge)
  have "chain t q (a + snd c) cs n = chain s q (a + snd c) cs n" for q
    by (rule Cons.IH) (use Cons.prems in auto)
  moreover have "chunk_at t a p m (fst c) (snd c) = chunk_at s a p m (fst c) (snd c)" if "12 \<le> snd c" for m
    by (rule chunk_at_same) (use Cons.prems that e in auto)
  ultimately show ?case by auto
qed simp

lemma chain_length: "chain s p a cs n \<Longrightarrow> 12 * length cs + a \<le> heap_end a cs"
  by (induction cs arbitrary: p a) fastforce+

section \<open>The search\<close>

definition unfit :: "nat \<Rightarrow> bool \<times> nat \<Rightarrow> bool" where
  "unfit need c \<longleftrightarrow> fst c \<or> snd c < need"

lemma find_chunk_walk:
  assumes "chain s p a xs n" and "\<forall>c \<in> set xs. unfit need c" and "need < 4294967296"
    and "0 < a" and "heap_end a xs < 4294967296"
  shows "find_chunk (length xs + k) (of_nat need) (head_of a xs n) p s =
    find_chunk k (of_nat need) n (prev_of p a xs) s"
  using assms
proof (induction xs arbitrary: p a)
  case Nil
  then show ?case by (simp add: head_of_def)
next
  case (Cons c xs)
  let ?a = "a + snd c"
  have c: "chunk_at s a p (head_of ?a xs n) (fst c) (snd c)" "snd c < 2147483648"
    "chain s (of_nat a) ?a xs n"
    using Cons.prems(1) by (simp_all add: head_of_def)
  have "a < 4294967296" using Cons.prems(5) heap_end_ge [of ?a xs] by simp
  then have nz: "(of_nat a :: u32) \<noteq> 0" using Cons.prems(4) by (simp add: word_unat_eq_iff unat_of_nat)
  have le: "(of_nat (snd c) :: u32) \<ge> of_nat need \<longleftrightarrow> need \<le> snd c"
    using c(2) Cons.prems(3) by (simp add: word_le_nat_alt unat_of_nat)
  have ih: "find_chunk (length xs + k) (of_nat need) (head_of ?a xs n) (of_nat a) s =
    find_chunk k (of_nat need) n (prev_of (of_nat a) ?a xs) s"
    by (rule Cons.IH [OF c(3)]) (use Cons.prems in auto)
  have "unfit need c" using Cons.prems(2) by simp
  then show ?case
    using ih chunk_reads [OF c(1)] c(2) le nz
    by (auto simp: head_of_def [of a] unfit_def bnd_run ret_run)
qed

lemma find_chunk_skip:
  assumes c: "chain s p a (xs @ ys) 0" and "\<forall>c \<in> set xs. unfit need c" and "need < 4294967296"
    and "0 < a" and e: "heap_end a (xs @ ys) < 4294967296"
  shows "find_chunk (length xs + n) (of_nat need) (head_of a (xs @ ys) 0) p s =
    find_chunk n (of_nat need) (head_of (heap_end a xs) ys 0) (prev_of p a xs) s"
proof -
  have "heap_end a xs < 4294967296" using e heap_end_ge [of "heap_end a xs" ys] by simp
  moreover have "head_of a (xs @ ys) 0 = head_of a xs (head_of (heap_end a xs) ys 0)" by (simp add: head_of_def)
  ultimately show ?thesis using find_chunk_walk [of s p a xs "head_of (heap_end a xs) ys 0"] c assms(2-4)
    by (simp add: chain_append)
qed

text \<open>A chunk whose \<open>next\<close> is the chunk itself holds the search forever.\<close>

lemma find_chunk_cycle:
  assumes c: "chunk_at s a p (of_nat a) al len" "len < 2147483648" and "unfit need (al, len)"
    and "need < 4294967296" and "0 < a" and "a < 4294967296"
  shows "find_chunk k (of_nat need) (of_nat a) q s = Inl Out_of_Fuel"
proof (induction k arbitrary: q)
  case 0
  then show ?case by (simp add: fault_run)
next
  case (Suc k)
  have nz: "(of_nat a :: u32) \<noteq> 0" using assms(5,6) by (simp add: word_unat_eq_iff unat_of_nat)
  have le: "(of_nat len :: u32) \<ge> of_nat need \<longleftrightarrow> need \<le> len"
    using c(2) assms(4) by (simp add: word_le_nat_alt unat_of_nat)
  show ?case using chunk_reads [OF c(1)] c(2) assms(3) Suc.IH nz le
    by (auto simp: unfit_def bnd_run ret_run)
qed

lemma find_chunk_found:
  assumes "chain s p a ((False, len) # ys) 0" and "need \<le> len" and "0 < a" and "a < 4294967296"
    and "need < 4294967296"
  shows "find_chunk (Suc n) (of_nat need) (of_nat a) q s = Inr ((of_nat a, q), s)"
proof -
  have c: "chunk_at s a p (head_of (a + len) ys 0) False len" "len < 2147483648"
    using assms(1) by (cases ys; simp add: head_of_def)+
  have nz: "(of_nat a :: u32) \<noteq> 0" using assms(3,4) by (simp add: word_unat_eq_iff unat_of_nat)
  have le: "(of_nat need :: u32) \<le> of_nat len"
    using c(2) assms(2,5) by (simp add: word_le_nat_alt unat_of_nat)
  show ?thesis using chunk_reads [OF c(1)] c(2) le nz by (simp add: bnd_run ret_run)
qed

end
