(* ===== verification/Kernel_Kmalloc.thy ===== *)
theory Kernel_Kmalloc
  imports Kernel_Chunks
begin

text \<open>
  The kernel heap as an allocator: the invariant of the heap, what \<open>kmalloc\<close> and \<open>kfree\<close> do to it,
  and the abstract first fit that they implement.
\<close>

section \<open>The invariant\<close>

text \<open>
  The mapped part of the heap, and the first two words of the address space: the code
  stores through null pointers, which meet the identity mapping of low memory. \<open>X\<close> is any other memory in use, which the
  heap's operations leave alone.
\<close>

definition heap_area :: "u32 set \<Rightarrow> u32 \<Rightarrow> u32 set" where
  "heap_area X m = {x. 4026531840 \<le> unat x \<and> unat x < unat m} \<union> {x. unat x < 8} \<union> X"

definition beside_heap :: "u32 set \<Rightarrow> bool" where
  "beside_heap X \<longleftrightarrow> (\<forall>x \<in> X. 8 \<le> unat x \<and> (unat x < 4026531840 \<or> 4244635648 \<le> unat x))"

lemma beside_heap_empty [simp]: "beside_heap {}"
  by (simp add: beside_heap_def)

text \<open>
  \<open>L\<close> is the end of the part of the heap's range that has page tables; after \<open>init_vmm\<close> that is
  \<open>KHEAP_END\<close>, because it allocates the tables of the whole range.
\<close>

definition heap_mem :: "u32 set \<Rightarrow> nat \<Rightarrow> 'a heap_scheme \<Rightarrow> bool" where
  "heap_mem X L s \<longleftrightarrow> beside_heap X \<and> owned s (heap_area X (kheap_max s)) \<and> off (kheap_max s) = 0
     \<and> 4026531840 \<le> unat (kheap_max s) \<and> unat (kheap_max s) \<le> L
     \<and> L \<le> unat KHEAP_END \<and> 4096 dvd L
     \<and> (\<forall>x. off x = 0 \<longrightarrow> KHEAP_START \<le> x \<longrightarrow> unat x < L \<longrightarrow> mappable s x)"

definition heap_ok :: "u32 set \<Rightarrow> nat \<Rightarrow> 'a heap_scheme \<Rightarrow> chunks \<Rightarrow> bool" where
  "heap_ok X L s cs \<longleftrightarrow> heap_mem X L s \<and> kheap_first s = head_of 4026531840 cs 0
     \<and> chain s 0 4026531840 cs 0 \<and> heap_end 4026531840 cs \<le> unat (kheap_max s)"

lemma heap_fields_indep [simp]:
  "owned (s\<lparr>kheap_max := m\<rparr>) A = owned (s :: 'a heap_scheme) A"
  "owned (s\<lparr>kheap_first := m\<rparr>) A = owned s A"
  "mappable (s\<lparr>kheap_max := m\<rparr>) x = mappable s x" "mappable (s\<lparr>kheap_first := m\<rparr>) x = mappable s x"
  "view (s\<lparr>kheap_max := m\<rparr>) = view s" "view (s\<lparr>kheap_first := m\<rparr>) = view s"
  "free_pages (s\<lparr>kheap_max := m\<rparr>) = free_pages s" "free_pages (s\<lparr>kheap_first := m\<rparr>) = free_pages s"
proof -
  have tr: "translate (s\<lparr>kheap_max := m\<rparr>) = translate s" "translate (s\<lparr>kheap_first := m\<rparr>) = translate s"
    by (simp_all add: translate_def pte_at_def pte_addr_def pde_at_def fun_eq_iff)
  have pt: "pt_frames (s\<lparr>kheap_max := m\<rparr>) = pt_frames s" "pt_frames (s\<lparr>kheap_first := m\<rparr>) = pt_frames s"
    by (simp_all add: pt_frames_def pde_at_def)
  have st: "stack_frames (s\<lparr>kheap_max := m\<rparr>) = stack_frames s" "stack_frames (s\<lparr>kheap_first := m\<rparr>) = stack_frames s"
    by (simp_all add: stack_frames_def in_stack_def tr)
  show fp: "free_pages (s\<lparr>kheap_max := m\<rparr>) = free_pages s" "free_pages (s\<lparr>kheap_first := m\<rparr>) = free_pages s"
    by (simp_all add: free_pages_def stack_word_def stack_depth_def tr)
  have ok: "mm_ok (s\<lparr>kheap_max := m\<rparr>) = mm_ok s" "mm_ok (s\<lparr>kheap_first := m\<rparr>) = mm_ok s"
    by (simp_all add: mm_ok_def paging_ok_def self_mapped_def tables_ok_def self_slot_def stack_ok_def pool_ok_def
        stack_mapped_def in_stack_def tr pt st fp pde_at_def)
  show "owned (s\<lparr>kheap_max := m\<rparr>) A = owned s A" "owned (s\<lparr>kheap_first := m\<rparr>) A = owned s A"
    by (simp_all add: owned_def buffer_def ok tr pt st fp self_slot_def)
  show "mappable (s\<lparr>kheap_max := m\<rparr>) x = mappable s x" "mappable (s\<lparr>kheap_first := m\<rparr>) x = mappable s x"
    by (simp_all add: mappable_def window_def self_slot_def in_stack_def kernel_view_def tr)
  show "view (s\<lparr>kheap_max := m\<rparr>) = view s" "view (s\<lparr>kheap_first := m\<rparr>) = view s"
    by (simp_all add: view_def tr fun_eq_iff)
qed

lemma heap_limit: "heap_ok X L s cs \<Longrightarrow> L \<le> 4244635648"
  by (simp add: heap_ok_def heap_mem_def KHEAP_END_def)

lemma heap_okD:
  assumes "heap_ok X L s cs"
  shows "heap_mem X L s" "beside_heap X" "unat (kheap_max s) \<le> 4244635648"
  using assms by (simp_all add: heap_ok_def heap_mem_def KHEAP_END_def)

section \<open>What clients own\<close>

text \<open>The bytes that clients own: those of allocated chunks, behind the headers.\<close>

primrec payload :: "nat \<Rightarrow> chunks \<Rightarrow> nat set" where
  "payload a [] = {}"
| "payload a (c # cs) = (if fst c then {a + 12..<a + snd c} else {}) \<union> payload (a + snd c) cs"

lemma payload_append [simp]: "payload a (xs @ ys) = payload a xs \<union> payload (heap_end a xs) ys"
  by (induction xs arbitrary: a) auto

lemma payload_bounds: "k \<in> payload a cs \<Longrightarrow> a + 12 \<le> k \<and> k < heap_end a cs"
proof (induction cs arbitrary: a)
  case (Cons c cs)
  have "k \<in> payload (a + snd c) cs \<Longrightarrow> a + snd c + 12 \<le> k \<and> k < heap_end (a + snd c) cs" by (rule Cons.IH)
  then show ?case using Cons.prems heap_end_ge [of "a + snd c" cs] by (auto split: if_splits)
qed simp

lemma payload_below: "k \<in> payload a cs \<Longrightarrow> k < heap_end a cs"
  using payload_bounds by blast

text \<open>Blocks in use and the rest of the memory in use keep their contents.\<close>

definition kept :: "u32 set \<Rightarrow> chunks \<Rightarrow> 'a heap_scheme \<Rightarrow> 'a heap_scheme \<Rightarrow> bool" where
  "kept X cs s t \<longleftrightarrow> (\<forall>x. unat x \<in> payload 4026531840 cs \<or> x \<in> X \<longrightarrow> view t x = view s x)"

lemma kept_refl [simp]: "kept X cs s s"
  by (simp add: kept_def)

lemma keptD: "kept X cs s t \<Longrightarrow> unat x \<in> payload 4026531840 cs \<or> x \<in> X \<Longrightarrow> view t x = view s x"
  unfolding kept_def by blast

lemma kept_trans:
  assumes "kept X cs s t" and "kept X ds t u" and "payload 4026531840 cs \<subseteq> payload 4026531840 ds"
  shows "kept X cs s u"
  unfolding kept_def
proof (intro allI impI)
  fix x assume x: "unat x \<in> payload 4026531840 cs \<or> x \<in> X"
  then have "unat x \<in> payload 4026531840 ds \<or> x \<in> X" using subsetD [OF assms(3)] by blast
  then show "view u x = view s x" using keptD [OF assms(1) x] keptD [OF assms(2)] by simp
qed

text \<open>What neither lies in the headers nor below the heap's first words is kept.\<close>

lemma keptI:
  assumes "beside_heap X" and "heap_end 4026531840 cs \<le> unat (kheap_max s)" and "unat (kheap_max s) \<le> 4244635648"
    and "\<And>x. x \<in> heap_area X (kheap_max s) \<Longrightarrow> unat x \<in> payload 4026531840 cs \<or> x \<in> X \<Longrightarrow> view t x = view s x"
  shows "kept X cs s t"
  unfolding kept_def
proof (intro allI impI)
  fix x assume x: "unat x \<in> payload 4026531840 cs \<or> x \<in> X"
  show "view t x = view s x"
    by (rule assms(4)) (use x assms(2) payload_bounds [of "unat x" 4026531840 cs] in \<open>auto simp: heap_area_def\<close>)
qed

lemma beside_heapD:
  "beside_heap X \<Longrightarrow> x \<in> X \<Longrightarrow> 8 \<le> unat x \<and> (unat x < 4026531840 \<or> 4244635648 \<le> unat x)"
  by (simp add: beside_heap_def)

text \<open>A client's byte lies in no header.\<close>

lemma payload_clear:
  assumes "beside_heap X" and "unat x \<in> payload 4026531840 (xs @ (b, l) # ys) \<or> x \<in> X"
    and "heap_end 4026531840 xs + 12 \<le> 4244635648"
  shows "unat x < heap_end 4026531840 xs \<or> heap_end 4026531840 xs + 12 \<le> unat x"
  using assms(2,3) beside_heapD [OF assms(1), of x] heap_end_ge [of 4026531840 xs] payload_below [of "unat x" 4026531840 xs]
    payload_bounds [of "unat x" "heap_end 4026531840 xs + l" ys] by (auto split: if_splits)

section \<open>Growth\<close>

lemma heap_area_next:
  assumes "off m = 0" and "4026531840 \<le> unat m" and "unat m < L"
    and L: "L \<le> unat KHEAP_END" "4096 dvd L" and X: "beside_heap X"
  shows "heap_area X (m + 0x1000) = heap_area X m \<union> page_of m" and "heap_area X m \<inter> page_of m = {}"
    and "unat (m + 0x1000) = unat m + 4096" and "off (m + 0x1000) = 0" and "unat m + 4096 \<le> L"
proof -
  have f: "frame m = m" using assms(1) frame_plus_off [of m] by simp
  show u: "unat (m + 0x1000) = unat m + 4096" using assms(3) L(1) by (simp add: unat_word_ariths KHEAP_END_def)
  have p: "x \<in> page_of m \<longleftrightarrow> unat m \<le> unat x \<and> unat x < unat m + 4096" for x
    using page_range [OF assms(1), of x] f by (simp add: page_of_def)
  show "heap_area X (m + 0x1000) = heap_area X m \<union> page_of m"
    using assms(2) by (auto simp: heap_area_def p u)
  have m: "unat m mod 4096 = 0" using assms(1) unat_off [of m] by simp
  then show "off (m + 0x1000) = 0" by (simp add: word_unat_eq_iff unat_off u)
  obtain k where "unat m = 4096 * k" using m by (meson dvd_def mod_eq_0_iff_dvd)
  moreover obtain j where "L = 4096 * j" using L(2) by (rule dvdE)
  ultimately show le: "unat m + 4096 \<le> L" using assms(3) by simp
  have "x \<notin> page_of m" if "x \<in> X" for x
    using that X le L(1) assms(2) by (auto simp: beside_heap_def p KHEAP_END_def)
  then show "heap_area X m \<inter> page_of m = {}" using assms(2) by (auto simp: heap_area_def p)
qed

lemma heap_mem_step:
  assumes mem: "heap_mem X L s" and lt: "unat (kheap_max s) < L" and free: "2 \<le> length (free_pages s)"
  shows "\<exists>p u t. pmm_alloc_page s = Inr (p, u) \<and> map_page (kheap_max s) p (PAGE_PRESENT OR PAGE_WRITE) u = Inr ((), t)
    \<and> heap_mem X L (t\<lparr>kheap_max := kheap_max s + 0x1000\<rparr>) \<and> kheap_max t = kheap_max s \<and> kheap_first t = kheap_first s
    \<and> length (free_pages s) \<le> length (free_pages t) + 2
    \<and> (\<forall>x \<in> heap_area X (kheap_max s). view t x = view s x)"
proof -
  let ?m = "kheap_max s"
  have own: "owned s (heap_area X ?m)" and m: "off ?m = 0" "4026531840 \<le> unat ?m"
    and L: "L \<le> unat KHEAP_END" "4096 dvd L" "beside_heap X"
    and all: "\<forall>x. off x = 0 \<longrightarrow> KHEAP_START \<le> x \<longrightarrow> unat x < L \<longrightarrow> mappable s x"
    using mem by (simp_all add: heap_mem_def)
  note nx = heap_area_next [OF m lt L]
  have "mappable s ?m"
    using all m lt by (simp add: KHEAP_START_def word_le_nat_alt)
  moreover have "frame (PAGE_PRESENT OR PAGE_WRITE) = 0"
    by (simp add: PAGE_PRESENT_def PAGE_WRITE_def PAGE_ADDR_MASK_def)
  ultimately obtain p u t where t: "pmm_alloc_page s = Inr (p, u)"
    "map_page ?m p (PAGE_PRESENT OR PAGE_WRITE) u = Inr ((), t)"
    "owned t (heap_area X ?m \<union> page_of ?m)" "grows s t" "length (free_pages s) \<le> length (free_pages t) + 2"
    "\<forall>x \<in> heap_area X ?m. view t x = view s x"
    using owned_map [OF own _ _ free nx(2)] by blast
  have g: "t = s\<lparr>pmm_stack_loc := pmm_stack_loc t, ram := ram t, klog := klog t\<rparr>"
    using t(4) unfolding grows_def by blast
  have f: "kheap_max t = ?m" "kheap_first t = kheap_first s" by (subst g, simp)+
  have "heap_mem X L (t\<lparr>kheap_max := ?m + 0x1000\<rparr>)"
    using t(3) nx(1,3-5) m L all grows_mappable [OF t(4)] by (simp add: heap_mem_def)
  with t f show ?thesis by blast
qed

definition pages_for :: "nat \<Rightarrow> u32 \<Rightarrow> nat" where
  "pages_for limit m = (limit + 4095 - unat m) div 4096"

lemma alloc_chunk_loop_spec:
  assumes "heap_mem X L s" and "unat limit \<le> L"
    and "2 * pages_for (unat limit) (kheap_max s) \<le> length (free_pages s)"
    and "pages_for (unat limit) (kheap_max s) < n"
  shows "\<exists>t. alloc_chunk_loop n limit s = Inr ((), t) \<and> heap_mem X L t \<and> unat limit \<le> unat (kheap_max t)
    \<and> unat (kheap_max s) \<le> unat (kheap_max t) \<and> kheap_first t = kheap_first s
    \<and> length (free_pages s) \<le> length (free_pages t) + 2 * pages_for (unat limit) (kheap_max s)
    \<and> (\<forall>x \<in> heap_area X (kheap_max s). view t x = view s x)"
  using assms
proof (induction n arbitrary: s)
  case 0
  then show ?case by simp
next
  case (Suc n)
  let ?m = "kheap_max s"
  show ?case
  proof (cases "limit > ?m")
    case False
    then show ?thesis using Suc.prems(1) by (simp add: bnd_run gets_run skip_run word_less_nat_alt)
  next
    case True
    then have lt: "unat ?m < unat limit" by (simp add: word_less_nat_alt)
    have m: "off ?m = 0" "4026531840 \<le> unat ?m" and L: "L \<le> unat KHEAP_END" "4096 dvd L" "beside_heap X"
      using Suc.prems(1) by (simp_all add: heap_mem_def)
    have lt': "unat ?m < L" using lt Suc.prems(2) by linarith
    note nx = heap_area_next [OF m lt' L]
    have pages: "pages_for (unat limit) ?m = Suc (pages_for (unat limit) (?m + 0x1000))"
    proof -
      obtain d where "unat limit = Suc (unat ?m + d)" using less_imp_Suc_add [OF lt] by blast
      then show ?thesis by (simp add: pages_for_def nx(3))
    qed
    have "2 \<le> length (free_pages s)" using Suc.prems(3) pages by simp
    then obtain p u t where t: "pmm_alloc_page s = Inr (p, u)"
      "map_page ?m p (PAGE_PRESENT OR PAGE_WRITE) u = Inr ((), t)"
      "heap_mem X L (t\<lparr>kheap_max := ?m + 0x1000\<rparr>)" "kheap_max t = ?m" "kheap_first t = kheap_first s"
      "length (free_pages s) \<le> length (free_pages t) + 2" "\<forall>x \<in> heap_area X ?m. view t x = view s x"
      using heap_mem_step [OF Suc.prems(1) lt'] by blast
    let ?t = "t\<lparr>kheap_max := ?m + 0x1000\<rparr>"
    obtain r where r: "alloc_chunk_loop n limit ?t = Inr ((), r)" "heap_mem X L r" "unat limit \<le> unat (kheap_max r)"
      "unat (kheap_max ?t) \<le> unat (kheap_max r)" "kheap_first r = kheap_first ?t"
      "length (free_pages ?t) \<le> length (free_pages r) + 2 * pages_for (unat limit) (?m + 0x1000)"
      "\<forall>x \<in> heap_area X (kheap_max ?t). view r x = view ?t x"
      using Suc.IH [OF t(3) Suc.prems(2)] Suc.prems(3,4) t(6) pages by auto
    have "alloc_chunk_loop (Suc n) limit s = Inr ((), r)"
      using True t(1,2,4) r(1) by (simp add: bnd_run gets_run upd_run)
    moreover have "\<forall>x \<in> heap_area X ?m. view r x = view s x" using r(7) t(7) nx(1) by simp
    moreover have "length (free_pages s) \<le> length (free_pages r) + 2 * pages_for (unat limit) ?m"
      using r(6) t(6) pages by simp
    ultimately show ?thesis using r(2-5) t(5) nx(3) by auto
  qed
qed

lemma stores_heap:
  "stores s t \<Longrightarrow> kheap_max t = kheap_max s" "stores s t \<Longrightarrow> kheap_first t = kheap_first s"
proof -
  assume "stores s t"
  then have t: "t = s\<lparr>ram := ram t\<rparr>" by (simp add: stores_def)
  show "kheap_max t = kheap_max s" "kheap_first t = kheap_first s" by (subst t, simp)+
qed

lemma heap_mem_stores:
  "heap_mem X L s \<Longrightarrow> stores s t \<Longrightarrow> owned t (heap_area X (kheap_max s)) \<Longrightarrow> heap_mem X L t"
  by (simp add: heap_mem_def stores_heap stores_mappable)

section \<open>Headers\<close>

lemma store_at:
  assumes own: "owned s A" and A: "\<And>x. b \<le> unat x \<Longrightarrow> unat x < b + 4 \<Longrightarrow> x \<in> A" and b: "b + 4 \<le> 4294967296"
  shows "\<exists>t. vst32 (of_nat b) v s = Inr ((), t) \<and> owned t A \<and> stores s t \<and> word_at t (of_nat b) v
    \<and> (\<forall>x \<in> A. unat x < b \<or> b + 4 \<le> unat x \<longrightarrow> view t x = view s x)"
proof -
  have "run_of (of_nat b) 4 \<subseteq> A" using A run_of_nat [OF b] by blast
  moreover have "x \<in> A - run_of (of_nat b) 4" if "x \<in> A" "unat x < b \<or> b + 4 \<le> unat x" for x
    using that run_of_nat [OF b, of x] by auto
  ultimately show ?thesis using owned_store [OF own, of "of_nat b" v] by blast
qed

lemma word_some:
  assumes "owned s A" and "\<And>x. b \<le> unat x \<Longrightarrow> unat x < b + 4 \<Longrightarrow> x \<in> A" and "b + 4 \<le> 4294967296"
  shows "\<exists>v. word_at s (of_nat b) v"
proof (rule owned_word [OF assms(1)])
  show "run_of (of_nat b) 4 \<subseteq> A" using assms(2) run_of_nat [OF assms(3)] by blast
qed

lemma write_header:
  assumes own: "owned s A" and A: "\<And>x. a \<le> unat x \<Longrightarrow> unat x < a + 12 \<Longrightarrow> x \<in> A" and a: "a + 12 \<le> 4294967296"
  shows "\<exists>t. bnd (set_prev (of_nat a) p) (\<lambda>_. bnd (set_next (of_nat a) n) (\<lambda>_. bnd (set_allocated (of_nat a) 1) (\<lambda>_.
      set_length (of_nat a) (of_nat len)))) s = Inr ((), t)
    \<and> owned t A \<and> stores s t \<and> chunk_at t a p n True len
    \<and> (\<forall>x \<in> A. unat x < a \<or> a + 12 \<le> unat x \<longrightarrow> view t x = view s x)"
proof -
  have A4: "x \<in> A" if "a \<le> unat x" "unat x < a + 12" for x using A that by simp
  obtain t1 where t1: "vst32 (of_nat a) p s = Inr ((), t1)" "owned t1 A" "stores s t1"
    "word_at t1 (of_nat a) p"
    "\<forall>x \<in> A. unat x < a \<or> a + 4 \<le> unat x \<longrightarrow> view t1 x = view s x"
    using store_at [OF own, of a p] A4 a by auto
  obtain t2 where t2: "vst32 (of_nat a + 4) n t1 = Inr ((), t2)" "owned t2 A" "stores t1 t2"
    "word_at t2 (of_nat a + 4) n"
    "\<forall>x \<in> A. unat x < a + 4 \<or> a + 8 \<le> unat x \<longrightarrow> view t2 x = view t1 x"
    using store_at [OF t1(2), of "a + 4" n] A4 a by auto
  obtain w where w: "word_at t2 (of_nat a + 8) w" using word_some [OF t2(2), of "a + 8"] A4 a by auto
  let ?w = "w AND NOT 1 OR 1"
  obtain t3 where t3: "vst32 (of_nat a + 8) ?w t2 = Inr ((), t3)" "owned t3 A" "stores t2 t3"
    "word_at t3 (of_nat a + 8) ?w"
    "\<forall>x \<in> A. unat x < a + 8 \<or> a + 12 \<le> unat x \<longrightarrow> view t3 x = view t2 x"
    using store_at [OF t2(2), of "a + 8" ?w] A4 a by auto
  have "?w AND 1 = 1" by (rule bit_word_eqI) (auto simp: bit_simps)
  then have v: "?w AND 1 OR push_bit 1 (of_nat len) = chunk_word True len" by (intro chunk_word_bits(4)) simp
  obtain t where t: "vst32 (of_nat a + 8) (chunk_word True len) t3 = Inr ((), t)" "owned t A" "stores t3 t"
    "word_at t (of_nat a + 8) (chunk_word True len)"
    "\<forall>x \<in> A. unat x < a + 8 \<or> a + 12 \<le> unat x \<longrightarrow> view t x = view t3 x"
    using store_at [OF t3(2), of "a + 8" "chunk_word True len"] A4 a by auto
  have w1: "word_at t (of_nat a) p"
  proof -
    have "word_at t (of_nat a) p = word_at t1 (of_nat a) p"
      by (rule word_at_nat) (use t(5) t3(5) t2(5) A4 a in auto)
    then show ?thesis using t1(4) by simp
  qed
  have w2: "word_at t (of_nat a + 4) n"
  proof -
    have "word_at t (of_nat (a + 4)) n = word_at t2 (of_nat (a + 4)) n"
      by (rule word_at_nat) (use t(5) t3(5) A4 a in auto)
    then show ?thesis using t2(4) by simp
  qed
  have "\<forall>x \<in> A. unat x < a \<or> a + 12 \<le> unat x \<longrightarrow> view t x = view s x"
    using t(5) t3(5) t2(5) t1(5) by auto
  moreover have "stores s t" by (rule stores_trans [OF stores_trans [OF stores_trans [OF t1(3) t2(3)] t3(3)] t(3)])
  moreover have "set_prev (of_nat a) p s = Inr ((), t1)" "set_next (of_nat a) n t1 = Inr ((), t2)"
    "set_allocated (of_nat a) 1 t2 = Inr ((), t3)" "set_length (of_nat a) (of_nat len) t3 = Inr ((), t)"
    using t1(1) t2(1) t3(1) t(1) vld32_word [OF w] vld32_word [OF t3(4)] v
    by (simp_all add: set_prev_def set_next_def set_allocated_def set_length_def bnd_run)
  ultimately show ?thesis using t(2,4) w1 w2
    by (intro exI [of _ t]) (simp add: bnd_run chunk_at_def)
qed

text \<open>One field of a header changes; the others stay.\<close>

lemma header_field:
  assumes own: "owned s A" and A: "\<And>x. a \<le> unat x \<Longrightarrow> unat x < a + 12 \<Longrightarrow> x \<in> A" and a: "a + 12 \<le> 4294967296"
    and c: "chunk_at s a p n al len" and k: "k = 0 \<or> k = 4 \<or> k = 8"
  shows "\<exists>t. vst32 (of_nat a + of_nat k) v s = Inr ((), t) \<and> owned t A \<and> stores s t
    \<and> word_at t (of_nat a) (if k = 0 then v else p) \<and> word_at t (of_nat a + 4) (if k = 4 then v else n)
    \<and> word_at t (of_nat a + 8) (if k = 8 then v else chunk_word al len)
    \<and> (\<forall>x \<in> A. unat x < a + k \<or> a + k + 4 \<le> unat x \<longrightarrow> view t x = view s x)"
proof -
  have b: "a + k + 4 \<le> 4294967296" "\<And>x. a + k \<le> unat x \<Longrightarrow> unat x < a + k + 4 \<Longrightarrow> x \<in> A"
    using a k A by auto
  obtain t where t: "vst32 (of_nat (a + k)) v s = Inr ((), t)" "owned t A" "stores s t"
    "word_at t (of_nat (a + k)) v"
    "\<forall>x \<in> A. unat x < a + k \<or> a + k + 4 \<le> unat x \<longrightarrow> view t x = view s x"
    using store_at [OF own b(2,1), of v] by blast
  have other: "word_at t (of_nat (a + j)) w = word_at s (of_nat (a + j)) w" if "j = 0 \<or> j = 4 \<or> j = 8" "j \<noteq> k" for j w
    by (rule word_at_nat) (use that k t(5) A a in auto)
  have "word_at t (of_nat a) (if k = 0 then v else p)" using t(4) other [of 0 p] c by (auto simp: chunk_at_def)
  moreover have "word_at t (of_nat a + 4) (if k = 4 then v else n)" using t(4) other [of 4 n] c by (auto simp: chunk_at_def)
  moreover have "word_at t (of_nat a + 8) (if k = 8 then v else chunk_word al len)"
    using t(4) other [of 8 "chunk_word al len"] c by (auto simp: chunk_at_def)
  ultimately show ?thesis using t by (intro exI [of _ t]) simp
qed

lemma set_prev_at:
  assumes "owned s A" and "\<And>x. a \<le> unat x \<Longrightarrow> unat x < a + 12 \<Longrightarrow> x \<in> A" and "a + 12 \<le> 4294967296"
    and "chunk_at s a p n al len"
  shows "\<exists>t. set_prev (of_nat a) m s = Inr ((), t) \<and> owned t A \<and> stores s t \<and> chunk_at t a m n al len
    \<and> (\<forall>x \<in> A. unat x < a \<or> a + 4 \<le> unat x \<longrightarrow> view t x = view s x)"
  using header_field [OF assms, of 0 m] by (auto simp: set_prev_def chunk_at_def)

lemma set_next_at:
  assumes "owned s A" and "\<And>x. a \<le> unat x \<Longrightarrow> unat x < a + 12 \<Longrightarrow> x \<in> A" and "a + 12 \<le> 4294967296"
    and "chunk_at s a p n al len"
  shows "\<exists>t. set_next (of_nat a) m s = Inr ((), t) \<and> owned t A \<and> stores s t \<and> chunk_at t a p m al len
    \<and> (\<forall>x \<in> A. unat x < a + 4 \<or> a + 8 \<le> unat x \<longrightarrow> view t x = view s x)"
  using header_field [OF assms, of 4 m] by (auto simp: set_next_def chunk_at_def)

lemma set_allocated_at:
  assumes "owned s A" and "\<And>x. a \<le> unat x \<Longrightarrow> unat x < a + 12 \<Longrightarrow> x \<in> A" and "a + 12 \<le> 4294967296"
    and c: "chunk_at s a p n al len"
  shows "\<exists>t. set_allocated (of_nat a) (if b then 1 else 0) s = Inr ((), t) \<and> owned t A \<and> stores s t
    \<and> chunk_at t a p n b len
    \<and> (\<forall>x \<in> A. unat x < a + 8 \<or> a + 12 \<le> unat x \<longrightarrow> view t x = view s x)"
proof -
  have w: "word_at s (of_nat a + 8) (chunk_word al len)" using c by (simp add: chunk_at_def)
  have "chunk_word al len AND NOT 1 OR (if b then 1 else 0) AND 1 = chunk_word b len"
    using chunk_word_bits(3) [of al len b] by (cases b) simp_all
  then show ?thesis
    using header_field [OF assms, of 8 "chunk_word b len"] vld32_word [OF w]
    by (auto simp: set_allocated_def chunk_at_def bnd_run)
qed

lemma set_length_at:
  assumes "owned s A" and "\<And>x. a \<le> unat x \<Longrightarrow> unat x < a + 12 \<Longrightarrow> x \<in> A" and "a + 12 \<le> 4294967296"
    and c: "chunk_at s a p n al len"
  shows "\<exists>t. set_length (of_nat a) (of_nat m) s = Inr ((), t) \<and> owned t A \<and> stores s t
    \<and> chunk_at t a p n al m
    \<and> (\<forall>x \<in> A. unat x < a + 8 \<or> a + 12 \<le> unat x \<longrightarrow> view t x = view s x)"
proof -
  have w: "word_at s (of_nat a + 8) (chunk_word al len)" using c by (simp add: chunk_at_def)
  have "chunk_word al len AND 1 OR push_bit 1 (of_nat m) = chunk_word al m"
    using chunk_word_bits(4) [OF chunk_word_bits(1)] by blast
  then show ?thesis
    using header_field [OF assms, of 8 "chunk_word al m"] vld32_word [OF w]
    by (auto simp: set_length_def chunk_at_def bnd_run)
qed

section \<open>A chunk behind the last one\<close>

lemma heap_area_in:
  assumes "4026531840 \<le> a" and "b \<le> unat m"
  shows "a \<le> unat x \<Longrightarrow> unat x < b \<Longrightarrow> x \<in> heap_area X m"
  using assms by (simp add: heap_area_def)

text \<open>The last chunk of a list, or the null pointer, gets a new \<open>next\<close>.\<close>

lemma link_last:
  assumes own: "owned s (heap_area X m)" and c: "chain s 0 4026531840 cs n" and e: "heap_end 4026531840 cs \<le> unat m"
  shows "\<exists>t. set_next (prev_of 0 4026531840 cs) v s = Inr ((), t) \<and> owned t (heap_area X m) \<and> stores s t
    \<and> chain t 0 4026531840 cs v
    \<and> (\<forall>x \<in> heap_area X m. heap_end 4026531840 cs \<le> unat x \<longrightarrow> view t x = view s x)
    \<and> (\<forall>xs c. cs = xs @ [c] \<longrightarrow> (\<forall>x \<in> heap_area X m. unat x < heap_end 4026531840 xs + 4
          \<or> heap_end 4026531840 xs + 8 \<le> unat x \<longrightarrow> view t x = view s x))
    \<and> (cs = [] \<longrightarrow> (\<forall>x \<in> heap_area X m. 8 \<le> unat x \<longrightarrow> view t x = view s x))"
proof (cases cs rule: rev_cases)
  case Nil
  have "x \<in> heap_area X m" if "4 \<le> unat x" "unat x < 8" for x using that by (simp add: heap_area_def)
  then obtain t where t: "vst32 (of_nat 4) v s = Inr ((), t)" "owned t (heap_area X m)" "stores s t"
    "\<forall>x \<in> heap_area X m. unat x < 4 \<or> 8 \<le> unat x \<longrightarrow> view t x = view s x"
    using store_at [OF own, of 4 v] by auto
  then show ?thesis using Nil by (intro exI [of _ t]) (auto simp: set_next_def)
next
  case (snoc xs c)
  let ?a = "heap_end 4026531840 xs"
  have x: "chain s 0 4026531840 xs (of_nat ?a)" "chunk_at s ?a (prev_of 0 4026531840 xs) n (fst c) (snd c)"
    "12 \<le> snd c" "snd c < 2147483648"
    using c by (auto simp: snoc chain_append head_of_def)
  have ge: "4026531840 \<le> ?a" by (rule heap_end_ge)
  have le: "?a + snd c \<le> unat m" using e by (simp add: snoc)
  have lim: "?a + 12 \<le> 4294967296" using le x(3) unat_u32_less [of m] by linarith
  have A: "y \<in> heap_area X m" if "?a \<le> unat y" "unat y < ?a + 12" for y
    by (rule heap_area_in [OF ge le]) (use that x(3) in auto)
  obtain t where t: "set_next (of_nat ?a) v s = Inr ((), t)" "owned t (heap_area X m)" "stores s t"
    "chunk_at t ?a (prev_of 0 4026531840 xs) v (fst c) (snd c)"
    "\<forall>x \<in> heap_area X m. unat x < ?a + 4 \<or> ?a + 8 \<le> unat x \<longrightarrow> view t x = view s x"
    using set_next_at [OF own A lim x(2), of v] by blast
  have "chain t 0 4026531840 xs (of_nat ?a) = chain s 0 4026531840 xs (of_nat ?a)"
    by (rule chain_same) (use t(5) heap_area_in [OF _ order_refl] le lim in \<open>auto simp: heap_area_def\<close>)
  then have "chain t 0 4026531840 cs v" using x t(4) by (simp add: snoc chain_append head_of_def)
  moreover have "\<forall>x \<in> heap_area X m. heap_end 4026531840 cs \<le> unat x \<longrightarrow> view t x = view s x"
    using t(5) x(3) by (auto simp: snoc)
  ultimately show ?thesis using t by (intro exI [of _ t]) (auto simp: snoc)
qed

text \<open>The start of the new chunk; the first chunk sets \<open>kheap_first\<close>.\<close>

definition chunk_start :: "u32 \<Rightarrow> ('a heap_scheme, u32) cmd" where
  "chunk_start p = bnd (if p \<noteq> 0 then bnd (chunk_length p) (\<lambda>l. ret (p + l))
     else bnd (upd (\<lambda>s. s\<lparr>kheap_first := KHEAP_START\<rparr>)) (\<lambda>_. ret KHEAP_START)) ret"

definition started :: "chunks \<Rightarrow> 'a heap_scheme \<Rightarrow> 'a heap_scheme" where
  "started cs s = (if cs = [] then s\<lparr>kheap_first := KHEAP_START\<rparr> else s)"

lemma append_chunk_parts:
  "append_chunk n p = bnd (chunk_start p) (\<lambda>a. bnd (alloc_chunk a n) (\<lambda>_.
     bnd (bnd (set_prev a p) (\<lambda>_. bnd (set_next a 0) (\<lambda>_. bnd (set_allocated a 1) (\<lambda>_. set_length a n)))) (\<lambda>_.
     bnd (set_next p a) (\<lambda>_. ret (a + sizeof_kheader)))))"
  by (simp add: append_chunk_def chunk_start_def bnd_assoc bnd_ret)

lemma chunk_start_run:
  assumes ok: "heap_ok X L s cs"
  shows "chunk_start (prev_of 0 4026531840 cs) s = Inr (of_nat (heap_end 4026531840 cs), started cs s)"
    and "heap_mem X L (started cs s)" "kheap_max (started cs s) = kheap_max s" "view (started cs s) = view s"
    "free_pages (started cs s) = free_pages s" "kheap_first (started cs s) = KHEAP_START"
proof -
  let ?K = "4026531840"
  have mem: "heap_mem X L s" and first: "kheap_first s = head_of ?K cs 0" and ch: "chain s 0 ?K cs 0"
    and fits: "heap_end ?K cs \<le> unat (kheap_max s)" using ok by (simp_all add: heap_ok_def)
  show "heap_mem X L (started cs s)" "kheap_max (started cs s) = kheap_max s" "view (started cs s) = view s"
    "free_pages (started cs s) = free_pages s" "kheap_first (started cs s) = KHEAP_START"
    using mem first by (auto simp: started_def heap_mem_def KHEAP_START_def head_of_def)
  show "chunk_start (prev_of 0 ?K cs) s = Inr (of_nat (heap_end ?K cs), started cs s)"
  proof (cases cs rule: rev_cases)
    case Nil
    then show ?thesis by (simp add: started_def chunk_start_def bnd_run upd_run ret_run KHEAP_START_def)
  next
    case (snoc xs c)
    let ?a = "heap_end ?K xs"
    have c: "chunk_at s ?a (prev_of 0 ?K xs) 0 (fst c) (snd c)" "snd c < 2147483648"
      using ch by (auto simp: snoc chain_append head_of_def)
    have "?K \<le> ?a" "?a < 4294967296"
      using heap_end_ge fits unat_u32_less [of "kheap_max s"] by (auto simp: snoc)
    then have "(of_nat ?a :: u32) \<noteq> 0" by (simp add: word_unat_eq_iff unat_of_nat)
    then show ?thesis using chunk_reads(4) [OF c] by (simp add: snoc started_def chunk_start_def bnd_run ret_run)
  qed
qed

lemma alloc_chunk_run:
  assumes mem: "heap_mem X L s" and e: "4026531840 \<le> e" "e + need \<le> L"
    and pages: "2 * pages_for (e + need) (kheap_max s) \<le> length (free_pages s)"
  shows "\<exists>t. alloc_chunk (of_nat e) (of_nat need) s = Inr ((), t) \<and> heap_mem X L t \<and> e + need \<le> unat (kheap_max t)
    \<and> unat (kheap_max s) \<le> unat (kheap_max t) \<and> kheap_first t = kheap_first s
    \<and> length (free_pages s) \<le> length (free_pages t) + 2 * pages_for (e + need) (kheap_max s)
    \<and> (\<forall>x \<in> heap_area X (kheap_max s). view t x = view s x)"
proof -
  let ?e = "of_nat e :: u32" and ?n = "of_nat need :: u32"
  have L: "e + need \<le> 4244635648" using e(2) mem by (simp add: heap_mem_def KHEAP_END_def)
  have ue: "unat ?e = e" and un: "unat ?n = need" using L by (simp_all add: unat_of_nat)
  have ul: "unat (?e + ?n) = e + need" using L ue un by (simp add: unat_word_ariths)
  have "unat (KHEAP_END - ?e) = 4244635648 - e"
    using ue L by (simp add: KHEAP_END_def unat_sub word_le_nat_alt)
  then have "\<not> KHEAP_END - ?e < ?n" using un L by (simp add: word_less_nat_alt)
  moreover have "pages_for (e + need) (kheap_max s) < page_fuel"
    using L by (simp add: pages_for_def page_fuel_def)
  ultimately show ?thesis
    using alloc_chunk_loop_spec [OF mem, of "?e + ?n" page_fuel] pages e(2) unfolding ul alloc_chunk_def by simp
qed

lemma append_chunk_run:
  assumes ok: "heap_ok X L s cs" and need: "12 \<le> need"
    and room: "heap_end 4026531840 cs + need \<le> L"
    and pages: "2 * pages_for (heap_end 4026531840 cs + need) (kheap_max s) \<le> length (free_pages s)"
  shows "\<exists>t. append_chunk (of_nat need) (prev_of 0 4026531840 cs) s =
      Inr (of_nat (heap_end 4026531840 cs + 12), t) \<and> heap_ok X L t (cs @ [(True, need)]) \<and> kept X cs s t
    \<and> length (free_pages s) \<le> length (free_pages t) + 2 * pages_for (heap_end 4026531840 cs + need) (kheap_max s)
    \<and> unat (kheap_max s) \<le> unat (kheap_max t)"
proof -
  let ?K = "4026531840" and ?n = "of_nat need :: u32"
  let ?e = "heap_end ?K cs"
  let ?p = "prev_of 0 ?K cs" and ?a = "of_nat ?e :: u32"
  have ch: "chain s 0 ?K cs 0" and fits: "?e \<le> unat (kheap_max s)" using ok by (simp_all add: heap_ok_def)
  note mem = heap_okD [OF ok]
  have ge: "?K \<le> ?e" by (rule heap_end_ge)
  note s1 = chunk_start_run [OF ok]
  obtain t1 where t1: "alloc_chunk ?a ?n (started cs s) = Inr ((), t1)" "heap_mem X L t1"
    "?e + need \<le> unat (kheap_max t1)" "unat (kheap_max s) \<le> unat (kheap_max t1)"
    "kheap_first t1 = KHEAP_START"
    "length (free_pages s) \<le> length (free_pages t1) + 2 * pages_for (?e + need) (kheap_max s)"
    "\<forall>x \<in> heap_area X (kheap_max s). view t1 x = view s x"
    using alloc_chunk_run [OF s1(2) ge room] pages unfolding s1(3-6) by blast
  have own1: "owned t1 (heap_area X (kheap_max t1))" using t1(2) by (simp add: heap_mem_def)
  have lim: "?e + 12 \<le> 4294967296" using room need heap_limit [OF ok] by linarith
  have A: "x \<in> heap_area X (kheap_max t1)" if "?e \<le> unat x" "unat x < ?e + 12" for x
    by (rule heap_area_in [OF ge t1(3)]) (use that need in auto)
  obtain t2 where t2: "bnd (set_prev (of_nat ?e) (prev_of 0 ?K cs)) (\<lambda>_. bnd (set_next (of_nat ?e) 0) (\<lambda>_.
      bnd (set_allocated (of_nat ?e) 1) (\<lambda>_. set_length (of_nat ?e) ?n))) t1 = Inr ((), t2)"
    "owned t2 (heap_area X (kheap_max t1))" "stores t1 t2" "chunk_at t2 ?e (prev_of 0 ?K cs) 0 True need"
    "\<forall>x \<in> heap_area X (kheap_max t1). unat x < ?e \<or> ?e + 12 \<le> unat x \<longrightarrow> view t2 x = view t1 x"
    using write_header [OF own1 A lim] by blast
  have old: "view t2 x = view s x" if "?K \<le> unat x" "unat x < ?e" for x
  proof -
    have "x \<in> heap_area X (kheap_max s)" "x \<in> heap_area X (kheap_max t1)"
      using that fits t1(4) by (auto simp: heap_area_def)
    then show ?thesis using t2(5) t1(7) that by simp
  qed
  have "chain t2 0 ?K cs 0 = chain s 0 ?K cs 0" by (rule chain_same) (use old lim in auto)
  then have ch2: "chain t2 0 ?K cs 0" using ch by simp
  have f1: "?e \<le> unat (kheap_max t1)" using t1(3) by linarith
  obtain t where t: "set_next (prev_of 0 ?K cs) (of_nat ?e) t2 = Inr ((), t)" "owned t (heap_area X (kheap_max t1))"
    "stores t2 t" "chain t 0 ?K cs (of_nat ?e)"
    "\<forall>x \<in> heap_area X (kheap_max t1). ?e \<le> unat x \<longrightarrow> view t x = view t2 x"
    "\<forall>xs c. cs = xs @ [c] \<longrightarrow> (\<forall>x \<in> heap_area X (kheap_max t1). unat x < heap_end ?K xs + 4
        \<or> heap_end ?K xs + 8 \<le> unat x \<longrightarrow> view t x = view t2 x)"
    "cs = [] \<longrightarrow> (\<forall>x \<in> heap_area X (kheap_max t1). 8 \<le> unat x \<longrightarrow> view t x = view t2 x)"
    using link_last [OF t2(2) ch2 f1, of "of_nat ?e"] by blast
  have "chunk_at t ?e (prev_of 0 ?K cs) 0 True need = chunk_at t2 ?e (prev_of 0 ?K cs) 0 True need"
    by (rule chunk_at_same) (use t(5) A lim in auto)
  then have last: "chunk_at t ?e (prev_of 0 ?K cs) 0 True need" using t2(4) by simp
  have st: "stores t1 t" by (rule stores_trans [OF t2(3) t(3)])
  have "heap_mem X L t" by (rule heap_mem_stores [OF t1(2) st t(2)])
  moreover have "chain t 0 ?K (cs @ [(True, need)]) 0"
    using t(4) last need room heap_limit [OF ok] ge by (simp add: chain_append head_of_def)
  ultimately have "heap_ok X L t (cs @ [(True, need)])"
    using t1(3,5) by (simp add: heap_ok_def stores_heap [OF st] head_of_def KHEAP_START_def)
  moreover have "append_chunk ?n (prev_of 0 ?K cs) s = Inr (of_nat ?e + 12, t)"
  proof -
    let ?h = "bnd (set_prev ?a ?p) (\<lambda>_. bnd (set_next ?a 0) (\<lambda>_. bnd (set_allocated ?a 1) (\<lambda>_. set_length ?a ?n)))"
    let ?r = "bnd (set_next ?p ?a) (\<lambda>_. ret (?a + sizeof_kheader))"
    have "append_chunk ?n ?p s = bnd (alloc_chunk ?a ?n) (\<lambda>_. bnd ?h (\<lambda>_. ?r)) (started cs s)"
      unfolding append_chunk_parts by (rule bnd_ok) (rule s1(1))
    also have "\<dots> = bnd ?h (\<lambda>_. ?r) t1" by (rule bnd_ok) (rule t1(1))
    also have "\<dots> = ?r t2" by (rule bnd_ok) (rule t2(1))
    also have "\<dots> = ret (?a + sizeof_kheader) t" by (rule bnd_ok) (rule t(1))
    finally show ?thesis by (simp add: ret_run sizeof_kheader_def)
  qed
  moreover have "kept X cs s t"
  proof (rule keptI [OF mem(2) fits mem(3)])
    fix x assume x: "x \<in> heap_area X (kheap_max s)" "unat x \<in> payload ?K cs \<or> x \<in> X"
    have x1: "x \<in> heap_area X (kheap_max t1)" using x(1) t1(4) by (auto simp: heap_area_def)
    have e: "unat x < ?e \<or> ?e + 12 \<le> unat x" and low: "8 \<le> unat x"
      using x(2) payload_bounds [of "unat x" ?K cs] beside_heapD [OF mem(2), of x] room need heap_limit [OF ok] ge by auto
    have "view t x = view t2 x"
    proof (cases cs rule: rev_cases)
      case Nil
      then show ?thesis using t(7) x1 low by simp
    next
      case (snoc xs c)
      have "?K \<le> heap_end ?K xs" "heap_end ?K xs + 12 \<le> 4244635648"
        using heap_end_ge [of ?K xs] ch room heap_limit [OF ok] by (auto simp: snoc chain_append)
      then have "unat x < heap_end ?K xs \<or> heap_end ?K xs + 12 \<le> unat x"
        using payload_clear [OF mem(2), of x xs "fst c" "snd c" "[]"] x(2) snoc by simp
      then have "unat x < heap_end ?K xs + 4 \<or> heap_end ?K xs + 8 \<le> unat x" by linarith
      then show ?thesis using t(6) snoc x1 by blast
    qed
    then show "view t x = view s x" using t2(5) t1(7) x(1) x1 e by simp
  qed
  moreover have "free_pages t = free_pages t1" using st by (simp add: stores_def)
  moreover have "unat (kheap_max s) \<le> unat (kheap_max t)" using t1(4) by (simp add: stores_heap [OF st])
  ultimately show ?thesis using t1(6) by (intro exI [of _ t]) auto
qed

section \<open>First fit\<close>

text \<open>
  The abstract allocator: the first free chunk that is large enough is used as it is; without
  one a chunk of the wanted size is appended. The result is the address of the chunk, with the new list.
\<close>

primrec first_fit :: "nat \<Rightarrow> nat \<Rightarrow> chunks \<Rightarrow> nat \<times> chunks" where
  "first_fit need a [] = (a, [(True, need)])"
| "first_fit need a (c # cs) =
     (if unfit need c then (case first_fit need (a + snd c) cs of (r, ds) \<Rightarrow> (r, c # ds))
      else (a, (True, snd c) # cs))"

definition fitting :: "nat \<Rightarrow> chunks \<Rightarrow> (bool \<times> nat) option" where
  "fitting need cs = List.find (\<lambda>c. \<not> unfit need c) cs"

lemma first_fit_skip: "\<forall>c \<in> set xs. unfit need c \<Longrightarrow>
    first_fit need a (xs @ ys) = (case first_fit need (heap_end a xs) ys of (r, ds) \<Rightarrow> (r, xs @ ds))"
  by (induction xs arbitrary: a) (auto split: prod.splits)

lemma fitting_cases:
  obtains (none) "fitting need cs = None" "\<forall>c \<in> set cs. unfit need c"
      "first_fit need a cs = (heap_end a cs, cs @ [(True, need)])"
    | (some) xs l ys where "cs = xs @ (False, l) # ys" "fitting need cs = Some (False, l)"
      "\<forall>c \<in> set xs. unfit need c" "need \<le> l" "first_fit need a cs = (heap_end a xs, xs @ (True, l) # ys)"
proof (cases "fitting need cs")
  case None
  then have "\<forall>c \<in> set cs. unfit need c" by (auto simp: fitting_def find_None_iff)
  then show ?thesis using None none first_fit_skip [of cs need a "[]"] by simp
next
  case (Some c)
  then obtain xs ys where x: "cs = xs @ c # ys" "\<forall>d \<in> set xs. unfit need d" "\<not> unfit need c"
    unfolding fitting_def find_Some_iff
    by (metis (no_types, lifting) id_take_nth_drop in_set_conv_nth length_take min.absorb2 nat_less_le nth_take)
  obtain l where c: "c = (False, l)" "need \<le> l" using x(3) by (cases c) (auto simp: unfit_def)
  have "first_fit need a cs = (heap_end a xs, xs @ (True, l) # ys)"
    using first_fit_skip [OF x(2), of a "c # ys"] x(1) c by (simp add: unfit_def)
  then show ?thesis using some [of xs l ys] x(1,2) Some c by simp
qed

section \<open>A free chunk is used again\<close>

lemma chain_chunk:
  assumes "chain s p a (xs @ (b, l) # ys) n"
  shows "chunk_at s (heap_end a xs) (prev_of p a xs) (head_of (heap_end a xs + l) ys n) b l"
    and "12 \<le> l" and "l < 2147483648"
  using assms by (auto simp: chain_append head_of_def split: if_splits)

lemma chain_flag:
  assumes c: "chain s p a (xs @ (b, l) # ys) n"
    and h: "chunk_at t (heap_end a xs) (prev_of p a xs) (head_of (heap_end a xs + l) ys n) d l"
    and same: "\<And>x. a \<le> unat x \<Longrightarrow> unat x < heap_end a (xs @ (b, l) # ys) \<Longrightarrow>
      unat x < heap_end a xs + 8 \<or> heap_end a xs + 12 \<le> unat x \<Longrightarrow> view t x = view s x"
    and lim: "heap_end a (xs @ (b, l) # ys) \<le> 4294967296"
  shows "chain t p a (xs @ (d, l) # ys) n"
proof -
  let ?a = "heap_end a xs"
  have g: "?a + l \<le> heap_end (?a + l) ys" "a \<le> ?a" by (rule heap_end_ge)+
  note l = chain_chunk(2,3) [OF c]
  have "chain t p a xs (of_nat ?a) = chain s p a xs (of_nat ?a)"
    by (rule chain_same) (use same lim g in auto)
  moreover have "chain t (of_nat ?a) (?a + l) ys n = chain s (of_nat ?a) (?a + l) ys n"
    by (rule chain_same) (use same lim g l in auto)
  ultimately show ?thesis using c h by (auto simp: chain_append head_of_def split: if_splits)
qed

lemma mark_chunk:
  assumes ok: "heap_ok X L s (xs @ (b, l) # ys)"
  shows "\<exists>t. set_allocated (of_nat (heap_end 4026531840 xs)) (if d then 1 else 0) s = Inr ((), t)
    \<and> heap_ok X L t (xs @ (d, l) # ys) \<and> stores s t
    \<and> (\<forall>x \<in> heap_area X (kheap_max s). unat x < heap_end 4026531840 xs + 8 \<or> heap_end 4026531840 xs + 12 \<le> unat x
        \<longrightarrow> view t x = view s x)"
proof -
  let ?a = "heap_end 4026531840 xs" and ?m = "kheap_max s"
  have mem: "heap_mem X L s" and ch: "chain s 0 4026531840 (xs @ (b, l) # ys) 0"
    and fits: "heap_end 4026531840 (xs @ (b, l) # ys) \<le> unat ?m" using ok by (simp_all add: heap_ok_def)
  note c = chain_chunk [OF ch]
  have own: "owned s (heap_area X ?m)" using mem by (simp add: heap_mem_def)
  have g: "4026531840 \<le> ?a" "?a + l \<le> heap_end (?a + l) ys" by (rule heap_end_ge)+
  have le: "?a + l \<le> unat ?m" using fits g(2) by simp
  have lim: "?a + 12 \<le> 4294967296" using le c(2) unat_u32_less [of ?m] by linarith
  have A: "x \<in> heap_area X ?m" if "?a \<le> unat x" "unat x < ?a + 12" for x
    by (rule heap_area_in [OF g(1) le]) (use that c(2) in auto)
  obtain t where t: "set_allocated (of_nat ?a) (if d then 1 else 0) s = Inr ((), t)" "owned t (heap_area X ?m)"
    "stores s t" "chunk_at t ?a (prev_of 0 4026531840 xs) (head_of (?a + l) ys 0) d l"
    "\<forall>x \<in> heap_area X ?m. unat x < ?a + 8 \<or> ?a + 12 \<le> unat x \<longrightarrow> view t x = view s x"
    using set_allocated_at [OF own A lim c(1), of d] by blast
  have "chain t 0 4026531840 (xs @ (d, l) # ys) 0"
    by (rule chain_flag [OF ch t(4)]) (use t(5) fits unat_u32_less [of ?m] in \<open>auto simp: heap_area_def\<close>)
  moreover have "heap_mem X L t" by (rule heap_mem_stores [OF mem t(3,2)])
  ultimately have "heap_ok X L t (xs @ (d, l) # ys)"
    using ok by (simp add: heap_ok_def stores_heap [OF t(3)] head_of_def)
  with t show ?thesis by blast
qed

text \<open>A change in one header is none for the clients.\<close>

lemma kept_flag:
  assumes ok: "heap_ok X L s (xs @ (b, l) # ys)"
    and same: "\<forall>x \<in> heap_area X (kheap_max s). unat x < heap_end 4026531840 xs + 8 \<or> heap_end 4026531840 xs + 12 \<le> unat x
      \<longrightarrow> view t x = view s x"
  shows "kept X (xs @ (b, l) # ys) s t"
proof -
  let ?a = "heap_end 4026531840 xs"
  have fits: "heap_end 4026531840 (xs @ (b, l) # ys) \<le> unat (kheap_max s)" using ok by (simp add: heap_ok_def)
  have "12 \<le> l" using ok by (auto simp: heap_ok_def chain_append)
  then have lim: "?a + 12 \<le> 4244635648"
    using fits heap_okD(3) [OF ok] heap_end_ge [of "?a + l" ys] by simp
  show ?thesis
    by (rule keptI [OF heap_okD(2) [OF ok] fits heap_okD(3) [OF ok]])
      (rule same [rule_format], assumption, frule payload_clear [OF heap_okD(2) [OF ok] _ lim], linarith)
qed

lemma fuel_split: "length xs < heap_fuel \<Longrightarrow> \<exists>m. heap_fuel = length xs + Suc m"
  using less_imp_Suc_add by fastforce

lemma kmalloc_reuse:
  assumes ok: "heap_ok X L s (xs @ (False, l) # ys)" and need: "need = unat len + 12"
    and xs: "\<forall>c \<in> set xs. unfit need c" and l: "need \<le> l" "l \<le> need + 12"
  shows "\<exists>t. kmalloc len s = Inr (of_nat (heap_end 4026531840 xs + 12), t) \<and> heap_ok X L t (xs @ (True, l) # ys)
    \<and> kept X (xs @ (False, l) # ys) s t \<and> stores s t"
proof -
  let ?K = "4026531840" and ?a = "heap_end 4026531840 xs"
  have ch: "chain s 0 ?K (xs @ (False, l) # ys) 0" and first: "kheap_first s = head_of ?K (xs @ (False, l) # ys) 0"
    and fits: "heap_end ?K (xs @ (False, l) # ys) \<le> unat (kheap_max s)"
    using ok by (simp_all add: heap_ok_def)
  have g: "?K \<le> ?a" "?a + l \<le> heap_end (?a + l) ys" by (rule heap_end_ge)+
  note c = chain_chunk [OF ch]
  have lim: "heap_end ?K (xs @ (False, l) # ys) < 4294967296" using fits unat_u32_less [of "kheap_max s"] by linarith
  have n: "need < 4294967296" using l(1) c(3) by linarith
  have a: "0 < ?a" "?a < 4294967296" using g lim c(2) by (simp_all add: heap_end_def)
  have "12 * length xs + ?K \<le> ?a" using ch by (intro chain_length [of s 0 ?K xs "of_nat ?a"]) (simp add: chain_append head_of_def)
  then have "length xs < heap_fuel" using a(2) unfolding heap_fuel_def by linarith
  then obtain m where m: "heap_fuel = length xs + Suc m" using fuel_split by blast
  have rest: "chain s (prev_of 0 ?K xs) ?a ((False, l) # ys) 0" using ch by (simp add: chain_append)
  have "find_chunk heap_fuel (of_nat need) (head_of ?K (xs @ (False, l) # ys) 0) 0 s =
      find_chunk (Suc m) (of_nat need) (head_of ?a ((False, l) # ys) 0) (prev_of 0 ?K xs) s"
    unfolding m by (rule find_chunk_skip [OF ch xs n _ lim]) simp
  also have "\<dots> = Inr ((of_nat ?a, prev_of 0 ?K xs), s)"
    using find_chunk_found [OF rest l(1) a n, of m "prev_of 0 ?K xs"] by (simp add: head_of_def del: find_chunk.simps)
  finally have find: "find_chunk heap_fuel (of_nat need) (kheap_first s) 0 s = Inr ((of_nat ?a, prev_of 0 ?K xs), s)"
    by (simp add: first)
  have ln: "len + sizeof_kheader = of_nat need" by (simp add: need sizeof_kheader_def)
  have nz: "(of_nat ?a :: u32) \<noteq> 0" using a by (simp add: word_unat_eq_iff unat_of_nat)
  have "unat (of_nat l - of_nat need :: u32) = l - need"
    using l(1) c(3) n by (simp add: unat_sub word_le_nat_alt unat_of_nat)
  then have "\<not> of_nat l - of_nat need > sizeof_kheader"
    using l(2) by (simp add: word_less_nat_alt sizeof_kheader_def)
  then have split: "split_chunk (of_nat ?a) (of_nat need) s = Inr ((), s)"
    using chunk_reads(4) [OF c(1,3)] by (simp add: split_chunk_def bnd_run skip_run)
  obtain t where t: "set_allocated (of_nat ?a) 1 s = Inr ((), t)" "heap_ok X L t (xs @ (True, l) # ys)" "stores s t"
    "\<forall>x \<in> heap_area X (kheap_max s). unat x < ?a + 8 \<or> ?a + 12 \<le> unat x \<longrightarrow> view t x = view s x"
    using mark_chunk [OF ok, of True] by auto
  have run: "kmalloc len s = Inr (of_nat ?a + 12, t)"
    using find ln nz split t(1) by (simp add: kmalloc_def Let_def bnd_run gets_run ret_run) (simp add: sizeof_kheader_def)
  have "kept X (xs @ (False, l) # ys) s t" by (rule kept_flag [OF ok t(4)])
  then show ?thesis using run t(2,3) by auto
qed

lemma kmalloc_append:
  assumes ok: "heap_ok X L s cs" and need: "need = unat len + 12" and un: "\<forall>c \<in> set cs. unfit need c"
    and room: "heap_end 4026531840 cs + need \<le> L"
    and pages: "2 * pages_for (heap_end 4026531840 cs + need) (kheap_max s) \<le> length (free_pages s)"
  shows "\<exists>t. kmalloc len s = Inr (of_nat (heap_end 4026531840 cs + 12), t) \<and> heap_ok X L t (cs @ [(True, need)])
    \<and> kept X cs s t
    \<and> length (free_pages s) \<le> length (free_pages t) + 2 * pages_for (heap_end 4026531840 cs + need) (kheap_max s)
    \<and> unat (kheap_max s) \<le> unat (kheap_max t)"
proof -
  let ?K = "4026531840" and ?e = "heap_end 4026531840 cs"
  have ch: "chain s 0 ?K (cs @ []) 0" and first: "kheap_first s = head_of ?K cs 0"
    using ok by (simp_all add: heap_ok_def)
  have "12 * length cs + ?K \<le> ?e" using chain_length [of s 0 ?K cs 0] ch by simp
  note room' = order_trans [OF room heap_limit [OF ok]]
  have "length cs < heap_fuel" using \<open>12 * length cs + ?K \<le> ?e\<close> room' unfolding heap_fuel_def by linarith
  then obtain m where m: "heap_fuel = length cs + Suc m" using fuel_split by blast
  have n: "need < 4294967296" and lim: "heap_end ?K (cs @ []) < 4294967296" using room' by simp_all
  have "find_chunk heap_fuel (of_nat need) (head_of ?K (cs @ []) 0) 0 s =
      find_chunk (Suc m) (of_nat need) (head_of ?e [] 0) (prev_of 0 ?K cs) s"
    unfolding m by (rule find_chunk_skip [OF ch un n _ lim]) simp
  then have find: "find_chunk heap_fuel (of_nat need) (kheap_first s) 0 s = Inr ((0, prev_of 0 ?K cs), s)"
    by (simp add: first head_of_def [of ?e] ret_run)
  have ln: "len + sizeof_kheader = of_nat need" by (simp add: need sizeof_kheader_def)
  obtain t where t: "append_chunk (of_nat need) (prev_of 0 ?K cs) s = Inr (of_nat (?e + 12), t)"
    "heap_ok X L t (cs @ [(True, need)])"
    "kept X cs s t" "length (free_pages s) \<le> length (free_pages t) + 2 * pages_for (?e + need) (kheap_max s)"
    "unat (kheap_max s) \<le> unat (kheap_max t)"
    using append_chunk_run [OF ok _ room pages] need by auto
  have "kmalloc len s = Inr (of_nat (?e + 12), t)"
    using find t(1) unfolding kmalloc_def ln Let_def by (simp add: bnd_run gets_run)
  then show ?thesis using t(2-5) by blast
qed

section \<open>A request that is served\<close>

text \<open>Room for a chunk of length \<open>need\<close> when \<open>m\<close> is the end of the heap's pages and \<open>n\<close> frames are free.\<close>

definition has_room :: "nat \<Rightarrow> u32 \<Rightarrow> nat \<Rightarrow> chunks \<Rightarrow> nat \<Rightarrow> bool" where
  "has_room L m n cs need \<longleftrightarrow> (case fitting need cs of Some c \<Rightarrow> snd c \<le> need + 12
     | None \<Rightarrow> heap_end 4026531840 cs + need \<le> L \<and> 2 * pages_for (heap_end 4026531840 cs + need) m \<le> n)"

lemma kmalloc_fit_run:
  assumes ok: "heap_ok X L s cs" and fit: "has_room L (kheap_max s) (length (free_pages s)) cs (unat len + 12)"
    and model: "first_fit (unat len + 12) 4026531840 cs = (r, ds)"
  shows "\<exists>t. kmalloc len s = Inr (of_nat (r + 12), t) \<and> heap_ok X L t ds
    \<and> {r + 12..<r + 12 + unat len} \<subseteq> payload 4026531840 ds
    \<and> {r + 12..<r + 12 + unat len} \<inter> payload 4026531840 cs = {}
    \<and> payload 4026531840 cs \<subseteq> payload 4026531840 ds \<and> kept X cs s t
    \<and> length (free_pages s) \<le> length (free_pages t) + 2 * pages_for (heap_end 4026531840 ds) (kheap_max s)
    \<and> unat (kheap_max s) \<le> unat (kheap_max t)"
proof (cases rule: fitting_cases [of "unat len + 12" cs "4026531840"])
  case none
  have "\<exists>t. kmalloc len s = Inr (of_nat (r + 12), t) \<and> heap_ok X L t ds \<and> kept X cs s t
      \<and> length (free_pages s) \<le> length (free_pages t) + 2 * pages_for (heap_end 4026531840 ds) (kheap_max s)
      \<and> unat (kheap_max s) \<le> unat (kheap_max t)"
    using kmalloc_append [OF ok refl none(2)] fit none(1,3) model by (auto simp: has_room_def)
  moreover have "{r + 12..<r + 12 + unat len} \<inter> payload 4026531840 cs = {}"
    using none(3) model payload_below [of _ 4026531840 cs] by fastforce
  ultimately show ?thesis using none(3) model by auto
next
  case (some xs l ys)
  have l: "l \<le> unat len + 12 + 12" using fit some(2) by (simp add: has_room_def)
  have "\<exists>t. kmalloc len s = Inr (of_nat (r + 12), t) \<and> heap_ok X L t ds \<and> kept X cs s t \<and> stores s t
      \<and> kheap_max t = kheap_max s"
    using kmalloc_reuse [OF ok [unfolded some(1)] refl some(3,4) l] some(1,5) model stores_heap(1) by auto
  moreover have "{r + 12..<r + 12 + unat len} \<inter> payload 4026531840 cs = {}"
    using some(1,4,5) model payload_below [of _ 4026531840 xs] payload_bounds [of _ "heap_end 4026531840 xs + l" ys]
    by fastforce
  ultimately show ?thesis using some(1,4,5) model by (auto simp: stores_def)
qed

section \<open>Splitting\<close>

text \<open>
  A chunk that is much larger than the request is split, but the header of the rest is
  written where the chunk ends, and that is the header of the next chunk. The next chunk then counts
  as free, and its \<open>next\<close> is itself.
\<close>

lemma split_chunk_run:
  assumes own: "owned s (heap_area X m)" and a: "4026531840 \<le> a" "a + l + 12 \<le> unat m"
    and c: "chunk_at s a p (of_nat (a + l)) False l" "l < 2147483648"
    and nx: "chunk_at s (a + l) (of_nat a) n b k" and l: "need + 12 < l" "12 \<le> need"
  shows "\<exists>t. split_chunk (of_nat a) (of_nat need) s = Inr ((), t) \<and> owned t (heap_area X m) \<and> stores s t
    \<and> chunk_at t a p (of_nat (a + l)) False need
    \<and> chunk_at t (a + l) (of_nat a) (of_nat (a + l)) False (l - need)
    \<and> (\<forall>x \<in> heap_area X m. unat x < a \<longrightarrow> view t x = view s x)"
proof -
  have um: "unat m < 4294967296" by (rule unat_u32_less)
  have lim: "a + 12 \<le> 4294967296" "a + l + 12 \<le> 4294967296" using a(2) um by linarith+
  have A: "x \<in> heap_area X m" if "a \<le> unat x" "unat x < a + 12" for x
    by (rule heap_area_in [OF a(1,2)]) (use that in auto)
  have B: "x \<in> heap_area X m" if "a + l \<le> unat x" "unat x < a + l + 12" for x
    by (rule heap_area_in [OF _ order_refl]) (use that a in auto)
  have len: "of_nat l - of_nat need = (of_nat (l - need) :: u32)" using l by simp
  have rest: "12 < l - need" using l(1) by simp
  have un: "unat (of_nat (l - need) :: u32) = l - need" using c(2) by (simp add: unat_of_nat)
  obtain t1 where t1: "set_prev (of_nat (a + l)) (of_nat a) s = Inr ((), t1)" "owned t1 (heap_area X m)" "stores s t1"
    "chunk_at t1 (a + l) (of_nat a) n b k"
    "\<forall>x \<in> heap_area X m. unat x < a + l \<or> a + l + 4 \<le> unat x \<longrightarrow> view t1 x = view s x"
    using set_prev_at [OF own B lim(2) nx, of "of_nat a"] by blast
  have c1: "chunk_at t1 a p (of_nat (a + l)) False l"
    using chunk_at_same [of a t1 s p "of_nat (a + l)" False l] t1(5) A lim(1) l c(1) by simp
  obtain t2 where t2: "set_next (of_nat (a + l)) (of_nat (a + l)) t1 = Inr ((), t2)" "owned t2 (heap_area X m)" "stores t1 t2"
    "chunk_at t2 (a + l) (of_nat a) (of_nat (a + l)) b k"
    "\<forall>x \<in> heap_area X m. unat x < a + l + 4 \<or> a + l + 8 \<le> unat x \<longrightarrow> view t2 x = view t1 x"
    using set_next_at [OF t1(2) B lim(2) t1(4), of "of_nat (a + l)"] by blast
  obtain t3 where t3: "set_allocated (of_nat (a + l)) 0 t2 = Inr ((), t3)" "owned t3 (heap_area X m)" "stores t2 t3"
    "chunk_at t3 (a + l) (of_nat a) (of_nat (a + l)) False k"
    "\<forall>x \<in> heap_area X m. unat x < a + l + 8 \<or> a + l + 12 \<le> unat x \<longrightarrow> view t3 x = view t2 x"
    using set_allocated_at [OF t2(2) B lim(2) t2(4), of False] by auto
  have v3: "view t3 x = view s x" if "x \<in> heap_area X m" "unat x < a + l" for x using that t1(5) t2(5) t3(5) by simp
  have c3: "chunk_at t3 a p (of_nat (a + l)) False l"
    using chunk_at_same [of a t3 s p "of_nat (a + l)" False l] v3 A lim(1) l c(1) by simp
  obtain t4 where t4: "set_length (of_nat (a + l)) (of_nat (l - need)) t3 = Inr ((), t4)" "owned t4 (heap_area X m)"
    "stores t3 t4" "chunk_at t4 (a + l) (of_nat a) (of_nat (a + l)) False (l - need)"
    "\<forall>x \<in> heap_area X m. unat x < a + l + 8 \<or> a + l + 12 \<le> unat x \<longrightarrow> view t4 x = view t3 x"
    using set_length_at [OF t3(2) B lim(2) t3(4)] by blast
  have c4: "chunk_at t4 a p (of_nat (a + l)) False l"
    using chunk_at_same [of a t4 t3 p "of_nat (a + l)" False l] t4(5) A lim(1) l c3 by simp
  obtain t5 where t5: "set_next (of_nat a) (of_nat (a + l)) t4 = Inr ((), t5)" "owned t5 (heap_area X m)" "stores t4 t5"
    "chunk_at t5 a p (of_nat (a + l)) False l"
    "\<forall>x \<in> heap_area X m. unat x < a + 4 \<or> a + 8 \<le> unat x \<longrightarrow> view t5 x = view t4 x"
    using set_next_at [OF t4(2) A lim(1) c4, of "of_nat (a + l)"] by blast
  obtain t where t: "set_length (of_nat a) (of_nat need) t5 = Inr ((), t)" "owned t (heap_area X m)" "stores t5 t"
    "chunk_at t a p (of_nat (a + l)) False need"
    "\<forall>x \<in> heap_area X m. unat x < a + 8 \<or> a + 12 \<le> unat x \<longrightarrow> view t x = view t5 x"
    using set_length_at [OF t5(2) A lim(1) t5(4)] by blast
  have "chunk_at t (a + l) (of_nat a) (of_nat (a + l)) False (l - need)"
    using chunk_at_same [of "a + l" t t4 "of_nat a" "of_nat (a + l)" False "l - need"] t(5) t5(5) B lim(2) l t4(4) by simp
  moreover have "stores s t" by (meson stores_trans t1(3) t2(3) t3(3) t4(3) t5(3) t(3))
  moreover have "view t x = view s x" if "x \<in> heap_area X m" "unat x < a" for x
    using that t(5) t5(5) t4(5) v3 by simp
  moreover have "split_chunk (of_nat a) (of_nat need) s = Inr ((), t)"
    using chunk_reads [OF c(1)] chunk_reads [OF c1] chunk_reads [OF c3] t1(1) t2(1) t3(1) t4(1) t5(1) t(1) c(2) rest un
    unfolding split_chunk_def
    by (simp add: bnd_run Let_def len sizeof_kheader_def word_less_nat_alt del: of_nat_diff)
  ultimately show ?thesis using t(2,4) by blast
qed

lemma kmalloc_split:
  assumes ok: "heap_ok X L s (xs @ (False, l) # (b, m) # ys)" and need: "need = unat len + 12"
    and xs: "\<forall>c \<in> set xs. unfit need c" and l: "need + 12 < l"
  defines "a \<equiv> heap_end 4026531840 xs"
  shows "\<exists>t. kmalloc len s = Inr (of_nat (a + 12), t) \<and> chain t 0 4026531840 (xs @ [(True, need)]) (of_nat (a + l))
    \<and> chunk_at t (a + l) (of_nat a) (of_nat (a + l)) False (l - need)
    \<and> kheap_first t = head_of 4026531840 (xs @ [(True, need)]) (of_nat (a + l))
    \<and> 4026531840 \<le> a \<and> a + l < 4294967296 \<and> length xs + 1 < heap_fuel \<and> l < 2147483648"
proof -
  let ?K = "4026531840" and ?m = "kheap_max s" and ?cs = "xs @ (False, l) # (b, m) # ys"
  have mem: "heap_mem X L s" and ch: "chain s 0 ?K ?cs 0" and first: "kheap_first s = head_of ?K ?cs 0"
    and fits: "heap_end ?K ?cs \<le> unat ?m" using ok by (simp_all add: heap_ok_def)
  have own: "owned s (heap_area X ?m)" using mem by (simp add: heap_mem_def)
  have um: "unat ?m < 4294967296" by (rule unat_u32_less)
  have c: "chunk_at s a (prev_of 0 ?K xs) (of_nat (a + l)) False l" "l < 2147483648"
    using chain_chunk [OF ch] by (simp_all add: a_def head_of_def)
  have "chain s 0 ?K ((xs @ [(False, l)]) @ (b, m) # ys) 0" using ch by simp
  note nx = chain_chunk [OF this]
  have n: "chunk_at s (a + l) (of_nat a) (head_of (a + l + m) ys 0) b m" and m12: "12 \<le> m"
    using nx(1,2) by (simp_all add: a_def)
  have g: "?K \<le> a" "a + l + m \<le> heap_end (a + l + m) ys" unfolding a_def by (rule heap_end_ge)+
  have le: "a + l + 12 \<le> unat ?m" using fits g(2) m12 by (simp add: a_def)
  obtain t1 where t1: "split_chunk (of_nat a) (of_nat need) s = Inr ((), t1)" "owned t1 (heap_area X ?m)" "stores s t1"
    "chunk_at t1 a (prev_of 0 ?K xs) (of_nat (a + l)) False need"
    "chunk_at t1 (a + l) (of_nat a) (of_nat (a + l)) False (l - need)"
    "\<forall>x \<in> heap_area X ?m. unat x < a \<longrightarrow> view t1 x = view s x"
    using split_chunk_run [OF own g(1) le c n l] need by auto
  have lim: "a + 12 \<le> 4294967296" "a + l + 12 \<le> 4294967296" using le um by linarith+
  have A: "x \<in> heap_area X ?m" if "a \<le> unat x" "unat x < a + 12" for x
    by (rule heap_area_in [OF g(1) le]) (use that in auto)
  obtain t where t: "set_allocated (of_nat a) 1 t1 = Inr ((), t)" "owned t (heap_area X ?m)" "stores t1 t"
    "chunk_at t a (prev_of 0 ?K xs) (of_nat (a + l)) True need"
    "\<forall>x \<in> heap_area X ?m. unat x < a + 8 \<or> a + 12 \<le> unat x \<longrightarrow> view t x = view t1 x"
    using set_allocated_at [OF t1(2) A lim(1) t1(4), of True] by auto
  have B: "x \<in> heap_area X ?m" if "a + l \<le> unat x" "unat x < a + l + 12" for x
    by (rule heap_area_in [OF _ le]) (use that g in auto)
  have last: "chunk_at t (a + l) (of_nat a) (of_nat (a + l)) False (l - need)"
    using chunk_at_same [of "a + l" t t1 "of_nat a" "of_nat (a + l)" False "l - need"] t(5) B lim l t1(5) by simp
  have cx: "chain s 0 ?K xs (of_nat a)" using ch by (simp add: chain_append head_of_def a_def)
  have "chain t 0 ?K xs (of_nat a) = chain s 0 ?K xs (of_nat a)"
    by (rule chain_same) (use t(5) t1(6) lim le in \<open>auto simp: heap_area_def a_def\<close>)
  then have ct: "chain t 0 ?K (xs @ [(True, need)]) (of_nat (a + l))"
    using cx t(4) need l c(2) by (simp add: chain_append head_of_def a_def)
  have "12 * length xs + ?K \<le> a" unfolding a_def by (rule chain_length [OF cx])
  then have fuel: "length xs + 1 < heap_fuel" using lim(1) unfolding heap_fuel_def by linarith
  then obtain k where k: "heap_fuel = length xs + Suc k" using fuel_split [of xs] by auto
  have nd: "need < 4294967296" "need \<le> l" "0 < a" "a < 4294967296" "a + l < 4294967296"
    using l c(2) g lim by linarith+
  have rest: "chain s (prev_of 0 ?K xs) a ((False, l) # (b, m) # ys) 0" using ch by (simp add: chain_append a_def)
  have head: "head_of ?K ?cs 0 = head_of ?K xs (of_nat a)" by (simp add: head_of_def a_def)
  have "find_chunk heap_fuel (of_nat need) (head_of ?K ?cs 0) 0 s =
      find_chunk (Suc k) (of_nat need) (of_nat a) (prev_of 0 ?K xs) s"
    using find_chunk_walk [OF cx xs nd(1), of "Suc k"] nd(4) unfolding k head by (simp add: a_def del: find_chunk.simps)
  also have "\<dots> = Inr ((of_nat a, prev_of 0 ?K xs), s)"
    by (rule find_chunk_found [OF rest nd(2,3,4,1)])
  finally have find: "find_chunk heap_fuel (of_nat need) (kheap_first s) 0 s = Inr ((of_nat a, prev_of 0 ?K xs), s)"
    by (simp add: first)
  have ln: "len + sizeof_kheader = of_nat need" by (simp add: need sizeof_kheader_def)
  have nz: "(of_nat a :: u32) \<noteq> 0" using nd by (simp add: word_unat_eq_iff unat_of_nat)
  have "kmalloc len s = Inr (of_nat a + 12, t)"
    using find ln nz t1(1) t(1) by (simp add: kmalloc_def Let_def bnd_run gets_run ret_run) (simp add: sizeof_kheader_def)
  moreover have "kheap_first t = head_of ?K (xs @ [(True, need)]) (of_nat (a + l))"
    using first stores_heap [OF stores_trans [OF t1(3) t(3)]] by (simp add: head_of_def)
  ultimately show ?thesis using ct last g(1) nd(5) fuel c(2) by simp
qed

section \<open>Release between two chunks in use\<close>

definition used_last :: "chunks \<Rightarrow> bool" where
  "used_last cs \<longleftrightarrow> cs = [] \<or> fst (last cs)"

lemma kfree_between:
  assumes ok: "heap_ok X L s (xs @ (b, l) # (True, m) # ys)" and xs: "used_last xs"
  shows "\<exists>t. kfree (of_nat (heap_end 4026531840 xs + 12)) s = Inr ((), t)
    \<and> heap_ok X L t (xs @ (False, l) # (True, m) # ys) \<and> kept X (xs @ (b, l) # (True, m) # ys) s t"
proof -
  let ?K = "4026531840" and ?a = "heap_end 4026531840 xs" and ?cs = "xs @ (b, l) # (True, m) # ys"
  obtain t where t: "set_allocated (of_nat ?a) 0 s = Inr ((), t)" "heap_ok X L t (xs @ (False, l) # (True, m) # ys)"
    "\<forall>x \<in> heap_area X (kheap_max s). unat x < ?a + 8 \<or> ?a + 12 \<le> unat x \<longrightarrow> view t x = view s x"
    using mark_chunk [OF ok, of False] by auto
  have ch: "chain t 0 ?K (xs @ (False, l) # (True, m) # ys) 0"
    and fits: "heap_end ?K ?cs \<le> unat (kheap_max s)"
    using t(2) ok by (simp_all add: heap_ok_def)
  note c = chunk_reads [OF chain_chunk(1) [OF ch]]
  have "chain t 0 ?K ((xs @ [(False, l)]) @ (True, m) # ys) 0" using ch by simp
  note nx = chunk_reads(3) [OF chain_chunk(1) [OF this]]
  have um: "unat (kheap_max s) < 4294967296" by (rule unat_u32_less)
  have g: "?K \<le> ?a" "?a + l + m \<le> heap_end (?a + l + m) ys" by (rule heap_end_ge)+
  have al: "?a + l < 4294967296" "0 < ?a + l" using fits g um chain_chunk(2) [OF ch] by auto
  then have nz: "(of_nat (?a + l) :: u32) \<noteq> 0" by (simp add: word_unat_eq_iff unat_of_nat del: of_nat_add)
  have next_run: "next_free (of_nat ?a) t = Inr (False, t)"
    using c(2) nx nz by (simp add: next_free_def bnd_run ret_run head_of_def)
  have prev_run: "prev_free (of_nat ?a) t = Inr (False, t)"
  proof (cases xs rule: rev_cases)
    case Nil
    then show ?thesis using c(1) by (simp add: prev_free_def bnd_run ret_run)
  next
    case (snoc zs z)
    obtain d k where z: "z = (d, k)" by (cases z)
    have d: "d" using xs by (simp add: used_last_def snoc z)
    have "chain t 0 ?K (zs @ (d, k) # (False, l) # (True, m) # ys) 0" using ch by (simp add: snoc z)
    note p = chunk_reads(3) [OF chain_chunk(1) [OF this]]
    show ?thesis using c(1) p d by (simp add: prev_free_def bnd_run ret_run snoc z)
  qed
  have hdr: "of_nat (?a + 12) - sizeof_kheader = (of_nat ?a :: u32)" by (simp add: sizeof_kheader_def)
  have run: "kfree (of_nat (?a + 12)) s = Inr ((), t)"
    unfolding kfree_def Let_def hdr glue_chunk_def
    using t(1) next_run prev_run c(2) nz by (simp add: bnd_run skip_run ret_run head_of_def)
  have "kept X ?cs s t" by (rule kept_flag [OF ok t(3)])
  then show ?thesis using run t(2) by blast
qed

end
