(* ===== verification/Kernel_Heap_Props.thy ===== *)
theory Kernel_Heap_Props
  imports Kernel_Kmalloc
begin

text \<open>
  A concrete heap, and the properties of \<open>kmalloc\<close> and \<open>kfree\<close>.
\<close>

section \<open>A concrete heap\<close>

lemma extend_indep [simp]:
  "owned (vm.extend s h) A = owned (s :: vm) A" "mappable (vm.extend s h) x = mappable s x"
  "free_pages (vm.extend s h) = free_pages s"
proof -
  have tr: "translate (vm.extend s h) = translate s"
    by (simp add: translate_def pte_at_def pte_addr_def pde_at_def fun_eq_iff vm.defs)
  have pt: "pt_frames (vm.extend s h) = pt_frames s" by (simp add: pt_frames_def pde_at_def vm.defs)
  have inst: "in_stack (vm.extend s h) = in_stack s" by (simp add: in_stack_def fun_eq_iff vm.defs)
  have st: "stack_frames (vm.extend s h) = stack_frames s" by (simp add: stack_frames_def inst tr)
  show fp: "free_pages (vm.extend s h) = free_pages s"
  proof -
    have "ram (vm.extend s h) = ram s" "stack_depth (vm.extend s h) = stack_depth s"
      by (simp_all add: vm.defs stack_depth_def)
    then show ?thesis by (simp add: free_pages_def stack_word_def tr)
  qed
  have ok: "mm_ok (vm.extend s h) = mm_ok s"
    by (simp add: mm_ok_def paging_ok_def self_mapped_def tables_ok_def self_slot_def stack_ok_def pool_ok_def
        stack_mapped_def inst tr pt st fp pde_at_def) (simp add: vm.defs)
  show "owned (vm.extend s h) A = owned s A"
    by (simp add: owned_def buffer_def ok tr pt st fp self_slot_def) (simp add: vm.defs)
  show "mappable (vm.extend s h) x = mappable s x"
    by (simp add: mappable_def window_def self_slot_def inst kernel_view_def tr) (simp add: vm.defs)
qed

text \<open>The address space \<open>demo\<close> with page 0 mapped, and an empty heap in it; the rest of page 0 is other memory in use.\<close>

definition demo_low :: vm where
  "demo_low = (case map_page 0 0xB000 3 demo of Inl e \<Rightarrow> demo | Inr (_, t) \<Rightarrow> t)"

definition demo_heap :: heap where
  "demo_heap = vm.extend demo_low (heap.fields KHEAP_START 0)"

definition demo_rest :: "u32 set" where
  "demo_rest = {x. 8 \<le> unat x \<and> unat x < 4096}"

lemma heap_page_idx:
  assumes "0xF0000000 \<le> unat x" and "unat x < 0xF0400000"
  shows "PGDIR_IDX_FROM_ADDR x = (960 :: u32)"
proof -
  have "unat (PGDIR_IDX_FROM_ADDR x) = unat x div 4194304" by (simp add: unat_page)
  moreover have "unat x div 4194304 = 960" using assms by simp
  ultimately show ?thesis by (simp add: word_unat_eq_iff)
qed

lemma demo_heap_pages:
  assumes "0xF0000000 \<le> unat x" and "unat x < 0xF0400000"
  shows "mappable demo x"
proof -
  have i: "PGDIR_IDX_FROM_ADDR x = 960" by (rule heap_page_idx [OF assms])
  have w: "self_slot demo = 1023" "directory (curdir demo) = 0xFFBFF000"
    by (simp_all add: self_slot_def demo_def PGDIR_IDX_FROM_ADDR_def)
  have "unat (frame x) \<le> unat x" by (simp add: unat_frame)
  then have f: "frame x \<noteq> 0xFFBFF000" "frame x \<noteq> 0xFF7FF000" using assms(2) by auto
  have self: "self_mapped demo" using demo_paging_ok by (simp add: paging_ok_def)
  have "present (pde_at demo (PGDIR_IDX_FROM_ADDR x))"
    by (simp add: i demo_pde present_def PAGE_PRESENT_def)
  then have "kernel_view demo x"
    using page_window_walk [OF self, of x] page_window_aligned [OF self, of x]
    by (simp add: kernel_view_def Let_def) (simp add: demo_def)
  then show ?thesis using f i by (simp add: mappable_def window_def w demo_in_stack)
qed

lemma demo_low_run:
  "map_page 0 0xB000 3 demo = Inr ((), demo_low)" "owned demo_low {x. unat x < 4096}" "grows demo demo_low"
  "free_pages demo_low = [0x8000, 0x9000]" "unat x < 4096 \<Longrightarrow> translate demo_low x = Some (0xB000 + off x)"
  "pt_frames demo_low \<subseteq> {0x1000, 0x2000, 0x3000, 0x5000, 0x8000, 0x9000, 0xA000}" "stack_frames demo_low = {0x4000}"
proof -
  have m: "mappable demo 0"
  proof -
    have w: "self_slot demo = 1023" "directory (curdir demo) = 0xFFBFF000"
      by (simp_all add: self_slot_def demo_def PGDIR_IDX_FROM_ADDR_def)
    show ?thesis by (simp add: mappable_def window_def w demo_in_stack kernel_view_def KERNEL_ADDRESS_SPACE_def
        PGDIR_IDX_FROM_ADDR_def)
  qed
  have fl: "frame (3 :: u32) = 0" by (simp add: PAGE_ADDR_MASK_def)
  have fr: "frame (0 :: u32) = 0" "frame (0xB000 :: u32) = 0xB000" by (simp_all add: PAGE_ADDR_MASK_def)
  have np: "\<not> present (pde_at demo (PGDIR_IDX_FROM_ADDR 0))"
    by (simp add: demo_pde PGDIR_IDX_FROM_ADDR_def present_def)
  obtain t where t: "map_page 0 0xB000 3 demo = Inr ((), t)" "grows demo t"
    "\<forall>x. PGDIR_IDX_FROM_ADDR x \<noteq> self_slot demo \<longrightarrow>
        translate t x = (if frame x = 0 then Some (0xB000 + off x) else translate demo x)"
    using map_page_grows [OF demo_mm_ok m fl, of "0xB000"] fr by (auto simp: demo_free_pages)
  have fp: "free_pages t = [0x8000, 0x9000]"
    using map_page_spec [OF demo_mm_ok m fl, of "0xB000"] t(1) np by (auto simp: demo_free_pages)
  show run: "map_page 0 0xB000 3 demo = Inr ((), demo_low)" using t(1) by (simp add: demo_low_def)
  have e: "demo_low = t" using run t(1) by simp
  show "grows demo demo_low" "free_pages demo_low = [0x8000, 0x9000]" using t(2) fp by (simp_all add: e)
  have sub: "pt_frames t \<subseteq> {0x1000, 0x2000, 0x3000, 0x5000, 0x8000, 0x9000, 0xA000}"
    using t(2) unfolding grows_def demo_pt_frames demo_free_pages by auto
  have ss: "self_slot demo = 1023" by (simp add: self_slot_def demo_def PGDIR_IDX_FROM_ADDR_def)
  have st: "stack_frames t = {0x4000}"
  proof -
    have "translate t x = translate demo x" if "in_stack demo x" for x
      using t(3) stack_not_window [OF demo_mm_ok that] that by (auto simp: demo_in_stack)
    then have "stack_frames t = stack_frames demo"
      by (intro stack_frames_translate) (simp_all add: grows_fields(5) [OF t(2)])
    then show ?thesis by (simp add: demo_stack_frames)
  qed
  then show "stack_frames demo_low = {0x4000}" by (simp add: e)
  have low: "frame x = 0" "PGDIR_IDX_FROM_ADDR x = 0" if "unat x < 4096" for x :: u32
    using that by (simp_all add: word_unat_eq_iff unat_frame unat_page)
  have tr: "translate t x = Some (0xB000 + off x)" if "unat x < 4096" for x
    using t(3) low [OF that] ss by simp
  then show "unat x < 4096 \<Longrightarrow> translate demo_low x = Some (0xB000 + off x)" by (simp add: e)
  show "pt_frames demo_low \<subseteq> {0x1000, 0x2000, 0x3000, 0x5000, 0x8000, 0x9000, 0xA000}" using sub by (simp add: e)
  have fb: "frame (0xB000 + off x) = 0xB000" for x :: u32 using frame_add [OF off_less, of "0xB000" x] fr by simp
  have "inj_on (translate t) {x. unat x < 4096}"
  proof (rule inj_onI)
    fix x y assume xy: "x \<in> {x. unat x < 4096}" "y \<in> {x. unat x < 4096}" "translate t x = translate t y"
    then have "0xB000 + off x = 0xB000 + off y" using tr by simp
    then have "off x = off y" by (rule add_left_imp_eq)
    then show "x = y" using xy(1,2) low(1) frame_plus_off [of x] frame_plus_off [of y] by simp
  qed
  then show "owned demo_low {x. unat x < 4096}"
    using t(2) tr fb sub fp st low(2) ss grows_fields(7) [OF t(2)]
    by (auto simp: owned_def buffer_def e grows_def)
qed

lemma demo_heap_ok: "heap_ok demo_rest 0xF0400000 demo_heap []" "length (free_pages demo_heap) = 2"
  "kheap_max demo_heap = 0xF0000000"
proof -
  have f: "kheap_max demo_heap = 0xF0000000" "kheap_first demo_heap = 0"
    by (simp_all add: demo_heap_def vm.defs heap.defs KHEAP_START_def)
  show "kheap_max demo_heap = 0xF0000000" "length (free_pages demo_heap) = 2"
    using f(1) demo_low_run(4) by (simp_all add: demo_heap_def)
  have "heap_area demo_rest 0xF0000000 \<subseteq> {x. unat x < 4096}" by (auto simp: heap_area_def demo_rest_def)
  then have "owned demo_heap (heap_area demo_rest (kheap_max demo_heap))"
    using owned_subset [OF demo_low_run(2)] f(1) by (simp add: demo_heap_def)
  moreover have "mappable demo_heap x" if "KHEAP_START \<le> x" "unat x < 0xF0400000" for x
    using that grows_mappable [OF demo_low_run(3) demo_heap_pages, of x]
    by (simp add: demo_heap_def KHEAP_START_def word_le_nat_alt)
  moreover have "beside_heap demo_rest" by (simp add: beside_heap_def demo_rest_def)
  ultimately show "heap_ok demo_rest 0xF0400000 demo_heap []"
    using f by (simp add: heap_ok_def heap_mem_def head_of_def PAGE_FLAGS_MASK_def KHEAP_END_def)
qed

text \<open>Two blocks, and the first one released.\<close>

lemma demo_heap_two:
  obtains s t where "kmalloc 100 demo_heap = Inr (0xF000000C, s)" "kmalloc 20 s = Inr (0xF000007C, t)"
    "heap_ok demo_rest 0xF0400000 t [(True, 112), (True, 32)]"
proof -
  have "pages_for 4026531952 0xF0000000 = 1" by (simp add: pages_for_def)
  then obtain s where s: "kmalloc 100 demo_heap = Inr (0xF000000C, s)" "heap_ok demo_rest 0xF0400000 s [(True, 112)]"
    using kmalloc_append [OF demo_heap_ok(1) refl, of 100] demo_heap_ok(2,3) by auto
  have m: "4026531952 \<le> unat (kheap_max s)" "off (kheap_max s) = 0"
    using s(2) by (simp_all add: heap_ok_def heap_mem_def)
  then obtain k where k: "unat (kheap_max s) = 4096 * k" using unat_off [of "kheap_max s"] by auto
  then have "983041 \<le> k" using m(1) by linarith
  then have "4026531984 + 4095 - unat (kheap_max s) < 4096" using k by simp
  then have "pages_for 4026531984 (kheap_max s) = 0" by (simp add: pages_for_def)
  then show ?thesis
    using kmalloc_append [OF s(2) refl, of 20] that [OF s(1)] by (auto simp: unfit_def)
qed

section \<open>Properties\<close>

text \<open>C8: \<open>kmalloc\<close> implements first fit. When the first free chunk that is large enough is not so large that
  it would be split, or when there is none and the range of the heap and the free frames allow a new one,
  it returns the address behind the header of the chunk that the abstract allocator chooses, and the heap
  is as that says. The block of \<open>len\<close> bytes overlaps no block in use; those, and all other memory in use, keep their
  contents, and at most two frames are taken for each new page. (Two free frames for each new page are enough: one may become a page table.)\<close>

theorem kmalloc_first_fit:
  assumes ok: "heap_ok X L s cs" and fit: "has_room L (kheap_max s) (length (free_pages s)) cs (unat len + 12)"
    and model: "first_fit (unat len + 12) 4026531840 cs = (r, ds)"
  shows "\<exists>t. kmalloc len s = Inr (of_nat (r + 12), t) \<and> heap_ok X L t ds
    \<and> {r + 12..<r + 12 + unat len} \<subseteq> payload 4026531840 ds
    \<and> {r + 12..<r + 12 + unat len} \<inter> payload 4026531840 cs = {}
    \<and> payload 4026531840 cs \<subseteq> payload 4026531840 ds \<and> kept X cs s t
    \<and> length (free_pages s) \<le> length (free_pages t) + 2 * pages_for (heap_end 4026531840 ds) (kheap_max s)"
  using kmalloc_fit_run [OF assms] by blast

theorem kmalloc_first_fit_witness:
  "\<exists>s t. kmalloc 100 demo_heap = Inr (0xF000000C, s) \<and> kmalloc 20 s = Inr (0xF000007C, t)
    \<and> heap_ok demo_rest 0xF0400000 t [(True, 112), (True, 32)]"
proof -
  obtain s t where st: "kmalloc 100 demo_heap = Inr (0xF000000C, s)" "kmalloc 20 s = Inr (0xF000007C, t)"
    "heap_ok demo_rest 0xF0400000 t [(True, 112), (True, 32)]" by (rule demo_heap_two)
  have "pages_for 4026531952 0xF0000000 = 1" by (simp add: pages_for_def)
  then obtain u where "kmalloc 100 demo_heap = Inr (0xF000000C, u)"
    using kmalloc_first_fit [OF demo_heap_ok(1), of 100 4026531840 "[(True, 112)]"] demo_heap_ok(2,3)
    by (auto simp: fitting_def has_room_def)
  moreover have "u = s" using calculation st(1) by simp
  ultimately show ?thesis using st(2,3) by blast
qed

text \<open>A release and a request of the same size give the same block again: when the chunks beside the
  released one are in use and no earlier chunk fits, \<open>kfree\<close> only marks the chunk as free, and a
  \<open>kmalloc\<close> that it fits without a split returns its address. The other blocks keep their contents.\<close>

lemma kfree_kmalloc_roundtrip:
  assumes ok: "heap_ok X L s (xs @ (True, l) # (True, m) # ys)" and "used_last xs"
    and "\<forall>c \<in> set xs. unfit (unat len + 12) c" and "unat len + 12 \<le> l" and "l \<le> unat len + 24"
  shows "\<exists>t u. kfree (of_nat (heap_end 4026531840 xs + 12)) s = Inr ((), t)
    \<and> heap_ok X L t (xs @ (False, l) # (True, m) # ys)
    \<and> kmalloc len t = Inr (of_nat (heap_end 4026531840 xs + 12), u) \<and> heap_ok X L u (xs @ (True, l) # (True, m) # ys)
    \<and> kept X (xs @ (False, l) # (True, m) # ys) s u"
proof -
  let ?f = "xs @ (False, l) # (True, m) # ys"
  obtain t where t: "kfree (of_nat (heap_end 4026531840 xs + 12)) s = Inr ((), t)" "heap_ok X L t ?f"
    "kept X (xs @ (True, l) # (True, m) # ys) s t"
    using kfree_between [OF ok assms(2)] by blast
  have l: "l \<le> unat len + 12 + 12" using assms(5) by simp
  obtain u where u: "kmalloc len t = Inr (of_nat (heap_end 4026531840 xs + 12), u)"
    "heap_ok X L u (xs @ (True, l) # (True, m) # ys)"
    "kept X ?f t u"
    using kmalloc_reuse [OF t(2) refl assms(3,4) l] by blast
  have "payload 4026531840 ?f \<subseteq> payload 4026531840 (xs @ (True, l) # (True, m) # ys)" by auto
  then have "kept X ?f s t" using t(3) by (auto simp: kept_def)
  then have "kept X ?f s u" by (rule kept_trans [OF _ u(3) order_refl])
  with t(1,2) u(1,2) show ?thesis by blast
qed

text \<open>C24: A split destroys the chunk behind. When \<open>kmalloc\<close> takes a free chunk that exceeds
  the request by more than 12 bytes and is not the last, the header of the rest is written over the header of
  the next chunk: whether or not that was in use it is now marked free, its \<open>next\<close> is itself, and a later
  \<open>kmalloc\<close> that fits no earlier chunk and not this one either searches forever.\<close>

theorem kmalloc_split_corrupts:
  assumes ok: "heap_ok X L s (xs @ (False, l) # (b, m) # ys)"
    and xs: "\<forall>c \<in> set xs. unfit (unat len + 12) c" and l: "unat len + 24 < l"
  shows "\<exists>t. kmalloc len s = Inr (of_nat (heap_end 4026531840 xs + 12), t)
    \<and> chunk_at t (heap_end 4026531840 xs + l) (of_nat (heap_end 4026531840 xs)) (of_nat (heap_end 4026531840 xs + l))
        False (l - (unat len + 12))
    \<and> (\<forall>len2. l < unat len + unat len2 + 24 \<and> unat len2 + 12 < 4294967296
        \<and> (\<forall>c \<in> set xs. unfit (unat len2 + 12) c) \<longrightarrow> kmalloc len2 t = Inl Out_of_Fuel)"
proof -
  let ?K = "4026531840" and ?a = "heap_end 4026531840 xs" and ?n = "unat len + 12"
  have l': "?n + 12 < l" using l by simp
  obtain t where t: "kmalloc len s = Inr (of_nat (?a + 12), t)"
    "chain t 0 ?K (xs @ [(True, ?n)]) (of_nat (?a + l))"
    "chunk_at t (?a + l) (of_nat ?a) (of_nat (?a + l)) False (l - ?n)"
    "kheap_first t = head_of ?K (xs @ [(True, ?n)]) (of_nat (?a + l))"
    "?K \<le> ?a" "?a + l < 4294967296" "length xs + 1 < heap_fuel" "l < 2147483648"
    using kmalloc_split [OF ok refl xs l'] by blast
  have "kmalloc len2 t = Inl Out_of_Fuel"
    if a: "l < unat len + unat len2 + 24" "unat len2 + 12 < 4294967296" "\<forall>c \<in> set xs. unfit (unat len2 + 12) c" for len2
  proof -
    have ln: "len2 + sizeof_kheader = of_nat (unat len2 + 12)" by (simp add: sizeof_kheader_def)
    obtain k where k: "heap_fuel = length (xs @ [(True, ?n)]) + Suc k"
      using t(7) fuel_split [of "xs @ [(True, ?n)]"] by auto
    have u: "\<forall>c \<in> set (xs @ [(True, ?n)]). unfit (unat len2 + 12) c" using a(3) by (simp add: unfit_def)
    have e: "heap_end ?K (xs @ [(True, ?n)]) < 4294967296" using t(6) l by simp
    have "find_chunk heap_fuel (of_nat (unat len2 + 12)) (kheap_first t) 0 t =
        find_chunk (Suc k) (of_nat (unat len2 + 12)) (of_nat (?a + l)) (prev_of 0 ?K (xs @ [(True, ?n)])) t"
      unfolding k t(4) by (rule find_chunk_walk [OF t(2) u a(2) _ e]) simp
    also have "\<dots> = Inl Out_of_Fuel"
      by (rule find_chunk_cycle [OF t(3)]) (use t(5,6,8) a(1,2) in \<open>auto simp: unfit_def\<close>)
    finally show ?thesis unfolding kmalloc_def Let_def ln by (simp add: bnd_run gets_run del: of_nat_add)
  qed
  with t(1,3) show ?thesis by blast
qed

theorem kmalloc_split_corrupts_witness:
  "\<exists>s t u v. kmalloc 100 demo_heap = Inr (0xF000000C, s) \<and> kmalloc 20 s = Inr (0xF000007C, t)
    \<and> kfree 0xF000000C t = Inr ((), u) \<and> kmalloc 4 u = Inr (0xF000000C, v)
    \<and> chunk_next 0xF0000070 v = Inr (0xF0000070, v) \<and> kmalloc 200 v = Inl Out_of_Fuel"
proof -
  obtain s t where st: "kmalloc 100 demo_heap = Inr (0xF000000C, s)" "kmalloc 20 s = Inr (0xF000007C, t)"
    "heap_ok demo_rest 0xF0400000 t [(True, 112), (True, 32)]" by (rule demo_heap_two)
  from st(3) have ok: "heap_ok demo_rest 0xF0400000 t ([] @ (True, 112) # (True, 32) # [])" by simp
  obtain u where u: "kfree 0xF000000C t = Inr ((), u)" "heap_ok demo_rest 0xF0400000 u ([] @ (False, 112) # (True, 32) # [])"
    using kfree_between [OF ok] by (auto simp: used_last_def)
  obtain v where v: "kmalloc 4 u = Inr (0xF000000C, v)" "chunk_at v 0xF0000070 0xF0000000 0xF0000070 False 96"
    "\<forall>len2. 112 < 28 + unat len2 \<and> unat len2 + 12 < 4294967296 \<longrightarrow> kmalloc len2 v = Inl Out_of_Fuel"
    using kmalloc_split_corrupts [OF u(2), of 4] by auto
  have "kmalloc 200 v = Inl Out_of_Fuel" using v(3) by simp
  moreover have "chunk_next 0xF0000070 v = Inr (0xF0000070, v)" using chunk_reads(2) [OF v(2)] by simp
  ultimately show ?thesis using st(1,2) u(1) v(1) by blast
qed

end
