(* ===== verification/Kernel_Load.thy ===== *)
theory Kernel_Load
  imports Kernel_Elf Kernel_Initrd Kernel_Heap_Props
begin

text \<open>
  An executable from the ramdisk in memory: \<open>load_elf_binary\<close> of \<open>kernel/elf.c\<close> on top of
  \<open>initrd_read\<close> and \<open>allocate_range\<close>. The kernel's own structures, the file and the segments
  that are loaded already are memory that is owned: neither the managers nor a store to another place
  touch it.
\<close>

section \<open>Pages without an entry\<close>

text \<open>\<open>get_mapping\<close> finds nothing there: no table, or the entry is zero.\<close>

definition vacant :: "'a vm_scheme \<Rightarrow> u32 \<Rightarrow> bool" where
  "vacant s x \<longleftrightarrow> (present (pde_at s (PGDIR_IDX_FROM_ADDR x)) \<longrightarrow> pte_at s x = 0)"

lemma vacant_untranslated: "paging_ok s \<Longrightarrow> vacant s x \<Longrightarrow> translate s x = None"
  by (auto simp: vacant_def translate_def paging_ok_def self_mapped_def present_def)

lemma vacant_get_mapping: "paging_ok s \<Longrightarrow> vacant s x \<Longrightarrow> get_mapping x s = Inr (None, s)"
  by (simp add: vacant_def get_mapping_run)

lemma vacant_fields [simp]:
  "vacant (s\<lparr>pmm_stack_loc := l\<rparr>) = vacant s" "vacant (s\<lparr>klog := k\<rparr>) = vacant s"
  by (simp_all add: vacant_def fun_eq_iff)

lemma vacant_ram:
  assumes "same_except F (ram s) m" and "F \<inter> pt_frames s = {}"
  shows "vacant (s\<lparr>ram := m\<rparr>) x = vacant s x"
  using pde_at_same [OF assms PGDIR_less, of x] pte_at_same [OF assms, of x] by (auto simp: vacant_def)

lemma vacant_entry:
  assumes ok: "paging_ok s" and pr: "present (pde_at s (PGDIR_IDX_FROM_ADDR va))" and nw: "\<not> window s va"
    and x: "vacant s x" "frame x \<noteq> frame va"
  shows "vacant (s\<lparr>ram := st32 (ram s) (pte_addr s va) v\<rparr>) x"
proof -
  let ?t = "s\<lparr>ram := st32 (ram s) (pte_addr s va) v\<rparr>"
  have pde: "pde_at ?t (PGDIR_IDX_FROM_ADDR x) = pde_at s (PGDIR_IDX_FROM_ADDR x)"
    using store_pte(1) [OF ok pr nw, of v "PGDIR_IDX_FROM_ADDR x"] by (simp add: PGDIR_less)
  have "pte_at ?t x = pte_at s x" if p: "present (pde_at s (PGDIR_IDX_FROM_ADDR x))"
  proof -
    have "pte_addr ?t x = pte_addr s x" using pde unfolding pte_addr_def by simp
    moreover have "frame (pde_at s (PGDIR_IDX_FROM_ADDR x)) = frame (pde_at s (PGDIR_IDX_FROM_ADDR va))
        \<longleftrightarrow> PGDIR_IDX_FROM_ADDR x = PGDIR_IDX_FROM_ADDR va"
      using ok p pr PGDIR_less [of x] PGDIR_less [of va] unfolding paging_ok_def tables_ok_def by metis
    moreover have "pte_at ?t x = ld32 (st32 (ram s) (pte_addr s va) v) (pte_addr s x)"
      using \<open>pte_addr ?t x = pte_addr s x\<close> by (simp add: pte_at_def)
    ultimately show ?thesis
      using x(2) frame_eq_iff_idx [of x va] by (auto simp: pte_at_def pte_addr_def ld32_st32_entry PGTAB_less)
  qed
  then show ?thesis using x(1) pde by (simp add: vacant_def)
qed

lemma vacant_table:
  assumes ok: "paging_ok s" and i: "i < 1024" and np: "pde_at s i = 0"
    and p: "frame p = p" "p \<notin> pt_frames s" and x: "vacant s x" "PGDIR_IDX_FROM_ADDR x \<noteq> self_slot s"
  shows "vacant (install_table i p s) x"
proof -
  let ?u = "install_table i p s" and ?j = "PGDIR_IDX_FROM_ADDR x"
  note pde = install_table_walk(1) [OF ok i np p]
  have al: "aligned4 (pte_addr ?u x)" by (simp add: pte_addr_def page_simps PGTAB_less)
  have "pte_at ?u x = 0" if pr: "present (pde_at ?u ?j)"
  proof (cases "?j = i")
    case True
    have f: "frame (pte_addr ?u x) = p"
      using True by (simp add: pte_addr_def pde i page_simps PGTAB_less frame_page_entry [OF p(1)])
    show ?thesis unfolding pte_at_def
      by (rule ld32_zero) (use f frame_plus_in_word(1) [OF al] in \<open>simp add: install_table_def\<close>)
  next
    case False
    then have e: "pde_at ?u ?j = pde_at s ?j" by (simp add: pde PGDIR_less)
    with pr have prs: "present (pde_at s ?j)" by simp
    have "frame (pde_at s ?j) \<noteq> p" using pde_in_pt_frames [OF PGDIR_less, of s x] prs p(2) by auto
    moreover have "frame (pde_at s ?j) \<noteq> frame (cr3 s)" by (rule table_not_directory [OF ok PGDIR_less prs x(2)])
    moreover have "frame (pte_addr ?u x) = frame (pde_at s ?j)" by (simp add: pte_addr_def e page_simps PGTAB_less)
    moreover have "same_except {p, frame (cr3 s)} (ram s) (ram ?u)"
    proof -
      have "same_except {frame (cr3 s)} (ram s) (st32 (ram s) (entry (cr3 s) i) (p OR PAGE_PRESENT OR PAGE_WRITE))"
        by (rule same_except_st32) (simp_all add: page_simps i)
      then show ?thesis by (auto simp: same_except_def install_table_def)
    qed
    ultimately have "ld32 (ram ?u) (pte_addr ?u x) = ld32 (ram s) (pte_addr ?u x)"
      using ld32_same_except [OF _ al] by auto
    moreover have "pte_addr ?u x = pte_addr s x" by (simp add: pte_addr_def e)
    ultimately show ?thesis using x(1) prs by (simp add: pte_at_def vacant_def)
  qed
  then show ?thesis by (simp add: vacant_def)
qed

lemma vacant_map_page:
  assumes ok: "mm_ok s" and va: "mappable s va" and run: "map_page va pa flags s = Inr ((), t)"
    and table: "present (pde_at s (PGDIR_IDX_FROM_ADDR va)) \<or> free_pages s \<noteq> []"
    and x: "vacant s x" "PGDIR_IDX_FROM_ADDR x \<noteq> self_slot s" "frame x \<noteq> frame va"
  shows "vacant t x"
proof -
  have pg: "paging_ok s" and pool: "pool_ok s" using ok by (simp_all add: mm_ok_def)
  have nw: "\<not> window s va" "kernel_view s va" using va by (simp_all add: mappable_def)
  show ?thesis
  proof (cases "present (pde_at s (PGDIR_IDX_FROM_ADDR va))")
    case True
    from map_page_existing_step [OF pg True nw, of pa flags] run vacant_entry [OF pg True nw(1) x(1,3)]
    show ?thesis by auto
  next
    case False
    let ?i = "PGDIR_IDX_FROM_ADDR va"
    have z: "pde_at s ?i = 0" using False pg PGDIR_less [of va] unfolding paging_ok_def tables_ok_def by blast
    obtain xs p where xp: "free_pages s = xs @ [p]"
      using table False by (cases "free_pages s" rule: rev_cases) auto
    let ?s = "s\<lparr>pmm_stack_loc := pmm_stack_loc s - 4\<rparr>"
    have a: "pmm_alloc_page s = Inr (p, ?s)" using pmm_alloc_page_pops [OF ok xp] by auto
    have p: "frame p = p" "p \<notin> pt_frames s" using pool xp by (auto simp: pool_ok_def)
    have s': "paging_ok ?s" "pde_at ?s ?i = 0" "p \<notin> pt_frames ?s" "vacant ?s x" "PGDIR_IDX_FROM_ADDR x \<noteq> self_slot ?s"
      using pg z p x by (simp_all add: self_slot_def)
    let ?u = "install_table ?i p ?s"
    note u = install_table_walk [OF s'(1) PGDIR_less s'(2) p(1) s'(3)]
    have pr: "present (pde_at ?u ?i)" by (simp add: u(1) PGDIR_less)
    have nw': "\<not> window ?u va" using nw(1) by (simp add: window_def install_table_def self_slot_def)
    have kv': "kernel_view ?u va" using nw(2) u(2) by (auto simp: kernel_view_def Let_def install_table_def)
    have vu: "vacant ?u x" by (rule vacant_table [OF s'(1) PGDIR_less s'(2) p(1) s'(3,4,5)])
    have "map_page va pa flags ?u = Inr ((), t)" using map_page_installs [OF pg z a p, of pa flags] run by simp
    with map_page_existing_step [OF u(3) pr nw' kv', of pa flags] vacant_entry [OF u(3) pr nw' vu x(3)]
    show ?thesis by auto
  qed
qed

section \<open>Copies within owned memory\<close>

lemma owned_ram:
  assumes own: "owned s A" and m: "same_except F (ram s) m" and F: "F \<inter> pt_frames s = {}" "F \<inter> stack_frames s = {}"
  shows "owned (s\<lparr>ram := m\<rparr>) A" and "stores s (s\<lparr>ram := m\<rparr>)"
proof -
  let ?t = "s\<lparr>ram := m\<rparr>"
  have ok: "mm_ok s" and b: "buffer s A" using own by (simp_all add: owned_def)
  have tr: "translate ?t x = translate s x" for x by (rule translate_same [OF m F(1)])
  have trf: "translate ?t = translate s" using tr by auto
  have pt: "pt_frames ?t = pt_frames s" by (rule pt_frames_same [OF m F(1)])
  have "paging_ok s" using ok by (simp add: mm_ok_def)
  then have pg: "paging_ok ?t" using pde_at_same [OF m F(1)] tr
    by (simp add: paging_ok_def self_mapped_def tables_ok_def self_slot_def PGDIR_less)
  have dis: "pt_frames ?t \<inter> (set (free_pages s) \<union> stack_frames s) = {}"
    using ok unfolding pt mm_ok_def pool_ok_def stack_ok_def stack_mapped_def by blast
  have m': "same_except F (ram s) (ram ?t)" using m by simp
  have f: "pmm_stack_max ?t = pmm_stack_max s" "pmm_stack_loc ?t = pmm_stack_loc s" "pmm_paging_active ?t = pmm_paging_active s"
    by simp_all
  note t = mm_transfer [OF ok pg m' F(2) tr f dis]
  have "buffer ?t A" using b by (simp add: buffer_def trf pt)
  moreover have "self_slot ?t = self_slot s" by (simp add: self_slot_def)
  ultimately show "owned ?t A" using own t by (simp add: owned_def trf)
  show "stores s ?t" using t(2) by (simp add: stores_def trf)
qed

text \<open>Only memory outside the page tables and the pool has changed.\<close>

definition quiet :: "'a vm_scheme \<Rightarrow> 'a vm_scheme \<Rightarrow> bool" where
  "quiet s t \<longleftrightarrow> stores s t \<and> vacant t = vacant s"

lemma quiet_refl [simp]: "quiet s s"
  by (simp add: quiet_def)

lemma quiet_trans: "quiet s t \<Longrightarrow> quiet t u \<Longrightarrow> quiet s u"
  using stores_trans by (auto simp: quiet_def)

lemma owned_byte:
  assumes own: "owned s A" and a: "a \<in> A"
  shows "\<exists>t. vst8 a v s = Inr ((), t) \<and> owned t A \<and> quiet s t"
proof -
  obtain p where p: "translate s a = Some p" "frame p \<notin> pt_frames s" using own a by (auto simp: owned_def buffer_def)
  have "frame p \<notin> stack_frames s" using own a p(1) by (force simp: owned_def)
  then have F: "{frame p} \<inter> pt_frames s = {}" "{frame p} \<inter> stack_frames s = {}" using p(2) by simp_all
  have same: "same_except {frame p} (ram s) ((ram s)(p := v))" by (simp add: same_except_byte)
  show ?thesis using owned_ram [OF own same F] vacant_ram [OF same F(1)] by (simp add: vst8_def p(1) quiet_def fun_eq_iff)
qed

lemma memcpy_owned:
  assumes "owned s A" and "run_of d n \<subseteq> A" and "run_of a n \<subseteq> A"
  shows "\<exists>t. memcpy_loop n d a s = Inr ((), t) \<and> owned t A \<and> quiet s t"
  using assms
proof (induction n arbitrary: s d a)
  case 0
  then show ?case by (simp add: skip_run)
next
  case (Suc n)
  have sub: "d \<in> A" "run_of (d + 1) n \<subseteq> A" "a \<in> A" "run_of (a + 1) n \<subseteq> A"
    using Suc.prems(2,3) by (simp_all add: run_of_Suc)
  obtain p where "translate s a = Some p" using Suc.prems(1) sub(3) by (auto simp: owned_def buffer_def)
  then have r: "vld8 a s = Inr (ram s p, s)" by (simp add: vld8_def)
  obtain u where u: "vst8 d (ram s p) s = Inr ((), u)" "owned u A" "quiet s u"
    using owned_byte [OF Suc.prems(1) sub(1)] by blast
  obtain t where "memcpy_loop n (d + 1) (a + 1) u = Inr ((), t)" "owned t A" "quiet u t"
    using Suc.IH [OF u(2) sub(2,4)] by blast
  then show ?case using r u quiet_trans by (auto simp: bnd_run)
qed

section \<open>Reading a file into owned memory\<close>

text \<open>The file, as \<open>fs_read\<close> reads it: the node of an open file of the ramdisk with contents \<open>bs\<close>.\<close>

definition open_file :: "image \<Rightarrow> 'a initrd_scheme \<Rightarrow> u32 set \<Rightarrow> u32 \<Rightarrow> u32 \<Rightarrow> u32 \<Rightarrow> u8 list \<Rightarrow> bool" where
  "open_file im s A node i place bs \<longleftrightarrow> owned s A \<and> at_initrd_read im \<noteq> 0 \<and> word_at s (node + 156) (at_initrd_read im)
     \<and> file_at s node i place bs \<and> file_parts s node i place (length bs) \<subseteq> A"

lemma open_file_same:
  assumes f: "open_file im s A node i place bs" and own: "owned t B" "A \<subseteq> B" and fh: "file_headers t = file_headers s"
    and v: "\<forall>x \<in> file_parts s node i place (length bs). view t x = view s x"
  shows "open_file im t B node i place bs" and "file_parts t node i place n = file_parts s node i place n"
proof -
  have w: "word_at t a x = word_at s a x" if "run_of a 4 \<subseteq> file_parts s node i place (length bs)" for a x
    using v that unfolding word_at_def by (intro holds_same) (auto simp: length_word_bytes)
  have p: "run_of (node + 144) 4 \<subseteq> file_parts s node i place (length bs)" "run_of (node + 156) 4 \<subseteq> file_parts s node i place (length bs)"
    "run_of (header_offset (header_at (file_headers s) i)) 4 \<subseteq> file_parts s node i place (length bs)"
    "run_of (header_length (header_at (file_headers s) i)) 4 \<subseteq> file_parts s node i place (length bs)"
    by (auto simp: file_parts_def)
  have h: "holds t place bs = holds s place bs" by (rule holds_same) (use v in \<open>simp add: file_parts_def\<close>)
  show e: "file_parts t node i place n = file_parts s node i place n" for n by (simp add: file_parts_def fh)
  show "open_file im t B node i place bs"
    using f own w [OF p(1)] w [OF p(2)] w [OF p(3)] w [OF p(4)] h unfolding open_file_def file_at_def e fh by blast
qed

lemma read_owned:
  assumes f: "open_file im s A node i place bs" and off: "unat offset \<le> length bs"
    and nw: "unat offset + unat sz < 4294967296" and n: "n = min (unat sz) (length bs - unat offset)"
    and buf: "run_of buf n \<subseteq> A" "run_of buf n \<inter> file_parts s node i place (length bs) = {}"
  shows "\<exists>t. fs_read (call_read im) node offset sz buf s = Inr (of_nat n, t) \<and> holds t buf (take n (drop (unat offset) bs))
    \<and> open_file im t A node i place bs \<and> quiet s t \<and> file_headers t = file_headers s
    \<and> (\<forall>x \<in> A - run_of buf n. view t x = view s x)"
proof -
  have own: "owned s A" and r: "at_initrd_read im \<noteq> 0" "word_at s (node + 156) (at_initrd_read im)"
    and fa: "file_at s node i place bs" and sub: "file_parts s node i place (length bs) \<subseteq> A"
    using f by (simp_all add: open_file_def)
  have b: "buffer s A" using own by (simp add: owned_def)
  obtain t where t: "initrd_read node offset sz buf s = Inr (of_nat n, t)" "holds t buf (take n (drop (unat offset) bs))"
    "t = s\<lparr>ram := ram t\<rparr>" "\<forall>x \<in> A - run_of buf n. view t x = view s x"
    using initrd_read_part [OF fa off nw n b buf(1) sub buf(2)] by blast
  have un: "unat (of_nat n :: u32) = n"
    using n unat_u32_less [of sz] by (simp add: unat_of_nat)
  have "memcpy buf (place + offset) (of_nat n) s = Inr (buf, t)"
    using t(1) off unfolding initrd_read_run [OF fa] by (auto simp: Let_def memcpy_def bnd_run ret_run split: sum.splits)
  then have m: "memcpy_loop n buf (place + offset) s = Inr ((), t)"
    by (auto simp: memcpy_def un bnd_run ret_run split: sum.splits)
  have "run_of (place + of_nat (unat offset)) n \<subseteq> run_of place (length bs)"
    by (rule run_of_drop) (use n off in linarith)
  then have "run_of (place + offset) n \<subseteq> run_of place (length bs)" by simp
  then have "run_of (place + offset) n \<subseteq> A" using sub unfolding file_parts_def by blast
  from memcpy_owned [OF own buf(1) this] m have o: "owned t A" "quiet s t" by auto
  have fh: "file_headers t = file_headers s" by (subst t(3)) simp
  have "\<forall>x \<in> file_parts s node i place (length bs). view t x = view s x" using t(4) sub buf(2) by blast
  then have "open_file im t A node i place bs" using open_file_same(1) [OF f o(1) order.refl fh] by blast
  then show ?thesis using t o fh fs_read_initrd [OF r] by metis
qed


section \<open>Memory for a segment\<close>

definition pages_area :: "u32 \<Rightarrow> u32 \<Rightarrow> u32 set" where
  "pages_area va e = {x. va \<le> x \<and> x < e}"

lemma allocate_page_owned:
  assumes own: "owned s A" and va: "mappable s va" "off va = 0" "vacant s va" and fl: "frame flags = 0"
    and free: "2 \<le> length (free_pages s)"
  shows "\<exists>t. allocate_page va flags s = Inr ((), t) \<and> owned t (A \<union> page_of va) \<and> grows s t
    \<and> length (free_pages s) \<le> length (free_pages t) + 2 \<and> (\<forall>x \<in> A. view t x = view s x)
    \<and> (\<forall>x. vacant s x \<longrightarrow> PGDIR_IDX_FROM_ADDR x \<noteq> self_slot s \<longrightarrow> frame x \<noteq> va \<longrightarrow> vacant t x)"
proof -
  have ok: "mm_ok s" and pg: "paging_ok s" using own by (simp_all add: owned_def mm_ok_def)
  have fv: "frame va = va" using va(2) frame_plus_off [of va] by simp
  have new: "A \<inter> page_of va = {}"
  proof -
    have "translate s x = None" if "x \<in> page_of va" for x
    proof -
      have "frame x = frame va" using that by (simp add: page_of_def)
      then have "PGDIR_IDX_FROM_ADDR x = PGDIR_IDX_FROM_ADDR va" "PGTAB_IDX_FROM_ADDR x = PGTAB_IDX_FROM_ADDR va"
        by (simp_all add: frame_eq_iff_idx)
      then have "vacant s x" using va(3) by (simp add: vacant_def pte_at_def pte_addr_def)
      then show ?thesis by (rule vacant_untranslated [OF pg])
    qed
    moreover have "translate s x \<noteq> None" if "x \<in> A" for x using own that by (auto simp: owned_def buffer_def)
    ultimately show ?thesis by blast
  qed
  obtain p u t where t: "pmm_alloc_page s = Inr (p, u)" "map_page va p flags u = Inr ((), t)"
    "owned t (A \<union> page_of va)" "grows s t" "length (free_pages s) \<le> length (free_pages t) + 2" "\<forall>x \<in> A. view t x = view s x"
    using owned_map [OF own va(1) fl free new] by blast
  obtain xs p' where xp: "free_pages s = xs @ [p']" using free by (cases "free_pages s" rule: rev_cases) auto
  have pp: "p' = p" "u = s\<lparr>pmm_stack_loc := pmm_stack_loc s - 4\<rparr>" "mm_ok u" "free_pages u = xs"
    using pmm_alloc_page_pops [OF ok xp] t(1) by auto
  have gu: "grows s u" using grows_alloc [OF ok xp] t(1) by auto
  have ne: "free_pages u \<noteq> []" using free xp pp(4) by auto
  have mu: "mappable u va" by (rule grows_mappable [OF gu va(1)])
  have "vacant t x" if "vacant s x" "PGDIR_IDX_FROM_ADDR x \<noteq> self_slot s" "frame x \<noteq> va" for x
    using vacant_map_page [OF pp(3) mu t(2) disjI2 [OF ne], of x] that fv by (simp add: pp(2) self_slot_def)
  moreover have "allocate_page va flags s = Inr ((), t)"
    using vacant_get_mapping [OF pg va(3)] t(1,2) by (simp add: allocate_page_def bnd_run)
  ultimately show ?thesis using t(3-) by blast
qed

lemma allocate_loop_owned:
  assumes "owned s A" and "off va = 0" and e: "off e = 0" and "va \<le> e" and fl: "frame flags = 0"
    and "\<forall>x \<in> pages_area va e. mappable s x \<and> vacant s x"
    and "2 * ((unat e - unat va) div 4096) \<le> length (free_pages s)"
    and "(unat e - unat va) div 4096 < n"
  shows "\<exists>t. allocate_loop n va e flags s = Inr (e, t) \<and> owned t (A \<union> pages_area va e) \<and> grows s t
    \<and> length (free_pages s) \<le> length (free_pages t) + 2 * ((unat e - unat va) div 4096)
    \<and> (\<forall>x \<in> A. view t x = view s x)
    \<and> (\<forall>x. vacant s x \<longrightarrow> PGDIR_IDX_FROM_ADDR x \<noteq> self_slot s \<longrightarrow> x \<notin> pages_area va e \<longrightarrow> vacant t x)"
  using assms(1,2,4,6-)
proof (induction n arbitrary: va s A)
  case 0
  then show ?case by simp
next
  case (Suc n)
  show ?case
  proof (cases "va < e")
    case False
    then have "pages_area va e = {}" "va = e" using Suc.prems(3) by (auto simp: pages_area_def)
    with False Suc.prems(1) show ?thesis by (simp add: ret_run grows_refl owned_def)
  next
    case lt: True
    note st = page_step [OF Suc.prems(2) e lt] and inp = in_first_page [OF Suc.prems(2) e lt]
    have fv: "frame va = va" using Suc.prems(2) frame_plus_off [of va] by simp
    have pg: "page_of va = {x. frame x = va}" by (simp add: page_of_def fv)
    have split: "pages_area va e = page_of va \<union> pages_area (va + PAGE_SIZE) e"
      using inp by (auto simp: pages_area_def pg)
    have le: "unat va + 4096 \<le> unat e" using st(1,3) by (simp add: word_le_nat_alt)
    have len: "(unat e - unat va) div 4096 = Suc ((unat e - unat (va + PAGE_SIZE)) div 4096)"
      using st(1) le by (simp add: le_div_geq)
    have vin: "va \<in> page_of va" by (simp add: page_of_def)
    have here: "mappable s va" "vacant s va" using Suc.prems(4) vin split by blast+
    have free: "2 \<le> length (free_pages s)" using Suc.prems(5) len by simp
    obtain u where u: "allocate_page va flags s = Inr ((), u)" "owned u (A \<union> page_of va)" "grows s u"
      "length (free_pages s) \<le> length (free_pages u) + 2" "\<forall>x \<in> A. view u x = view s x"
      "\<forall>x. vacant s x \<longrightarrow> PGDIR_IDX_FROM_ADDR x \<noteq> self_slot s \<longrightarrow> frame x \<noteq> va \<longrightarrow> vacant u x"
      using allocate_page_owned [OF Suc.prems(1) here(1) Suc.prems(2) here(2) fl free] by blast
    have later: "mappable u x \<and> vacant u x" if x: "x \<in> pages_area (va + PAGE_SIZE) e" for x
    proof -
      have m: "mappable s x" "vacant s x" using Suc.prems(4) x split by blast+
      have "va + PAGE_SIZE \<le> x" using x by (simp add: pages_area_def)
      then have "unat va + 4096 \<le> unat x" using st(1) by (simp add: word_le_nat_alt)
      moreover have "unat x < unat (frame x) + 4096" using unat_frame [of x] dividend_less_div_times [of 4096 "unat x"] by simp
      ultimately have "frame x \<noteq> va" by auto
      moreover have "PGDIR_IDX_FROM_ADDR x \<noteq> self_slot s" using m(1) by (simp add: mappable_def window_def)
      ultimately show ?thesis using u(6) m grows_mappable [OF u(3)] by blast
    qed
    have "2 * ((unat e - unat (va + PAGE_SIZE)) div 4096) \<le> length (free_pages u)"
      "(unat e - unat (va + PAGE_SIZE)) div 4096 < n"
      using len Suc.prems(5,6) u(4) by simp_all
    with Suc.IH [OF u(2) st(2,3)] later obtain t where
      t: "allocate_loop n (va + PAGE_SIZE) e flags u = Inr (e, t)" "owned t ((A \<union> page_of va) \<union> pages_area (va + PAGE_SIZE) e)"
        "grows u t" "length (free_pages u) \<le> length (free_pages t) + 2 * ((unat e - unat (va + PAGE_SIZE)) div 4096)"
        "\<forall>x \<in> A \<union> page_of va. view t x = view u x"
        "\<forall>x. vacant u x \<longrightarrow> PGDIR_IDX_FROM_ADDR x \<noteq> self_slot u \<longrightarrow> x \<notin> pages_area (va + PAGE_SIZE) e \<longrightarrow> vacant t x"
      by blast
    have "allocate_loop (Suc n) va e flags s = Inr (e, t)" using u(1) t(1) lt by (simp add: bnd_run)
    moreover have "length (free_pages s) \<le> length (free_pages t) + 2 * ((unat e - unat va) div 4096)"
      using u(4) t(4) len by simp
    moreover have "vacant t x" if "vacant s x" "PGDIR_IDX_FROM_ADDR x \<noteq> self_slot s" "x \<notin> pages_area va e" for x
      using that u(6) t(6) grows_fields(7) [OF u(3)] unfolding split pg by simp
    ultimately show ?thesis using t(2,5) u(5) grows_trans [OF u(3) t(3)] unfolding split Un_assoc by auto
  qed
qed


section \<open>What the file says\<close>

definition file_word :: "u8 list \<Rightarrow> nat \<Rightarrow> u32" where
  "file_word bs o' = bytes_word (bs ! o') (bs ! (o' + 1)) (bs ! (o' + 2)) (bs ! (o' + 3))"

definition file_half :: "u8 list \<Rightarrow> nat \<Rightarrow> u16" where
  "file_half bs o' = ucast (bs ! o') OR push_bit 8 (ucast (bs ! (o' + 1)))"

text \<open>The fields of the program header at offset \<open>h\<close>; \<open>loads\<close> is the test that the loader makes.\<close>

definition seg_loads :: "u8 list \<Rightarrow> nat \<Rightarrow> bool" where "seg_loads bs h \<longleftrightarrow> file_word bs h = PF_X"
definition seg_offset :: "u8 list \<Rightarrow> nat \<Rightarrow> u32" where "seg_offset bs h = file_word bs (h + 4)"
definition seg_vaddr :: "u8 list \<Rightarrow> nat \<Rightarrow> u32" where "seg_vaddr bs h = file_word bs (h + 8)"
definition seg_filesz :: "u8 list \<Rightarrow> nat \<Rightarrow> u32" where "seg_filesz bs h = file_word bs (h + 16)"
definition seg_memsz :: "u8 list \<Rightarrow> nat \<Rightarrow> u32" where "seg_memsz bs h = file_word bs (h + 20)"

definition seg_start :: "u8 list \<Rightarrow> nat \<Rightarrow> u32" where "seg_start bs h = PAGE_ROUND_DOWN (seg_vaddr bs h)"
definition seg_end :: "u8 list \<Rightarrow> nat \<Rightarrow> u32" where "seg_end bs h = PAGE_ROUND_UP (seg_vaddr bs h + seg_memsz bs h)"
definition seg_area :: "u8 list \<Rightarrow> nat \<Rightarrow> u32 set" where
  "seg_area bs h = (if seg_loads bs h then pages_area (seg_start bs h) (seg_end bs h) else {})"
definition seg_pages :: "u8 list \<Rightarrow> nat \<Rightarrow> nat" where
  "seg_pages bs h = (if seg_loads bs h then (unat (seg_end bs h) - unat (seg_start bs h)) div 4096 else 0)"

text \<open>The bytes that belong at the address of the segment.\<close>

definition seg_bytes :: "u8 list \<Rightarrow> nat \<Rightarrow> u8 list" where
  "seg_bytes bs h = take (unat (seg_filesz bs h)) (drop (unat (seg_offset bs h)) bs)"

definition seg_ok :: "u8 list \<Rightarrow> nat \<Rightarrow> bool" where
  "seg_ok bs h \<longleftrightarrow> h + 32 \<le> length bs \<and> (seg_loads bs h \<longrightarrow>
     unat (seg_offset bs h) + unat (seg_filesz bs h) \<le> length bs
     \<and> seg_filesz bs h \<le> seg_memsz bs h \<and> unat (seg_vaddr bs h) + unat (seg_memsz bs h) + 4096 \<le> 4294967296)"

lemma holds_word: "holds s a (take n (drop o' bs)) \<Longrightarrow> k + 4 \<le> n \<Longrightarrow> o' + n \<le> length bs \<Longrightarrow>
    word_at s (a + of_nat k) (file_word bs (o' + k))"
proof -
  assume h: "holds s a (take n (drop o' bs))" and k: "k + 4 \<le> n" "o' + n \<le> length bs"
  have v: "view s (a + of_nat k + of_nat i) = Some (bs ! (o' + k + i))" if i: "i < 4" for i
  proof -
    have "k + i < length (take n (drop o' bs))" using i k by simp
    then have "view s (a + of_nat (k + i)) = Some (take n (drop o' bs) ! (k + i))" using h unfolding holds_def by blast
    then show ?thesis using i k by (simp add: add.assoc)
  qed
  show "word_at s (a + of_nat k) (file_word bs (o' + k))"
    using v [of 0] v [of 1] v [of 2] v [of 3]
    by (simp add: word_at_def file_word_def word_bytes_word holds_Cons add.assoc)
qed


lemma holds_half: "holds s a (take n (drop o' bs)) \<Longrightarrow> k + 2 \<le> n \<Longrightarrow> o' + n \<le> length bs \<Longrightarrow>
    vld16 (a + of_nat k) s = Inr (file_half bs (o' + k), s)"
proof -
  assume h: "holds s a (take n (drop o' bs))" and k: "k + 2 \<le> n" "o' + n \<le> length bs"
  have v: "view s (a + of_nat k + of_nat i) = Some (bs ! (o' + k + i))" if i: "i < 2" for i
  proof -
    have "k + i < length (take n (drop o' bs))" using i k by simp
    then have "view s (a + of_nat (k + i)) = Some (take n (drop o' bs) ! (k + i))" using h unfolding holds_def by blast
    then show ?thesis using i k by (simp add: add.assoc)
  qed
  show ?thesis
    using vld8_view [OF v [of 0, simplified]] vld8_view [OF v [of 1, simplified]]
    by (simp add: vld16_def bnd_run ret_run file_half_def)
qed

section \<open>One segment\<close>

lemma seg_bounds:
  assumes "seg_ok bs h" and "seg_loads bs h"
  shows "seg_start bs h \<le> seg_end bs h" and "run_of (seg_vaddr bs h) (unat (seg_filesz bs h)) \<subseteq> seg_area bs h"
    and "(unat (seg_end bs h) - unat (seg_start bs h)) div 4096 < page_fuel"
proof -
  let ?va = "seg_vaddr bs h" and ?e = "seg_vaddr bs h + seg_memsz bs h"
  have nw: "unat ?va + unat (seg_memsz bs h) + 4096 \<le> 4294967296" and fm: "unat (seg_filesz bs h) \<le> unat (seg_memsz bs h)"
    using assms by (simp_all add: seg_ok_def word_le_nat_alt)
  have e: "unat ?e = unat ?va + unat (seg_memsz bs h)" using nw by (simp add: unat_word_ariths)
  have up: "unat ?e \<le> unat (PAGE_ROUND_UP ?e)" by (rule round_up_bounds(2)) (use e nw in simp)
  have dn: "unat (PAGE_ROUND_DOWN ?va) \<le> unat ?va" by (simp add: PAGE_ROUND_DOWN_def unat_frame)
  show "seg_start bs h \<le> seg_end bs h" using up dn e by (simp add: seg_start_def seg_end_def word_le_nat_alt)
  show "run_of ?va (unat (seg_filesz bs h)) \<subseteq> seg_area bs h"
  proof
    fix x assume "x \<in> run_of ?va (unat (seg_filesz bs h))"
    then obtain i where i: "i < unat (seg_filesz bs h)" "x = ?va + of_nat i" by (auto simp: run_of_def)
    then have "unat x = unat ?va + i" using nw fm by (simp add: unat_word_ariths unat_of_nat)
    then show "x \<in> seg_area bs h" using i(1) fm up dn e assms(2)
      by (simp add: seg_area_def pages_area_def seg_start_def seg_end_def word_le_nat_alt word_less_nat_alt)
  qed
  have "unat (seg_end bs h) div 4096 < page_fuel"
    using unat_u32_less [of "seg_end bs h"] by (simp add: page_fuel_def less_mult_imp_div_less)
  then show "(unat (seg_end bs h) - unat (seg_start bs h)) div 4096 < page_fuel"
    by (meson diff_le_self div_le_mono le_less_trans)
qed

lemma header_fields:
  assumes "holds s p (take 32 (drop h bs))" and "h + 32 \<le> length bs"
  shows "p_type p s = Inr (file_word bs h, s)" and "p_offset p s = Inr (seg_offset bs h, s)"
    and "p_vaddr p s = Inr (seg_vaddr bs h, s)" and "p_filesz p s = Inr (seg_filesz bs h, s)"
    and "p_memsz p s = Inr (seg_memsz bs h, s)"
  using vld32_word [OF holds_word [OF assms(1) _ assms(2), of 0]] vld32_word [OF holds_word [OF assms(1) _ assms(2), of 4]]
    vld32_word [OF holds_word [OF assms(1) _ assms(2), of 8]] vld32_word [OF holds_word [OF assms(1) _ assms(2), of 16]]
    vld32_word [OF holds_word [OF assms(1) _ assms(2), of 20]]
  by (simp_all add: p_type_def p_offset_def p_vaddr_def p_filesz_def p_memsz_def seg_offset_def seg_vaddr_def
      seg_filesz_def seg_memsz_def)

text \<open>What the loader's steps may do to the rest of the machine.\<close>

definition loads_on :: "'a initrd_scheme \<Rightarrow> 'a initrd_scheme \<Rightarrow> u32 set \<Rightarrow> nat \<Rightarrow> bool" where
  "loads_on s t R n \<longleftrightarrow> file_headers t = file_headers s \<and> self_slot t = self_slot s
     \<and> length (free_pages s) \<le> length (free_pages t) + 2 * n
     \<and> (\<forall>x. mappable s x \<longrightarrow> mappable t x)
     \<and> (\<forall>x. vacant s x \<longrightarrow> PGDIR_IDX_FROM_ADDR x \<noteq> self_slot s \<longrightarrow> x \<notin> R \<longrightarrow> vacant t x)"

lemma loads_on_trans: "loads_on s t R m \<Longrightarrow> loads_on t u S n \<Longrightarrow> loads_on s u (R \<union> S) (m + n)"
  unfolding loads_on_def by auto

lemma quiet_loads:
  assumes "quiet s t" and "file_headers t = file_headers s"
  shows "loads_on s t {} 0"
proof -
  have st: "stores s t" and v: "vacant t = vacant s" using assms(1) by (simp_all add: quiet_def)
  have "t = s\<lparr>ram := ram t\<rparr>" "free_pages t = free_pages s" using st by (simp_all add: stores_def)
  moreover have "self_slot t = self_slot s" by (subst \<open>t = s\<lparr>ram := ram t\<rparr>\<close>) simp
  ultimately show ?thesis using assms(2) v stores_mappable [OF st] by (simp add: loads_on_def)
qed

lemma owned_vacant_disjoint:
  assumes "owned s A" and "\<forall>x \<in> R. vacant s x"
  shows "A \<inter> R = {}"
proof -
  have pg: "paging_ok s" using assms(1) by (simp add: owned_def mm_ok_def)
  have "translate s x \<noteq> None" if "x \<in> A" for x using assms(1) that by (auto simp: owned_def buffer_def)
  then show ?thesis using assms(2) vacant_untranslated [OF pg] by blast
qed

lemma segment_memory:
  assumes own: "owned s A" and ok: "seg_ok bs h" "seg_loads bs h"
    and new: "\<forall>x \<in> seg_area bs h. mappable s x \<and> vacant s x"
    and free: "2 * seg_pages bs h \<le> length (free_pages s)"
  shows "\<exists>e t. allocate_range (seg_vaddr bs h) (seg_vaddr bs h + seg_memsz bs h) (PAGE_WRITE OR PAGE_USER) s = Inr (e, t)
    \<and> owned t (A \<union> seg_area bs h) \<and> file_headers t = file_headers s \<and> (\<forall>x \<in> A. view t x = view s x)
    \<and> loads_on s t (seg_area bs h) (seg_pages bs h)"
proof -
  note b = seg_bounds [OF ok]
  have area: "seg_area bs h = pages_area (seg_start bs h) (seg_end bs h)"
    and num: "seg_pages bs h = (unat (seg_end bs h) - unat (seg_start bs h)) div 4096"
    using ok(2) by (simp_all add: seg_area_def seg_pages_def)
  have al: "off (seg_start bs h) = 0" "off (seg_end bs h) = 0"
    by (simp_all add: seg_start_def seg_end_def PAGE_ROUND_DOWN_def PAGE_ROUND_UP_def)
  have fl: "frame (PAGE_WRITE OR PAGE_USER) = 0" by (simp add: PAGE_WRITE_def PAGE_USER_def PAGE_ADDR_MASK_def)
  obtain t where t: "allocate_loop page_fuel (seg_start bs h) (seg_end bs h) (PAGE_WRITE OR PAGE_USER) s = Inr (seg_end bs h, t)"
    "owned t (A \<union> seg_area bs h)" "grows s t" "length (free_pages s) \<le> length (free_pages t) + 2 * seg_pages bs h"
    "\<forall>x \<in> A. view t x = view s x"
    "\<forall>x. vacant s x \<longrightarrow> PGDIR_IDX_FROM_ADDR x \<noteq> self_slot s \<longrightarrow> x \<notin> seg_area bs h \<longrightarrow> vacant t x"
    using allocate_loop_owned [OF own al b(1) fl new [unfolded area] free [unfolded num] b(3)]
    unfolding area num by blast
  have eq: "t = s\<lparr>pmm_stack_loc := pmm_stack_loc t, ram := ram t, klog := klog t\<rparr>" using t(3) by (simp add: grows_def)
  have fh: "file_headers t = file_headers s" by (subst eq) simp
  have "loads_on s t (seg_area bs h) (seg_pages bs h)"
    using fh t(4,6) grows_fields(7) [OF t(3)] grows_mappable [OF t(3)] by (simp add: loads_on_def)
  with t(1,2,5) fh show ?thesis unfolding allocate_range_def seg_start_def seg_end_def by blast
qed

lemma load_segment_run:
  assumes f: "open_file im s A node i place bs" and hd: "holds s p_hdr (take 32 (drop h bs))" "run_of p_hdr 32 \<subseteq> A"
    and ok: "seg_ok bs h" and new: "\<forall>x \<in> seg_area bs h. mappable s x \<and> vacant s x"
    and free: "2 * seg_pages bs h \<le> length (free_pages s)"
  shows "\<exists>t. load_segment (call_read im) node p_hdr s = Inr ((), t) \<and> open_file im t (A \<union> seg_area bs h) node i place bs
    \<and> (seg_loads bs h \<longrightarrow> holds t (seg_vaddr bs h) (seg_bytes bs h)) \<and> (\<forall>x \<in> A. view t x = view s x)
    \<and> loads_on s t (seg_area bs h) (seg_pages bs h)"
proof -
  have len: "h + 32 \<le> length bs" using ok by (simp add: seg_ok_def)
  note hf = header_fields [OF hd(1) len]
  show ?thesis
  proof (cases "seg_loads bs h")
    case False
    then have "load_segment (call_read im) node p_hdr s = Inr ((), s)"
      using hf by (auto simp: load_segment_def bnd_run skip_run seg_loads_def)
    then show ?thesis using f False by (auto simp: seg_area_def seg_pages_def loads_on_def)
  next
    case True
    have own: "owned s A" and sub: "file_parts s node i place (length bs) \<subseteq> A" using f by (simp_all add: open_file_def)
    have dis: "A \<inter> seg_area bs h = {}" using owned_vacant_disjoint [OF own] new by blast
    obtain e u where u: "allocate_range (seg_vaddr bs h) (seg_vaddr bs h + seg_memsz bs h) (PAGE_WRITE OR PAGE_USER) s = Inr (e, u)"
      "owned u (A \<union> seg_area bs h)" "file_headers u = file_headers s" "\<forall>x \<in> A. view u x = view s x"
      "loads_on s u (seg_area bs h) (seg_pages bs h)"
      using segment_memory [OF own ok True new free] by blast
    have fu: "open_file im u (A \<union> seg_area bs h) node i place bs"
      "file_parts u node i place (length bs) = file_parts s node i place (length bs)"
      using open_file_same [OF f u(2) _ u(3)] u(4) sub by blast+
    have "holds u p_hdr (take 32 (drop h bs)) = holds s p_hdr (take 32 (drop h bs))"
      by (rule holds_same) (use u(4) hd(2) len in auto)
    then have hu: "holds u p_hdr (take 32 (drop h bs))" using hd(1) by simp
    note hfu = header_fields [OF hu len]
    have inf: "unat (seg_offset bs h) + unat (seg_filesz bs h) \<le> length bs" using ok True by (simp add: seg_ok_def)
    have lb: "length bs < 4294967296" using f by (simp add: open_file_def file_at_def)
    have n: "unat (seg_filesz bs h) = min (unat (seg_filesz bs h)) (length bs - unat (seg_offset bs h))" using inf by simp
    note buf = seg_bounds(2) [OF ok True]
    have dis': "run_of (seg_vaddr bs h) (unat (seg_filesz bs h)) \<inter> file_parts u node i place (length bs) = {}"
      using buf dis sub fu(2) by blast
    have o: "unat (seg_offset bs h) \<le> length bs" "unat (seg_offset bs h) + unat (seg_filesz bs h) < 4294967296"
      using inf lb by linarith+
    have buf': "run_of (seg_vaddr bs h) (unat (seg_filesz bs h)) \<subseteq> A \<union> seg_area bs h" using buf by blast
    obtain t where t: "fs_read (call_read im) node (seg_offset bs h) (seg_filesz bs h) (seg_vaddr bs h) u
        = Inr (of_nat (unat (seg_filesz bs h)), t)" "holds t (seg_vaddr bs h) (seg_bytes bs h)"
      "open_file im t (A \<union> seg_area bs h) node i place bs" "quiet u t" "file_headers t = file_headers u"
      "\<forall>x \<in> (A \<union> seg_area bs h) - run_of (seg_vaddr bs h) (unat (seg_filesz bs h)). view t x = view u x"
      using read_owned [OF fu(1) o n buf' dis'] unfolding seg_bytes_def by blast
    have "load_segment (call_read im) node p_hdr s = Inr ((), t)"
      using hf hfu u(1) t(1) True by (simp add: load_segment_def bnd_run skip_run seg_loads_def)
    moreover have "loads_on s t (seg_area bs h) (seg_pages bs h)"
      using loads_on_trans [OF u(5) quiet_loads [OF t(4,5)]] by simp
    moreover have "view t x = view s x" if x: "x \<in> A" for x
    proof -
      have "x \<notin> run_of (seg_vaddr bs h) (unat (seg_filesz bs h))" using x dis buf by blast
      then show ?thesis using x t(6) u(4) by simp
    qed
    ultimately show ?thesis using t(2,3) by blast
  qed
qed

section \<open>All segments\<close>

text \<open>The offsets of \<open>n\<close> program headers, from \<open>h\<close>.\<close>

primrec seg_headers :: "nat \<Rightarrow> nat \<Rightarrow> nat list" where
  "seg_headers h 0 = []"
| "seg_headers h (Suc n) = h # seg_headers (h + 32) n"

definition segs_area :: "u8 list \<Rightarrow> nat list \<Rightarrow> u32 set" where
  "segs_area bs hs = (\<Union>h \<in> set hs. seg_area bs h)"

primrec segs_apart :: "u8 list \<Rightarrow> nat list \<Rightarrow> bool" where
  "segs_apart bs [] \<longleftrightarrow> True"
| "segs_apart bs (h # hs) \<longleftrightarrow> seg_area bs h \<inter> segs_area bs hs = {} \<and> segs_apart bs hs"

lemma segs_area_Cons [simp]: "segs_area bs (h # hs) = seg_area bs h \<union> segs_area bs hs"
  by (simp add: segs_area_def)

lemma segs_area_Nil [simp]: "segs_area bs [] = {}"
  by (simp add: segs_area_def)

lemma unat_half: "unat (ucast (v :: u16) :: u32) = unat v"
  by transfer (simp add: take_bit_take_bit)

lemma unat_half_less: "unat (v :: u16) < 65536"
proof -
  have "unat v < 2 ^ LENGTH(16)" by (rule unsigned_less)
  then show ?thesis by simp
qed

text \<open>The buffer of the header is read again for each segment.\<close>

lemma load_segments_run:
  fixes s :: "'a initrd_scheme"
  assumes "open_file im s A node i place bs"
    and num: "\<And>t :: 'a initrd_scheme. (\<forall>x \<in> A - run_of p_hdr 32. view t x = view s x) \<Longrightarrow> e_phnum elf_hdr t = Inr (num, t)"
    and p: "run_of p_hdr 32 \<subseteq> A" "run_of p_hdr 32 \<inter> file_parts s node i place (length bs) = {}"
    and k: "unat k + n = unat num" and off: "unat offs + 32 * n \<le> length bs"
    and segs: "\<forall>h \<in> set (seg_headers (unat offs) n). seg_ok bs h" "segs_apart bs (seg_headers (unat offs) n)"
    and new: "\<forall>x \<in> segs_area bs (seg_headers (unat offs) n). mappable s x \<and> vacant s x"
    and free: "2 * sum_list (map (seg_pages bs) (seg_headers (unat offs) n)) \<le> length (free_pages s)"
    and fuel: "n < m"
  shows "\<exists>t. load_segments m (call_read im) node elf_hdr p_hdr k offs s = Inr ((), t)
    \<and> open_file im t (A \<union> segs_area bs (seg_headers (unat offs) n)) node i place bs
    \<and> (\<forall>h \<in> set (seg_headers (unat offs) n). seg_loads bs h \<longrightarrow> holds t (seg_vaddr bs h) (seg_bytes bs h))
    \<and> (\<forall>x \<in> A - run_of p_hdr 32. view t x = view s x)"
  using assms
proof (induction n arbitrary: m s A k offs)
  case 0
  then obtain m' where m: "m = Suc m'" by (cases m) auto
  have "e_phnum elf_hdr s = Inr (num, s)" using "0.prems"(2) by simp
  moreover have "\<not> k < ucast num" using "0.prems"(5) by (simp add: word_less_nat_alt unat_half)
  ultimately have "load_segments m (call_read im) node elf_hdr p_hdr k offs s = Inr ((), s)"
    by (simp add: m bnd_run skip_run)
  with "0.prems"(1) show ?case by simp
next
  case (Suc n)
  then obtain m' where m: "m = Suc m'" by (cases m) auto
  let ?h = "unat offs" and ?hs = "seg_headers (unat offs + 32) n"
  have lb: "length bs < 4294967296" using Suc.prems(1) by (simp add: open_file_def file_at_def)
  have nh: "e_phnum elf_hdr s = Inr (num, s)" using Suc.prems(2) by simp
  have lt: "k < ucast num" using Suc.prems(5) by (simp add: word_less_nat_alt unat_half)
  have ph: "unat sizeof_phdr = 32" by (simp add: sizeof_phdr_def)
  have o: "unat offs \<le> length bs" "unat offs + unat sizeof_phdr < 4294967296"
    "32 = min (unat sizeof_phdr) (length bs - unat offs)" using Suc.prems(6) lb unfolding ph by simp_all
  obtain u where u: "fs_read (call_read im) node offs sizeof_phdr p_hdr s = Inr (of_nat 32, u)"
    "holds u p_hdr (take 32 (drop ?h bs))" "open_file im u A node i place bs" "quiet s u"
    "file_headers u = file_headers s" "\<forall>x \<in> A - run_of p_hdr 32. view u x = view s x"
    using read_owned [OF Suc.prems(1) o Suc.prems(3,4)] by blast
  have lu: "loads_on s u {} 0" by (rule quiet_loads [OF u(4,5)])
  have ok: "seg_ok bs ?h" and apart: "seg_area bs ?h \<inter> segs_area bs ?hs = {}" "segs_apart bs ?hs"
    using Suc.prems(7,8) by simp_all
  have win: "PGDIR_IDX_FROM_ADDR x \<noteq> self_slot s" if "mappable s x" for x
    using that by (simp add: mappable_def window_def)
  have new: "\<forall>x \<in> seg_area bs ?h. mappable u x \<and> vacant u x"
    using Suc.prems(9) lu win by (simp add: loads_on_def)
  have free: "2 * seg_pages bs ?h \<le> length (free_pages u)" using Suc.prems(10) lu by (simp add: loads_on_def)
  obtain v where v: "load_segment (call_read im) node p_hdr u = Inr ((), v)"
    "open_file im v (A \<union> seg_area bs ?h) node i place bs"
    "seg_loads bs ?h \<longrightarrow> holds v (seg_vaddr bs ?h) (seg_bytes bs ?h)" "\<forall>x \<in> A. view v x = view u x"
    "loads_on u v (seg_area bs ?h) (seg_pages bs ?h)"
    using load_segment_run [OF u(3,2) Suc.prems(3) ok new free] by blast
  have lv: "loads_on s v (seg_area bs ?h) (seg_pages bs ?h)" using loads_on_trans [OF lu v(5)] by simp
  have dis: "A \<inter> seg_area bs ?h = {}"
    using owned_vacant_disjoint [of u A] u(3) new by (simp add: open_file_def)
  have same: "\<forall>x \<in> A - run_of p_hdr 32. view v x = view s x" using u(6) v(4) by simp
  have step: "unat (offs + sizeof_phdr) = unat offs + 32" using o(2) ph by (simp add: unat_word_ariths)
  have kk: "unat (k + 1) = unat k + 1" using Suc.prems(5) unat_half_less [of num] by (simp add: unat_word_ariths)
  have ex: "\<exists>t. load_segments m' (call_read im) node elf_hdr p_hdr (k + 1) (offs + sizeof_phdr) v = Inr ((), t)
    \<and> open_file im t ((A \<union> seg_area bs ?h) \<union> segs_area bs ?hs) node i place bs
    \<and> (\<forall>h \<in> set ?hs. seg_loads bs h \<longrightarrow> holds t (seg_vaddr bs h) (seg_bytes bs h))
    \<and> (\<forall>x \<in> (A \<union> seg_area bs ?h) - run_of p_hdr 32. view t x = view v x)"
  proof (rule Suc.IH [OF v(2), where offs = "offs + sizeof_phdr", unfolded step])
    show "e_phnum elf_hdr t = Inr (num, t)" if "\<forall>x \<in> (A \<union> seg_area bs ?h) - run_of p_hdr 32. view t x = view v x" for t :: "'a initrd_scheme"
      by (rule Suc.prems(2)) (use that same in auto)
    show "run_of p_hdr 32 \<subseteq> A \<union> seg_area bs ?h" using Suc.prems(3) by blast
    have "file_parts v node i place (length bs) = file_parts s node i place (length bs)"
      using lv by (simp add: file_parts_def loads_on_def)
    then show "run_of p_hdr 32 \<inter> file_parts v node i place (length bs) = {}" using Suc.prems(4) by simp
    show "unat (k + 1) + n = unat num" using kk Suc.prems(5) by simp
    show "unat offs + 32 + 32 * n \<le> length bs" using Suc.prems(6) by simp
    show "\<forall>h \<in> set ?hs. seg_ok bs h" "segs_apart bs ?hs" "n < m'" using Suc.prems(7,11) apart m by simp_all
    show "\<forall>x \<in> segs_area bs ?hs. mappable v x \<and> vacant v x"
      using Suc.prems(9) lv win apart unfolding loads_on_def by auto
    show "2 * sum_list (map (seg_pages bs) ?hs) \<le> length (free_pages v)"
      using Suc.prems(10) lv by (simp add: loads_on_def)
  qed
  then obtain t where t: "load_segments m' (call_read im) node elf_hdr p_hdr (k + 1) (offs + sizeof_phdr) v = Inr ((), t)"
    "open_file im t ((A \<union> seg_area bs ?h) \<union> segs_area bs ?hs) node i place bs"
    "\<forall>h \<in> set ?hs. seg_loads bs h \<longrightarrow> holds t (seg_vaddr bs h) (seg_bytes bs h)"
    "\<forall>x \<in> (A \<union> seg_area bs ?h) - run_of p_hdr 32. view t x = view v x"
    by blast
  have run: "load_segments m (call_read im) node elf_hdr p_hdr k offs s = Inr ((), t)"
    using nh lt u(1) v(1) t(1) by (simp add: m bnd_run)
  have first: "holds t (seg_vaddr bs ?h) (seg_bytes bs ?h)" if ld: "seg_loads bs ?h"
  proof -
    have "view t x = view v x" if "x \<in> run_of (seg_vaddr bs ?h) (length (seg_bytes bs ?h))" for x
    proof -
      have "run_of (seg_vaddr bs ?h) (length (seg_bytes bs ?h)) \<subseteq> run_of (seg_vaddr bs ?h) (unat (seg_filesz bs ?h))"
        by (auto simp: run_of_def seg_bytes_def)
      then have "x \<in> seg_area bs ?h" using that seg_bounds(2) [OF ok ld] by blast
      moreover from this have "x \<notin> run_of p_hdr 32" using dis Suc.prems(3) by blast
      ultimately show ?thesis using t(4) by simp
    qed
    then have "holds t (seg_vaddr bs ?h) (seg_bytes bs ?h) = holds v (seg_vaddr bs ?h) (seg_bytes bs ?h)"
      by (intro holds_same) blast
    then show ?thesis using v(3) ld by simp
  qed
  have "\<forall>x \<in> A - run_of p_hdr 32. view t x = view s x" using t(4) same by simp
  then show ?case using run t(2,3) first by (auto simp: Un_assoc)
qed

section \<open>An executable file\<close>

definition elf_headers :: "u8 list \<Rightarrow> nat list" where
  "elf_headers bs = seg_headers (unat (file_word bs 28)) (unat (file_half bs 44))"

text \<open>
  The headers and the segments are in the file, and the memory of different segments is apart. Whether
  the file starts with the magic number is left open.
\<close>

definition elf_file :: "u8 list \<Rightarrow> bool" where
  "elf_file bs \<longleftrightarrow> 52 \<le> length bs \<and> unat (file_word bs 28) + 32 * unat (file_half bs 44) \<le> length bs
     \<and> (\<forall>h \<in> set (elf_headers bs). seg_ok bs h) \<and> segs_apart bs (elf_headers bs)"

text \<open>The pages of the segments can be mapped and have no entry yet, and there are frames for them and for their tables.\<close>

definition elf_room :: "'a vm_scheme \<Rightarrow> u8 list \<Rightarrow> bool" where
  "elf_room s bs \<longleftrightarrow> (\<forall>x \<in> segs_area bs (elf_headers bs). mappable s x \<and> vacant s x)
     \<and> 2 * sum_list (map (seg_pages bs) (elf_headers bs)) \<le> length (free_pages s)"

text \<open>The loader's local structures and its literal: \<open>parts\<close> is the memory of the file.\<close>

definition elf_locals :: "'a vm_scheme \<Rightarrow> u32 set \<Rightarrow> u32 set \<Rightarrow> u32 \<Rightarrow> u32 \<Rightarrow> u32 \<Rightarrow> bool" where
  "elf_locals s A parts elf_hdr p_hdr elfmag \<longleftrightarrow> holds s elfmag ELFMAG
     \<and> run_of elfmag 4 \<subseteq> A \<and> run_of elf_hdr 52 \<subseteq> A \<and> run_of p_hdr 32 \<subseteq> A
     \<and> run_of elf_hdr 52 \<inter> (run_of elfmag 4 \<union> run_of p_hdr 32 \<union> parts) = {} \<and> run_of p_hdr 32 \<inter> parts = {}"

lemma run_of_prefix: "m \<le> n \<Longrightarrow> run_of a m \<subseteq> run_of a n"
  by (auto simp: run_of_def)

text \<open>
  What the test of the magic number compares: the first bytes of the file and, when it has fewer than
  four, the bytes \<open>old\<close> that the loader's structure held before.
\<close>

definition magic_seen :: "u8 list \<Rightarrow> u8 list \<Rightarrow> u8 list" where
  "magic_seen old bs = take 4 bs @ drop (length bs) (take 4 old)"

lemma magic_seen_long [simp]: "4 \<le> length bs \<Longrightarrow> magic_seen old bs = take 4 bs"
  by (simp add: magic_seen_def)

lemma holds_over:
  assumes s: "holds s a old" "length old = 4" and t: "holds t a (take n bs)" "n = min m (length bs)" "4 \<le> m"
    and same: "\<forall>x \<in> run_of a m - run_of a n. view t x = view s x" and m: "m < 4294967296"
  shows "holds t a (magic_seen old bs)"
proof -
  have v: "view t (a + of_nat i) = Some (magic_seen old bs ! i)" if i: "i < 4" for i
  proof (cases "i < length bs")
    case True
    then have "view t (a + of_nat i) = Some (take n bs ! i)" using t i unfolding holds_def by simp
    then show ?thesis using True i t(2,3) by (simp add: magic_seen_def nth_append)
  next
    case False
    then have n: "n = length bs" "n \<le> i" using i t(2,3) by simp_all
    have "a + of_nat i \<noteq> a + of_nat j" if "j < n" for j
    proof
      assume "a + of_nat i = a + of_nat j"
      then have "unat (of_nat i :: u32) = unat (of_nat j :: u32)" by simp
      then show False using i that n(2) by (simp add: unat_of_nat)
    qed
    then have "a + of_nat i \<notin> run_of a n" by (auto simp: run_of_def)
    moreover have "a + of_nat i \<in> run_of a m" by (rule in_run_of) (use i t(3) in simp)
    ultimately have "view t (a + of_nat i) = view s (a + of_nat i)" using same by blast
    moreover have "view s (a + of_nat i) = Some (old ! i)" using s i by (simp add: holds_def)
    moreover have "magic_seen old bs ! i = old ! i" using False i s(2) by (simp add: magic_seen_def nth_append)
    ultimately show ?thesis by simp
  qed
  have "length (magic_seen old bs) = 4" using s(2) by (simp add: magic_seen_def)
  then show ?thesis using v by (simp add: holds_def)
qed

text \<open>Reading the header of the file, of which there may be less than a header.\<close>

lemma read_elf_header:
  assumes f: "open_file im s A node i place bs"
    and l: "elf_locals s A (file_parts s node i place (length bs)) elf_hdr p_hdr elfmag"
    and old: "holds s elf_hdr old" "length old = 4"
  shows "\<exists>t. fs_read (call_read im) node 0 sizeof_ehdr elf_hdr s = Inr (of_nat (min 52 (length bs)), t) \<and> holds t elf_hdr (take 52 bs)
    \<and> (\<exists>r. memcmp elf_hdr elfmag SELFMAG t = Inr (r, t) \<and> (r = 0 \<longleftrightarrow> magic_seen old bs = ELFMAG))
    \<and> open_file im t A node i place bs \<and> loads_on s t {} 0
    \<and> (\<forall>x \<in> A - run_of elf_hdr 52. view t x = view s x)"
proof -
  have hn: "unat sizeof_ehdr = 52" by (simp add: sizeof_ehdr_def)
  let ?n = "min 52 (length bs)"
  have o: "unat (0 :: u32) \<le> length bs" "unat (0 :: u32) + unat sizeof_ehdr < 4294967296"
    "?n = min (unat sizeof_ehdr) (length bs - unat (0 :: u32))" unfolding hn by simp_all
  have nr: "run_of elf_hdr ?n \<subseteq> run_of elf_hdr 52" by (rule run_of_prefix) simp
  have buf: "run_of elf_hdr ?n \<subseteq> A" "run_of elf_hdr ?n \<inter> file_parts s node i place (length bs) = {}"
    using l nr unfolding elf_locals_def by blast+
  obtain t where t: "fs_read (call_read im) node 0 sizeof_ehdr elf_hdr s = Inr (of_nat ?n, t)"
    "holds t elf_hdr (take ?n (drop (unat (0 :: u32)) bs))" "open_file im t A node i place bs" "quiet s t"
    "file_headers t = file_headers s" "\<forall>x \<in> A - run_of elf_hdr ?n. view t x = view s x"
    using read_owned [OF f o buf] by blast
  have h: "holds t elf_hdr (take 52 bs)" "holds t elf_hdr (take ?n bs)" using t(2) by (simp_all add: min_def split: if_splits)
  have "\<forall>x \<in> run_of elf_hdr 52 - run_of elf_hdr ?n. view t x = view s x" using t(6) l unfolding elf_locals_def by blast
  then have h4: "holds t elf_hdr (magic_seen old bs)" by (intro holds_over [OF old h(2) refl]) simp_all
  have lm: "length ELFMAG = 4" "length (magic_seen old bs) = 4" using old(2) by (simp_all add: ELFMAG_def magic_seen_def)
  have "view t x = view s x" if "x \<in> run_of elfmag (length ELFMAG)" for x
    using that t(6) l nr unfolding elf_locals_def lm(1) by blast
  then have "holds t elfmag ELFMAG = holds s elfmag ELFMAG" by (intro holds_same) blast
  then have hm: "holds t elfmag ELFMAG" using l by (simp add: elf_locals_def)
  have "length ELFMAG = length (magic_seen old bs)" using lm by simp
  with memcmp_loop_difference [OF h4 hm] obtain r where
    "memcmp_loop 4 elf_hdr elfmag t = Inr (r, t)" "r = 0 \<longleftrightarrow> magic_seen old bs = ELFMAG" using lm(2) by auto
  then have "\<exists>r. memcmp elf_hdr elfmag SELFMAG t = Inr (r, t) \<and> (r = 0 \<longleftrightarrow> magic_seen old bs = ELFMAG)"
    by (simp add: memcmp_def SELFMAG_def)
  moreover have "\<forall>x \<in> A - run_of elf_hdr 52. view t x = view s x" using t(6) nr by blast
  ultimately show ?thesis using t(1,3) h(1) quiet_loads [OF t(4,5)] by blast
qed

lemma ehdr_fields:
  assumes "holds s h (take 52 bs)" and "52 \<le> length bs"
  shows "e_entry h s = Inr (file_word bs 24, s)" and "e_phoff h s = Inr (file_word bs 28, s)"
    and "e_phnum h s = Inr (file_half bs 44, s)"
proof -
  have h: "holds s h (take 52 (drop 0 bs))" using assms(1) by simp
  show "e_entry h s = Inr (file_word bs 24, s)" "e_phoff h s = Inr (file_word bs 28, s)"
    "e_phnum h s = Inr (file_half bs 44, s)"
    using vld32_word [OF holds_word [OF h, of 24]] vld32_word [OF holds_word [OF h, of 28]]
      holds_half [OF h, of 44] assms(2) by (simp_all add: e_entry_def e_phoff_def e_phnum_def)
qed

section \<open>A concrete executable\<close>

text \<open>
  One segment of two bytes for address 0x400000, where it also starts. The page at 0 holds the node at
  0x10, the header of the file at 0x100, its contents at 0x200, the literal at 0x300 and the loader's
  structures at 0x400 and 0x500.
\<close>

definition demo_elf :: "u8 list" where
  "demo_elf = ELFMAG @ replicate 20 0 @ [0, 0, 0x40, 0] @ [52, 0, 0, 0] @ replicate 12 0 @ [1, 0] @ replicate 6 0
     @ [1, 0, 0, 0] @ [84, 0, 0, 0] @ [0, 0, 0x40, 0] @ [0, 0, 0, 0] @ [2, 0, 0, 0] @ [16, 0, 0, 0] @ replicate 8 0
     @ [0xEB, 0xFE]"

definition demo_exec_page :: "u32 \<Rightarrow> u8" where
  "demo_exec_page o' = (if 0x200 \<le> o' \<and> o' < 0x256 then demo_elf ! (unat o' - 0x200)
     else ((\<lambda>_. 0)(0xAD := 0x10, 0x145 := 2, 0x148 := 0x56, 0x300 := 0x7F, 0x301 := 0x45, 0x302 := 0x4C, 0x303 := 0x46)) o')"

definition demo_exec_ram :: bytes where
  "demo_exec_ram p = (if frame p = 0xB000 then demo_exec_page (off p) else ram demo_low p)"

definition demo_exec :: initrd where
  "demo_exec = vm.extend (demo_low\<lparr>ram := demo_exec_ram\<rparr>) (vm.more (demo_disk\<lparr>file_headers := 0x100\<rparr>))"

lemma vacant_extend: "vacant (vm.extend s h) = vacant (s :: vm)"
  by (simp add: vacant_def fun_eq_iff pde_at_def pte_at_def pte_addr_def vm.defs)

lemma view_extend: "view (vm.extend s h) = view (s :: vm)"
  by (simp add: view_def fun_eq_iff translate_def pde_at_def pte_at_def pte_addr_def vm.defs)

lemma demo_exec_memory:
  "owned demo_exec {x. unat x < 4096}" "unat x < 4096 \<Longrightarrow> view demo_exec x = Some (demo_exec_page x)"
  "free_pages demo_exec = [0x8000, 0x9000]" "file_headers demo_exec = 0x100"
  "mappable demo_exec y = mappable demo_low y" "vacant demo_exec y = vacant demo_low y"
proof -
  let ?m = "demo_low\<lparr>ram := demo_exec_ram\<rparr>"
  have same: "same_except {0xB000} (ram demo_low) demo_exec_ram"
    by (simp add: same_except_def demo_exec_ram_def)
  have F: "{0xB000} \<inter> pt_frames demo_low = {}" using demo_low_run(6) by auto
  have "translate demo_low 0 = Some 0xB000" using demo_low_run(5) [of 0] by (simp add: PAGE_FLAGS_MASK_def)
  moreover have "frame (the (translate demo_low 0)) \<notin> stack_frames demo_low"
    using demo_low_run(2) unfolding owned_def by fastforce
  ultimately have G: "{0xB000} \<inter> stack_frames demo_low = {}" by (simp add: PAGE_ADDR_MASK_def)
  note o = owned_ram [OF demo_low_run(2) same F G]
  show "owned demo_exec {x. unat x < 4096}" using o(1) by (simp add: demo_exec_def)
  show "free_pages demo_exec = [0x8000, 0x9000]" using o(2) demo_low_run(4) by (simp add: demo_exec_def stores_def)
  show "mappable demo_exec y = mappable demo_low y" using stores_mappable [OF o(2)] by (simp add: demo_exec_def)
  show "vacant demo_exec y = vacant demo_low y" using vacant_ram [OF same F] by (simp add: demo_exec_def vacant_extend)
  show "file_headers demo_exec = 0x100" by (simp add: demo_exec_def demo_disk_defs)
  show "view demo_exec x = Some (demo_exec_page x)" if x: "unat x < 4096"
  proof -
    have "frame x = 0" using x by (simp add: word_unat_eq_iff unat_frame)
    then have fx: "off x = x" using frame_plus_off [of x] by simp
    have fb: "frame (0xB000 :: u32) = 0xB000" by (simp add: PAGE_ADDR_MASK_def)
    have "frame (0xB000 + off x) = 0xB000" "off (0xB000 + off x) = off x"
      using frame_add [OF off_less, of "0xB000" x] off_add [OF off_less, of "0xB000" x] fb by simp_all
    moreover have "translate ?m x = Some (0xB000 + off x)"
      using translate_same [OF same F, of x] demo_low_run(5) [OF x] by simp
    ultimately show ?thesis by (simp add: demo_exec_def view_extend) (simp add: view_def demo_exec_ram_def fx)
  qed
qed

lemma demo_elf_fields:
  "length demo_elf = 86" "take 4 demo_elf = ELFMAG" "file_word demo_elf 24 = 0x400000" "elf_headers demo_elf = [52]"
  "seg_loads demo_elf 52" "seg_vaddr demo_elf 52 = 0x400000" "seg_offset demo_elf 52 = 84"
  "seg_filesz demo_elf 52 = 2" "seg_memsz demo_elf 52 = 16" "seg_bytes demo_elf 52 = [0xEB, 0xFE]"
  "file_word demo_elf 28 = 52" "file_half demo_elf 44 = 1"
  by code_simp+

lemma demo_elf_area:
  "seg_area demo_elf 52 = pages_area 0x400000 0x401000" "seg_pages demo_elf 52 = 1" "seg_ok demo_elf 52"
proof -
  have e: "seg_start demo_elf 52 = 0x400000" "seg_end demo_elf 52 = 0x401000"
    by (simp_all add: seg_start_def seg_end_def demo_elf_fields PAGE_ROUND_DOWN_def PAGE_ROUND_UP_def PAGE_SIZE_def
        PAGE_ADDR_MASK_def)
  then show "seg_area demo_elf 52 = pages_area 0x400000 0x401000" "seg_pages demo_elf 52 = 1"
    by (simp_all add: seg_area_def seg_pages_def demo_elf_fields)
  show "seg_ok demo_elf 52" by (simp add: seg_ok_def demo_elf_fields)
qed

lemma demo_elf_file: "elf_file demo_elf"
  by (simp add: elf_file_def demo_elf_fields demo_elf_area)

lemma demo_exec_room: "elf_room demo_exec demo_elf"
proof -
  have "mappable demo_exec x \<and> vacant demo_exec x" if "x \<in> pages_area 0x400000 0x401000" for x
  proof -
    have b: "0x400000 \<le> unat x" "unat x < 0x401000"
      using that by (simp_all add: pages_area_def word_le_nat_alt word_less_nat_alt)
    have i: "PGDIR_IDX_FROM_ADDR x = 1"
    proof -
      have "unat (PGDIR_IDX_FROM_ADDR x) = unat x div 4194304" by (simp add: unat_page)
      moreover have "unat x div 4194304 = 1" using b by simp
      ultimately show ?thesis by (simp add: word_unat_eq_iff)
    qed
    have fx: "unat (frame x) = 0x400000" using b by (simp add: unat_frame)
    then have f: "frame x \<noteq> 0" "frame x \<noteq> 0xFFBFF000" "frame x \<noteq> 0xFF7FF000" by auto
    have w: "self_slot demo = 1023" "directory (curdir demo) = 0xFFBFF000"
      by (simp_all add: self_slot_def demo_def PGDIR_IDX_FROM_ADDR_def)
    have m: "mappable demo x" using f b
      by (simp add: mappable_def window_def w demo_in_stack i kernel_view_def KERNEL_ADDRESS_SPACE_def word_le_nat_alt)
    have v: "vacant demo x" by (simp add: vacant_def i demo_pde present_def)
    have z: "mappable demo 0" "frame (0 :: u32) = 0"
      by (simp_all add: mappable_def window_def w demo_in_stack kernel_view_def KERNEL_ADDRESS_SPACE_def
        PGDIR_IDX_FROM_ADDR_def PAGE_ADDR_MASK_def)
    have "vacant demo_low x"
      by (rule vacant_map_page [OF demo_mm_ok z(1) demo_low_run(1) _ v]) (simp_all add: w i f z demo_free_pages)
    moreover have "mappable demo_low x" by (rule grows_mappable [OF demo_low_run(3) m])
    ultimately show ?thesis by (simp add: demo_exec_memory)
  qed
  then show ?thesis by (simp add: elf_room_def demo_elf_fields demo_elf_area demo_exec_memory)
qed

lemma run_of_bounds: "x \<in> run_of a n \<Longrightarrow> unat a + n < 4294967296 \<Longrightarrow> unat a \<le> unat x \<and> unat x < unat a + n"
  by (auto simp: run_of_def unat_word_ariths unat_of_nat)

lemma demo_exec_parts:
  "file_parts demo_exec 0x10 0 0x200 86 \<subseteq> {x. 0xA0 \<le> unat x \<and> unat x < 0x256}"
  using run_of_bounds [of _ "0xA0" 4] run_of_bounds [of _ "0xAC" 4] run_of_bounds [of _ "0x144" 4]
    run_of_bounds [of _ "0x148" 4] run_of_bounds [of _ "0x200" 86]
  by (fastforce simp: file_parts_def demo_exec_memory header_offset_def header_length_def header_at_def)

lemma demo_exec_file: "open_file demo_image demo_exec {x. unat x < 4096} 0x10 0 0x200 demo_elf"
proof -
  have w: "word_at demo_exec 0xAC 0x1000" "word_at demo_exec 0xA0 0" "word_at demo_exec 0x144 0x200" "word_at demo_exec 0x148 86"
    by (simp_all add: word_at_bytes demo_exec_memory demo_exec_page_def drop_bit_eq_div)
  have "view demo_exec (0x200 + of_nat i) = Some (demo_elf ! i)" if i: "i < 86" for i
  proof -
    have u: "unat (0x200 + of_nat i :: u32) = 0x200 + i" using i by (simp add: unat_word_ariths unat_of_nat)
    then show ?thesis using i
      by (simp add: demo_exec_memory demo_exec_page_def word_le_nat_alt word_less_nat_alt del: of_nat_add)
  qed
  then have h: "holds demo_exec 0x200 demo_elf" by (simp add: holds_def demo_elf_fields)
  have "file_at demo_exec 0x10 0 0x200 demo_elf"
    using w h by (simp add: file_at_def demo_exec_memory header_offset_def header_length_def header_at_def demo_elf_fields)
  moreover have "file_parts demo_exec 0x10 0 0x200 (length demo_elf) \<subseteq> {x. unat x < 4096}"
    using demo_exec_parts by (auto simp: demo_elf_fields)
  ultimately show ?thesis using w(1) demo_exec_memory(1) by (simp add: open_file_def demo_image_def)
qed

lemma demo_exec_locals:
  "elf_locals demo_exec {x. unat x < 4096} (file_parts demo_exec 0x10 0 0x200 (length demo_elf)) 0x400 0x500 0x300"
proof -
  have b: "run_of 0x300 4 \<subseteq> {x :: u32. 0x300 \<le> unat x \<and> unat x < 0x304}" "run_of 0x400 52 \<subseteq> {x :: u32. 0x400 \<le> unat x \<and> unat x < 0x434}"
    "run_of 0x500 32 \<subseteq> {x :: u32. 0x500 \<le> unat x \<and> unat x < 0x520}"
    using run_of_bounds [of _ "0x300" 4] run_of_bounds [of _ "0x400" 52] run_of_bounds [of _ "0x500" 32] by auto
  have em: "ELFMAG = [0x7F, 0x45, 0x4C, 0x46]" by code_simp
  have "holds demo_exec 0x300 ELFMAG" unfolding em by (simp add: holds_Cons demo_exec_memory demo_exec_page_def)
  moreover have "run_of 0x300 4 \<subseteq> {x :: u32. unat x < 4096}" "run_of 0x400 52 \<subseteq> {x :: u32. unat x < 4096}"
    "run_of 0x500 32 \<subseteq> {x :: u32. unat x < 4096}" using b by auto
  moreover have "run_of 0x400 52 \<inter> (run_of 0x300 4 \<union> run_of 0x500 32 \<union> file_parts demo_exec 0x10 0 0x200 86) = {}"
    "run_of 0x500 32 \<inter> file_parts demo_exec 0x10 0 0x200 86 = {}" using b demo_exec_parts by fastforce+
  ultimately show ?thesis by (simp add: elf_locals_def demo_elf_fields)
qed


text \<open>The loader behind the test of the magic number.\<close>

lemma load_elf_segments:
  fixes s u :: "'a initrd_scheme"
  assumes l: "elf_locals s A (file_parts s node i place (length bs)) elf_hdr p_hdr elfmag"
    and u: "open_file im u A node i place bs" "holds u elf_hdr (take 52 bs)" "loads_on s u {} 0"
      "\<forall>x \<in> A - run_of elf_hdr 52. view u x = view s x"
    and e: "elf_file bs" and room: "elf_room s bs"
  shows "\<exists>t. bnd (e_phoff elf_hdr) (\<lambda>offs. bnd (load_segments elf_fuel (call_read im) node elf_hdr p_hdr 0 offs) (\<lambda>_. e_entry elf_hdr)) u
      = Inr (file_word bs 24, t) \<and> mm_ok t
    \<and> (\<forall>h \<in> set (elf_headers bs). seg_loads bs h \<longrightarrow> holds t (seg_vaddr bs h) (seg_bytes bs h))
    \<and> (\<forall>x \<in> A - run_of elf_hdr 52 - run_of p_hdr 32. view t x = view s x)"
proof -
  have len: "52 \<le> length bs" using e by (simp add: elf_file_def)
  note hf = ehdr_fields [OF u(2) len]
  have hsub: "run_of elf_hdr 52 \<subseteq> A" "run_of p_hdr 32 \<subseteq> A" "run_of elf_hdr 52 \<inter> run_of p_hdr 32 = {}"
    using l by (auto simp: elf_locals_def)
  have keep: "holds t elf_hdr (take 52 bs)" if "\<forall>x \<in> A - run_of p_hdr 32. view t x = view u x" for t :: "'a initrd_scheme"
  proof -
    have "view t x = view u x" if "x \<in> run_of elf_hdr (length (take 52 bs))" for x
      using that \<open>\<forall>x \<in> A - run_of p_hdr 32. view t x = view u x\<close> hsub len by auto
    then have "holds t elf_hdr (take 52 bs) = holds u elf_hdr (take 52 bs)" by (intro holds_same) blast
    then show ?thesis using u(2) by simp
  qed
  have fp: "file_parts u node i place (length bs) = file_parts s node i place (length bs)"
    using u(3) by (simp add: file_parts_def loads_on_def)
  have win: "PGDIR_IDX_FROM_ADDR x \<noteq> self_slot s" if "mappable s x" for x
    using that by (simp add: mappable_def window_def)
  have new: "\<forall>x \<in> segs_area bs (elf_headers bs). mappable u x \<and> vacant u x"
    "2 * sum_list (map (seg_pages bs) (elf_headers bs)) \<le> length (free_pages u)"
    using room u(3) win by (auto simp: elf_room_def loads_on_def)
  have "\<exists>t. load_segments elf_fuel (call_read im) node elf_hdr p_hdr 0 (file_word bs 28) u = Inr ((), t)
    \<and> open_file im t (A \<union> segs_area bs (elf_headers bs)) node i place bs
    \<and> (\<forall>h \<in> set (elf_headers bs). seg_loads bs h \<longrightarrow> holds t (seg_vaddr bs h) (seg_bytes bs h))
    \<and> (\<forall>x \<in> A - run_of p_hdr 32. view t x = view u x)"
    unfolding elf_headers_def
  proof (rule load_segments_run [OF u(1), where num = "file_half bs 44"])
    show "e_phnum elf_hdr t = Inr (file_half bs 44, t)" if "\<forall>x \<in> A - run_of p_hdr 32. view t x = view u x"
      for t :: "'a initrd_scheme" by (rule ehdr_fields(3) [OF keep [OF that] len])
    show "run_of p_hdr 32 \<subseteq> A" "run_of p_hdr 32 \<inter> file_parts u node i place (length bs) = {}"
      using l by (simp_all add: elf_locals_def fp)
    show "unat (0 :: u32) + unat (file_half bs 44) = unat (file_half bs 44)" by simp
    show "unat (file_half bs 44) < elf_fuel" using unat_half_less [of "file_half bs 44"] by (simp add: elf_fuel_def)
  qed (use e new in \<open>simp_all add: elf_file_def elf_headers_def\<close>)
  then obtain t where t: "load_segments elf_fuel (call_read im) node elf_hdr p_hdr 0 (file_word bs 28) u = Inr ((), t)"
    "open_file im t (A \<union> segs_area bs (elf_headers bs)) node i place bs"
    "\<forall>h \<in> set (elf_headers bs). seg_loads bs h \<longrightarrow> holds t (seg_vaddr bs h) (seg_bytes bs h)"
    "\<forall>x \<in> A - run_of p_hdr 32. view t x = view u x" by blast
  have "e_entry elf_hdr t = Inr (file_word bs 24, t)" by (rule ehdr_fields(1) [OF keep [OF t(4)] len])
  moreover have "mm_ok t" using t(2) by (simp add: open_file_def owned_def)
  moreover have "\<forall>x \<in> A - run_of elf_hdr 52 - run_of p_hdr 32. view t x = view s x" using t(4) u(4) by simp
  ultimately show ?thesis using hf(2) t(1,3) by (auto simp: bnd_run)
qed

text \<open>C14: \<open>load_elf_binary\<close> on any file of the ramdisk. The file is read through its node. When its
  first four bytes are not the magic number, the kernel panics, whatever else is in the file; a file of fewer than
  four bytes is judged together with the bytes that the loader's structure held before. When they are, and the headers and segments are in
  the file and the segments are apart, with room for them in the address space and frames
  to back them, the loader returns the entry point, the bytes of every segment that is
  loaded are at its address, the managers' invariant holds, and of what was there before
  only the loader's two local structures have changed.\<close>

theorem load_elf_binary_loads:
  fixes s :: "'a initrd_scheme"
  assumes f: "open_file im s A node i place bs"
    and l: "elf_locals s A (file_parts s node i place (length bs)) elf_hdr p_hdr elfmag"
    and old: "holds s elf_hdr old" "length old = 4"
  shows "if magic_seen old bs \<noteq> ELFMAG
    then load_elf_binary (call_read im) elf_hdr p_hdr elfmag node s = Inl (Panic ''ELF: This is not an elf file.'')
    else elf_file bs \<and> elf_room s bs \<longrightarrow>
      (\<exists>t. load_elf_binary (call_read im) elf_hdr p_hdr elfmag node s = Inr (file_word bs 24, t) \<and> mm_ok t
      \<and> (\<forall>h \<in> set (elf_headers bs). seg_loads bs h \<longrightarrow> holds t (seg_vaddr bs h) (seg_bytes bs h))
      \<and> (\<forall>x \<in> A - run_of elf_hdr 52 - run_of p_hdr 32. view t x = view s x))"
proof -
  obtain u r where u: "fs_read (call_read im) node 0 sizeof_ehdr elf_hdr s = Inr (of_nat (min 52 (length bs)), u)"
    "holds u elf_hdr (take 52 bs)" "memcmp elf_hdr elfmag SELFMAG u = Inr (r, u)" "r = 0 \<longleftrightarrow> magic_seen old bs = ELFMAG"
    "open_file im u A node i place bs" "loads_on s u {} 0" "\<forall>x \<in> A - run_of elf_hdr 52. view u x = view s x"
    using read_elf_header [OF f l old] by blast
  show ?thesis
  proof (cases "magic_seen old bs = ELFMAG \<and> elf_file bs \<and> elf_room s bs")
    case False
    then show ?thesis using u(1,3,4) by (auto simp: load_elf_binary_def bnd_run panic_def)
  next
    case True
    then show ?thesis using load_elf_segments [OF l u(5,2,6,7)] u(1,3,4) by (simp add: load_elf_binary_def bnd_run)
  qed
qed

theorem load_elf_binary_loads_witness:
  "\<exists>t. load_elf_binary (call_read demo_image) 0x400 0x500 0x300 0x10 demo_exec = Inr (0x400000, t)
    \<and> holds t 0x400000 [0xEB, 0xFE]"
proof -
  have old: "holds demo_exec 0x400 [0, 0, 0, 0]" by (simp add: holds_Cons demo_exec_memory demo_exec_page_def)
  have m: "magic_seen [0, 0, 0, 0] demo_elf = ELFMAG" using demo_elf_fields by simp
  from load_elf_binary_loads [OF demo_exec_file demo_exec_locals old] m demo_elf_file demo_exec_room demo_elf_fields
  show ?thesis by auto
qed

end
