(* ===== verification/Kernel_Steady.thy ===== *)
theory Kernel_Steady
  imports Kernel_Heap_Props
begin

text \<open>What the commands under \<open>kmalloc\<close> leave alone, by a set of rules on the form of a command.\<close>

section \<open>What an allocation leaves alone\<close>

text \<open>A part \<open>f\<close> of the state that no allocation touches; the stack of free frames only shrinks.\<close>

definition beyond :: "('a vm_scheme \<Rightarrow> 'c) \<Rightarrow> bool" where
  "beyond f \<longleftrightarrow> (\<forall>s x. f (s\<lparr>ram := x\<rparr>) = f s) \<and> (\<forall>s x. f (s\<lparr>pmm_stack_loc := x\<rparr>) = f s)
     \<and> (\<forall>s x. f (s\<lparr>pmm_location := x\<rparr>) = f s) \<and> (\<forall>s x. f (s\<lparr>klog := x\<rparr>) = f s)"

definition steady :: "('a vm_scheme \<Rightarrow> 'c) \<Rightarrow> ('a vm_scheme, 'b) cmd \<Rightarrow> bool" where
  "steady f c \<longleftrightarrow> beyond f \<longrightarrow> (\<forall>s r t. c s = Inr (r, t) \<longrightarrow> f t = f s \<and> pmm_stack_loc t \<le> pmm_stack_loc s)"

text \<open>Such parts: where the directories and the stack of free frames are, and all that lies above the heap.\<close>

definition places :: "'a vm_scheme \<Rightarrow> (dirref \<Rightarrow> page_directory) \<times> u32" where
  "places s = (dirs s, pmm_stack_max s)"

definition above_heap :: "'a heap_scheme \<Rightarrow> ((dirref \<Rightarrow> page_directory) \<times> u32) \<times> dirref \<times> 'a" where
  "above_heap s = (places s, current_directory s, heap.more s)"

lemma beyond_parts [simp]: "beyond places" "beyond above_heap"
  by (simp_all add: beyond_def places_def above_heap_def)

lemma steadyD:
  assumes "steady f c" and "beyond f" and "c s = Inr (r, t)"
  shows "f t = f s" and "pmm_stack_loc t \<le> pmm_stack_loc s"
  using assms unfolding steady_def by blast+

named_theorems steady_intros

lemma steady_bnd [steady_intros]: "steady f c \<Longrightarrow> (\<And>x. steady f (d x)) \<Longrightarrow> steady f (bnd c d)"
  unfolding steady_def bnd_def by (fastforce split: sum.splits)

lemma steady_if [steady_intros]: "steady f c \<Longrightarrow> steady f d \<Longrightarrow> steady f (if b then c else d)"
  by simp

lemma steady_simple [steady_intros]:
  "steady f (ret x)" "steady f skip" "steady f (fault e)" "steady f (panic m)" "steady f (gets g)" "steady f (kprintf_log m xs)"
  "steady f (upd (\<lambda>s. s\<lparr>pmm_location := h s\<rparr>))"
  by (auto simp: steady_def beyond_def ret_def skip_def fault_def panic_def gets_def upd_def kprintf_log_def)

lemma steady_heap [steady_intros]:
  "steady above_heap (upd (\<lambda>s. s\<lparr>kheap_max := h s\<rparr>))" "steady above_heap (upd (\<lambda>s. s\<lparr>kheap_first := h s\<rparr>))"
  by (simp_all add: steady_def upd_def above_heap_def places_def)

lemma steady_memory [steady_intros]: "steady f (vld8 a)" "steady f (vst8 a v)" "steady f (vld32 a)" "steady f (vst32 a w)"
  by (auto simp: steady_def beyond_def vld8_def vst8_def vld32_def vst32_def split: option.splits sum.splits)

lemma steady_memset_loop [steady_intros]: "steady f (memset_loop n a v)"
  by (induction n arbitrary: a) (auto intro!: steady_intros)

lemma steady_pmm_alloc_page [steady_intros]: "steady f pmm_alloc_page"
proof -
  have "(x :: u32) - 4 \<le> x" if "PMM_STACK_START < x" for x
    using that by (simp add: word_le_nat_alt word_less_nat_alt unat_sub unat_stack_start)
  then show ?thesis
    by (auto simp: steady_def beyond_def pmm_alloc_page_def bnd_run gets_run upd_run ret_run panic_def kprintf_log_def vld32_def
        not_le split: sum.splits if_splits)
qed

lemma steady_memset [steady_intros]: "steady f (memset d v n)"
  unfolding memset_def by (intro steady_intros)

lemma steady_map_page [steady_intros]: "steady f (map_page va pa flags)"
  unfolding map_page_def Let_def by (intro steady_intros)

lemma steady_headers [steady_intros]:
  "steady f (set_prev h v)" "steady f (set_next h v)" "steady f (set_allocated h v)" "steady f (set_length h v)"
  "steady f (chunk_prev h)" "steady f (chunk_next h)" "steady f (chunk_allocated h)" "steady f (chunk_length h)"
  unfolding set_prev_def set_next_def set_allocated_def set_length_def chunk_prev_def chunk_next_def
    chunk_allocated_def chunk_length_def by (intro steady_intros)+

lemma steady_alloc_chunk_loop [steady_intros]: "steady above_heap (alloc_chunk_loop n limit)"
  by (induction n) (auto intro!: steady_intros)

lemma steady_find_chunk [steady_intros]: "steady f (find_chunk n len c p)"
  by (induction n arbitrary: c p) (auto intro!: steady_intros)

lemma steady_alloc_chunk [steady_intros]: "steady above_heap (alloc_chunk a n)"
  unfolding alloc_chunk_def by (intro steady_intros)

lemma steady_append_chunk [steady_intros]: "steady above_heap (append_chunk n p)"
  unfolding append_chunk_def by (intro steady_intros)

lemma steady_split_chunk [steady_intros]: "steady f (split_chunk c n)"
  unfolding split_chunk_def Let_def by (intro steady_intros)

lemma steady_kmalloc: "steady above_heap (kmalloc len)"
  unfolding kmalloc_def Let_def by (auto intro!: steady_intros split: prod.splits)

end
