(* ===== verification/Kernel_Blocks.thy ===== *)
theory Kernel_Blocks
  imports Kernel_Load Kernel_Steady
begin

text \<open>
  Memory from \<open>kmalloc\<close> in use: a client's stores in its own block, or anywhere else outside the
  headers, leave the heap as it is; \<open>kmalloc_zero\<close>; states that differ above the heap only.
\<close>

section \<open>Stores of clients\<close>

lemma chain_outside:
  assumes "\<And>x :: u32. a \<le> unat x \<Longrightarrow> unat x < heap_end a cs \<Longrightarrow> unat x \<notin> payload a cs \<Longrightarrow> view t x = view s x"
    and "heap_end a cs \<le> 4294967296"
  shows "chain t p a cs n = chain s p a cs n"
  using assms
proof (induction cs arbitrary: p a)
  case (Cons c cs)
  have e: "a + snd c \<le> heap_end (a + snd c) cs" by (rule heap_end_ge)
  have "chain t q (a + snd c) cs n = chain s q (a + snd c) cs n" for q
    by (rule Cons.IH) (use Cons.prems in auto)
  moreover have "chunk_at t a p m (fst c) (snd c) = chunk_at s a p m (fst c) (snd c)" if "12 \<le> snd c" for m
  proof (rule chunk_at_same)
    fix x :: u32 assume x: "a \<le> unat x" "unat x < a + 12"
    have "unat x \<notin> payload a (c # cs)" using x that payload_bounds [of "unat x" "a + snd c" cs] by auto
    then show "view t x = view s x" using Cons.prems(1) x that e by simp
  qed (use Cons.prems(2) that e in auto)
  ultimately show ?case by auto
qed simp

lemma heap_ok_stores:
  assumes ok: "heap_ok X L s cs" and st: "stores s t" and own: "owned t (heap_area X (kheap_max s))"
    and same: "\<And>x. x \<in> heap_area X (kheap_max s) \<Longrightarrow> 8 \<le> unat x \<Longrightarrow> unat x \<notin> payload 4026531840 cs \<Longrightarrow> x \<notin> X \<Longrightarrow>
      view t x = view s x"
  shows "heap_ok X L t cs"
proof -
  have fits: "heap_end 4026531840 cs \<le> unat (kheap_max s)" using ok by (simp add: heap_ok_def)
  have "chain t 0 4026531840 cs 0 = chain s 0 4026531840 cs 0"
  proof (rule chain_outside)
    fix x :: u32 assume x: "4026531840 \<le> unat x" "unat x < heap_end 4026531840 cs" "unat x \<notin> payload 4026531840 cs"
    have "x \<notin> X" using beside_heapD [OF heap_okD(2) [OF ok], of x] x(1,2) fits heap_okD(3) [OF ok] by auto
    then show "view t x = view s x" using same x fits by (simp add: heap_area_def)
  qed (use fits unat_u32_less [of "kheap_max s"] in linarith)
  then show ?thesis using ok heap_mem_stores [OF heap_okD(1) [OF ok] st own]
    by (simp add: heap_ok_def stores_heap [OF st])
qed

lemma memset_owned:
  assumes "owned s A" and "run_of d n \<subseteq> A"
  shows "\<exists>t. memset_loop n d v s = Inr ((), t) \<and> owned t A \<and> quiet s t \<and> (\<forall>x \<in> A - run_of d n. view t x = view s x)
    \<and> (n < 4294967296 \<longrightarrow> holds t d (replicate n v))"
  using assms
proof (induction n arbitrary: s d)
  case 0
  then show ?case by (simp add: skip_run)
next
  case (Suc n)
  have sub: "d \<in> A" "run_of (d + 1) n \<subseteq> A" using Suc.prems(2) by (simp_all add: run_of_Suc)
  obtain u where u: "vst8 d v s = Inr ((), u)" "owned u A" "quiet s u"
    using owned_byte [OF Suc.prems(1) sub(1)] by blast
  have b: "buffer s A" using Suc.prems(1) by (simp add: owned_def)
  obtain u' where "vst8 d v s = Inr ((), u')" "\<forall>x \<in> A. view u' x = (if x = d then Some v else view s x)"
    using vst8_view [OF b sub(1), of v] by blast
  then have vu: "\<forall>x \<in> A - {d}. view u x = view s x" "view u d = Some v" using u(1) sub(1) by simp_all
  obtain t where t: "memset_loop n (d + 1) v u = Inr ((), t)" "owned t A" "quiet u t"
    "\<forall>x \<in> A - run_of (d + 1) n. view t x = view u x" "n < 4294967296 \<longrightarrow> holds t (d + 1) (replicate n v)"
    using Suc.IH [OF u(2) sub(2)] by blast
  have "holds t d (replicate (Suc n) v)" if n: "Suc n < 4294967296"
  proof -
    have "d \<notin> run_of (d + 1) n" by (rule run_of_first_notin) (use n in simp)
    then have "view t d = Some v" using t(4) vu(2) sub(1) by simp
    then show ?thesis using t(5) n by (simp add: holds_Cons)
  qed
  moreover  have "\<forall>x \<in> A - run_of d (Suc n). view t x = view s x" using vu(1) t(4) by (simp add: run_of_Suc)
  ultimately show ?case using u t(1,2) quiet_trans [OF u(3) t(3)] by (simp add: bnd_run)
qed

section \<open>Cleared blocks\<close>

lemma kmalloc_zero_run:
  assumes ok: "heap_ok X L s cs" and fit: "has_room L (kheap_max s) (length (free_pages s)) cs (unat len + 12)"
    and model: "first_fit (unat len + 12) 4026531840 cs = (r, ds)"
  shows "\<exists>t. kmalloc_zero len s = Inr (of_nat (r + 12), t) \<and> heap_ok X L t ds
    \<and> {r + 12..<r + 12 + unat len} \<subseteq> payload 4026531840 ds
    \<and> {r + 12..<r + 12 + unat len} \<inter> payload 4026531840 cs = {}
    \<and> payload 4026531840 cs \<subseteq> payload 4026531840 ds \<and> kept X cs s t \<and> above_heap t = above_heap s
    \<and> length (free_pages s) \<le> length (free_pages t) + 2 * pages_for (heap_end 4026531840 ds) (kheap_max s)
    \<and> unat (kheap_max s) \<le> unat (kheap_max t)"
proof -
  let ?K = "4026531840" and ?B = "{r + 12..<r + 12 + unat len}"
  obtain u where u: "kmalloc len s = Inr (of_nat (r + 12), u)" "heap_ok X L u ds" "?B \<subseteq> payload ?K ds"
    "?B \<inter> payload ?K cs = {}" "payload ?K cs \<subseteq> payload ?K ds" "kept X cs s u"
    "length (free_pages s) \<le> length (free_pages u) + 2 * pages_for (heap_end ?K ds) (kheap_max s)"
    "unat (kheap_max s) \<le> unat (kheap_max u)"
    using kmalloc_fit_run [OF assms] by blast
  let ?A = "heap_area X (kheap_max u)"
  have own: "owned u ?A" using u(2) by (simp add: heap_ok_def heap_mem_def)
  have fits: "heap_end ?K ds \<le> unat (kheap_max u)" using u(2) by (simp add: heap_ok_def)
  have inB: "?K \<le> k" "k < heap_end ?K ds" if "k \<in> ?B" for k
    using payload_bounds [of k ?K ds] u(3) that by auto
  have lim: "r + 12 + unat len \<le> 4294967296" if "0 < unat len"
    using inB(2) [of "r + 12 + unat len - 1"] that fits unat_u32_less [of "kheap_max u"] by simp
  have run: "x \<in> run_of (of_nat (r + 12)) (unat len) \<longleftrightarrow> unat x \<in> ?B" for x :: u32
  proof (cases "0 < unat len")
    case True
    then show ?thesis using run_of_nat [OF lim [OF True], of x] by auto
  qed simp
  have "run_of (of_nat (r + 12)) (unat len) \<subseteq> ?A"
  proof
    fix x assume "x \<in> run_of (of_nat (r + 12)) (unat len)"
    then have "unat x \<in> ?B" using run by blast
    then show "x \<in> ?A" using inB [of "unat x"] fits by (simp add: heap_area_def)
  qed
  from memset_owned [OF own this, of "ucast (0 :: u32)"] obtain t where t:
    "memset_loop (unat len) (of_nat (r + 12)) (ucast (0 :: u32)) u = Inr ((), t)" "owned t ?A" "quiet u t"
    "\<forall>x \<in> ?A - run_of (of_nat (r + 12)) (unat len). view t x = view u x" by blast
  have st: "stores u t" using t(3) by (simp add: quiet_def)
  have v: "view t x = view u x" if "x \<in> ?A" "unat x \<notin> ?B" for x using t(4) that run by blast
  have "heap_ok X L t ds"
    by (rule heap_ok_stores [OF u(2) st t(2)]) (use v u(3) in blast)
  moreover have "kept X cs u t"
    unfolding kept_def
  proof (intro allI impI)
    fix x assume x: "unat x \<in> payload ?K cs \<or> x \<in> X"
    have "unat x \<notin> ?B"
    proof
      assume b: "unat x \<in> ?B"
      then have "x \<in> X" using x u(4) by blast
      then show False using beside_heapD [OF heap_okD(2) [OF ok], of x] inB [OF b] fits heap_okD(3) [OF u(2)] by linarith
    qed
    moreover have "x \<in> ?A" using x u(5) payload_bounds [of "unat x" ?K ds] fits by (auto simp: heap_area_def)
    ultimately show "view t x = view u x" by (rule v [rotated])
  qed
  then have "kept X cs s t" using kept_trans [OF u(6)] by blast
  moreover have z: "kmalloc_zero len s = Inr (of_nat (r + 12), t)"
    using u(1) t(1) by (simp add: kmalloc_zero_def memset_def bnd_run ret_run)
  moreover have "steady above_heap (kmalloc_zero len)"
    unfolding kmalloc_zero_def by (intro steady_intros steady_kmalloc)
  then have "above_heap t = above_heap s" by (rule steadyD(1)) (simp, rule z)
  moreover have "free_pages t = free_pages u" "kheap_max t = kheap_max u"
    using st stores_heap(1) [OF st] by (simp_all add: stores_def)
  ultimately show ?thesis using u(3-5,7,8) by (intro exI [of _ t]) simp
qed

section \<open>States that differ above the heap\<close>

lemma of_truncate:
  fixes s :: "'a vm_scheme"
  shows "owned s A = owned (vm.truncate s) A" "mappable s x = mappable (vm.truncate s) x"
    "free_pages s = free_pages (vm.truncate s)" "view s = view (vm.truncate s)"
proof -
  have "s = vm.extend (vm.truncate s) (vm.more s)" by (cases s) (simp add: vm.defs)
  then show "owned s A = owned (vm.truncate s) A" "mappable s x = mappable (vm.truncate s) x"
    "free_pages s = free_pages (vm.truncate s)" "view s = view (vm.truncate s)"
    using extend_indep view_extend by metis+
qed

text \<open>The state under the objects and the threads.\<close>

definition below :: "'a heap_scheme \<Rightarrow> vm \<times> u32 \<times> u32" where
  "below s = (vm.truncate s, kheap_max s, kheap_first s)"

lemma below_same:
  assumes "below t = below s"
  shows "heap_ok X L t cs = heap_ok X L s cs" "view t = view s" "word_at t a v = word_at s a v"
    "free_pages t = free_pages s" "kheap_max t = kheap_max s"
proof -
  have t: "vm.truncate t = vm.truncate s" and h: "kheap_max t = kheap_max s" "kheap_first t = kheap_first s"
    using assms by (simp_all add: below_def)
  have o: "owned t A = owned s A" "mappable t x = mappable s x" for A x
    using of_truncate(1,2) [of t] of_truncate(1,2) [of s] t by simp_all
  show v: "view t = view s" "free_pages t = free_pages s" using of_truncate(3,4) t by metis+
  have w: "word_at t a v = word_at s a v" for a v
    unfolding word_at_def by (intro holds_same) (simp add: v(1))
  then show "word_at t a v = word_at s a v" .
  have "chain t p a cs n = chain s p a cs n" for p a n
    by (induction cs arbitrary: p a) (simp_all add: chunk_at_def w)
  then show "heap_ok X L t cs = heap_ok X L s cs" by (simp add: heap_ok_def heap_mem_def o h)
  show "kheap_max t = kheap_max s" by (rule h)
qed

end
