(* ===== verification/Kernel_Fork.thy ===== *)
theory Kernel_Fork
  imports Kernel_Initrd Kernel_Elf
begin

text \<open>
  New threads and tasks: \<open>kernel/sched/fork.c\<close>. \<open>cli\<close> and \<open>sti\<close> set the interrupt flag
  of the state.
\<close>

definition cli :: "('a threading_scheme, unit) cmd" where
  "cli = upd (\<lambda>s. s\<lparr>interrupts := False\<rparr>)"

definition sti :: "('a threading_scheme, unit) cmd" where
  "sti = upd (\<lambda>s. s\<lparr>interrupts := True\<rparr>)"

section \<open>fork\<close>

text \<open>
  \<open>save_thread_state\<close> records the point at which the child will start, so what follows it runs
  twice: now, in the parent, and when the child is first scheduled. This is the rest.
\<close>

definition fork_return :: "u32 \<Rightarrow> u32 \<Rightarrow> ('a threading_scheme, u32) cmd" where
  "fork_return new_thread new_task =
     bnd (gets current_thread) (\<lambda>c.
     if c = new_thread then ret 0
     else bnd sti (\<lambda>_. bnd (get_task new_task) (\<lambda>t. ret (task_pid t))))"

text \<open>
  The structure from \<open>kmalloc\<close> is not cleared; the fields that are not set here are those
  that \<open>save_thread_state\<close> sets.
\<close>

definition fork :: "('a sched_scheme, u32) cmd" where
  "fork =
     bnd (gets kernel_thread) (\<lambda>k.
     bnd (gets current_thread) (\<lambda>c.
     if k = c then panic ''SCHED: no forking from kernel thread.''
     else
       bnd cli (\<lambda>_.
       bnd (kmalloc sizeof_thread) (\<lambda>new_thread.
       bnd fresh_tid (\<lambda>tid.
       bnd (get_thread c) (\<lambda>ct.
       bnd (put_thread new_thread (zero_thread\<lparr>th_tid := tid, th_state := THREAD_RUNNING,
         th_esp0 := th_esp0 ct, th_stack_size := th_stack_size ct\<rparr>)) (\<lambda>_.
       bnd (gets current_directory) (\<lambda>cd.
       bnd (clone_directory cd) (\<lambda>page_dir.
       bnd (create_task new_thread page_dir) (\<lambda>new_task.
       bnd (schedule_add_task new_task) (\<lambda>_.
       bnd (save_thread_state new_thread) (\<lambda>_.
       fork_return new_thread new_task))))))))))))"

section \<open>exec\<close>

text \<open>
  The addresses that the compiler and the linker chose: of \<open>thread_exit\<close>, of the local
  structures of \<open>load_elf_binary\<close> and of the literal it compares with.
\<close>

record exec_image = image +
  at_thread_exit :: u32
  at_elf_hdr :: u32
  at_p_hdr :: u32
  at_elfmag :: u32

definition exec_elf :: "exec_image \<Rightarrow> u32 \<Rightarrow> ('a initrd_scheme, u32) cmd" where
  "exec_elf im name =
     (let fs = image.truncate im in
      bnd (gets fs_root) (\<lambda>root.
      bnd (fs_finddir (call_finddir fs) root name) (\<lambda>file.
      bnd (fs_open call_open file 1 0) (\<lambda>_.
      bnd cli (\<lambda>_.
      bnd (gets current_directory) (\<lambda>old_dir.
      bnd (clone_directory old_dir) (\<lambda>new_dir.
      bnd (switch_page_directory new_dir) (\<lambda>_.
      bnd (load_elf_binary (call_read fs) (at_elf_hdr im) (at_p_hdr im) (at_elfmag im) file) (\<lambda>entry.
      bnd (allocate_stack THREAD_STACK_SIZE) (\<lambda>stack.
      bnd (create_thread (at_thread_exit im) entry 0 stack THREAD_STACK_SIZE) (\<lambda>new_thread.
      bnd (create_task new_thread new_dir) (\<lambda>new_task.
      bnd (schedule_add_task new_task) (\<lambda>_.
      bnd (switch_page_directory old_dir) (\<lambda>_.
      bnd (fs_close call_close file) (\<lambda>_.
      bnd sti (\<lambda>_.
      bnd (get_task new_task) (\<lambda>t.
      ret (task_pid t))))))))))))))))))"

definition exec_thread :: "exec_image \<Rightarrow> u32 \<Rightarrow> u32 \<Rightarrow> ('a sched_scheme, u32) cmd" where
  "exec_thread im fn arg =
     bnd (allocate_stack THREAD_STACK_SIZE) (\<lambda>stack.
     bnd (create_thread (at_thread_exit im) fn arg stack THREAD_STACK_SIZE) (\<lambda>new_thread.
     bnd (gets current_task) (\<lambda>c.
     bnd (task_add_thread c new_thread) (\<lambda>_.
     bnd (get_thread new_thread) (\<lambda>t.
     ret (th_tid t))))))"

end
