(* ===== verification/Kernel_Create.thy ===== *)
theory Kernel_Create
  imports Kernel_Blocks Kernel_Fork
begin

text \<open>
  A new thread: \<open>allocate_stack\<close> and \<open>create_thread\<close> of \<open>kernel/sched/thread.c\<close>, and \<open>exec_thread\<close>
  of \<open>kernel/sched/fork.c\<close>, on top of the address space, the heap and the lists.
\<close>

section \<open>The stack\<close>

lemma vacant_mapping: "paging_ok s \<Longrightarrow> mapping s x = None \<Longrightarrow> vacant s x"
  by (auto simp: mapping_def get_mapping_run vacant_def split: if_splits)

text \<open>A new page beside the heap.\<close>

lemma heap_ok_grows:
  assumes ok: "heap_ok X L s cs" and gr: "grows s t" and own: "owned t (heap_area X (kheap_max s) \<union> P)"
    and P: "beside_heap P" and v: "\<forall>x \<in> heap_area X (kheap_max s). view t x = view s x"
  shows "heap_ok (X \<union> P) L t cs" and "kept X cs s t" and "kheap_max t = kheap_max s" and "above_heap t = above_heap s"
proof -
  have e: "t = s\<lparr>pmm_stack_loc := pmm_stack_loc t, ram := ram t, klog := klog t\<rparr>" using gr by (simp add: grows_def)
  have f: "kheap_first t = kheap_first s" by (subst e) simp
  show m: "kheap_max t = kheap_max s" and "above_heap t = above_heap s"
    by (subst e, simp add: above_heap_def places_def)+
  have fits: "heap_end 4026531840 cs \<le> unat (kheap_max s)" and mem: "heap_mem X L s" using ok by (simp_all add: heap_ok_def)
  have "chain t 0 4026531840 cs 0 = chain s 0 4026531840 cs 0"
    by (rule chain_same) (use v fits unat_u32_less [of "kheap_max s"] in \<open>auto simp: heap_area_def\<close>)
  moreover have "heap_area (X \<union> P) (kheap_max s) = heap_area X (kheap_max s) \<union> P" by (auto simp: heap_area_def)
  moreover have "beside_heap (X \<union> P)" using P heap_okD(2) [OF ok] by (auto simp: beside_heap_def)
  ultimately show "heap_ok (X \<union> P) L t cs"
    using ok mem own grows_mappable [OF gr] by (simp add: heap_ok_def heap_mem_def m f)
  show "kept X cs s t"
    by (rule keptI [OF heap_okD(2) [OF ok] fits heap_okD(3) [OF ok]]) (use v in blast)
qed

lemma stack_page:
  fixes va :: u32
  assumes "0xE0000000 \<le> unat va" and "unat va < 0xF0000000" and "off va = 0"
  shows "PAGE_ROUND_DOWN va = va" "PAGE_ROUND_UP (va + 0x1000) = va + 0x1000" "pages_area va (va + 0x1000) = page_of va"
    "unat (va + 0x1000) = unat va + 4096" "off (va + 0x1000) = 0" "beside_heap (page_of va)" "unat va + 4096 \<le> 0xF0000000"
proof -
  have m: "unat va mod 4096 = 0" using assms(3) unat_off [of va] by simp
  show u: "unat (va + 0x1000) = unat va + 4096" using assms(2) by (simp add: unat_word_ariths)
  show o: "off (va + 0x1000) = 0" by (simp add: word_unat_eq_iff unat_off u) (use m in presburger)
  show "PAGE_ROUND_DOWN va = va" using assms(3) round_down [of va] frame_plus_off [of va] by (simp add: PAGE_ROUND_DOWN_def)
  have "unat (PAGE_ROUND_UP (va + 0x1000)) = (unat va + 4096 + 4095) div 4096 * 4096"
    using unat_round_up [of "va + 0x1000"] u assms(2) by simp
  then show "PAGE_ROUND_UP (va + 0x1000) = va + 0x1000" using m u by (auto simp: word_unat_eq_iff)
  have f: "frame va = va" using assms(3) frame_plus_off [of va] by simp
  show "pages_area va (va + 0x1000) = page_of va"
    by (auto simp: pages_area_def page_of_def f page_range [OF assms(3)] word_le_nat_alt word_less_nat_alt u)
  show le: "unat va + 4096 \<le> 0xF0000000"
  proof -
    obtain k where "unat va = 4096 * k" using m by (meson dvd_def mod_eq_0_iff_dvd)
    then show ?thesis using assms(2) by simp
  qed
  show "beside_heap (page_of va)"
    using le assms(1) by (auto simp: beside_heap_def page_of_def f page_range [OF assms(3)])
qed

text \<open>With one address of a page below the kernel's part of the address space, its other ones can be mapped.\<close>

lemma mappable_page:
  assumes "stack_ok s" and "mappable s a" and "frame x = frame a" and "unat x < 0xF0000000"
  shows "mappable s x"
proof -
  have "PGDIR_IDX_FROM_ADDR x = PGDIR_IDX_FROM_ADDR a" using assms(3) by (simp add: frame_eq_iff_idx)
  then have "\<not> window s x" using assms(2,3) by (simp add: mappable_def window_def)
  moreover have "\<not> in_stack s x" using in_stack_frame [OF assms(1) _ assms(3)] assms(2) by (auto simp: mappable_def)
  ultimately show ?thesis using assms(4)
    by (simp add: mappable_def kernel_view_def KERNEL_ADDRESS_SPACE_def word_le_nat_alt)
qed

lemma first_free_unique:
  assumes "first_free s a e n st r" and "first_free s a e n st r'" and "r' < e"
  shows "r = r'"
proof (rule ccontr)
  assume "r \<noteq> r'"
  then consider "r < r'" | "r' < r" by linarith
  then show False
  proof cases
    case 1
    then have "r < e" using assms(3) by simp
    then show False using assms(1,2) 1 unfolding first_free_def by blast
  next
    case 2
    then show False using assms unfolding first_free_def by blast
  qed
qed

lemma find_stack:
  assumes "paging_ok s" and ff: "first_free s 0xE0000000 0xF0000000 4096 4096 (unat va)" and va: "unat va < 0xF0000000"
  shows "find_free_range USER_STACKS_START USER_STACKS_END THREAD_STACK_SIZE True s = Inr (va, s)"
proof -
  have r: "PAGE_ROUND_DOWN USER_STACKS_START = 0xE0000000" "PAGE_ROUND_UP USER_STACKS_END = 0xF0000000"
    "PAGE_ROUND_UP THREAD_STACK_SIZE = 0x1000"
    by (simp_all add: PAGE_ROUND_DOWN_def PAGE_ROUND_UP_def USER_STACKS_START_def USER_STACKS_END_def THREAD_STACK_SIZE_def
        PAGE_ADDR_MASK_def PAGE_SIZE_def)
  obtain w where w: "find_free_range USER_STACKS_START USER_STACKS_END THREAD_STACK_SIZE True s = Inr (w, s)"
    "first_free s 0xE0000000 0xF0000000 4096 4096 (unat w)"
    using find_free_range_run [OF assms(1), of THREAD_STACK_SIZE USER_STACKS_END USER_STACKS_START True] unfolding r
    by (auto simp: THREAD_STACK_SIZE_def USER_STACKS_END_def)
  have "w = va" using first_free_unique [OF w(2) ff va] by (simp add: word_unat_eq_iff)
  then show ?thesis using w(1) by simp
qed

lemma allocate_stack_run:
  assumes ok: "heap_ok X L s cs" and ff: "first_free s 0xE0000000 0xF0000000 4096 4096 (unat va)"
    and va: "va < USER_STACKS_END" "mappable s va" and free: "2 \<le> length (free_pages s)"
  shows "\<exists>t. allocate_stack THREAD_STACK_SIZE s = Inr (va + 0x1000, t) \<and> heap_ok (X \<union> page_of va) L t cs
    \<and> kept X cs s t \<and> above_heap t = above_heap s \<and> kheap_max t = kheap_max s
    \<and> length (free_pages s) \<le> length (free_pages t) + 2 \<and> off va = 0 \<and> 0xE0000000 \<le> unat va
    \<and> X \<inter> page_of va = {}"
proof -
  let ?A = "heap_area X (kheap_max s)"
  have own: "owned s ?A" using ok by (simp add: heap_ok_def heap_mem_def)
  have pg: "paging_ok s" using own by (simp add: owned_def mm_ok_def)
  have lt: "unat va < 0xF0000000" using va(1) by (simp add: USER_STACKS_END_def word_less_nat_alt)
  obtain k where k: "unat va = 0xE0000000 + k * 4096" and rf: "range_free s (unat va) 4096"
    using ff lt unfolding first_free_def by auto
  have "unat va mod 4096 = 0" unfolding k by simp
  then have o: "off va = 0" by (simp add: word_unat_eq_iff unat_off)
  have ge: "0xE0000000 \<le> unat va" using k by simp
  note sp = stack_page [OF ge lt o]
  have find: "find_free_range USER_STACKS_START USER_STACKS_END THREAD_STACK_SIZE True s = Inr (va, s)"
    by (rule find_stack [OF pg ff lt])
  have "mapping s va = None" using rf o unfolding range_free_def by simp
  then have vac: "vacant s va" by (rule vacant_mapping [OF pg])
  have sok: "stack_ok s" using own by (simp add: owned_def mm_ok_def)
  have map: "\<forall>x \<in> pages_area va (va + 0x1000). mappable s x \<and> vacant s x"
    unfolding sp(3)
  proof
    fix x assume "x \<in> page_of va"
    then have f: "frame x = frame va" by (simp add: page_of_def)
    then have "PGDIR_IDX_FROM_ADDR x = PGDIR_IDX_FROM_ADDR va" "PGTAB_IDX_FROM_ADDR x = PGTAB_IDX_FROM_ADDR va"
      by (simp_all add: frame_eq_iff_idx)
    then have "vacant s x" using vac by (simp add: vacant_def pte_at_def pte_addr_def)
    moreover have "unat x < 0xF0000000"
      using f page_range [OF o, of x] frame_plus_off [of va] o sp(7) by simp
    ultimately show "mappable s x \<and> vacant s x" using mappable_page [OF sok va(2) f] by blast
  qed
  have fl: "frame (PAGE_USER OR PAGE_WRITE) = 0" by (simp add: PAGE_USER_def PAGE_WRITE_def PAGE_ADDR_MASK_def)
  have n: "(unat (va + 0x1000) - unat va) div 4096 = 1" by (simp add: sp(4))
  have "va \<le> va + 0x1000" by (simp add: word_le_nat_alt sp(4))
  from allocate_loop_owned [OF own o sp(5) this fl map, of page_fuel] free obtain t where
    t: "allocate_loop page_fuel va (va + 0x1000) (PAGE_USER OR PAGE_WRITE) s = Inr (va + 0x1000, t)"
      "owned t (?A \<union> page_of va)" "grows s t" "length (free_pages s) \<le> length (free_pages t) + 2"
      "\<forall>x \<in> ?A. view t x = view s x"
    unfolding n sp(3) by (auto simp: page_fuel_def)
  have ne: "va \<noteq> USER_STACKS_END" using va(1) by simp
  have "allocate_stack THREAD_STACK_SIZE s = Inr (va + 0x1000, t)"
    using find ne t(1) sp(1,2) by (simp add: allocate_stack_def bnd_run ret_run allocate_range_def THREAD_STACK_SIZE_def)
  moreover have "X \<inter> page_of va = {}"
  proof -
    have "translate s x \<noteq> None" if "x \<in> X" for x
      using own that by (auto simp: owned_def buffer_def heap_area_def)
    moreover have "translate s x = None" if "x \<in> page_of va" for x
      using map that vacant_untranslated [OF pg] unfolding sp(3) by blast
    ultimately show ?thesis by blast
  qed
  ultimately show ?thesis using heap_ok_grows [OF ok t(3,2) sp(6) t(5)] t(4) o ge by blast
qed

section \<open>The thread\<close>

lemma push_run:
  assumes ok: "heap_ok X L s cs" and b: "\<And>x. b \<le> unat x \<Longrightarrow> unat x < b + 4 \<Longrightarrow> x \<in> X" "b + 4 \<le> 4294967296"
  shows "\<exists>t. push (of_nat (b + 4)) v s = Inr (of_nat b, t) \<and> heap_ok X L t cs \<and> stores s t \<and> word_at t (of_nat b) v
    \<and> (\<forall>x \<in> heap_area X (kheap_max s). unat x < b \<or> b + 4 \<le> unat x \<longrightarrow> view t x = view s x)"
proof -
  have own: "owned s (heap_area X (kheap_max s))" using ok by (simp add: heap_ok_def heap_mem_def)
  have "x \<in> heap_area X (kheap_max s)" if "b \<le> unat x" "unat x < b + 4" for x
    using b(1) [OF that] by (simp add: heap_area_def)
  from store_at [OF own this b(2)] obtain t where t: "vst32 (of_nat b) v s = Inr ((), t)"
    "owned t (heap_area X (kheap_max s))" "stores s t" "word_at t (of_nat b) v"
    "\<forall>x \<in> heap_area X (kheap_max s). unat x < b \<or> b + 4 \<le> unat x \<longrightarrow> view t x = view s x" by blast
  have "heap_ok X L t cs"
  proof (rule heap_ok_stores [OF ok t(3,2)])
    fix x assume x: "x \<in> heap_area X (kheap_max s)" "x \<notin> X"
    then have "unat x < b \<or> b + 4 \<le> unat x" using b(1) not_less by blast
    then show "view t x = view s x" using t(5) x(1) by blast
  qed
  then show ?thesis using t by (simp add: push_def bnd_run ret_run)
qed

lemma push_frame:
  assumes ok: "heap_ok X L s cs" and X: "\<And>x. b \<le> unat x \<Longrightarrow> unat x < b + 16 \<Longrightarrow> x \<in> X" and b: "b + 16 \<le> 4294967296"
  shows "\<exists>t. bnd (push (of_nat (b + 16)) w3) (\<lambda>sp. bnd (push sp w2) (\<lambda>sp. bnd (push sp w1) (\<lambda>sp. push sp w0))) s = Inr (of_nat b, t)
    \<and> heap_ok X L t cs \<and> stores s t
    \<and> word_at t (of_nat b) w0 \<and> word_at t (of_nat (b + 4)) w1 \<and> word_at t (of_nat (b + 8)) w2 \<and> word_at t (of_nat (b + 12)) w3
    \<and> (\<forall>x \<in> heap_area X (kheap_max s). unat x < b \<or> b + 16 \<le> unat x \<longrightarrow> view t x = view s x)"
proof -
  let ?A = "heap_area X (kheap_max s)"
  have A: "x \<in> ?A" if "b \<le> unat x" "unat x < b + 16" for x using X [OF that] by (simp add: heap_area_def)
  have e: "b + 12 + 4 = b + 16" "b + 8 + 4 = b + 12" "b + 4 + 4 = b + 8" by simp_all
  have X1: "\<And>x. b + 12 \<le> unat x \<Longrightarrow> unat x < b + 12 + 4 \<Longrightarrow> x \<in> X" "\<And>x. b + 8 \<le> unat x \<Longrightarrow> unat x < b + 8 + 4 \<Longrightarrow> x \<in> X"
    "\<And>x. b + 4 \<le> unat x \<Longrightarrow> unat x < b + 4 + 4 \<Longrightarrow> x \<in> X" "\<And>x. b \<le> unat x \<Longrightarrow> unat x < b + 4 \<Longrightarrow> x \<in> X"
    by (rule X; simp)+
  have b1: "b + 12 + 4 \<le> 4294967296" "b + 8 + 4 \<le> 4294967296" "b + 4 + 4 \<le> 4294967296" "b + 4 \<le> 4294967296"
    using b by simp_all
  obtain t1 where t1: "push (of_nat (b + 16)) w3 s = Inr (of_nat (b + 12), t1)" "heap_ok X L t1 cs" "stores s t1"
    "word_at t1 (of_nat (b + 12)) w3" "\<forall>x \<in> ?A. unat x < b + 12 \<or> b + 16 \<le> unat x \<longrightarrow> view t1 x = view s x"
    using push_run [OF ok X1(1) b1(1), of w3] unfolding e by blast
  have m1: "kheap_max t1 = kheap_max s" by (rule stores_heap(1) [OF t1(3)])
  obtain t2 where t2: "push (of_nat (b + 12)) w2 t1 = Inr (of_nat (b + 8), t2)" "heap_ok X L t2 cs" "stores t1 t2"
    "word_at t2 (of_nat (b + 8)) w2" "\<forall>x \<in> ?A. unat x < b + 8 \<or> b + 12 \<le> unat x \<longrightarrow> view t2 x = view t1 x"
    using push_run [OF t1(2) X1(2) b1(2), of w2] unfolding e m1 by blast
  have m2: "kheap_max t2 = kheap_max s" using stores_heap(1) [OF t2(3)] m1 by simp
  obtain t3 where t3: "push (of_nat (b + 8)) w1 t2 = Inr (of_nat (b + 4), t3)" "heap_ok X L t3 cs" "stores t2 t3"
    "word_at t3 (of_nat (b + 4)) w1" "\<forall>x \<in> ?A. unat x < b + 4 \<or> b + 8 \<le> unat x \<longrightarrow> view t3 x = view t2 x"
    using push_run [OF t2(2) X1(3) b1(3), of w1] unfolding e m2 by blast
  have m3: "kheap_max t3 = kheap_max s" using stores_heap(1) [OF t3(3)] m2 by simp
  obtain t where t: "push (of_nat (b + 4)) w0 t3 = Inr (of_nat b, t)" "heap_ok X L t cs" "stores t3 t"
    "word_at t (of_nat b) w0" "\<forall>x \<in> ?A. unat x < b \<or> b + 4 \<le> unat x \<longrightarrow> view t x = view t3 x"
    using push_run [OF t3(2) X1(4) b1(4), of w0] unfolding m3 by blast
  have "word_at t (of_nat (b + 4)) w1 = word_at t3 (of_nat (b + 4)) w1"
    by (rule word_at_nat) (use t(5) A b in auto)
  moreover have "word_at t (of_nat (b + 8)) w2 = word_at t2 (of_nat (b + 8)) w2"
    by (rule word_at_nat) (use t(5) t3(5) A b in auto)
  moreover have "word_at t (of_nat (b + 12)) w3 = word_at t1 (of_nat (b + 12)) w3"
    by (rule word_at_nat) (use t(5) t3(5) t2(5) A b in auto)
  moreover have "\<forall>x \<in> ?A. unat x < b \<or> b + 16 \<le> unat x \<longrightarrow> view t x = view s x"
    using t(5) t3(5) t2(5) t1(5) by auto
  moreover have "stores s t" by (rule stores_trans [OF stores_trans [OF stores_trans [OF t1(3) t2(3)] t3(3)] t(3)])
  ultimately show ?thesis using t1(1,4) t2(1,4) t3(1,4) t(1,2,4) by (simp add: bnd_run del: of_nat_add)
qed

text \<open>The structure of a new thread whose stack is filled.\<close>

definition new_thread :: "u32 \<Rightarrow> u32 \<Rightarrow> u32 \<Rightarrow> u32 \<Rightarrow> thread" where
  "new_thread tid sp upper sz = zero_thread\<lparr>th_tid := tid, th_state := THREAD_RUNNING, th_stack_size := sz,
     th_esp0 := upper, th_esp := sp, th_ebp := 0, th_eflags := 0x200\<rparr>"

lemma create_thread_run:
  fixes s :: "'a threading_scheme"
  assumes ok: "heap_ok X L s cs" and room: "has_room L (kheap_max s) (length (free_pages s)) cs 52"
    and model: "first_fit 52 4026531840 cs = (r, ds)"
    and X: "\<And>x. b \<le> unat x \<Longrightarrow> unat x < b + 16 \<Longrightarrow> x \<in> X" and b: "b + 16 \<le> 4294967296"
  shows "\<exists>t. create_thread exit fn arg (of_nat (b + 16)) sz s = Inr (of_nat (r + 12), t) \<and> heap_ok X L t ds
    \<and> {r + 12..<r + 52} \<subseteq> payload 4026531840 ds \<and> {r + 12..<r + 52} \<inter> payload 4026531840 cs = {}
    \<and> payload 4026531840 cs \<subseteq> payload 4026531840 ds
    \<and> (\<forall>x. unat x \<in> payload 4026531840 cs \<or> x \<in> X \<longrightarrow> unat x < b \<or> b + 16 \<le> unat x \<longrightarrow> view t x = view s x)
    \<and> word_at t (of_nat b) fn \<and> word_at t (of_nat (b + 4)) exit \<and> word_at t (of_nat (b + 8)) arg \<and> word_at t (of_nat (b + 12)) 0
    \<and> heap.more t = heap.more (s\<lparr>next_tid := next_tid s + 1,
        thread_objs := (thread_objs s)(of_nat (r + 12) := Some (new_thread (next_tid s) (of_nat b) (of_nat (b + 16)) sz))\<rparr>)"
proof -
  let ?K = "4026531840" and ?p = "of_nat (r + 12) :: u32" and ?top = "of_nat (b + 16) :: u32"
  have u40: "unat sizeof_thread = 40" by (simp add: sizeof_thread_def)
  have e: "(40 :: nat) + 12 = 52" "r + 12 + 40 = r + 52" by simp_all
  obtain u where u: "kmalloc_zero sizeof_thread s = Inr (?p, u)" "heap_ok X L u ds" "{r + 12..<r + 52} \<subseteq> payload ?K ds"
    "{r + 12..<r + 52} \<inter> payload ?K cs = {}" "payload ?K cs \<subseteq> payload ?K ds" "kept X cs s u" "above_heap u = above_heap s"
    using kmalloc_zero_run [OF ok, of sizeof_thread r ds] room model unfolding u40 e by blast
  have um: "heap.more u = heap.more s" using u(7) by (simp add: above_heap_def)
  then have tid: "next_tid u = next_tid s" "thread_objs u = thread_objs s" by (cases u, cases s, simp)+
  let ?t0 = "zero_thread\<lparr>th_tid := next_tid s, th_state := THREAD_RUNNING, th_stack_size := sz, th_esp0 := ?top\<rparr>"
  define v where "v = u\<lparr>next_tid := next_tid s + 1, thread_objs := (thread_objs s)(?p := Some ?t0)\<rparr>"
  have vb: "below v = below u" by (simp add: v_def below_def vm.defs)
  have ok_v: "heap_ok X L v ds" and view_v: "view v = view u" and max_v: "kheap_max v = kheap_max u"
    using below_same [OF vb] u(2) by simp_all
  let ?body = "bnd (push ?top 0) (\<lambda>sp. bnd (push sp arg) (\<lambda>sp. bnd (push sp exit) (\<lambda>sp. push sp fn)))"
  obtain w where w: "?body v = Inr (of_nat b, w)" "heap_ok X L w ds" "stores v w" "word_at w (of_nat b) fn"
    "word_at w (of_nat (b + 4)) exit" "word_at w (of_nat (b + 8)) arg" "word_at w (of_nat (b + 12)) 0"
    "\<forall>x \<in> heap_area X (kheap_max v). unat x < b \<or> b + 16 \<le> unat x \<longrightarrow> view w x = view v x"
    using push_frame [OF ok_v X b] by blast
  have wr: "w = v\<lparr>ram := ram w\<rparr>" using w(3) by (simp add: stores_def)
  define t where "t = w\<lparr>thread_objs := (thread_objs s)(?p := Some (new_thread (next_tid s) (of_nat b) ?top sz))\<rparr>"
  have tb: "below t = below w" by (simp add: t_def below_def vm.defs)
  note bt = below_same [OF tb]
  have tw: "thread_objs w = (thread_objs s)(?p := Some ?t0)" by (subst wr) (simp add: v_def)
  have run: "create_thread exit fn arg ?top sz s = Inr (?p, t)"
  proof -
    let ?put = "\<lambda>sp. bnd (put_thread ?p (?t0\<lparr>th_esp := sp, th_ebp := 0, th_eflags := 0x200\<rparr>)) (\<lambda>_. ret ?p)"
    have "create_thread exit fn arg ?top sz s = bnd ?body ?put v"
      using u(1) tid by (simp add: create_thread_def bnd_run bnd_assoc fresh_tid_def gets_run upd_run ret_run put_thread_def
          Let_def v_def del: of_nat_add)
    also have "\<dots> = ?put (of_nat b) w" by (rule bnd_ok) (rule w(1))
    also have "\<dots> = Inr (?p, t)"
      by (simp add: bnd_run put_thread_def upd_run ret_run t_def tw new_thread_def del: of_nat_add)
    finally show ?thesis .
  qed
  have more: "heap.more t = heap.more (s\<lparr>next_tid := next_tid s + 1,
      thread_objs := (thread_objs s)(?p := Some (new_thread (next_tid s) (of_nat b) ?top sz))\<rparr>)"
  proof -
    have "heap.more w = heap.more v" by (subst wr) simp
    then show ?thesis using um by (cases s, cases u, cases w) (simp add: t_def v_def)
  qed
  have keep: "view t x = view s x" if x: "unat x \<in> payload ?K cs \<or> x \<in> X" "unat x < b \<or> b + 16 \<le> unat x" for x
  proof -
    have "heap_end ?K ds \<le> unat (kheap_max u)" using u(2) by (simp add: heap_ok_def)
    then have "x \<in> heap_area X (kheap_max v)"
      using x(1) u(5) payload_bounds [of "unat x" ?K ds] by (auto simp: heap_area_def max_v)
    then have "view w x = view v x" using w(8) x(2) by blast
    then show ?thesis using keptD [OF u(6) x(1)] by (simp add: bt(2) view_v)
  qed
  have h: "heap_ok X L t ds" using w(2) by (simp add: bt(1))
  have ws: "word_at t a x = word_at w a x" for a x by (rule bt(3))
  show ?thesis
    by (intro exI [of _ t] conjI run h u(3,4,5) more) (use keep w(4-7) in \<open>simp_all add: ws del: of_nat_add\<close>)
qed

section \<open>The function in a new thread\<close>

text \<open>
  What the first switch to a thread leads to: with the processor's registers loaded from \<open>p\<close>, the \<open>ret\<close>
  of the switch takes \<open>fn\<close> from the stack, and \<open>fn\<close> finds its return address \<open>exit\<close> and behind that its
  argument, then a null that ends the chain of frames; interrupts are on.
\<close>

definition enters :: "u32 \<Rightarrow> u32 \<Rightarrow> u32 \<Rightarrow> u32 \<Rightarrow> u32 \<Rightarrow> 'a threading_scheme \<Rightarrow> bool" where
  "enters p sp fn arg exit t \<longleftrightarrow> (\<exists>u. switch_context p 0 t = Inr ((), u) \<and> current_thread u = p
     \<and> sv_esp (cpu u) = sp \<and> sv_ebp (cpu u) = 0 \<and> sv_eflags (cpu u) = 0x200
     \<and> word_at u sp fn \<and> word_at u (sp + 4) exit \<and> word_at u (sp + 8) arg \<and> word_at u (sp + 12) 0)"

lemma entersI:
  assumes "thread_objs t (current_thread t) \<noteq> None" and "p \<noteq> current_thread t"
    and "thread_objs t p = Some (new_thread n (of_nat b) upper sz)"
    and "word_at t (of_nat b) fn" "word_at t (of_nat (b + 4)) exit" "word_at t (of_nat (b + 8)) arg" "word_at t (of_nat (b + 12)) 0"
  shows "enters p (of_nat b) fn arg exit t"
proof -
  obtain old where old: "thread_objs t (current_thread t) = Some old" using assms(1) by blast
  let ?u = "t\<lparr>thread_objs := (thread_objs t)(current_thread t := Some (saved (cpu t) old)),
      current_thread := p, cpu := loaded (new_thread n (of_nat b) upper sz)\<rparr>"
  have "switch_context p 0 t = Inr ((), ?u)" using switch_context_run [OF old assms(3,2), of 0] by simp
  moreover have "below ?u = below t" by (simp add: below_def vm.defs)
  note w = below_same(3) [OF this]
  ultimately show ?thesis using assms(4-7) unfolding enters_def
    by (intro exI [of _ ?u]) (simp add: w loaded_def new_thread_def)
qed

lemma list_push_back_run:
  assumes "lists s l = Some r" and "arrays s (elems r) = Some arr" and "unat (list_size r) < length arr"
  shows "list_push_back l x s = Inr ((), s\<lparr>lists := (lists s)(l := Some (r\<lparr>list_size := list_size r + 1\<rparr>)),
    arrays := (arrays s)(elems r := Some (arr[unat (list_size r) := Some x]))\<rparr>)"
  using assms by (simp add: list_push_back_def get_list_run put_elem_def cmd_simps)

lemma has_room_mono: "has_room L m n cs need \<Longrightarrow> n \<le> k \<Longrightarrow> has_room L m k cs need"
  by (auto simp: has_room_def split: option.splits)

lemma threading_fields:
  fixes s t :: "'a threading_scheme"
  assumes "heap.more t = heap.more s"
  shows "thread_objs t = thread_objs s" "task_objs t = task_objs s" "current_thread t = current_thread s"
    "current_task t = current_task s" "lists t = lists s" "arrays t = arrays s" "next_tid t = next_tid s"
  using assms by (cases s, cases t, simp)+

lemma exec_thread_run:
  fixes s :: "'a sched_scheme"
  assumes ok: "heap_ok X L s cs"
    and stk: "first_free s 0xE0000000 0xF0000000 4096 4096 (unat va)" "va < USER_STACKS_END" "mappable s va"
    and free: "2 \<le> length (free_pages s)" and room: "has_room L (kheap_max s) (length (free_pages s) - 2) cs 52"
    and model: "first_fit 52 4026531840 cs = (r, ds)"
    and task: "task_objs s (current_task s) = Some tk"
    and l: "lists s (task_threads tk) = Some lr" "arrays s (elems lr) = Some arr" "unat (list_size lr) < length arr"
  defines "p \<equiv> of_nat (r + 12)"
  shows "\<exists>t. exec_thread im fn arg s = Inr (next_tid s, t) \<and> heap_ok (X \<union> page_of va) L t ds
    \<and> {r + 12..<r + 52} \<subseteq> payload 4026531840 ds \<and> {r + 12..<r + 52} \<inter> payload 4026531840 cs = {}
    \<and> payload 4026531840 cs \<subseteq> payload 4026531840 ds \<and> X \<inter> page_of va = {} \<and> kept X cs s t
    \<and> heap.more t = heap.more (s\<lparr>next_tid := next_tid s + 1,
        thread_objs := (thread_objs s)(p := Some (new_thread (next_tid s) (va + 0xFF0) (va + 0x1000) 0x1000)),
        lists := (lists s)(task_threads tk := Some (lr\<lparr>list_size := list_size lr + 1\<rparr>)),
        arrays := (arrays s)(elems lr := Some (arr[unat (list_size lr) := Some p]))\<rparr>)
    \<and> word_at t (va + 0xFF0) fn \<and> word_at t (va + 0xFF4) (at_thread_exit im)
    \<and> word_at t (va + 0xFF8) arg \<and> word_at t (va + 0xFFC) 0"
proof -
  let ?K = "4026531840" and ?l = "task_threads tk"
  obtain s1 where s1: "allocate_stack THREAD_STACK_SIZE s = Inr (va + 0x1000, s1)" "heap_ok (X \<union> page_of va) L s1 cs"
    "kept X cs s s1" "above_heap s1 = above_heap s" "kheap_max s1 = kheap_max s"
    "length (free_pages s) \<le> length (free_pages s1) + 2" "off va = 0" "0xE0000000 \<le> unat va" "X \<inter> page_of va = {}"
    using allocate_stack_run [OF ok stk free] by blast
  define b where "b = unat va + 4080"
  have lt: "unat va < 0xF0000000" using stk(2) by (simp add: USER_STACKS_END_def word_less_nat_alt)
  note sp = stack_page [OF s1(8) lt s1(7)]
  have b: "b + 16 \<le> 4294967296" using lt by (simp add: b_def)
  have w: "of_nat (b + 16) = va + 0x1000" "of_nat b = va + 0xFF0" "of_nat (b + 4) = va + 0xFF4"
    "of_nat (b + 8) = va + 0xFF8" "of_nat (b + 12) = va + 0xFFC" by (simp_all add: b_def)
  have pg: "x \<in> page_of va \<longleftrightarrow> unat va \<le> unat x \<and> unat x < unat va + 4096" for x
    using page_range [OF s1(7), of x] frame_plus_off [of va] s1(7) by (simp add: page_of_def)
  have X: "x \<in> X \<union> page_of va" if "b \<le> unat x" "unat x < b + 16" for x using that by (simp add: pg b_def)
  have "has_room L (kheap_max s1) (length (free_pages s1)) cs 52"
    unfolding s1(5) by (rule has_room_mono [OF room]) (use s1(6) in linarith)
  then obtain t where t: "create_thread (at_thread_exit im) fn arg (of_nat (b + 16)) THREAD_STACK_SIZE s1 = Inr (p, t)"
    "heap_ok (X \<union> page_of va) L t ds" "{r + 12..<r + 52} \<subseteq> payload ?K ds" "{r + 12..<r + 52} \<inter> payload ?K cs = {}"
    "payload ?K cs \<subseteq> payload ?K ds"
    "\<forall>x. unat x \<in> payload ?K cs \<or> x \<in> X \<union> page_of va \<longrightarrow> unat x < b \<or> b + 16 \<le> unat x \<longrightarrow> view t x = view s1 x"
    "word_at t (of_nat b) fn" "word_at t (of_nat (b + 4)) (at_thread_exit im)" "word_at t (of_nat (b + 8)) arg"
    "word_at t (of_nat (b + 12)) 0"
    "heap.more t = heap.more (s1\<lparr>next_tid := next_tid s1 + 1,
        thread_objs := (thread_objs s1)(p := Some (new_thread (next_tid s1) (of_nat b) (of_nat (b + 16)) THREAD_STACK_SIZE))\<rparr>)"
    using create_thread_run [OF s1(2) _ model X b] unfolding p_def by blast
  let ?th = "new_thread (next_tid s) (va + 0xFF0) (va + 0x1000) 0x1000"
  have m1: "heap.more s1 = heap.more s" using s1(4) by (simp add: above_heap_def)
  note f1 = threading_fields [OF m1] and f2 = threading_fields [OF t(11) [unfolded w]]
  have f: "thread_objs t = (thread_objs s)(p := Some ?th)" "task_objs t = task_objs s" "current_task t = current_task s"
    "lists t = lists s" "arrays t = arrays s"
    using f2 by (simp_all add: f1 THREAD_STACK_SIZE_def)
  define v where "v = t\<lparr>lists := (lists s)(?l := Some (lr\<lparr>list_size := list_size lr + 1\<rparr>)),
    arrays := (arrays s)(elems lr := Some (arr[unat (list_size lr) := Some p]))\<rparr>"
  have v: "list_push_back ?l p t = Inr ((), v)"
    using list_push_back_run [of t ?l lr arr p] l by (simp add: f v_def)
  have "below v = below t" by (simp add: v_def below_def vm.defs)
  note bv = below_same [OF this]
  have fv: "thread_objs v = thread_objs t" by (simp add: v_def)
  have "heap.more t = heap.more (s\<lparr>next_tid := next_tid s + 1, thread_objs := (thread_objs s)(p := Some ?th)\<rparr>)"
    using t(11) [unfolded w] m1 by (cases s, cases s1, cases t) (simp add: THREAD_STACK_SIZE_def)
  then have more: "heap.more v = heap.more (s\<lparr>next_tid := next_tid s + 1, thread_objs := (thread_objs s)(p := Some ?th),
      lists := (lists s)(?l := Some (lr\<lparr>list_size := list_size lr + 1\<rparr>)),
      arrays := (arrays s)(elems lr := Some (arr[unat (list_size lr) := Some p]))\<rparr>)"
    by (cases s, cases t) (simp add: v_def)
  have "exec_thread im fn arg s = Inr (next_tid s, v)"
    using s1(1) t(1) [unfolded w(1)] v task
    by (simp add: exec_thread_def bnd_run gets_run ret_run task_add_thread_def get_task_def get_thread_def the_obj_def f fv new_thread_def)
  moreover have "kept X cs s v"
    unfolding kept_def
  proof (intro allI impI)
    fix x assume x: "unat x \<in> payload ?K cs \<or> x \<in> X"
    have "unat x < b \<or> b + 16 \<le> unat x"
    proof (cases "x \<in> X")
      case True
      then have "x \<notin> page_of va" using s1(9) by blast
      then show ?thesis by (simp add: pg b_def) linarith
    next
      case False
      then have "?K \<le> unat x" using x payload_bounds [of "unat x" ?K cs] by auto
      then show ?thesis using sp(7) by (simp add: b_def)
    qed
    then have "view t x = view s1 x" using t(6) x by blast
    then show "view v x = view s x" using keptD [OF s1(3) x] by (simp add: bv)
  qed
  ultimately show ?thesis using t(2-5) t(7-10) [unfolded w] s1(9) more
    by (intro exI [of _ v]) (simp add: bv)
qed

end
