(* ===== verification/Kernel_Tasks.thy ===== *)
theory Kernel_Tasks
  imports Kernel_Create
begin

text \<open>
  The run queue and the heap together: \<open>exec_thread\<close> (\<open>kernel/sched/thread.c\<close>) adds a thread to the queue that the
  scheduler's invariant \<open>runq\<close> describes. Threads, tasks and lists are blocks of the heap here, with
  \<open>threads_placed\<close> and \<open>own_arrays\<close> saying where they lie.
\<close>

section \<open>A thread joins the queue\<close>

text \<open>The lists of the queue have arrays of their own.\<close>

definition array_of :: "'a objects_scheme \<Rightarrow> u32 \<Rightarrow> u32 option" where
  "array_of s l = map_option elems (lists s l)"

definition own_arrays :: "'a sched_scheme \<Rightarrow> run_queue \<Rightarrow> bool" where
  "own_arrays s ts \<longleftrightarrow> (\<forall>i < length ts. array_of s (list_of ts i) \<noteq> array_of s (tasks s))
     \<and> (\<forall>i < length ts. \<forall>j < length ts. i \<noteq> j \<longrightarrow> array_of s (list_of ts i) \<noteq> array_of s (list_of ts j))"

lemma list_rep_other:
  assumes "list_rep s l xs c" and "l \<noteq> m" and "array_of s l \<noteq> Some a"
    and "lists t = (lists s)(m := x)" and "arrays t = (arrays s)(a := y)"
  shows "list_rep t l xs c"
  using assms unfolding list_rep_def array_of_def by fastforce

lemma list_rep_pushed:
  assumes "list_rep s l xs c" and "lists s l = Some r" and "arrays s (elems r) = Some arr" and "unat (list_size r) < length arr"
    and "lists t = (lists s)(l := Some (r\<lparr>list_size := list_size r + 1\<rparr>))"
    and "arrays t = (arrays s)(elems r := Some (arr[unat (list_size r) := Some x]))"
  shows "list_rep t l (xs @ [x]) c"
proof -
  have r: "list_size r = of_nat (length xs)" "curr r = of_nat c" "unat (list_size r) = length xs" "length arr < 4294967295"
    "c < 4294967295" "take (length xs) arr = map Some xs"
    using assms(1) by (rule list_repE, use assms(2,3) in simp)+
  have "take (Suc (length xs)) (arr[length xs := Some x]) = map Some xs @ [Some x]"
    using assms(4) r(3,6) by (simp add: take_Suc_conv_app_nth)
  then show ?thesis using r assms(4-6) by (auto simp: list_rep_def add.commute)
qed

text \<open>The queue with \<open>p\<close> as the last thread of task number \<open>k\<close>.\<close>

definition with_thread :: "run_queue \<Rightarrow> nat \<Rightarrow> u32 \<Rightarrow> run_queue" where
  "with_thread ts k p = ts[k := (task_of ts k, list_of ts k, threads_of ts k @ [p])]"

lemma with_thread_simps:
  "length (with_thread ts k p) = length ts"
  "i < length ts \<Longrightarrow> task_of (with_thread ts k p) i = task_of ts i"
  "i < length ts \<Longrightarrow> list_of (with_thread ts k p) i = list_of ts i"
  "i < length ts \<Longrightarrow> threads_of (with_thread ts k p) i = (if i = k then threads_of ts k @ [p] else threads_of ts i)"
  "map fst (with_thread ts k p) = map fst ts" "map (fst \<circ> snd) (with_thread ts k p) = map (fst \<circ> snd) ts"
proof -
  show n: "length (with_thread ts k p) = length ts" by (simp add: with_thread_def)
  have e: "with_thread ts k p ! i = (if i = k then (task_of ts k, list_of ts k, threads_of ts k @ [p]) else ts ! i)"
    if "i < length ts" for i using that by (cases "i = k") (simp_all add: with_thread_def)
  show "map fst (with_thread ts k p) = map fst ts"
    by (rule nth_equalityI) (auto simp: n e)
  show "map (fst \<circ> snd) (with_thread ts k p) = map (fst \<circ> snd) ts"
    by (rule nth_equalityI) (auto simp: n e)
  show "i < length ts \<Longrightarrow> task_of (with_thread ts k p) i = task_of ts i"
    "i < length ts \<Longrightarrow> list_of (with_thread ts k p) i = list_of ts i"
    "i < length ts \<Longrightarrow> threads_of (with_thread ts k p) i = (if i = k then threads_of ts k @ [p] else threads_of ts i)"
    by (simp_all add: e)
qed

lemma runq_push:
  fixes s t :: "'a sched_scheme"
  assumes q: "runq s ts tc k c" and own: "own_arrays s ts"
    and r: "lists s (list_of ts k) = Some r" "arrays s (elems r) = Some arr" "unat (list_size r) < length arr"
    and p: "p \<noteq> 0" "thread_objs s p = None" and th: "th_state th = THREAD_RUNNING"
    and l: "lists t = (lists s)(list_of ts k := Some (r\<lparr>list_size := list_size r + 1\<rparr>))"
      "arrays t = (arrays s)(elems r := Some (arr[unat (list_size r) := Some p]))"
    and o: "thread_objs t = (thread_objs s)(p := Some th)" "task_objs t = task_objs s"
    and f: "tasks t = tasks s" "threads t = threads s" "current_task t = current_task s" "current_thread t = current_thread s"
  shows "runq t (with_thread ts k p) tc k c" and "own_arrays t (with_thread ts k p)"
proof -
  note w = with_thread_simps [where ts = ts and k = k and p = p]
  have k: "k < length ts" and sh: "queue_shape ts (tasks s)" and ti: "tasks_in s ts"
    using q by (simp_all add: runq_def)
  have a: "array_of s (list_of ts k) = Some (elems r)" by (simp add: array_of_def r(1))
  have new: "p \<notin> set (threads_of ts i)" if "i < length ts" for i
    using ti that p(2) by (force simp: tasks_in_def ready_def)
  have other: "list_rep t (list_of ts i) xs d" if "i < length ts" "i \<noteq> k" "list_rep s (list_of ts i) xs d" for i xs d
  proof (rule list_rep_other [OF that(3) _ _ l])
    show "list_of ts i \<noteq> list_of ts k" using sh that(1,2) k by (simp add: queue_shape_def distinct_conv_nth)
    show "array_of s (list_of ts i) \<noteq> Some (elems r)" using own that(1,2) k unfolding own_arrays_def a [symmetric] by blast
  qed
  have here: "list_rep t (list_of ts k) (threads_of ts k @ [p]) d" if "list_rep s (list_of ts k) (threads_of ts k) d" for d
    by (rule list_rep_pushed [OF that r l])
  have tl: "list_rep t (tasks s) (map fst ts) tc"
  proof (rule list_rep_other [OF _ _ _ l])
    show "list_rep s (tasks s) (map fst ts) tc" using q by (simp add: runq_def)
    show "tasks s \<noteq> list_of ts k" using sh k by (auto simp: queue_shape_def)
    show "array_of s (tasks s) \<noteq> Some (elems r)" using own k unfolding own_arrays_def a [symmetric] by metis
  qed
  have rdy: "ready t x" if "ready s x" for x using that p(2) by (auto simp: ready_def o)
  have rp: "ready t p" using p(1) th by (simp add: ready_def o)
  have "queue_shape (with_thread ts k p) (tasks t)"
    using sh new unfolding queue_shape_def w(1,5,6) f by (simp add: w(2-4))
  moreover have "tasks_in t (with_thread ts k p)"
    unfolding tasks_in_def w(1)
  proof (intro allI impI conjI ballI)
    fix i assume i: "i < length ts"
    obtain tk d where tk: "task_objs s (task_of ts i) = Some tk" "task_threads tk = list_of ts i"
      "list_rep s (list_of ts i) (threads_of ts i) d" "\<forall>x \<in> set (threads_of ts i). ready s x"
      using ti i unfolding tasks_in_def by blast
    show "\<exists>ta. task_objs t (task_of (with_thread ts k p) i) = Some ta \<and> task_threads ta = list_of (with_thread ts k p) i"
      using tk(1,2) i by (simp add: w o)
    show "\<exists>d. list_rep t (list_of (with_thread ts k p) i) (threads_of (with_thread ts k p) i) d"
      using tk(3) other [OF i] here i by (auto simp: w)
    show "ready t x" if "x \<in> set (threads_of (with_thread ts k p) i)" for x
      using that tk(4) rdy rp i by (auto simp: w split: if_splits)
  qed
  moreover have "list_rep t (list_of ts k) (threads_of ts k @ [p]) c" using q here by (simp add: runq_def)
  ultimately show "runq t (with_thread ts k p) tc k c"
    using q tl k by (simp add: runq_def f w)
  have "array_of t x = array_of s x" for x using r(1) by (simp add: array_of_def l)
  then show "own_arrays t (with_thread ts k p)" using own by (simp add: own_arrays_def w f)
qed

section \<open>A thread that is started\<close>

lemma threading_more:
  fixes s t :: "'a sched_scheme"
  assumes "heap.more t = heap.more s"
  shows "tasks t = tasks s" "threads t = threads s"
  using assms by (cases s, cases t, simp)+

lemma slots_array:
  assumes "list_rep s l xs c" and "length xs < slots s l"
  obtains r arr where "lists s l = Some r" "arrays s (elems r) = Some arr" "unat (list_size r) < length arr"
proof (rule list_repE [OF assms(1)])
  fix r arr assume r: "lists s l = Some r" "arrays s (elems r) = Some arr" "unat (list_size r) = length xs"
  then have "slots s l = length arr" by (simp add: slots_def)
  then show thesis using that r assms(2) by simp
qed

text \<open>Every thread structure lies in a block of the heap or in other memory in use.\<close>

definition threads_placed :: "u32 set \<Rightarrow> chunks \<Rightarrow> 'a threading_scheme \<Rightarrow> bool" where
  "threads_placed X cs s \<longleftrightarrow> (\<forall>q. thread_objs s q \<noteq> None \<longrightarrow> unat q \<in> payload 4026531840 cs \<or> q \<in> X)"

lemma block_address:
  assumes ok: "heap_ok X L t ds" and r: "r + 12 \<in> payload 4026531840 ds"
  shows "unat (of_nat (r + 12) :: u32) = r + 12" and "of_nat (r + 12) \<noteq> (0 :: u32)"
    and "beside_heap Y \<Longrightarrow> of_nat (r + 12) \<notin> Y"
proof -
  note b = payload_bounds [OF r]
  have M: "heap_end 4026531840 ds \<le> unat (kheap_max t)" "unat (kheap_max t) \<le> 4244635648"
    using ok heap_okD(3) [OF ok] by (simp_all add: heap_ok_def)
  then show up: "unat (of_nat (r + 12) :: u32) = r + 12" using b by (simp add: unat_of_nat del: of_nat_add)
  show "of_nat (r + 12) \<noteq> (0 :: u32)"
  proof
    assume "of_nat (r + 12) = (0 :: u32)"
    then have "unat (of_nat (r + 12) :: u32) = 0" by simp
    then show False unfolding up by simp
  qed
  show "of_nat (r + 12) \<notin> Y" if "beside_heap Y"
    using beside_heapD [OF that, of "of_nat (r + 12)"] b M unfolding up by linarith
qed

lemma enters_stack:
  assumes "thread_objs t (current_thread t) \<noteq> None" and "p \<noteq> current_thread t"
    and "thread_objs t p = Some (new_thread n (va + 0xFF0) upper sz)"
    and w: "word_at t (va + 0xFF0) fn" "word_at t (va + 0xFF4) exit" "word_at t (va + 0xFF8) arg" "word_at t (va + 0xFFC) 0"
  shows "enters p (va + 0xFF0) fn arg exit t"
proof -
  define d where "d = unat va + 0xFF0"
  have d: "of_nat d = va + 0xFF0" "of_nat (d + 4) = va + 0xFF4" "of_nat (d + 8) = va + 0xFF8" "of_nat (d + 12) = va + 0xFFC"
    by (simp_all add: d_def)
  have "enters p (of_nat d) fn arg exit t"
    by (rule entersI [where n = n and upper = upper and sz = sz]) (use assms in \<open>simp_all only: d not_False_eq_True\<close>)
  then show ?thesis unfolding d(1) .
qed

section \<open>A concrete thread\<close>

text \<open>One more free frame leaves memory in use as it is.\<close>

lemma free_more:
  assumes own: "owned s A" and p: "frame p = p" "pmm_location s \<le> p" "pmm_stack_loc s < pmm_stack_max s"
    and new: "p \<notin> set (free_pages s) \<union> pt_frames s \<union> stack_frames s" "\<forall>a \<in> A. frame (the (translate s a)) \<noteq> p"
  obtains t where "pmm_free_page p s = Inr ((), t)" "owned t A" "free_pages t = free_pages s @ [p]"
    "translate t = translate s" "vacant t = vacant s" "mappable t = mappable s" "pt_frames t = pt_frames s"
    "stack_frames t = stack_frames s" "pmm_stack_loc t = pmm_stack_loc s + 4" "pmm_stack_max t = pmm_stack_max s"
    "pmm_location t = pmm_location s"
proof -
  have ok: "mm_ok s" and b: "buffer s A" using own by (simp_all add: owned_def)
  obtain t where t: "pmm_free_page p s = Inr ((), t)" "mm_ok t" "free_pages t = free_pages s @ [p]" "translate t = translate s"
    "frees p s t" "pmm_stack_loc t = pmm_stack_loc s + 4" "pmm_stack_max t = pmm_stack_max s"
    "same_except (stack_frames s) (ram s) (ram t)"
    using pmm_free_page_pushes [OF ok, of p] p new(1) by auto
  have e: "t = s\<lparr>ram := ram t, pmm_stack_loc := pmm_stack_loc t, pmm_stack_max := pmm_stack_max t, klog := klog t\<rparr>"
    and pt: "pt_frames t = pt_frames s" using t(5) by (simp_all add: frees_def)
  have f: "dirs t = dirs s" "current_directory t = current_directory s" "cr3 t = cr3 s" "pmm_location t = pmm_location s"
    by (subst e, simp)+
  have st: "stack_frames t = stack_frames s" by (rule stack_frames_translate) (simp_all add: t)
  have "stack_frames s \<inter> pt_frames s = {}" using stack_okD(2) [of s] ok by (auto simp: mm_ok_def)
  then have "vacant (s\<lparr>ram := ram t\<rparr>) x = vacant s x" for x by (rule vacant_ram [OF t(8)])
  moreover have "vacant t x = vacant (s\<lparr>ram := ram t\<rparr>) x" for x
    by (subst e) (simp add: vacant_def pde_at_def pte_at_def pte_addr_def)
  ultimately have v: "vacant t = vacant s" by blast
  have m: "mappable t = mappable s"
    by (simp add: mappable_def fun_eq_iff window_def self_slot_def in_stack_def kernel_view_def f t(4,7))
  have "buffer t A" using b by (simp add: buffer_def t(4) pt)
  then have "owned t A" using own new(2) t(2) by (simp add: owned_def t(3,4) st self_slot_def f)
  with t(1,3,4,6,7) v m pt st f(4) show ?thesis by (intro that)
qed

text \<open>The address space of \<open>demo_low\<close> with two more free frames, and the threads of \<open>demo_sched\<close> on it.\<close>

definition demo_more :: vm where
  "demo_more = (case bnd (pmm_free_page 0x10000) (\<lambda>_. pmm_free_page 0x11000) demo_low of Inl e \<Rightarrow> demo_low | Inr (_, t) \<Rightarrow> t)"

definition demo_spawn :: sched where
  "demo_spawn = vm.extend demo_more (vm.more (demo_sched\<lparr>kheap_max := KHEAP_START, kheap_first := 0\<rparr>))"

lemma demo_more_memory:
  "owned demo_more {x. unat x < 4096}" "free_pages demo_more = [0x8000, 0x9000, 0x10000, 0x11000]"
  "vacant demo_more = vacant demo_low" "mappable demo_more = mappable demo_low"
proof -
  have e: "demo_low = demo\<lparr>pmm_stack_loc := pmm_stack_loc demo_low, ram := ram demo_low, klog := klog demo_low\<rparr>"
    using demo_low_run(3) by (simp add: grows_def)
  have f: "pmm_location demo_low = 0x6000" "pmm_stack_max demo_low = 0xFF800000" by (subst e, simp add: demo_def)+
  have "pmm_stack_loc demo_low \<le> 0xFF7FF00C"
    using steadyD(2) [OF steady_map_page beyond_parts(1) demo_low_run(1)] by (simp add: demo_def)
  then have l: "unat (pmm_stack_loc demo_low) \<le> 0xFF7FF00C" by (simp add: word_le_nat_alt)
  have st: "stack_frames demo_low = {0x4000}" by (rule demo_low_run(7))
  have fr: "frame (0x10000 :: u32) = 0x10000" "frame (0x11000 :: u32) = 0x11000" by (simp_all add: PAGE_ADDR_MASK_def)
  have fb: "frame (the (translate demo_low x)) = 0xB000" if "x \<in> {x. unat x < 4096}" for x
    using that demo_low_run(5) [of x] frame_add [OF off_less, of "0xB000" x] by (simp add: PAGE_ADDR_MASK_def)
  have n: "0x10000 \<notin> set (free_pages demo_low) \<union> pt_frames demo_low \<union> stack_frames demo_low"
    "0x11000 \<notin> set (free_pages demo_low) \<union> pt_frames demo_low \<union> stack_frames demo_low"
    using demo_low_run(6) by (auto simp: demo_low_run(4) st)
  obtain u where u: "pmm_free_page 0x10000 demo_low = Inr ((), u)" "owned u {x. unat x < 4096}"
    "free_pages u = free_pages demo_low @ [0x10000]" "translate u = translate demo_low" "vacant u = vacant demo_low"
    "mappable u = mappable demo_low" "pt_frames u = pt_frames demo_low" "stack_frames u = stack_frames demo_low"
    "pmm_stack_loc u = pmm_stack_loc demo_low + 4" "pmm_stack_max u = pmm_stack_max demo_low" "pmm_location u = pmm_location demo_low"
    by (rule free_more [OF demo_low_run(2) fr(1)]) (use n(1) fb l in \<open>simp_all add: f word_less_nat_alt\<close>)
  have l': "unat (pmm_stack_loc u) \<le> 0xFF7FF010" using l unfolding u(9) by (simp add: unat_word_ariths)
  obtain t where t: "pmm_free_page 0x11000 u = Inr ((), t)" "owned t {x. unat x < 4096}"
    "free_pages t = free_pages u @ [0x11000]" "vacant t = vacant u" "mappable t = mappable u"
    by (rule free_more [OF u(2) fr(2)]) (use n(2) fb l' in \<open>simp_all add: f u(3,4,7,8,10,11) word_less_nat_alt\<close>)
  have "demo_more = t" using u(1) t(1) by (simp add: demo_more_def bnd_run)
  then show "owned demo_more {x. unat x < 4096}" "free_pages demo_more = [0x8000, 0x9000, 0x10000, 0x11000]"
    "vacant demo_more = vacant demo_low" "mappable demo_more = mappable demo_low"
    using t(2-5) u(3,5,6) by (simp_all add: demo_low_run(4))
qed

lemma demo_stack_page:
  "mappable demo_low 0xE0000000" "vacant demo_low 0xE0000000"
proof -
  have i: "PGDIR_IDX_FROM_ADDR 0xE0000000 = 896" "frame 0xE0000000 = 0xE0000000" "frame (0 :: u32) = 0"
    by (simp_all add: PGDIR_IDX_FROM_ADDR_def PAGE_ADDR_MASK_def)
  have w: "self_slot demo = 1023" "directory (curdir demo) = 0xFFBFF000"
    by (simp_all add: self_slot_def demo_def PGDIR_IDX_FROM_ADDR_def)
  have m: "mappable demo 0xE0000000" "mappable demo 0"
    by (simp_all add: mappable_def window_def w i demo_in_stack kernel_view_def KERNEL_ADDRESS_SPACE_def PGDIR_IDX_FROM_ADDR_def)
  have v: "vacant demo 0xE0000000" by (simp add: vacant_def i demo_pde present_def)
  show "mappable demo_low 0xE0000000" by (rule grows_mappable [OF demo_low_run(3) m(1)])
  show "vacant demo_low 0xE0000000"
    by (rule vacant_map_page [OF demo_mm_ok m(2) demo_low_run(1) _ v]) (simp_all add: w i demo_free_pages)
qed

lemma demo_spawn_memory:
  "heap_ok demo_rest 0xF0400000 demo_spawn []" "length (free_pages demo_spawn) = 4" "mappable demo_spawn 0xE0000000"
  "first_free demo_spawn 0xE0000000 0xF0000000 4096 4096 (unat (0xE0000000 :: u32))" "kheap_max demo_spawn = KHEAP_START"
proof -
  have f: "kheap_max demo_spawn = KHEAP_START" "kheap_first demo_spawn = 0"
    by (simp_all add: demo_spawn_def demo_sched_defs)
  show "kheap_max demo_spawn = KHEAP_START" by (rule f(1))
  show "length (free_pages demo_spawn) = 4" by (simp add: demo_spawn_def demo_more_memory)
  have m: "mappable demo_spawn x = mappable demo_low x" "vacant demo_spawn x = vacant demo_low x" for x
    by (simp_all add: demo_spawn_def demo_more_memory vacant_extend)
  then show "mappable demo_spawn 0xE0000000" by (simp add: demo_stack_page)
  have "heap_area demo_rest KHEAP_START \<subseteq> {x. unat x < 4096}"
    by (auto simp: heap_area_def demo_rest_def KHEAP_START_def)
  then have own: "owned demo_spawn (heap_area demo_rest (kheap_max demo_spawn))"
    unfolding f(1) using owned_subset [OF demo_more_memory(1)] by (simp add: demo_spawn_def)
  moreover have "mappable demo_spawn x" if "KHEAP_START \<le> x" "unat x < 0xF0400000" for x
    using that grows_mappable [OF demo_low_run(3) demo_heap_pages, of x] by (simp add: m KHEAP_START_def word_le_nat_alt)
  moreover have "beside_heap demo_rest" by (simp add: beside_heap_def demo_rest_def)
  ultimately show "heap_ok demo_rest 0xF0400000 demo_spawn []"
    using f by (simp add: heap_ok_def heap_mem_def head_of_def PAGE_FLAGS_MASK_def KHEAP_END_def KHEAP_START_def)
  have pg: "paging_ok demo_spawn" using own by (simp add: owned_def mm_ok_def)
  have "mapping demo_spawn 0xE0000000 = None"
    using vacant_get_mapping [OF pg, of "0xE0000000"] demo_stack_page(2) by (simp add: mapping_def m)
  moreover have "x = 0xE0000000" if "off x = 0" "0xE0000000 \<le> unat x" "unat x < 0xE0001000" for x
  proof -
    have "unat x mod 4096 = 0" using that(1) unat_off [of x] by simp
    then obtain k where "unat x = 4096 * k" by (meson dvd_def mod_eq_0_iff_dvd)
    then have "unat x = 0xE0000000" using that(2,3) by simp
    then show ?thesis by (simp add: word_unat_eq_iff)
  qed
  ultimately have "range_free demo_spawn 0xE0000000 4096" by (auto simp: range_free_def)
  then show "first_free demo_spawn 0xE0000000 0xF0000000 4096 4096 (unat (0xE0000000 :: u32))"
    by (auto simp: first_free_def intro: exI [of _ 0])
qed

definition demo_exec_image :: exec_image where
  "demo_exec_image = image.extend demo_image (exec_image.fields 0x5678 0x400 0x500 0x300)"

section \<open>Properties\<close>

text \<open>C13: \<open>exec_thread\<close> starts its function in a new thread of the current task. With a free page in the range of the
  stacks, room for the structure in the heap and a slot in the list of the task, it returns the next thread number.
  The structure is a new block of the heap that overlaps no block and no other memory in use, the stack is the lowest
  free page of the range. The run queue is as before with the thread at the end of the current task, so the
  scheduler serves it in its turn; when it is first switched to, \<open>fn\<close> is entered with \<open>arg\<close> as its argument
  and \<open>thread_exit\<close> as its return address, with interrupts on. The heap stays well formed, the other threads, the blocks in use
  and the rest of the memory in use are as before.\<close>

theorem exec_thread_joins_queue:
  fixes s :: "'a sched_scheme"
  assumes ok: "heap_ok X L s cs"
    and stk: "first_free s 0xE0000000 0xF0000000 4096 4096 (unat va)" "va < USER_STACKS_END" "mappable s va"
    and free: "2 \<le> length (free_pages s)" and room: "has_room L (kheap_max s) (length (free_pages s) - 2) cs 52"
    and q: "runq s ts tc k c" "own_arrays s ts" "threads_placed X cs s"
    and slot: "length (threads_of ts k) < slots s (list_of ts k)"
  shows "\<exists>p t ds. exec_thread im fn arg s = Inr (next_tid s, t)
    \<and> runq t (with_thread ts k p) tc k c \<and> own_arrays t (with_thread ts k p) \<and> threads_placed (X \<union> page_of va) ds t
    \<and> enters p (va + 0xFF0) fn arg (at_thread_exit im) t
    \<and> thread_objs s p = None \<and> (\<forall>q. q \<noteq> p \<longrightarrow> thread_objs t q = thread_objs s q)
    \<and> heap_ok (X \<union> page_of va) L t ds \<and> {unat p..<unat p + 40} \<subseteq> payload 4026531840 ds - payload 4026531840 cs
    \<and> X \<inter> page_of va = {} \<and> kept X cs s t"
proof -
  let ?K = "4026531840"
  have k: "k < length ts" and rep: "list_rep s (list_of ts k) (threads_of ts k) c"
    and ct: "current_task s = task_of ts k" "current_thread s \<in> set (threads_of ts k)" and ti: "tasks_in s ts"
    using q(1) by (simp_all add: runq_def)
  obtain tk where tk: "task_objs s (current_task s) = Some tk" "task_threads tk = list_of ts k"
    "ready s (current_thread s)" using ti k ct unfolding tasks_in_def by metis
  obtain lr arr where l: "lists s (list_of ts k) = Some lr" "arrays s (elems lr) = Some arr" "unat (list_size lr) < length arr"
    by (rule slots_array [OF rep slot])
  obtain r ds where model: "first_fit 52 ?K cs = (r, ds)" by fastforce
  let ?p = "of_nat (r + 12) :: u32" and ?th = "new_thread (next_tid s) (va + 0xFF0) (va + 0x1000) 0x1000"
  obtain t where t: "exec_thread im fn arg s = Inr (next_tid s, t)" "heap_ok (X \<union> page_of va) L t ds"
    "{r + 12..<r + 52} \<subseteq> payload ?K ds" "{r + 12..<r + 52} \<inter> payload ?K cs = {}" "payload ?K cs \<subseteq> payload ?K ds"
    "X \<inter> page_of va = {}" "kept X cs s t"
    "heap.more t = heap.more (s\<lparr>next_tid := next_tid s + 1, thread_objs := (thread_objs s)(?p := Some ?th),
        lists := (lists s)(list_of ts k := Some (lr\<lparr>list_size := list_size lr + 1\<rparr>)),
        arrays := (arrays s)(elems lr := Some (arr[unat (list_size lr) := Some ?p]))\<rparr>)"
    "word_at t (va + 0xFF0) fn" "word_at t (va + 0xFF4) (at_thread_exit im)"
    "word_at t (va + 0xFF8) arg" "word_at t (va + 0xFFC) 0"
    using exec_thread_run [OF ok stk free room model tk(1) l [folded tk(2)]] unfolding tk(2) by blast
  have f: "thread_objs t = (thread_objs s)(?p := Some ?th)" "task_objs t = task_objs s" "current_thread t = current_thread s"
    "current_task t = current_task s" "lists t = (lists s)(list_of ts k := Some (lr\<lparr>list_size := list_size lr + 1\<rparr>))"
    "arrays t = (arrays s)(elems lr := Some (arr[unat (list_size lr) := Some ?p]))" "tasks t = tasks s" "threads t = threads s"
    using threading_fields [OF t(8)] threading_more [OF t(8)] by simp_all
  have rB: "r + 12 \<in> {r + 12..<r + 52}" by simp
  then have "r + 12 \<in> payload ?K ds" using t(3) by blast
  note up = block_address(1,2) [OF t(2) this] and nX = block_address(3) [OF t(2) this heap_okD(2) [OF ok]]
  have "unat ?p \<notin> payload ?K cs" using t(4) rB unfolding up(1) by blast
  then have new: "thread_objs s ?p = None" using q(3) nX unfolding threads_placed_def by blast
  have "th_state ?th = THREAD_RUNNING" by (simp add: new_thread_def)
  note rq = runq_push [OF q(1,2) l up(2) new this f(5,6,1,2,7,8,4,3)]
  have cn: "current_thread s \<noteq> ?p" using new tk(3) by (auto simp: ready_def)
  have e: "enters ?p (va + 0xFF0) fn arg (at_thread_exit im) t"
    by (rule enters_stack [OF _ _ _ t(9-12)]) (use tk(3) cn in \<open>auto simp: f ready_def\<close>)
  have e40: "r + 12 + 40 = r + 52" by simp
  have blk: "{unat ?p..<unat ?p + 40} \<subseteq> payload ?K ds - payload ?K cs" using t(3,4) unfolding up(1) e40 by blast
  have "unat x \<in> payload ?K ds \<or> x \<in> X \<union> page_of va" if "thread_objs t x \<noteq> None" for x
  proof (cases "x = ?p")
    case True
    then show ?thesis using t(3) rB unfolding True up(1) by blast
  next
    case False
    then have "thread_objs s x \<noteq> None" using that by (simp add: f(1))
    then show ?thesis using q(3) t(5) unfolding threads_placed_def by blast
  qed
  then have pl: "threads_placed (X \<union> page_of va) ds t" unfolding threads_placed_def by blast
  have "\<forall>q. q \<noteq> ?p \<longrightarrow> thread_objs t q = thread_objs s q" unfolding f(1) by simp
  with t(1,2,6,7) rq pl e new blk show ?thesis by blast
qed

lemma runq_more:
  fixes s t :: "'a sched_scheme"
  assumes "heap.more t = heap.more s"
  shows "runq t ts tc k c = runq s ts tc k c" "slots t l = slots s l" "own_arrays t ts = own_arrays s ts"
    "threads_placed X cs t = threads_placed X cs s"
  unfolding runq_def tasks_in_def ready_def list_rep_def slots_def own_arrays_def array_of_def threads_placed_def
  by (simp_all only: threading_fields [OF assms] threading_more [OF assms])

theorem exec_thread_joins_queue_witness:
  "\<exists>p t. exec_thread demo_exec_image 0x1234 7 demo_spawn = Inr (4, t)
    \<and> runq t (with_thread demo_queue 0 p) 0 0 1 \<and> enters p 0xE0000FF0 0x1234 7 0x5678 t"
proof -
  have x: "at_thread_exit demo_exec_image = 0x5678" by (simp add: demo_exec_image_def image.defs exec_image.defs)
  have r: "has_room 0xF0400000 (kheap_max demo_spawn) (length (free_pages demo_spawn) - 2) [] 52"
    by (simp add: has_room_def fitting_def pages_for_def demo_spawn_memory(2,5) KHEAP_START_def)
  have m: "heap.more demo_spawn = heap.more demo_sched" by (simp add: demo_spawn_def demo_sched_defs)
  note q = runq_more [OF m]
  have two: "i < length demo_queue \<longleftrightarrow> i = 0 \<or> i = 1" for i by (auto simp: demo_queue_def)
  have o: "runq demo_spawn demo_queue 0 0 1" "own_arrays demo_spawn demo_queue" "threads_placed demo_rest [] demo_spawn"
    "length (threads_of demo_queue 0) < slots demo_spawn (list_of demo_queue 0)"
  proof -
    show "runq demo_spawn demo_queue 0 0 1" unfolding q by (rule demo_runq)
    show "own_arrays demo_spawn demo_queue"
      unfolding q unfolding own_arrays_def two by (auto simp: array_of_def demo_sched_defs demo_queue_def)
    show "threads_placed demo_rest [] demo_spawn"
      unfolding q by (auto simp: threads_placed_def demo_rest_def demo_sched_defs)
    show "length (threads_of demo_queue 0) < slots demo_spawn (list_of demo_queue 0)"
      unfolding q by (simp add: slots_def demo_sched_defs demo_queue_def)
  qed
  have va: "(0xE0000000 :: u32) < USER_STACKS_END" and free: "2 \<le> length (free_pages demo_spawn)"
    by (simp_all add: USER_STACKS_END_def demo_spawn_memory(2))
  have tid: "next_tid demo_spawn = 4" by (simp add: demo_spawn_def demo_sched_defs)
  from exec_thread_joins_queue [OF demo_spawn_memory(1,4) va demo_spawn_memory(3) free r o, of demo_exec_image "0x1234" 7]
  show ?thesis by (auto simp: x tid)
qed

end
