(* ===== verification/Kernel_Grown.thy ===== *)
theory Kernel_Grown
  imports Kernel_Blocks
begin

text \<open>
  A heap in which every block is in use, as it is while the kernel starts: each allocation adds a
  block behind the others. \<open>grown\<close> relates the states before and after some of them.
\<close>

section \<open>A heap that only grows\<close>

definition used :: "chunks \<Rightarrow> bool" where
  "used cs \<longleftrightarrow> (\<forall>c \<in> set cs. fst c)"

lemma used_append [simp]: "used (cs @ ds) \<longleftrightarrow> used cs \<and> used ds" "used [(b, l)] \<longleftrightarrow> b"
  by (auto simp: used_def)

text \<open>The free frames are enough for the heap to grow up to \<open>e\<close>.\<close>

definition budget :: "nat \<Rightarrow> nat \<Rightarrow> 'a heap_scheme \<Rightarrow> bool" where
  "budget L e s \<longleftrightarrow> e \<le> L \<and> 2 * pages_for e (kheap_max s) \<le> length (free_pages s)"

lemma pages_for_step:
  assumes m: "off m = 0" "off m' = 0" "unat m \<le> unat m'" and h: "h \<le> unat m'" "h \<le> e"
  shows "pages_for e m' + pages_for h m \<le> pages_for e m"
proof -
  have "4096 dvd unat m" "4096 dvd unat m'" using m(1,2) unat_off [of m] unat_off [of m'] by auto
  then obtain a b where ab: "unat m = 4096 * a" "unat m' = 4096 * b" unfolding dvd_def by blast
  have d: "(x - 4096 * k) div 4096 = x div 4096 - k" for x k :: nat
  proof (cases "4096 * k \<le> x")
    case True
    then obtain y where "x = 4096 * k + y" using le_Suc_ex by blast
    then show ?thesis by simp
  next
    case False
    then have "x div 4096 \<le> k" by (intro less_imp_le less_mult_imp_div_less) simp
    then show ?thesis using False by simp
  qed
  have "(h + 4095) div 4096 \<le> b" using h(1) unfolding ab(2) by linarith
  moreover have "(h + 4095) div 4096 \<le> (e + 4095) div 4096" using h(2) by (intro div_le_mono) simp
  moreover have "a \<le> b" using m(3) unfolding ab by simp
  ultimately show ?thesis unfolding pages_for_def ab d by linarith
qed

lemma budget_step:
  assumes ok: "heap_ok X L s cs" "heap_ok X L t ds" and b: "budget L e s" "heap_end 4026531840 ds \<le> e"
    and f: "length (free_pages s) \<le> length (free_pages t) + 2 * pages_for (heap_end 4026531840 ds) (kheap_max s)"
    and m: "unat (kheap_max s) \<le> unat (kheap_max t)"
  shows "budget L e t"
proof -
  have "off (kheap_max s) = 0" "off (kheap_max t) = 0" "heap_end 4026531840 ds \<le> unat (kheap_max t)"
    using ok by (simp_all add: heap_ok_def heap_mem_def)
  note pages_for_step [OF this(1,2) m this(3) b(2)]
  then show ?thesis using b(1) f unfolding budget_def by linarith
qed

lemma used_fit:
  assumes "used cs"
  shows "first_fit need a cs = (heap_end a cs, cs @ [(True, need)])" and "fitting need cs = None"
proof -
  have u: "\<forall>c \<in> set cs. unfit need c" using assms by (simp add: used_def unfit_def)
  show "first_fit need a cs = (heap_end a cs, cs @ [(True, need)])" using first_fit_skip [OF u, of a "[]"] by simp
  show "fitting need cs = None" using u by (auto simp: fitting_def find_None_iff)
qed

text \<open>A state after allocations in a heap with the chunks \<open>cs\<close>: new chunks behind, nothing else changed.\<close>

definition grown :: "u32 set \<Rightarrow> nat \<Rightarrow> nat \<Rightarrow> chunks \<Rightarrow> chunks \<Rightarrow> 'a heap_scheme \<Rightarrow> 'a heap_scheme \<Rightarrow> bool" where
  "grown X L e cs ns s t \<longleftrightarrow> heap_ok X L t (cs @ ns) \<and> used (cs @ ns) \<and> budget L e t \<and> kept X cs s t
     \<and> current_directory t = current_directory s"

lemma grown_more:
  assumes "grown X L e cs ns s t" and "below u = below t"
  shows "grown X L e cs ns s u"
proof -
  have "vm.truncate u = vm.truncate t" using assms(2) by (simp add: below_def)
  then have "current_directory (vm.truncate u) = current_directory (vm.truncate t)" by simp
  then have "current_directory u = current_directory t" by (simp add: vm.defs)
  then show ?thesis using assms(1) unfolding grown_def budget_def kept_def below_same [OF assms(2)] by simp
qed

lemma grown_alloc:
  assumes g: "grown X L e cs ns s t" and e: "heap_end 4026531840 (cs @ ns) + (unat len + 12) \<le> e"
  shows "\<exists>u. kmalloc len t = Inr (of_nat (heap_end 4026531840 (cs @ ns) + 12), u)
      \<and> grown X L e cs (ns @ [(True, unat len + 12)]) s u \<and> heap.more u = heap.more t"
    and "\<exists>u. kmalloc_zero len t = Inr (of_nat (heap_end 4026531840 (cs @ ns) + 12), u)
      \<and> grown X L e cs (ns @ [(True, unat len + 12)]) s u \<and> heap.more u = heap.more t"
proof -
  let ?K = "4026531840" and ?ds = "(cs @ ns) @ [(True, unat len + 12)]"
  have ok: "heap_ok X L t (cs @ ns)" and u: "used (cs @ ns)" and b: "budget L e t" and k: "kept X cs s t"
    and cd: "current_directory t = current_directory s" using g by (simp_all add: grown_def)
  have "pages_for (heap_end ?K (cs @ ns) + (unat len + 12)) (kheap_max t) \<le> pages_for e (kheap_max t)"
    unfolding pages_for_def using e by (intro div_le_mono) simp
  then have r: "has_room L (kheap_max t) (length (free_pages t)) (cs @ ns) (unat len + 12)"
    using b e by (simp add: has_room_def used_fit(2) [OF u] budget_def)
  have p: "payload ?K cs \<subseteq> payload ?K (cs @ ns)" by simp
  have he: "heap_end ?K ?ds \<le> e" using e by simp
  have fin: "grown X L e cs (ns @ [(True, unat len + 12)]) s v \<and> heap.more v = heap.more t"
    if v: "heap_ok X L v ?ds" "kept X (cs @ ns) t v" "above_heap v = above_heap t"
      "length (free_pages t) \<le> length (free_pages v) + 2 * pages_for (heap_end ?K ?ds) (kheap_max t)"
      "unat (kheap_max t) \<le> unat (kheap_max v)" for v
    using v(1,3) u cd kept_trans [OF k v(2) p] budget_step [OF ok v(1) b he v(4,5)]
    by (simp add: grown_def above_heap_def)
  from kmalloc_fit_run [OF ok r used_fit(1) [OF u]] obtain v where
    v: "kmalloc len t = Inr (of_nat (heap_end ?K (cs @ ns) + 12), v)" "heap_ok X L v ?ds" "kept X (cs @ ns) t v"
      "length (free_pages t) \<le> length (free_pages v) + 2 * pages_for (heap_end ?K ?ds) (kheap_max t)"
      "unat (kheap_max t) \<le> unat (kheap_max v)" by blast
  have "above_heap v = above_heap t" by (rule steadyD(1) [OF steady_kmalloc _ v(1)]) simp
  with fin v show "\<exists>u. kmalloc len t = Inr (of_nat (heap_end ?K (cs @ ns) + 12), u)
      \<and> grown X L e cs (ns @ [(True, unat len + 12)]) s u \<and> heap.more u = heap.more t" by blast
  from kmalloc_zero_run [OF ok r used_fit(1) [OF u]] fin
  show "\<exists>u. kmalloc_zero len t = Inr (of_nat (heap_end ?K (cs @ ns) + 12), u)
      \<and> grown X L e cs (ns @ [(True, unat len + 12)]) s u \<and> heap.more u = heap.more t" by blast
qed

end
