(* ===== verification/Kernel_Begin.thy ===== *)
theory Kernel_Begin
  imports Kernel_Tasks Kernel_Grown
begin

text \<open>
  The start of the scheduler: \<open>init_threading\<close>, \<open>init_tasking\<close> and \<open>init_scheduler\<close> (\<open>kernel/sched\<close>), in the order of
  \<open>kmain\<close>. They run on a heap whose blocks are all in use, as it is after the early boot, where it is empty; they
  build the queue that \<open>schedule\<close> and \<open>exec_thread\<close> work on.
\<close>

section \<open>Lists and tasks\<close>

abbreviation empty_list :: "u32 \<Rightarrow> list_t" where
  "empty_list a \<equiv> \<lparr>elems = a, capacity = INITIAL_CAPACITY, list_size = 0, curr = 0\<rparr>"

lemma list_new_grown:
  fixes s t :: "'a objects_scheme"
  assumes g: "grown X L e cs ns s t" and e: "heap_end 4026531840 (cs @ ns) + 64 \<le> e"
  defines "l \<equiv> of_nat (heap_end 4026531840 (cs @ ns) + 12)" and "a \<equiv> of_nat (heap_end 4026531840 (cs @ ns) + 40)"
  shows "\<exists>u. list_new t = Inr (l, u) \<and> grown X L e cs (ns @ [(True, 28), (True, 36)]) s u
    \<and> heap.more u = heap.more (t\<lparr>arrays := (arrays t)(a := Some (replicate 6 None)), lists := (lists t)(l := Some (empty_list a))\<rparr>)"
proof -
  let ?K = "4026531840"
  have n: "unat sizeof_list + 12 = 28" "unat (4 * 6 :: u32) + 12 = 36" by (simp_all add: sizeof_list_def)
  obtain u where u: "kmalloc_zero sizeof_list t = Inr (l, u)" "grown X L e cs (ns @ [(True, 28)]) s u" "heap.more u = heap.more t"
    using grown_alloc(2) [OF g, of sizeof_list] e unfolding n l_def by auto
  have h: "heap_end ?K (cs @ ns @ [(True, 28)]) + 12 = heap_end ?K (cs @ ns) + 40" by simp
  have "heap_end ?K (cs @ ns @ [(True, 28)]) + 36 \<le> e" using e by simp
  then obtain v where v: "kmalloc (4 * 6) u = Inr (a, v)" "grown X L e cs (ns @ [(True, 28), (True, 36)]) s v"
    "heap.more v = heap.more u"
    using grown_alloc(1) [OF u(2), of "4 * 6"] unfolding n h a_def by auto
  have vm: "lists v = lists t" "arrays v = arrays t" "objects.more v = objects.more t"
    using u(3) v(3) by (cases t, cases u, cases v, simp)+
  define w where "w = v\<lparr>arrays := (arrays v)(a := Some (replicate 6 None)), lists := (lists v)(l := Some (empty_list a))\<rparr>"
  have "list_new t = Inr (l, w)"
    using u(1) v(1) by (simp add: list_new_def bnd_run upd_run ret_run put_list_run w_def)
  moreover have "grown X L e cs (ns @ [(True, 28), (True, 36)]) s w"
    by (rule grown_more [OF v(2)]) (simp add: w_def below_def vm.defs)
  moreover have "heap.more w = heap.more (t\<lparr>arrays := (arrays t)(a := Some (replicate 6 None)), lists := (lists t)(l := Some (empty_list a))\<rparr>)"
    using vm by (cases t, cases v) (simp add: w_def)
  ultimately show ?thesis by blast
qed

text \<open>The states of \<open>create_task\<close>, for a thread that is there already.\<close>

lemma create_task_grown:
  fixes s t :: "'a threading_scheme"
  assumes g: "grown X L e cs ns s t" and e: "heap_end 4026531840 (cs @ ns) + 88 \<le> e"
  defines "p \<equiv> of_nat (heap_end 4026531840 (cs @ ns) + 12)" and "l \<equiv> of_nat (heap_end 4026531840 (cs @ ns) + 36)"
    and "a \<equiv> of_nat (heap_end 4026531840 (cs @ ns) + 64)"
  shows "\<exists>u. create_task th dir t = Inr (p, u) \<and> grown X L e cs (ns @ [(True, 24), (True, 28), (True, 36)]) s u
    \<and> heap.more u = heap.more (t\<lparr>next_pid := next_pid t + 1,
        arrays := (arrays t)(a := Some (Some th # replicate 5 None)),
        lists := (lists t)(l := Some ((empty_list a)\<lparr>list_size := 1\<rparr>)),
        task_objs := (task_objs t)(p := Some \<lparr>task_page_directory = dir, task_pid = next_pid t, task_threads = l\<rparr>)\<rparr>)"
proof -
  let ?K = "4026531840"
  have n: "unat sizeof_task + 12 = 24" by (simp add: sizeof_task_def)
  obtain u where u: "kmalloc_zero sizeof_task t = Inr (p, u)" "grown X L e cs (ns @ [(True, 24)]) s u" "heap.more u = heap.more t"
    using grown_alloc(2) [OF g, of sizeof_task] e unfolding n p_def by auto
  define u' where "u' = u\<lparr>next_pid := next_pid u + 1\<rparr>"
  have gu: "grown X L e cs (ns @ [(True, 24)]) s u'"
    by (rule grown_more [OF u(2)]) (simp add: u'_def below_def vm.defs)
  have h: "heap_end ?K (cs @ ns @ [(True, 24)]) + 12 = heap_end ?K (cs @ ns) + 36"
    "heap_end ?K (cs @ ns @ [(True, 24)]) + 40 = heap_end ?K (cs @ ns) + 64" by simp_all
  have "heap_end ?K (cs @ ns @ [(True, 24)]) + 64 \<le> e" using e by simp
  from list_new_grown [OF gu this, unfolded h] obtain v where
    v: "list_new u' = Inr (l, v)" "grown X L e cs (ns @ [(True, 24), (True, 28), (True, 36)]) s v"
      "heap.more v = heap.more (u'\<lparr>arrays := (arrays u')(a := Some (replicate 6 None)), lists := (lists u')(l := Some (empty_list a))\<rparr>)"
    unfolding l_def a_def by auto
  let ?tk = "\<lparr>task_page_directory = dir, task_pid = next_pid u, task_threads = l\<rparr>"
  define w where "w = v\<lparr>task_objs := (task_objs v)(p := Some ?tk),
    lists := (lists v)(l := Some ((empty_list a)\<lparr>list_size := 1\<rparr>)), arrays := (arrays v)(a := Some (Some th # replicate 5 None))\<rparr>"
  have vl: "lists v l = Some (empty_list a)" "arrays v a = Some (replicate 6 None)"
    using v(3) by (cases u', cases v, simp)+
  have r6: "replicate 6 None = None # replicate 5 (None :: u32 option)" by (simp add: numeral_eq_Suc)
  have "list_push_back l th (v\<lparr>task_objs := (task_objs v)(p := Some ?tk)\<rparr>) = Inr ((), w)"
    by (subst list_push_back_run [where r = "empty_list a" and arr = "replicate 6 None"]) (simp_all add: vl w_def r6)
  then have "create_task th dir t = Inr (p, w)"
    using u(1) v(1) by (simp add: create_task_def fresh_pid_def put_task_def bnd_run gets_run upd_run ret_run u'_def)
  moreover have "grown X L e cs (ns @ [(True, 24), (True, 28), (True, 36)]) s w"
    by (rule grown_more [OF v(2)]) (simp add: w_def below_def vm.defs)
  moreover have "heap.more w = heap.more (t\<lparr>next_pid := next_pid t + 1,
        arrays := (arrays t)(a := Some (Some th # replicate 5 None)),
        lists := (lists t)(l := Some ((empty_list a)\<lparr>list_size := 1\<rparr>)),
        task_objs := (task_objs t)(p := Some \<lparr>task_page_directory = dir, task_pid = next_pid t, task_threads = l\<rparr>)\<rparr>)"
    using u(3) v(3) by (cases t, cases u, cases v) (simp add: w_def u'_def)
  ultimately show ?thesis by blast
qed

section \<open>The scheduler starts\<close>

definition first_thread :: "u32 \<Rightarrow> u32 \<Rightarrow> u32 \<Rightarrow> thread" where
  "first_thread tid upper lower = zero_thread\<lparr>th_tid := tid, th_state := THREAD_RUNNING,
     th_stack_size := upper - lower + 4, th_esp0 := upper\<rparr>"

lemma init_threading_grown:
  fixes s :: "'a threading_scheme"
  assumes g: "grown X L e cs [] s s" and e: "heap_end 4026531840 cs + 52 \<le> e"
  defines "p \<equiv> of_nat (heap_end 4026531840 cs + 12)"
  shows "\<exists>t. init_threading upper lower s = Inr (p, t) \<and> grown X L e cs [(True, 52)] s t
    \<and> heap.more t = heap.more (s\<lparr>kernel_thread := p, current_thread := p, next_tid := next_tid s + 1,
        thread_objs := (thread_objs s)(p := Some (first_thread (next_tid s) upper lower))\<rparr>)"
proof -
  have n: "unat sizeof_thread + 12 = 52" by (simp add: sizeof_thread_def)
  obtain u where u: "kmalloc_zero sizeof_thread s = Inr (p, u)" "grown X L e cs [(True, 52)] s u" "heap.more u = heap.more s"
    using grown_alloc(2) [OF g, of sizeof_thread] e unfolding n p_def by auto
  define t where "t = u\<lparr>kernel_thread := p, current_thread := p, next_tid := next_tid u + 1,
    thread_objs := (thread_objs u)(p := Some (first_thread (next_tid u) upper lower))\<rparr>"
  have "init_threading upper lower s = Inr (p, t)"
    using u(1) by (simp add: init_threading_def fresh_tid_def put_thread_def bnd_run gets_run upd_run ret_run t_def first_thread_def)
  moreover have "grown X L e cs [(True, 52)] s t" by (rule grown_more [OF u(2)]) (simp add: t_def below_def vm.defs)
  moreover have "heap.more t = heap.more (s\<lparr>kernel_thread := p, current_thread := p, next_tid := next_tid s + 1,
      thread_objs := (thread_objs s)(p := Some (first_thread (next_tid s) upper lower))\<rparr>)"
    using u(3) by (cases s, cases u) (simp add: t_def)
  ultimately show ?thesis by blast
qed

lemma init_tasking_grown:
  fixes s t :: "'a threading_scheme"
  assumes g: "grown X L e cs ns s t" and e: "heap_end 4026531840 (cs @ ns) + 88 \<le> e"
  defines "p \<equiv> of_nat (heap_end 4026531840 (cs @ ns) + 12)" and "l \<equiv> of_nat (heap_end 4026531840 (cs @ ns) + 36)"
    and "a \<equiv> of_nat (heap_end 4026531840 (cs @ ns) + 64)"
  shows "\<exists>u. init_tasking th t = Inr (p, u) \<and> grown X L e cs (ns @ [(True, 24), (True, 28), (True, 36)]) s u
    \<and> heap.more u = heap.more (t\<lparr>next_pid := next_pid t + 1,
        arrays := (arrays t)(a := Some (Some th # replicate 5 None)),
        lists := (lists t)(l := Some ((empty_list a)\<lparr>list_size := 1\<rparr>)),
        task_objs := (task_objs t)(p := Some \<lparr>task_page_directory = current_directory s, task_pid = next_pid t, task_threads = l\<rparr>),
        kernel_task := p, current_task := p\<rparr>)"
proof -
  have cd: "current_directory t = current_directory s" using g by (simp add: grown_def)
  obtain u where u: "create_task th (current_directory s) t = Inr (p, u)"
    "grown X L e cs (ns @ [(True, 24), (True, 28), (True, 36)]) s u"
    "heap.more u = heap.more (t\<lparr>next_pid := next_pid t + 1, arrays := (arrays t)(a := Some (Some th # replicate 5 None)),
        lists := (lists t)(l := Some ((empty_list a)\<lparr>list_size := 1\<rparr>)),
        task_objs := (task_objs t)(p := Some \<lparr>task_page_directory = current_directory s, task_pid = next_pid t, task_threads = l\<rparr>)\<rparr>)"
    using create_task_grown [OF g e, of th "current_directory s"] unfolding p_def l_def a_def by blast
  define v where "v = u\<lparr>kernel_task := p, current_task := p\<rparr>"
  have "init_tasking th t = Inr (p, v)"
    using u(1) cd by (simp add: init_tasking_def bnd_run gets_run upd_run v_def)
  moreover have "grown X L e cs (ns @ [(True, 24), (True, 28), (True, 36)]) s v"
    by (rule grown_more [OF u(2)]) (simp add: v_def below_def vm.defs)
  moreover have "heap.more v = heap.more (t\<lparr>next_pid := next_pid t + 1,
        arrays := (arrays t)(a := Some (Some th # replicate 5 None)),
        lists := (lists t)(l := Some ((empty_list a)\<lparr>list_size := 1\<rparr>)),
        task_objs := (task_objs t)(p := Some \<lparr>task_page_directory = current_directory s, task_pid = next_pid t, task_threads = l\<rparr>),
        kernel_task := p, current_task := p\<rparr>)"
    using u(3) by (cases t, cases u) (simp add: v_def)
  ultimately show ?thesis by blast
qed

lemma init_scheduler_grown:
  fixes s t :: "'a sched_scheme"
  assumes g: "grown X L e cs ns s t" and e: "heap_end 4026531840 (cs @ ns) + 64 \<le> e"
    and tk: "task_objs t p = Some tk" and l: "lists t (task_threads tk) = Some r" "curr r = 0" "list_size r = 1"
  defines "m \<equiv> of_nat (heap_end 4026531840 (cs @ ns) + 12)" and "a \<equiv> of_nat (heap_end 4026531840 (cs @ ns) + 40)"
  assumes ne: "task_threads tk \<noteq> m"
  shows "\<exists>u. init_scheduler p t = Inr ((), u) \<and> grown X L e cs (ns @ [(True, 28), (True, 36)]) s u
    \<and> heap.more u = heap.more (t\<lparr>arrays := (arrays t)(a := Some (Some p # replicate 5 None)),
        lists := (lists t)(m := Some ((empty_list a)\<lparr>list_size := 1\<rparr>), task_threads tk := Some (r\<lparr>curr := 1\<rparr>)),
        tasks := m, threads := task_threads tk\<rparr>)"
proof -
  let ?l = "task_threads tk"
  obtain u where u: "list_new t = Inr (m, u)" "grown X L e cs (ns @ [(True, 28), (True, 36)]) s u"
    "heap.more u = heap.more (t\<lparr>arrays := (arrays t)(a := Some (replicate 6 None)), lists := (lists t)(m := Some (empty_list a))\<rparr>)"
    using list_new_grown [OF g e] unfolding m_def a_def by blast
  have f: "lists u = (lists t)(m := Some (empty_list a))" "arrays u = (arrays t)(a := Some (replicate 6 None))" "task_objs u = task_objs t"
    using u(3) by (cases t, cases u, simp)+
  have r6: "replicate 6 None = None # replicate 5 (None :: u32 option)" by (simp add: numeral_eq_Suc)
  let ?v = "u\<lparr>tasks := m, lists := (lists u)(m := Some ((empty_list a)\<lparr>list_size := 1\<rparr>)),
    arrays := (arrays u)(a := Some (Some p # replicate 5 None))\<rparr>"
  have push: "list_push_back m p (u\<lparr>tasks := m\<rparr>) = Inr ((), ?v)"
    by (subst list_push_back_run [where r = "empty_list a" and arr = "replicate 6 None"]) (simp_all add: f r6)
  define w where "w = ?v\<lparr>threads := ?l, lists := (lists ?v)(?l := Some (r\<lparr>curr := 1\<rparr>))\<rparr>"
  have "list_next ?l (?v\<lparr>threads := ?l\<rparr>) = Inr (0, w)"
    using l ne by (simp add: list_next_def list_current_def get_list_def put_list_def the_obj_def bnd_run gets_run upd_run ret_run f w_def)
  then have "init_scheduler p t = Inr ((), w)"
    using u(1) push tk by (simp add: init_scheduler_def bnd_run upd_run get_task_def gets_run the_obj_def ret_run skip_run f)
  moreover have "grown X L e cs (ns @ [(True, 28), (True, 36)]) s w"
    by (rule grown_more [OF u(2)]) (simp add: w_def below_def vm.defs)
  moreover have "heap.more w = heap.more (t\<lparr>arrays := (arrays t)(a := Some (Some p # replicate 5 None)),
        lists := (lists t)(m := Some ((empty_list a)\<lparr>list_size := 1\<rparr>), ?l := Some (r\<lparr>curr := 1\<rparr>)),
        tasks := m, threads := ?l\<rparr>)"
    using u(3) by (cases t, cases u) (simp add: w_def)
  ultimately show ?thesis by blast
qed

section \<open>The queue with one thread\<close>

lemma block_addresses:
  assumes ok: "heap_ok X L s cs" and b: "budget L e s" and x: "heap_end 4026531840 cs + x \<le> e"
  shows "unat (of_nat (heap_end 4026531840 cs + x) :: u32) = heap_end 4026531840 cs + x"
    and "of_nat (heap_end 4026531840 cs + x) \<noteq> (0 :: u32)"
    and "heap_end 4026531840 cs + y \<le> e \<Longrightarrow> (of_nat (heap_end 4026531840 cs + x) = (of_nat (heap_end 4026531840 cs + y) :: u32)) \<longleftrightarrow> x = y"
proof -
  have L: "e \<le> 4244635648" using heap_limit [OF ok] b by (simp add: budget_def)
  have u: "unat (of_nat (heap_end 4026531840 cs + z) :: u32) = heap_end 4026531840 cs + z" if "heap_end 4026531840 cs + z \<le> e" for z
    using that L by (simp add: unat_of_nat del: of_nat_add)
  show "unat (of_nat (heap_end 4026531840 cs + x) :: u32) = heap_end 4026531840 cs + x" by (rule u [OF x])
  have "4026531840 \<le> heap_end 4026531840 cs" by (rule heap_end_ge)
  then show "of_nat (heap_end 4026531840 cs + x) \<noteq> (0 :: u32)" unfolding word_unat_eq_iff u [OF x] by simp
  show "(of_nat (heap_end 4026531840 cs + x) = (of_nat (heap_end 4026531840 cs + y) :: u32)) \<longleftrightarrow> x = y"
    if "heap_end 4026531840 cs + y \<le> e" unfolding word_unat_eq_iff u [OF x] u [OF that] by simp
qed

lemma list_rep_one:
  assumes "lists s l = Some (empty_list a\<lparr>list_size := 1, curr := of_nat c\<rparr>)" and "arrays s a = Some (Some x # replicate 5 None)" and "c \<le> 1"
  shows "list_rep s l [x] c"
  using assms by (auto simp: list_rep_def)

lemma runq_one:
  fixes s :: "'a sched_scheme"
  assumes d: "l \<noteq> m" "a \<noteq> b" and nz: "p \<noteq> 0" "m \<noteq> 0" "x \<noteq> 0"
    and li: "lists s l = Some (empty_list a\<lparr>list_size := 1, curr := 1\<rparr>)" "lists s m = Some (empty_list b\<lparr>list_size := 1\<rparr>)"
    and ar: "arrays s a = Some (Some x # replicate 5 None)" "arrays s b = Some (Some p # replicate 5 None)"
    and o: "task_objs s p = Some tk" "task_threads tk = l" "thread_objs s x = Some th" "th_state th = THREAD_RUNNING"
    and f: "tasks s = m" "threads s = l" "current_task s = p" "current_thread s = x"
  shows "runq s [(p, l, [x])] 0 0 1" and "own_arrays s [(p, l, [x])]" and "slots s l = 6"
proof -
  have "list_rep s l [x] 1" by (rule list_rep_one [where a = a]) (simp_all add: li ar)
  moreover have "list_rep s m [p] 0" by (rule list_rep_one [where a = b]) (simp_all add: li ar)
  ultimately show "runq s [(p, l, [x])] 0 0 1"
    using d nz o f by (auto simp: runq_def queue_shape_def tasks_in_def ready_def)
  show "own_arrays s [(p, l, [x])]" using d(2) by (simp add: own_arrays_def array_of_def li f)
  show "slots s l = 6" by (simp add: slots_def li ar)
qed

abbreviation start_chunks :: chunks where
  "start_chunks \<equiv> [(True, 52), (True, 24), (True, 28), (True, 36), (True, 28), (True, 36)]"

abbreviation start_threads :: "u32 \<Rightarrow> u32 \<Rightarrow> ('a sched_scheme, unit) cmd" where
  "start_threads upper lower \<equiv> bnd (init_threading upper lower) (\<lambda>th. bnd (init_tasking th) init_scheduler)"

lemma start_threads_run:
  fixes s :: "'a sched_scheme"
  assumes g: "grown X L e cs [] s s" and e: "heap_end 4026531840 cs + 204 \<le> e"
  defines "K n \<equiv> of_nat (heap_end 4026531840 cs + n) :: u32"
  shows "\<exists>t. start_threads upper lower s = Inr ((), t) \<and> grown X L e cs start_chunks s t
    \<and> heap.more t = heap.more (s\<lparr>kernel_thread := K 12, current_thread := K 12, next_tid := next_tid s + 1,
        thread_objs := (thread_objs s)(K 12 := Some (first_thread (next_tid s) upper lower)), next_pid := next_pid s + 1,
        task_objs := (task_objs s)(K 64 := Some \<lparr>task_page_directory = current_directory s, task_pid = next_pid s, task_threads = K 88\<rparr>),
        kernel_task := K 64, current_task := K 64,
        lists := (lists s)(K 152 := Some (empty_list (K 180)\<lparr>list_size := 1\<rparr>), K 88 := Some (empty_list (K 116)\<lparr>list_size := 1, curr := 1\<rparr>)),
        arrays := (arrays s)(K 116 := Some (Some (K 12) # replicate 5 None), K 180 := Some (Some (K 64) # replicate 5 None)),
        tasks := K 152, threads := K 88\<rparr>)"
proof -
  have ok: "heap_ok X L s cs" and b: "budget L e s" using g by (simp_all add: grown_def)
  have K: "K 64 = K 64" "K 88 \<noteq> K 152"
    unfolding K_def using block_addresses(3) [OF ok b, of 88 152] e by simp_all
  obtain u where u: "init_threading upper lower s = Inr (K 12, u)" "grown X L e cs [(True, 52)] s u"
    "heap.more u = heap.more (s\<lparr>kernel_thread := K 12, current_thread := K 12, next_tid := next_tid s + 1,
        thread_objs := (thread_objs s)(K 12 := Some (first_thread (next_tid s) upper lower))\<rparr>)"
    using init_threading_grown [OF g, of upper lower] e unfolding K_def by auto
  have h: "heap_end 4026531840 (cs @ [(True, 52)]) + n = heap_end 4026531840 cs + (n + 52)" for n by simp
  have n: "12 + 52 = (64 :: nat)" "36 + 52 = (88 :: nat)" "64 + 52 = (116 :: nat)" "88 + 52 = (140 :: nat)" by simp_all
  have "heap_end 4026531840 (cs @ [(True, 52)]) + 88 \<le> e" using e unfolding h by simp
  from init_tasking_grown [OF u(2) this, of "K 12", unfolded h n] obtain v where
    v: "init_tasking (K 12) u = Inr (K 64, v)" "grown X L e cs [(True, 52), (True, 24), (True, 28), (True, 36)] s v"
    "heap.more v = heap.more (u\<lparr>next_pid := next_pid u + 1, arrays := (arrays u)(K 116 := Some (Some (K 12) # replicate 5 None)),
        lists := (lists u)(K 88 := Some (empty_list (K 116)\<lparr>list_size := 1\<rparr>)),
        task_objs := (task_objs u)(K 64 := Some \<lparr>task_page_directory = current_directory s, task_pid = next_pid u, task_threads = K 88\<rparr>),
        kernel_task := K 64, current_task := K 64\<rparr>)"
    unfolding K_def by auto
  have tk: "task_objs v (K 64) = Some \<lparr>task_page_directory = current_directory s, task_pid = next_pid u, task_threads = K 88\<rparr>"
    "lists v (K 88) = Some (empty_list (K 116)\<lparr>list_size := 1\<rparr>)" using v(3) by (cases u, cases v, simp)+
  let ?ns = "[(True, 52), (True, 24), (True, 28), (True, 36)]"
  have h: "heap_end 4026531840 (cs @ ?ns) + n = heap_end 4026531840 cs + (n + 140)" for n by simp
  have n: "12 + 140 = (152 :: nat)" "40 + 140 = (180 :: nat)" by simp_all
  have "heap_end 4026531840 (cs @ ?ns) + 64 \<le> e" using e unfolding h by simp
  from init_scheduler_grown [OF v(2) this tk(1), unfolded h n, folded K_def] tk(2) K(2) obtain t where
    t: "init_scheduler (K 64) v = Inr ((), t)" "grown X L e cs start_chunks s t"
    "heap.more t = heap.more (v\<lparr>arrays := (arrays v)(K 180 := Some (Some (K 64) # replicate 5 None)),
        lists := (lists v)(K 152 := Some (empty_list (K 180)\<lparr>list_size := 1\<rparr>), K 88 := Some (empty_list (K 116)\<lparr>list_size := 1, curr := 1\<rparr>)),
        tasks := K 152, threads := K 88\<rparr>)"
    by auto
  have "start_threads upper lower s = Inr ((), t)" using u(1) v(1) t(1) by (simp add: bnd_run)
  moreover note t(2)
  moreover have "heap.more t = heap.more (s\<lparr>kernel_thread := K 12, current_thread := K 12, next_tid := next_tid s + 1,
        thread_objs := (thread_objs s)(K 12 := Some (first_thread (next_tid s) upper lower)), next_pid := next_pid s + 1,
        task_objs := (task_objs s)(K 64 := Some \<lparr>task_page_directory = current_directory s, task_pid = next_pid s, task_threads = K 88\<rparr>),
        kernel_task := K 64, current_task := K 64,
        lists := (lists s)(K 152 := Some (empty_list (K 180)\<lparr>list_size := 1\<rparr>), K 88 := Some (empty_list (K 116)\<lparr>list_size := 1, curr := 1\<rparr>)),
        arrays := (arrays s)(K 116 := Some (Some (K 12) # replicate 5 None), K 180 := Some (Some (K 64) # replicate 5 None)),
        tasks := K 152, threads := K 88\<rparr>)"
    using u(3) v(3) t(3) K(2) by (cases s, cases u, cases v, cases t) (simp add: fun_upd_twist)
  ultimately show ?thesis by blast
qed

section \<open>Properties\<close>

text \<open>C12: The start of the threads, tasks and scheduler, as \<open>kmain\<close> runs it. On a heap whose blocks are all in use and
  with frames for the six blocks, it returns. The run queue is then one task in the current address space
  with one thread, the one that is running, which has the next thread number and the given kernel stack; the heap is well
  formed with the six blocks behind the others, each of them the address of one structure, and the blocks in use and
  the rest of the memory in use are as before. The structures lie in the heap, and the list of the task has free slots, which is
  what \<open>exec_thread\<close> needs.\<close>

theorem scheduler_starts:
  fixes s :: "'a sched_scheme"
  assumes ok: "heap_ok X L s cs" "used cs" and room: "budget L (heap_end 4026531840 cs + 204) s"
    and placed: "threads_placed X cs s"
  defines "K n \<equiv> of_nat (heap_end 4026531840 cs + n) :: u32"
  shows "\<exists>t. bnd (init_threading upper lower) (\<lambda>th. bnd (init_tasking th) init_scheduler) s = Inr ((), t)
    \<and> runq t [(K 64, K 88, [K 12])] 0 0 1 \<and> own_arrays t [(K 64, K 88, [K 12])] \<and> slots t (K 88) = 6
    \<and> current_thread t = K 12 \<and> thread_objs t = (thread_objs s)(K 12 := Some (first_thread (next_tid s) upper lower))
    \<and> task_objs t = (task_objs s)(K 64 := Some \<lparr>task_page_directory = current_directory s, task_pid = next_pid s, task_threads = K 88\<rparr>)
    \<and> next_tid t = next_tid s + 1 \<and> threads_placed X (cs @ start_chunks) t
    \<and> heap_ok X L t (cs @ start_chunks) \<and> kept X cs s t"
proof -
  have g: "grown X L (heap_end 4026531840 cs + 204) cs [] s s" using ok room by (simp add: grown_def)
  obtain t where t: "start_threads upper lower s = Inr ((), t)" "grown X L (heap_end 4026531840 cs + 204) cs start_chunks s t"
    and m: "heap.more t = heap.more (s\<lparr>kernel_thread := K 12, current_thread := K 12, next_tid := next_tid s + 1,
        thread_objs := (thread_objs s)(K 12 := Some (first_thread (next_tid s) upper lower)), next_pid := next_pid s + 1,
        task_objs := (task_objs s)(K 64 := Some \<lparr>task_page_directory = current_directory s, task_pid = next_pid s, task_threads = K 88\<rparr>),
        kernel_task := K 64, current_task := K 64,
        lists := (lists s)(K 152 := Some (empty_list (K 180)\<lparr>list_size := 1\<rparr>), K 88 := Some (empty_list (K 116)\<lparr>list_size := 1, curr := 1\<rparr>)),
        arrays := (arrays s)(K 116 := Some (Some (K 12) # replicate 5 None), K 180 := Some (Some (K 64) # replicate 5 None)),
        tasks := K 152, threads := K 88\<rparr>)"
    using start_threads_run [OF g order_refl, of upper lower] unfolding K_def by blast
  note a = block_addresses [OF ok(1) room, folded K_def]
  have d: "K 88 \<noteq> K 152" "K 116 \<noteq> K 180" "K 64 \<noteq> 0" "K 152 \<noteq> 0" "K 12 \<noteq> 0" by (simp_all add: a(2,3))
  have f: "tasks t = K 152" "threads t = K 88" "current_task t = K 64" "current_thread t = K 12"
    "lists t (K 88) = Some (empty_list (K 116)\<lparr>list_size := 1, curr := 1\<rparr>)" "lists t (K 152) = Some (empty_list (K 180)\<lparr>list_size := 1\<rparr>)"
    "arrays t (K 116) = Some (Some (K 12) # replicate 5 None)" "arrays t (K 180) = Some (Some (K 64) # replicate 5 None)"
    "thread_objs t = (thread_objs s)(K 12 := Some (first_thread (next_tid s) upper lower))"
    "task_objs t = (task_objs s)(K 64 := Some \<lparr>task_page_directory = current_directory s, task_pid = next_pid s, task_threads = K 88\<rparr>)"
    "next_tid t = next_tid s + 1"
    using threading_fields [OF m] threading_more [OF m] d(1,2) by simp_all
  have "task_objs t (K 64) = Some \<lparr>task_page_directory = current_directory s, task_pid = next_pid s, task_threads = K 88\<rparr>"
    "thread_objs t (K 12) = Some (first_thread (next_tid s) upper lower)" by (simp_all add: f(9,10))
  note q = runq_one [OF d f(5-8) this(1) _ this(2) _ f(1-4)]
  have r: "th_state (first_thread (next_tid s) upper lower) = THREAD_RUNNING" by (simp add: first_thread_def)
  have "unat x \<in> payload 4026531840 (cs @ start_chunks) \<or> x \<in> X" if "thread_objs t x \<noteq> None" for x
  proof (cases "x = K 12")
    case True
    then show ?thesis by (simp add: a(1))
  next
    case False
    then have "thread_objs s x \<noteq> None" using that by (simp add: f(9))
    then have "unat x \<in> payload 4026531840 cs \<or> x \<in> X" using placed unfolding threads_placed_def by blast
    then show ?thesis by auto
  qed
  then have "threads_placed X (cs @ start_chunks) t" unfolding threads_placed_def by blast
  then show ?thesis using t q [OF _ r] f(4,9-11) by (simp add: grown_def)
qed

text \<open>After the early boot the heap is empty; here with room for one page of it.\<close>

theorem scheduler_starts_witness:
  "\<exists>t. bnd (init_threading 0x2000 0x1000) (\<lambda>th. bnd (init_tasking th) init_scheduler) demo_spawn = Inr ((), t)
    \<and> runq t [(0xF0000040, 0xF0000058, [0xF000000C])] 0 0 1"
proof -
  have m: "heap.more demo_spawn = heap.more demo_sched" by (simp add: demo_spawn_def demo_sched_defs)
  have "threads_placed demo_rest [] demo_spawn"
    unfolding runq_more(4) [OF m] by (auto simp: threads_placed_def demo_rest_def demo_sched_defs)
  moreover have "budget 0xF0400000 (heap_end 4026531840 [] + 204) demo_spawn"
    by (simp add: budget_def pages_for_def demo_spawn_memory(2,5) KHEAP_START_def)
  ultimately show ?thesis
    using scheduler_starts [OF demo_spawn_memory(1), of "0x2000" "0x1000"] by (auto simp: used_def)
qed

end
