(* ===== verification/Kernel_Ramdisk.thy ===== *)
theory Kernel_Ramdisk
  imports Kernel_Mount Kernel_Begin
begin

text \<open>
  The whole of \<open>init_initrd\<close> (\<open>kernel/fs/initrd.c\<close>) on the kernel's heap, and the lookup of names through
  \<open>finddir\<close> in the directory that it returns: from the files of \<open>tools/make_initrd.c\<close> to the
  files that the kernel finds and reads.
\<close>

section \<open>Stores in blocks\<close>

lemma alters_owned:
  assumes own: "owned s A" and al: "alters A s t"
  shows "owned t A" and "stores s t"
proof -
  let ?F = "(\<lambda>x. frame (the (translate s x))) ` A"
  have t: "t = s\<lparr>ram := ram t\<rparr>" and m: "same_except ?F (ram s) (ram t)" using al by (simp_all add: alters_def)
  have "\<forall>a \<in> A. frame (the (translate s a)) \<notin> pt_frames s" using own by (fastforce simp: owned_def buffer_def)
  then have F: "?F \<inter> pt_frames s = {}" "?F \<inter> stack_frames s = {}" using own by (auto simp: owned_def)
  show "owned t A" "stores s t" using owned_ram [OF own m F] unfolding t [symmetric] .
qed

text \<open>A heap whose blocks are all in use, with frames to grow up to \<open>e\<close>.\<close>

abbreviation settled :: "u32 set \<Rightarrow> nat \<Rightarrow> nat \<Rightarrow> chunks \<Rightarrow> 'a heap_scheme \<Rightarrow> bool" where
  "settled X L e ds t \<equiv> heap_ok X L t ds \<and> used ds \<and> budget L e t"

lemma settled_alloc:
  assumes t: "settled X L e ds t" and e: "heap_end 4026531840 ds + (unat len + 12) \<le> e"
  shows "\<exists>u. kmalloc len t = Inr (of_nat (heap_end 4026531840 ds + 12), u)
      \<and> settled X L e (ds @ [(True, unat len + 12)]) u \<and> kept X ds t u \<and> heap.more u = heap.more t"
    and "\<exists>u. kmalloc_zero len t = Inr (of_nat (heap_end 4026531840 ds + 12), u)
      \<and> settled X L e (ds @ [(True, unat len + 12)]) u \<and> kept X ds t u \<and> heap.more u = heap.more t"
proof -
  have g: "grown X L e ds [] t t" using t by (simp add: grown_def)
  have e': "heap_end 4026531840 (ds @ []) + (unat len + 12) \<le> e" using e by simp
  note alloc = grown_alloc [OF g e', unfolded append_Nil2 append_Nil]
  from alloc(1) obtain u where u: "kmalloc len t = Inr (of_nat (heap_end 4026531840 ds + 12), u)"
    "grown X L e ds [(True, unat len + 12)] t u" "heap.more u = heap.more t" by (elim exE conjE)
  then show "\<exists>u. kmalloc len t = Inr (of_nat (heap_end 4026531840 ds + 12), u)
      \<and> settled X L e (ds @ [(True, unat len + 12)]) u \<and> kept X ds t u \<and> heap.more u = heap.more t"
    unfolding grown_def by (intro exI [of _ u]) simp
  from alloc(2) obtain v where v: "kmalloc_zero len t = Inr (of_nat (heap_end 4026531840 ds + 12), v)"
    "grown X L e ds [(True, unat len + 12)] t v" "heap.more v = heap.more t" by (elim exE conjE)
  then show "\<exists>u. kmalloc_zero len t = Inr (of_nat (heap_end 4026531840 ds + 12), u)
      \<and> settled X L e (ds @ [(True, unat len + 12)]) u \<and> kept X ds t u \<and> heap.more u = heap.more t"
    unfolding grown_def by (intro exI [of _ v]) simp
qed

lemma settled_below:
  assumes "below u = below t"
  shows "settled X L e ds u = settled X L e ds t"
  unfolding budget_def below_same [OF assms] by (rule refl)

abbreviation area :: "u32 set \<Rightarrow> 'a heap_scheme \<Rightarrow> u32 set" where
  "area X t \<equiv> heap_area X (kheap_max t)"

lemma settled_owned: "heap_ok X L t ds \<Longrightarrow> owned t (area X t)"
  by (simp add: heap_ok_def heap_mem_def)

text \<open>A client's stores: in blocks, or in other memory in use.\<close>

lemma settled_stores:
  assumes t: "settled X L e ds t" and u: "owned u (area X t)" "stores t u" "same_but (area X t) R t u"
    and R: "\<And>x. R (unat x) \<Longrightarrow> unat x \<in> payload 4026531840 ds \<or> x \<in> X"
  shows "settled X L e ds u" and "heap.more u = heap.more t" and "area X u = area X t"
proof -
  have k: "kheap_max u = kheap_max t" "free_pages u = free_pages t" using stores_heap [OF u(2)] u(2) by (simp_all add: stores_def)
  have "heap_ok X L u ds"
    by (rule heap_ok_stores [OF _ u(2,1)]) (use t u(3) R in \<open>auto simp: same_but_def\<close>)
  then show "settled X L e ds u" using t k by (simp add: budget_def)
  have e: "u = t\<lparr>ram := ram u\<rparr>" using u(2) by (simp add: stores_def)
  show "heap.more u = heap.more t" by (subst e) simp
  show "area X u = area X t" by (simp add: k(1))
qed

lemma kept_but:
  assumes t: "heap_ok X L t ds" and s: "same_but (area X t) R t u" and Y: "Y \<subseteq> X" "payload 4026531840 cs \<subseteq> payload 4026531840 ds"
    and R: "\<And>x. unat x \<in> payload 4026531840 cs \<or> x \<in> Y \<Longrightarrow> \<not> R (unat x)"
  shows "kept Y cs t u"
  unfolding kept_def
proof (intro allI impI)
  fix x assume x: "unat x \<in> payload 4026531840 cs \<or> x \<in> Y"
  then have "x \<in> area X t"
    using Y payload_bounds [of "unat x" 4026531840 ds] t by (auto simp: heap_area_def heap_ok_def)
  then show "view u x = view t x" using s R [OF x] by (simp add: same_but_def)
qed

lemma kept_sub: "kept X ds s t \<Longrightarrow> Y \<subseteq> X \<Longrightarrow> payload 4026531840 cs \<subseteq> payload 4026531840 ds \<Longrightarrow> kept Y cs s t"
  unfolding kept_def by blast

lemma kept_holds:
  assumes "kept X ds s t" and "run_of a (length bs) \<subseteq> X" shows "holds t a bs = holds s a bs"
  by (rule holds_same) (use assms in \<open>auto simp: kept_def\<close>)

lemma block_spans:
  assumes "heap_ok X L t (xs @ (True, n) # ys)" and "12 \<le> n"
  shows "spans (area X t) (heap_end 4026531840 xs + 12) (n - 12)"
    and "\<And>k. heap_end 4026531840 xs + 12 \<le> k \<Longrightarrow> k < heap_end 4026531840 xs + n \<Longrightarrow> k \<in> payload 4026531840 (xs @ (True, n) # ys)"
proof -
  have le: "heap_end 4026531840 xs + n \<le> unat (kheap_max t)" "unat (kheap_max t) \<le> 4244635648"
    using assms(1) heap_okD(3) [OF assms(1)] heap_end_ge [of "heap_end 4026531840 xs + n" ys] by (simp_all add: heap_ok_def)
  then show "spans (area X t) (heap_end 4026531840 xs + 12) (n - 12)"
    using assms(2) heap_end_ge [of 4026531840 xs] by (auto simp: spans_def heap_area_def)
qed simp

section \<open>A directory\<close>

text \<open>A string of the program, in memory that nothing else uses.\<close>

definition literal :: "u32 set \<Rightarrow> 'a vm_scheme \<Rightarrow> u32 \<Rightarrow> u8 list \<Rightarrow> bool" where
  "literal Y s a bs \<longleftrightarrow> cstring s a bs \<and> run_of a (Suc (length bs)) \<subseteq> Y"

lemma literal_kept: "kept X ds s t \<Longrightarrow> Y \<subseteq> X \<Longrightarrow> literal Y s a bs \<Longrightarrow> literal Y t a bs"
  using kept_holds [of X ds s t a "bs @ [0]"] by (auto simp: literal_def cstring_def)

definition directory_at :: "image \<Rightarrow> 'a vm_scheme \<Rightarrow> u32 \<Rightarrow> bool" where
  "directory_at im s nd \<longleftrightarrow> word_at s (nd + 140) FS_DIRECTORY \<and> word_at s (nd + 172) (at_initrd_readdir im)
     \<and> word_at s (nd + 176) (at_initrd_finddir im)"

lemma init_directory_run:
  assumes own: "owned s A" and nd: "spans A nd 184" and name: "literal Y s q nm" "Y \<subseteq> A" "nm \<noteq> []" "length nm < 128"
    and apart: "Y \<inter> run_of (of_nat nd) 184 = {}"
  shows "\<exists>t. init_directory im (of_nat nd) q s = Inr ((), t) \<and> owned t A \<and> stores s t
    \<and> directory_at im t (of_nat nd) \<and> same_but A (\<lambda>a. nd \<le> a \<and> a < nd + 184) s t"
proof -
  let ?n = "length nm"
  have lim: "nd + 184 \<le> 4294967296" using nd by (simp add: spans_def)
  have np: "spans A (nd + 140) 4" "spans A (nd + 172) 4" "spans A (nd + 176) 4" "spans A nd ?n"
    by (rule spans_part [OF nd]; use name(4) in simp)+
  have "run_of (of_nat nd) 184 \<subseteq> A" by (rule spans_run [OF nd])
  from memset_owned [OF own this] obtain s1 where s1: "memset_loop 184 (of_nat nd) (ucast (0 :: u32)) s = Inr ((), s1)"
    "owned s1 A" "quiet s s1" "\<forall>x \<in> A - run_of (of_nat nd) 184. view s1 x = view s x" by blast
  have b1: "same_but A (\<lambda>a. nd \<le> a \<and> a < nd + 184) s s1" using s1(4) by (simp add: same_but_def run_of_nat [OF lim])
  have "view s1 x = view s x" if "x \<in> run_of q (length (nm @ [0]))" for x
    using that name apart s1(4) unfolding literal_def by auto
  then have "holds s1 q (nm @ [0]) = holds s q (nm @ [0])" by (intro holds_same) blast
  then have str: "cstring s1 q nm" using name(1) by (simp add: literal_def cstring_def)
  obtain c cs where c: "nm = c # cs" using name(3) by (cases nm) auto
  have sub: "run_of (of_nat nd) ?n \<subseteq> A" "run_of (of_nat nd) ?n \<subseteq> run_of (of_nat nd) 184"
    by (rule spans_run [OF np(4)]) (rule run_of_mono, use name(4) in simp)
  have b: "buffer s1 A" using s1(2) by (simp add: owned_def)
  have "\<exists>t. copy_loop string_fuel (of_nat nd) q s1 = Inr (of_nat nd + of_nat (Suc (length cs)), t) \<and> holds t (of_nat nd) (c # cs) \<and> buffer t A
      \<and> t = s1\<lparr>ram := ram t\<rparr> \<and> (\<forall>x \<in> A - run_of (of_nat nd) (Suc (length cs)). view t x = view s1 x) \<and> alters A s1 t"
    by (rule copy_loop_copies) (use str b sub name apart in \<open>auto simp: c literal_def string_fuel_def\<close>)
  then obtain s2 where s2: "strcpy (of_nat nd) q s1 = Inr (of_nat nd, s2)" "alters A s1 s2"
    "\<forall>x \<in> A - run_of (of_nat nd) ?n. view s2 x = view s1 x" unfolding c by (auto simp: strcpy_def bnd_run ret_run)
  note o2 = alters_owned [OF s1(2) s2(2)]
  have b2: "same_but A (\<lambda>a. nd \<le> a \<and> a < nd + 184) s1 s2"
    using s2(3) sub(2) by (auto simp: same_but_def simp flip: run_of_nat [OF lim])
  have put: "\<exists>t. node_put (of_nat nd) f v u = Inr ((), t) \<and> owned t A \<and> stores u t \<and> word_at t (of_nat (nd + k)) v
      \<and> same_but A (\<lambda>a. nd + k \<le> a \<and> a < nd + k + 4) u t"
    if u: "owned u A" and k: "field_offset f = of_nat k" "spans A (nd + k) 4" for u :: "'a initrd_scheme" and f v k
  proof -
    have bu: "buffer u A" using u by (simp add: owned_def)
    have a: "of_nat nd + field_offset f = of_nat (nd + k)" by (simp add: k(1))
    from store_in_span [OF bu k(2)] obtain t where "vst32 (of_nat (nd + k)) v u = Inr ((), t)" "alters A u t"
      "word_at t (of_nat (nd + k)) v" "same_but A (\<lambda>a. nd + k \<le> a \<and> a < nd + k + 4) u t" by blast
    with alters_owned [OF u] show ?thesis unfolding node_put_def a by blast
  qed
  obtain s3 where s3: "node_put (of_nat nd) Flags FS_DIRECTORY s2 = Inr ((), s3)" "owned s3 A" "stores s2 s3"
    "word_at s3 (of_nat (nd + 140)) FS_DIRECTORY" "same_but A (\<lambda>a. nd + 140 \<le> a \<and> a < nd + 140 + 4) s2 s3"
    using put [OF o2(1) _ np(1), of Flags] by auto
  obtain s4 where s4: "node_put (of_nat nd) Readdir (at_initrd_readdir im) s3 = Inr ((), s4)" "owned s4 A" "stores s3 s4"
    "word_at s4 (of_nat (nd + 172)) (at_initrd_readdir im)" "same_but A (\<lambda>a. nd + 172 \<le> a \<and> a < nd + 172 + 4) s3 s4"
    using put [OF s3(2) _ np(2), of Readdir] by auto
  obtain t where t: "node_put (of_nat nd) Finddir (at_initrd_finddir im) s4 = Inr ((), t)" "owned t A" "stores s4 t"
    "word_at t (of_nat (nd + 176)) (at_initrd_finddir im)" "same_but A (\<lambda>a. nd + 176 \<le> a \<and> a < nd + 176 + 4) s4 t"
    using put [OF s4(2) _ np(3), of Finddir] by auto
  have "same_but A (\<lambda>a. nd \<le> a \<and> a < nd + 184) s t"
    by (rule same_but_mono [OF same_but_trans [OF b1 same_but_trans [OF b2 same_but_trans [OF s3(5) same_but_trans [OF s4(5) t(5)]]]]]) auto
  moreover have "word_at t (of_nat (nd + 140)) FS_DIRECTORY"
    using word_same_but [OF s4(5) np(1)] word_same_but [OF t(5) np(1)] s3(4) by simp
  moreover have "word_at t (of_nat (nd + 172)) (at_initrd_readdir im)"
    using word_same_but [OF t(5) np(2)] s4(4) by simp
  moreover have "stores s t"
    using s1(3) o2(2) s3(3) s4(3) t(3) stores_trans unfolding quiet_def by metis
  moreover have "init_directory im (of_nat nd) q s = Inr ((), t)"
    using s1(1) s2(1) s3(1) s4(1) t(1) by (simp add: init_directory_def memset_def bnd_run ret_run sizeof_fs_node_def)
  ultimately show ?thesis using t(2,4) by (simp add: directory_at_def)
qed

section \<open>New blocks of the ramdisk\<close>

lemma block_apart:
  assumes ok: "heap_ok X L t (xs @ (True, n + 12) # ys)" and "Y \<subseteq> X"
  shows "Y \<inter> run_of (of_nat (heap_end 4026531840 xs + 12)) n = {}"
proof -
  have le: "heap_end 4026531840 xs + (n + 12) \<le> unat (kheap_max t)"
    using ok heap_end_ge [of "heap_end 4026531840 xs + (n + 12)" ys] by (simp add: heap_ok_def)
  have lim: "heap_end 4026531840 xs + 12 + n \<le> 4294967296" using le unat_u32_less [of "kheap_max t"] by simp
  have "x \<notin> Y" if "x \<in> run_of (of_nat (heap_end 4026531840 xs + 12)) n" for x
    using that beside_heapD [OF heap_okD(2) [OF ok], of x] le heap_okD(3) [OF ok] heap_end_ge [of 4026531840 xs] assms(2)
    unfolding run_of_nat [OF lim] by fastforce
  then show ?thesis by blast
qed

lemma new_directory:
  fixes t :: "'a initrd_scheme"
  assumes t: "settled X L e ds t" and room: "heap_end 4026531840 ds + 196 \<le> e"
    and lit: "literal Y t q nm" "Y \<subseteq> X" "nm \<noteq> []" "length nm < 128"
    and f: "\<And>u. below (f u) = below u" "\<And>u v. heap.more u = heap.more v \<Longrightarrow> heap.more (f u) = heap.more (f v)"
  defines "p \<equiv> of_nat (heap_end 4026531840 ds + 12)"
  shows "\<exists>u v. kmalloc_zero sizeof_fs_node t = Inr (p, u) \<and> init_directory im p q (f u) = Inr ((), v)
    \<and> settled X L e (ds @ [(True, 196)]) v \<and> kept X ds t v \<and> directory_at im v p \<and> heap.more v = heap.more (f t)"
proof -
  let ?ds = "ds @ [(True, 184 + 12)]" and ?h = "heap_end 4026531840 ds + 12"
  have sz: "unat sizeof_fs_node = 184" by (simp add: sizeof_fs_node_def)
  obtain u where u: "kmalloc_zero sizeof_fs_node t = Inr (p, u)" "settled X L e ?ds u" "kept X ds t u" "heap.more u = heap.more t"
    using settled_alloc(2) [OF t, of sizeof_fs_node] room unfolding sz p_def by auto
  let ?u = "f u"
  have fu: "settled X L e ?ds ?u" "view ?u = view u" unfolding settled_below [OF f(1)] below_same(2) [OF f(1)] using u(2) by blast+
  have ok: "heap_ok X L ?u ?ds" using fu(1) by simp
  have sp: "spans (area X ?u) ?h 184" using block_spans(1) [OF ok] by simp
  have bl: "?h \<le> k \<Longrightarrow> k < ?h + 184 \<Longrightarrow> k \<in> payload 4026531840 ?ds" for k using block_spans(2) [OF ok, of k] by simp
  have "literal Y u q nm" by (rule literal_kept [OF u(3) lit(2,1)])
  then have lu: "literal Y ?u q nm" by (simp add: literal_def cstring_def holds_def fu(2))
  have sub: "Y \<subseteq> area X ?u" using lit(2) by (auto simp: heap_area_def)
  obtain v where v: "init_directory im p q ?u = Inr ((), v)" "owned v (area X ?u)" "stores ?u v"
    "directory_at im v p" "same_but (area X ?u) (\<lambda>a. ?h \<le> a \<and> a < ?h + 184) ?u v"
    using init_directory_run [OF settled_owned [OF ok] sp lu sub lit(3,4) block_apart [OF ok lit(2)], of im] unfolding p_def by blast
  note sv = settled_stores [OF fu(1) v(2,3,5)]
  have R: "unat x \<in> payload 4026531840 ?ds \<or> x \<in> X" if "?h \<le> unat x \<and> unat x < ?h + 184" for x :: u32 using bl that by blast
  have "kept X ds ?u v"
  proof (rule kept_but [OF ok v(5)])
    fix x assume x: "unat x \<in> payload 4026531840 ds \<or> x \<in> X"
    show "\<not> (?h \<le> unat x \<and> unat x < ?h + 184)"
      using x payload_bounds [of "unat x" 4026531840 ds] block_apart [OF ok order_refl] sp
        run_of_nat [of ?h 184 x] by (auto simp: spans_def)
  qed auto
  then have "kept X ds t v" using u(3) fu(2) by (simp add: kept_def)
  moreover have "settled X L e (ds @ [(True, 196)]) v" using sv(1) [OF R] by simp
  moreover have "heap.more v = heap.more (f t)" using sv(2) [OF R] f(2) [OF u(4)] by simp
  ultimately show ?thesis using u(1) v(1,4) by blast
qed

lemma new_nodes:
  fixes t :: "'a initrd_scheme"
  assumes t: "settled X L e ds t" and n: "n \<le> 64" and room: "heap_end 4026531840 ds + (184 * n + 12) \<le> e"
    and f: "\<And>u. below (f u) = below u" "\<And>u v. heap.more u = heap.more v \<Longrightarrow> heap.more (f u) = heap.more (f v)"
  defines "p \<equiv> of_nat (heap_end 4026531840 ds + 12)"
  shows "\<exists>u v. kmalloc (sizeof_fs_node * of_nat n) t = Inr (p, u) \<and> memset p 0 (sizeof_fs_node * of_nat n) (f u) = Inr ((), v)
    \<and> settled X L e (ds @ [(True, 184 * n + 12)]) v \<and> kept X ds t (f u) \<and> kept X ds t v \<and> holds v p (replicate (184 * n) 0) \<and> heap.more v = heap.more (f t)"
proof -
  let ?ds = "ds @ [(True, 184 * n + 12)]" and ?h = "heap_end 4026531840 ds + 12"
  have sz: "unat (sizeof_fs_node * of_nat n) = 184 * n"
    using n by (simp add: sizeof_fs_node_def unat_word_ariths unat_of_nat)
  obtain u where u: "kmalloc (sizeof_fs_node * of_nat n) t = Inr (p, u)" "settled X L e ?ds u" "kept X ds t u" "heap.more u = heap.more t"
    using settled_alloc(1) [OF t, of "sizeof_fs_node * of_nat n"] room unfolding sz p_def by auto
  let ?u = "f u"
  have fu: "settled X L e ?ds ?u" "view ?u = view u" unfolding settled_below [OF f(1)] below_same(2) [OF f(1)] using u(2) by blast+
  have ok: "heap_ok X L ?u ?ds" using fu(1) by simp
  have sp: "spans (area X ?u) ?h (184 * n)" using block_spans(1) [OF ok] by simp
  then have lim: "?h + 184 * n \<le> 4294967296" by (simp add: spans_def)
  have bl: "?h \<le> k \<Longrightarrow> k < ?h + 184 * n \<Longrightarrow> k \<in> payload 4026531840 ?ds" for k using block_spans(2) [OF ok, of k] by simp
  obtain v where v: "memset_loop (184 * n) p (ucast (0 :: u32)) ?u = Inr ((), v)" "owned v (area X ?u)" "quiet ?u v"
    "\<forall>x \<in> area X ?u - run_of p (184 * n). view v x = view ?u x" "holds v p (replicate (184 * n) (ucast (0 :: u32)))"
    using memset_owned [OF settled_owned [OF ok] spans_run [OF sp]] n unfolding p_def by auto
  have same: "same_but (area X ?u) (\<lambda>a. ?h \<le> a \<and> a < ?h + 184 * n) ?u v"
    using v(4) run_of_nat [OF lim] by (simp add: same_but_def p_def)
  have st: "stores ?u v" using v(3) by (simp add: quiet_def)
  note sv = settled_stores [OF fu(1) v(2) st same]
  have R: "unat x \<in> payload 4026531840 ?ds \<or> x \<in> X" if "?h \<le> unat x \<and> unat x < ?h + 184 * n" for x :: u32 using bl that by blast
  have "kept X ds ?u v"
  proof (rule kept_but [OF ok same])
    fix x assume x: "unat x \<in> payload 4026531840 ds \<or> x \<in> X"
    show "\<not> (?h \<le> unat x \<and> unat x < ?h + 184 * n)"
      using x payload_bounds [of "unat x" 4026531840 ds] block_apart [OF ok order_refl] run_of_nat [OF lim, of x] by auto
  qed auto
  then have "kept X ds t v" "kept X ds t ?u" using u(3) fu(2) by (simp_all add: kept_def)
  moreover have "memset p 0 (sizeof_fs_node * of_nat n) ?u = Inr ((), v)" using v(1) by (simp add: memset_def sz bnd_run ret_run)
  ultimately show ?thesis using u(1) v(5) sv(1) [OF R] sv(2) [OF R] f(2) [OF u(4)] by auto
qed

lemma directory_kept:
  assumes k: "kept Y ds s t" and b: "{heap_end 4026531840 xs + 12..<heap_end 4026531840 xs + 196} \<subseteq> payload 4026531840 ds"
    and ok: "heap_ok X L s (xs @ (True, 196) # ys)" and d: "directory_at im s (of_nat (heap_end 4026531840 xs + 12))"
  shows "directory_at im t (of_nat (heap_end 4026531840 xs + 12))"
proof -
  let ?h = "heap_end 4026531840 xs + 12"
  have lim: "?h + 184 \<le> 4294967296" using block_spans(1) [OF ok] by (simp add: spans_def)
  have w: "word_at t (of_nat ?h + of_nat j) v = word_at s (of_nat ?h + of_nat j) v" if "j + 4 \<le> 184" for j v
  proof -
    have "word_at t (of_nat (?h + j)) v = word_at s (of_nat (?h + j)) v"
    proof (rule word_at_nat)
      fix x :: u32 assume "?h + j \<le> unat x" "unat x < ?h + j + 4"
      then have "unat x \<in> payload 4026531840 ds" using b that by auto
      then show "view t x = view s x" using k by (simp add: kept_def)
    qed (use lim that in simp)
    then show ?thesis by (simp only: of_nat_add)
  qed
  show ?thesis using d w [of 140] w [of 172] w [of 176] by (simp add: directory_at_def del: of_nat_add)
qed

section \<open>The whole of init_initrd\<close>

lemma span_beside:
  assumes X: "beside_heap X" and sp: "spans X l m" and m: "0 < m"
  shows "l + m \<le> 4026531840 \<or> 4244635648 \<le> l"
proof (rule ccontr)
  assume n: "\<not> ?thesis"
  let ?k = "max l 4026531840"
  have k: "l \<le> ?k" "?k < l + m" "?k < 4294967296" using n sp m by (auto simp: spans_def)
  then have u: "unat (of_nat ?k :: u32) = ?k" by (simp add: unat_of_nat)
  then have "of_nat ?k \<in> X" using k(1,2) sp unfolding spans_def by metis
  then show False using beside_heapD [OF X, of "of_nat ?k"] n unfolding u by auto
qed

lemma initrd_fields:
  fixes s t :: "'a initrd_scheme"
  assumes "heap.more t = heap.more s"
  shows "file_headers t = file_headers s" "initrd_root t = initrd_root s" "initrd_dev t = initrd_dev s"
    "root_nodes t = root_nodes s" "nroot_nodes t = nroot_nodes s" "fs_root t = fs_root s" "initrd_header t = initrd_header s"
  using assms by (cases s, cases t, simp)+

text \<open>The headers of the image, which mounting changes in place.\<close>

definition headers_area :: "nat \<Rightarrow> nat \<Rightarrow> u32 set" where
  "headers_area l n = {x. l + 4 \<le> unat x \<and> unat x < l + 4 + 76 * n}"

text \<open>Up to the loop: two directories and the cleared nodes.\<close>

lemma init_initrd_blocks:
  fixes s :: "'a initrd_scheme"
  assumes s: "settled X L e ch s" and room: "heap_end 4026531840 ch + (184 * n + 404) \<le> e" and n: "n \<le> 64"
    and word: "word_at s (of_nat l) (of_nat n)" "run_of (of_nat l) 4 \<subseteq> X"
    and lits: "literal Y s (at_str_initrd im) ni" "literal Y s (at_str_dev im) nd" "Y \<subseteq> X"
      "ni \<noteq> []" "length ni < 128" "nd \<noteq> []" "length nd < 128"
  defines "K k \<equiv> of_nat (heap_end 4026531840 ch + k) :: u32"
  shows "\<exists>v. init_initrd im (of_nat l) s = bnd (mount_files string_fuel im (of_nat l) 0) (\<lambda>_. gets initrd_root) v
    \<and> settled X L e (ch @ [(True, 196), (True, 196), (True, 184 * n + 12)]) v \<and> kept X ch s v
    \<and> directory_at im v (K 12) \<and> directory_at im v (K 208) \<and> holds v (K 404) (replicate (184 * n) 0)
    \<and> file_headers v = of_nat (l + 4) \<and> initrd_root v = K 12 \<and> initrd_dev v = K 208 \<and> root_nodes v = K 404
    \<and> nroot_nodes v = of_nat n \<and> heap.more v = heap.more (s\<lparr>initrd_header := of_nat l, file_headers := of_nat (l + 4),
        initrd_root := K 12, initrd_dev := K 208, root_nodes := K 404, nroot_nodes := of_nat n\<rparr>)"
proof -
  let ?K = "4026531840" and ?a = "ch @ [(True, 196)]" and ?b = "ch @ [(True, 196), (True, 196)]"
  let ?c = "ch @ [(True, 196), (True, 196), (True, 184 * n + 12)]"
  let ?s = "s\<lparr>initrd_header := of_nat l, file_headers := of_nat (l + 4)\<rparr>"
  have b0: "below ?s = below s" by (simp add: below_def vm.defs)
  have s0: "settled X L e ch ?s" unfolding settled_below [OF b0] by (rule s)
  have v0: "view ?s = view s" by (rule below_same(2) [OF b0])
  have l0: "literal Y ?s (at_str_initrd im) ni" using lits(1) unfolding literal_def cstring_def holds_def v0 .
  have e1: "heap_end ?K ch + 196 \<le> e" using room by simp
  let ?f = "\<lambda>u :: 'a initrd_scheme. u\<lparr>initrd_root := K 12\<rparr>" and ?g = "\<lambda>u :: 'a initrd_scheme. u\<lparr>initrd_dev := K 208\<rparr>"
    and ?h = "\<lambda>u :: 'a initrd_scheme. u\<lparr>root_nodes := K 404\<rparr>"
  have bf: "below (?f u) = below u" "below (?g u) = below u" "below (?h u) = below u" for u
    by (simp_all add: below_def vm.defs)
  have mf: "heap.more (?f u) = heap.more (?f w)" "heap.more (?g u) = heap.more (?g w)" "heap.more (?h u) = heap.more (?h w)"
    if "heap.more u = heap.more w" for u w using that by (cases u, cases w, simp)+
  obtain u1 v1 where v1: "kmalloc_zero sizeof_fs_node ?s = Inr (K 12, u1)"
    "init_directory im (K 12) (at_str_initrd im) (?f u1) = Inr ((), v1)" "settled X L e ?a v1" "kept X ch ?s v1"
    "directory_at im v1 (K 12)" "heap.more v1 = heap.more (?f ?s)"
    using new_directory [OF s0 e1 l0 lits(3,4,5) bf(1) mf(1), of im] unfolding K_def by blast
  have k1: "kept X ch s v1" using v1(4) v0 by (simp add: kept_def)
  have l1: "literal Y v1 (at_str_dev im) nd" by (rule literal_kept [OF k1 lits(3,2)])
  have ha: "heap_end ?K ?a + k = heap_end ?K ch + (196 + k)" for k by simp
  have e2: "heap_end ?K ?a + 196 \<le> e" unfolding ha using room by simp
  have n208: "196 + 12 = (208 :: nat)" "392 + 12 = (404 :: nat)" by simp_all
  obtain u2 v2 where v2: "kmalloc_zero sizeof_fs_node v1 = Inr (K 208, u2)"
    "init_directory im (K 208) (at_str_dev im) (?g u2) = Inr ((), v2)" "settled X L e (?a @ [(True, 196)]) v2" "kept X ?a v1 v2"
    "directory_at im v2 (K 208)" "heap.more v2 = heap.more (?g v1)"
    using new_directory [OF v1(3) e2 l1 lits(3,6,7) bf(2) mf(2), of im] unfolding ha n208 K_def by blast
  have ab: "?a @ [(True, 196)] = ?b" "?b @ [(True, 184 * n + 12)] = ?c" by simp_all
  have hb: "heap_end ?K ?b + k = heap_end ?K ch + (392 + k)" for k by simp
  have e3: "heap_end ?K ?b + (184 * n + 12) \<le> e" unfolding hb using room by simp
  obtain u3 v3 where v3: "kmalloc (sizeof_fs_node * of_nat n) v2 = Inr (K 404, u3)"
    "memset (K 404) 0 (sizeof_fs_node * of_nat n) (?h u3) = Inr ((), v3)" "settled X L e (?b @ [(True, 184 * n + 12)]) v3"
    "kept X ?b v2 (?h u3)" "kept X ?b v2 v3" "holds v3 (K 404) (replicate (184 * n) 0)" "heap.more v3 = heap.more (?h v2)"
    using new_nodes [OF v2(3) [unfolded ab] n e3 bf(3) mf(3)] unfolding hb n208 K_def by blast
  define v where "v = v3\<lparr>nroot_nodes := of_nat n\<rparr>"
  have bv: "below v = below v3" by (simp add: v_def below_def vm.defs)
  have vv: "view v = view v3" by (rule below_same(2) [OF bv])
  have p: "payload ?K ch \<subseteq> payload ?K ?a" "payload ?K ?a \<subseteq> payload ?K ?b" by auto
  have k2: "kept X ch s v2" by (rule kept_trans [OF k1 v2(4) p(1)])
  have kk: "kept X ch s (?h u3)" "kept X ch s v3"
    by (rule kept_trans [OF k2 v3(4)] kept_trans [OF k2 v3(5)]; use p in blast)+
  have w: "vld32 (of_nat l) t = Inr (of_nat n, t)" if "kept X ch s t" for t :: "'a initrd_scheme"
    using word kept_holds [OF that, of "of_nat l" "word_bytes (of_nat n)"] by (intro vld32_word) (simp add: word_at_def length_word_bytes)
  have run: "init_initrd im (of_nat l) s = bnd (mount_files string_fuel im (of_nat l) 0) (\<lambda>_. gets initrd_root) v"
    using v1(1,2) v2(1,2) v3(1,2) w [OF k2] w [OF kk(1)] w [OF kk(2)]
    by (simp add: init_initrd_def bnd_run upd_run gets_run sizeof_initrd_header_def v_def add.commute)
  have d1: "directory_at im v2 (K 12)"
    using directory_kept [OF v2(4) _ _ v1(5) [unfolded K_def], where ys = "[]"] v1(3) unfolding K_def by auto
  have sb: "{heap_end ?K ch + 12..<heap_end ?K ch + 196} \<subseteq> payload ?K ?b"
    "{heap_end ?K ch + 208..<heap_end ?K ch + 392} \<subseteq> payload ?K ?b" by auto
  have ok2: "heap_ok X L v2 (ch @ (True, 196) # [(True, 196)])" "heap_ok X L v2 (?a @ (True, 196) # [])" using v2(3) by simp_all
  have n392: "196 + 196 = (392 :: nat)" by simp
  have "directory_at im v3 (K 12)" unfolding K_def by (rule directory_kept [OF v3(5) sb(1) ok2(1) d1 [unfolded K_def]])
  moreover have "directory_at im v3 (K 208)"
    using directory_kept [OF v3(5) _ ok2(2), unfolded ha n208 n392, OF sb(2) v2(5) [unfolded K_def]] unfolding K_def .
  ultimately have "directory_at im v (K 12)" "directory_at im v (K 208)" "holds v (K 404) (replicate (184 * n) 0)"
    using v3(6) by (simp_all add: directory_at_def word_at_def holds_def vv)
  moreover have "settled X L e ?c v" unfolding settled_below [OF bv] using v3(3) unfolding ab .
  moreover have "kept X ch s v" using kk(2) by (simp add: kept_def vv)
  moreover have m: "heap.more v = heap.more (s\<lparr>initrd_header := of_nat l, file_headers := of_nat (l + 4),
        initrd_root := K 12, initrd_dev := K 208, root_nodes := K 404, nroot_nodes := of_nat n\<rparr>)"
    using v1(6) v2(6) v3(7) by (cases s, cases v1, cases v2, cases v3) (simp add: v_def)
  moreover note initrd_fields [OF m]
  ultimately show ?thesis using run by (intro exI [of _ v]) simp
qed

text \<open>The image in memory in use, and the two strings beside it.\<close>

lemma init_initrd_run:
  fixes s :: "'a initrd_scheme"
  assumes s: "settled X L e ch s" and room: "heap_end 4026531840 ch + (184 * length names + 404) \<le> e" and n: "length names \<le> 64"
    and img: "image_of names cs img" "length img < 4294967296" "length cs = length names"
    and names: "\<forall>nm \<in> set names. nm \<noteq> [] \<and> length nm < 64 \<and> 0 \<notin> set nm"
    and loaded: "holds s (of_nat l) img" "spans X l (length img)"
    and lits: "literal Y s (at_str_initrd im) ni" "literal Y s (at_str_dev im) nd" "Y \<subseteq> X - headers_area l (length names)"
      "ni \<noteq> []" "length ni < 128" "nd \<noteq> []" "length nd < 128"
    and im: "at_initrd_read im \<noteq> 0"
  defines "K k \<equiv> of_nat (heap_end 4026531840 ch + k) :: u32"
  shows "\<exists>t. init_initrd im (of_nat l) s = Inr (K 12, t)
    \<and> settled X L e (ch @ [(True, 196), (True, 196), (True, 184 * length names + 12)]) t
    \<and> kept (X - headers_area l (length names)) ch s t \<and> directory_at im t (K 12) \<and> literal Y t (at_str_dev im) nd
    \<and> initrd_root t = K 12 \<and> initrd_dev t = K 208 \<and> root_nodes t = K 404 \<and> nroot_nodes t = of_nat (length names)
    \<and> heap.more t = heap.more (s\<lparr>initrd_header := of_nat l, file_headers := of_nat (l + 4),
        initrd_root := K 12, initrd_dev := K 208, root_nodes := K 404, nroot_nodes := of_nat (length names)\<rparr>)
    \<and> (\<forall>i < length names. initrd_file im t (root_node (K 404) (of_nat i)) (cs ! i)
        \<and> cstring t (of_nat (heap_end 4026531840 ch + 404 + 184 * i)) (names ! i))"
proof -
  let ?n = "length names" and ?K = "4026531840" and ?nb = "heap_end 4026531840 ch + 404"
  let ?b = "ch @ [(True, 196), (True, 196)]" and ?c = "ch @ [(True, 196), (True, 196), (True, 184 * length names + 12)]"
  have len: "length img = 4868 + sum_list (map length cs)" using img(1) by (simp add: image_of_def)
  have X: "beside_heap X" using s heap_okD(2) by blast
  have "holds s (of_nat (l + 0)) (word_bytes (of_nat ?n))"
    by (rule holds_part [OF loaded(1)]) (use img(1) in \<open>simp add: image_of_def\<close>)
  then have word: "word_at s (of_nat l) (of_nat ?n)" "run_of (of_nat l) 4 \<subseteq> X"
    using spans_run [OF spans_part [OF loaded(2), of l 4]] len by (simp_all add: word_at_def)
  have YX: "Y \<subseteq> X" using lits(3) by blast
  obtain v where v: "init_initrd im (of_nat l) s = bnd (mount_files string_fuel im (of_nat l) 0) (\<lambda>_. gets initrd_root) v"
    "settled X L e ?c v" "kept X ch s v" "directory_at im v (K 12)" "holds v (K 404) (replicate (184 * ?n) 0)"
    "file_headers v = of_nat (l + 4)" "initrd_root v = K 12" "initrd_dev v = K 208" "root_nodes v = K 404" "nroot_nodes v = of_nat ?n"
    "heap.more v = heap.more (s\<lparr>initrd_header := of_nat l, file_headers := of_nat (l + 4),
        initrd_root := K 12, initrd_dev := K 208, root_nodes := K 404, nroot_nodes := of_nat ?n\<rparr>)"
    using init_initrd_blocks [OF s room n word lits(1,2) YX lits(4-7)] unfolding K_def by blast
  have ok: "heap_ok X L v (?b @ (True, 184 * ?n + 12) # [])" using v(2) by simp
  have b404: "heap_end ?K ?b + 12 = ?nb" by simp
  have sp: "spans (area X v) ?nb (184 * ?n)" using block_spans(1) [OF ok] unfolding b404 by simp
  have nodes: "k \<in> payload ?K ?c" "k \<notin> payload ?K ?b" if "?nb \<le> k" "k < ?nb + 184 * ?n" for k
    using that payload_bounds [of k ?K ?b] by (simp, fastforce)
  have lX: "spans (area X v) l (length img)" using loaded(2) by (auto simp: spans_def heap_area_def)
  have top: "?nb + 184 * ?n \<le> 4244635648"
    using ok heap_okD(3) [OF ok] by (simp add: heap_ok_def)
  have away: "l + length img \<le> ?nb \<or> ?nb + 184 * ?n \<le> l"
    using span_beside [OF X loaded(2)] len top heap_end_ge [of ?K ch] by auto
  have tab: "tables (area X v) (l + 4) ?nb ?n v"
    unfolding tables_def
  proof (intro conjI)
    show "buffer v (area X v)" using settled_owned [OF ok] by (simp add: owned_def)
    show "spans (area X v) (l + 4) (76 * ?n)" by (rule spans_part [OF lX]) (use len n in simp_all)
    show "l + 4 + 76 * ?n \<le> ?nb \<or> ?nb + 184 * ?n \<le> l + 4" using away len n by auto
  qed (use sp n v(6,9,10) in \<open>simp_all add: K_def\<close>)
  have lv: "holds v (of_nat l) img"
    using kept_holds [OF v(3) spans_run [OF loaded(2)]] loaded(1) by simp
  obtain t where t: "mount_files string_fuel im (of_nat l) 0 v = Inr ((), t)" "alters (area X v) v t"
    "same_but (area X v) (touched (l + 4) ?nb 0 ?n) v t"
    "\<forall>i < ?n. initrd_file im t (root_node (of_nat ?nb) (of_nat i)) (cs ! i) \<and> cstring t (of_nat (?nb + 184 * i)) (names ! i)"
    using mount_image [OF img names lv lX away tab v(5) [unfolded K_def] im] by blast
  note o' = alters_owned [OF settled_owned [OF ok] t(2)]
  note st = settled_stores [OF v(2) o' t(3)]
  have R: "unat x \<in> payload ?K ?c \<or> x \<in> X" if "touched (l + 4) ?nb 0 ?n (unat x)" for x
    using that nodes(1) spans_part [OF loaded(2), of "l + 4" "76 * ?n"] len n by (auto simp: spans_def)
  have hX: "x \<in> X" if "l + 4 \<le> unat x" "unat x < l + 4 + 76 * ?n" for x
    using that spans_part [OF loaded(2), of "l + 4" "76 * ?n"] len n by (simp add: spans_def)
  have hb: "heap_end ?K ?b \<le> 4244635648" using top by simp
  have notR: "\<not> touched (l + 4) ?nb 0 ?n (unat x)" if x: "unat x \<in> payload ?K ?b \<or> x \<in> X - headers_area l ?n" for x
  proof (cases "x \<in> X")
    case True
    have "\<not> (4026531840 \<le> unat x \<and> unat x < 4244635648)" using beside_heapD [OF X True] by linarith
    moreover from this have "unat x \<notin> payload ?K ?b" using payload_bounds [of "unat x" ?K ?b] hb by linarith
    ultimately show ?thesis using x top heap_end_ge [of ?K ch] by (auto simp: headers_area_def)
  next
    case False
    then have "unat x \<in> payload ?K ?b" using x by blast
    then show ?thesis using nodes(2) [of "unat x"] hX False by auto
  qed
  have sb: "{heap_end ?K ch + 12..<heap_end ?K ch + 196} \<subseteq> payload ?K ?b" by auto
  have ok1: "heap_ok X L v (ch @ (True, 196) # [(True, 196), (True, 184 * ?n + 12)])" using v(2) by simp
  have kb: "kept (X - headers_area l ?n) ?b v t" by (rule kept_but [OF ok t(3)]) (use notR in auto)
  have "directory_at im t (K 12)"
    unfolding K_def by (rule directory_kept [OF kb sb ok1 v(4) [unfolded K_def]])
  moreover have "kept (X - headers_area l ?n) ch s t"
    using kept_trans [OF kept_sub [OF v(3)] kb] by auto
  moreover from this have "literal Y t (at_str_dev im) nd" by (rule literal_kept [OF _ lits(3,2)])
  moreover note initrd_fields [OF st(2) [OF R]] st(1) [OF R] st(2) [OF R]
  moreover have "init_initrd im (of_nat l) s = Inr (initrd_root t, t)" using v(1) t(1) by (simp add: bnd_run gets_run)
  ultimately show ?thesis using t(4) v(6-11) by (intro exI [of _ t]) (simp add: K_def)
qed

section \<open>Lookup in the root directory\<close>

lemma fs_finddir_run:
  assumes "directory_at im t nd" and "at_initrd_finddir im \<noteq> 0"
  shows "fs_finddir (call_finddir im) nd p t = initrd_finddir im nd p t"
proof -
  have w: "vld32 (nd + 140) t = Inr (FS_DIRECTORY, t)" "vld32 (nd + 176) t = Inr (at_initrd_finddir im, t)"
    using assms(1) by (simp_all add: directory_at_def vld32_word)
  have "FS_DIRECTORY AND 7 = FS_DIRECTORY" by (simp add: FS_DIRECTORY_def)
  then show ?thesis using w assms(2) by (simp add: fs_finddir_def node_get_def call_finddir_def bnd_run ret_run)
qed

text \<open>What a name means in the root directory: \<open>dev\<close> the directory, whatever the files are; the others, their nodes.\<close>

definition node_named :: "u32 \<Rightarrow> u32 \<Rightarrow> u8 list list \<Rightarrow> u8 list \<Rightarrow> u32" where
  "node_named dev nodes names nm =
     (if nm = map chr ''dev'' then dev
      else case map_of (zip names (map (\<lambda>i. root_node nodes (of_nat i)) [0..<length names])) nm of None \<Rightarrow> 0 | Some nd \<Rightarrow> nd)"

lemma initrd_finddir_run:
  assumes root: "initrd_root t = nd" and tabs: "nroot_nodes t = of_nat (length names)" "root_nodes t = of_nat nb" "length names \<le> 64"
    and names: "distinct names" "\<And>i. i < length names \<Longrightarrow> cstring t (of_nat (nb + 184 * i)) (names ! i) \<and> length (names ! i) < 64"
    and dev: "cstring t (at_str_dev im) (map chr ''dev'')" and p: "cstring t p nm"
  shows "initrd_finddir im nd p t = Inr (node_named (initrd_dev t) (root_nodes t) names nm, t)"
proof -
  obtain c where c: "strcmp p (at_str_dev im) t = Inr (c, t)" "c = 0 \<longleftrightarrow> nm = map chr ''dev''"
    using strcmp_names [OF p dev] by auto
  have "find_node string_fuel 0 p t = Inr (node_named (initrd_dev t) (root_nodes t) names nm, t)" if ne: "nm \<noteq> map chr ''dev''"
  proof (cases "nm \<in> set names")
    case True
    then obtain i where i: "i < length names" "nm = names ! i" by (metis in_set_conv_nth)
    have "find_node string_fuel (of_nat 0) p t = Inr (of_nat (nb + 184 * i), t)"
      by (rule find_node_finds [OF tabs(1,2) refl tabs(3) names(2,1)]) (use p i tabs(3) in \<open>simp_all add: string_fuel_def\<close>)
    moreover have "map_of (zip names (map (\<lambda>i. root_node (root_nodes t) (of_nat i)) [0..<length names])) nm
        = Some (root_node (root_nodes t) (of_nat i))"
      using map_of_zip_nth [of names "map (\<lambda>i. root_node (root_nodes t) (of_nat i)) [0..<length names]" i] names(1) i by simp
    ultimately show ?thesis using ne tabs(2) by (simp add: node_named_def node_nat)
  next
    case False
    then have "map_of (zip names (map (\<lambda>i. root_node (root_nodes t) (of_nat i)) [0..<length names])) nm = None"
      by (simp add: map_of_zip_is_None)
    then have "node_named (initrd_dev t) (root_nodes t) names nm = 0"
      unfolding node_named_def by (simp only: ne if_False option.case)
    moreover have "find_node string_fuel (of_nat 0) p t = Inr (0, t)"
      by (rule find_node_misses [OF tabs(1,2) refl tabs(3) names(2) p False]) (use tabs(3) in \<open>simp_all add: string_fuel_def\<close>)
    ultimately show ?thesis by simp
  qed
  then show ?thesis using c root by (auto simp: initrd_finddir_def node_named_def bnd_run gets_run ret_run)
qed

section \<open>Properties\<close>

text \<open>C15: The files given to \<open>make_initrd\<close> are the files of the mounted ramdisk. The image that the
  program writes is in memory in use, beside a heap whose blocks are all in use and that has room for the nodes; then \<open>init_initrd\<close>
  returns the root directory. Every file of the host is a file of the kernel with the same contents, and a lookup of any name
  in the root directory, through its function pointer, answers the directory \<open>dev\<close> for the name \<open>dev\<close>, the node of
  the file for the name of any other file, and 0 for every other name. (So a file of the host that is called \<open>dev\<close> is there, but
  cannot be found by its name.) The heap is well formed with
  three blocks more, and the other blocks and all other memory in use but the headers of the image are as before. There are at most
  64 files; names have from 1 to 63 bytes and are distinct.\<close>

theorem mounted_files_are_built_files:
  fixes s :: "'a initrd_scheme"
  assumes built: "make_initrd files junk names = Inr (0, Some img)" "length junk = 4864"
    and host: "map files names = map Some cs" "4868 + sum_list (map length cs) < 4294967296"
    and names: "distinct names" "length names \<le> 64" "\<forall>nm \<in> set names. nm \<noteq> [] \<and> length nm < 64 \<and> 0 \<notin> set nm"
    and heap: "heap_ok X L s ch" "used ch" "budget L e s" "heap_end 4026531840 ch + (184 * length names + 404) \<le> e"
    and loaded: "holds s (of_nat l) img" "spans X l (length img)"
    and strings: "literal (X - headers_area l (length names)) s (at_str_initrd im) (map chr ''initrd'')"
      "literal (X - headers_area l (length names)) s (at_str_dev im) (map chr ''dev'')"
    and im: "at_initrd_read im \<noteq> 0" "at_initrd_finddir im \<noteq> 0"
  shows "\<exists>root t. init_initrd im (of_nat l) s = Inr (root, t) \<and> initrd_root t = root
    \<and> (\<forall>i < length names. initrd_file im t (root_node (root_nodes t) (of_nat i)) (cs ! i))
    \<and> (\<forall>p nm. cstring t p nm \<longrightarrow>
        fs_finddir (call_finddir im) root p t = Inr (node_named (initrd_dev t) (root_nodes t) names nm, t))
    \<and> heap_ok X L t (ch @ [(True, 196), (True, 196), (True, 184 * length names + 12)]) \<and> budget L e t
    \<and> kept (X - headers_area l (length names)) ch s t"
proof -
  let ?K = "\<lambda>k. of_nat (heap_end 4026531840 ch + k) :: u32"
  have lc: "length cs = length names" using host(1) by (metis length_map)
  have short: "\<forall>nm \<in> set names. length nm < 64" using names(3) by blast
  have img: "image_of names cs img"
    using make_initrd_image [OF host(1) short names(2) built(2) host(2)] built(1) by auto
  then have "length img < 4294967296" using host(2) by (simp add: image_of_def)
  moreover have "settled X L e ch s" using heap(1-3) by blast
  moreover have nz: "map chr ''initrd'' \<noteq> []" "length (map chr ''initrd'') < 128" "map chr ''dev'' \<noteq> []" "length (map chr ''dev'') < 128"
    by simp_all
  ultimately obtain t where t: "init_initrd im (of_nat l) s = Inr (?K 12, t)"
    "settled X L e (ch @ [(True, 196), (True, 196), (True, 184 * length names + 12)]) t"
    "kept (X - headers_area l (length names)) ch s t" "directory_at im t (?K 12)"
    "literal (X - headers_area l (length names)) t (at_str_dev im) (map chr ''dev'')"
    "initrd_root t = ?K 12" "initrd_dev t = ?K 208" "root_nodes t = ?K 404" "nroot_nodes t = of_nat (length names)"
    "\<forall>i < length names. initrd_file im t (root_node (?K 404) (of_nat i)) (cs ! i)
        \<and> cstring t (of_nat (heap_end 4026531840 ch + 404 + 184 * i)) (names ! i)"
    using init_initrd_run [OF _ heap(4) names(2) img _ lc names(3) loaded strings order_refl nz im(1)] by blast
  have dev: "cstring t (at_str_dev im) (map chr ''dev'')" using t(5) by (simp add: literal_def)
  have nm: "cstring t (of_nat (heap_end 4026531840 ch + 404 + 184 * i)) (names ! i) \<and> length (names ! i) < 64" if "i < length names" for i
    using t(10) short that by simp
  have "fs_finddir (call_finddir im) (?K 12) p t = Inr (node_named (initrd_dev t) (root_nodes t) names nm, t)"
    if "cstring t p nm" for p nm
    unfolding fs_finddir_run [OF t(4) im(2)] by (rule initrd_finddir_run [OF t(6,9,8) names(2,1) nm dev that])
  then show ?thesis using t(1,2,3,6,8,10) by (intro exI [of _ "?K 12"] exI [of _ t]) simp
qed

section \<open>A concrete ramdisk\<close>

text \<open>Bytes written one by one into memory in use.\<close>

primrec fill_bytes :: "u32 \<Rightarrow> u8 list \<Rightarrow> ('a vm_scheme, unit) cmd" where
  "fill_bytes a [] = skip"
| "fill_bytes a (b # bs) = bnd (vst8 a b) (\<lambda>_. fill_bytes (a + 1) bs)"

lemma fill_bytes_run:
  assumes "owned s A" and "run_of a (length bs) \<subseteq> A" and "length bs < 4294967296"
  shows "\<exists>t. fill_bytes a bs s = Inr ((), t) \<and> owned t A \<and> stores s t \<and> holds t a bs
    \<and> (\<forall>x \<in> A - run_of a (length bs). view t x = view s x)"
  using assms
proof (induction bs arbitrary: s a)
  case Nil
  then show ?case by (simp add: skip_run)
next
  case (Cons b bs)
  have sub: "a \<in> A" "run_of (a + 1) (length bs) \<subseteq> A" and n: "length bs < 4294967296" using Cons.prems by (simp_all add: run_of_Suc)
  have bf: "buffer s A" using Cons.prems(1) by (simp add: owned_def)
  obtain u where u: "vst8 a b s = Inr ((), u)" "\<forall>x \<in> A. view u x = (if x = a then Some b else view s x)" "alters A s u"
    using vst8_view [OF bf sub(1), of b] by blast
  note o' = alters_owned [OF Cons.prems(1) u(3)]
  obtain t where t: "fill_bytes (a + 1) bs u = Inr ((), t)" "owned t A" "stores u t" "holds t (a + 1) bs"
    "\<forall>x \<in> A - run_of (a + 1) (length bs). view t x = view u x"
    using Cons.IH [OF o'(1) sub(2) n] by blast
  have "a \<notin> run_of (a + 1) (length bs)" by (rule run_of_first_notin [OF n])
  then have "holds t a (b # bs)" using t(4,5) u(2) sub(1) by (simp add: holds_Cons)
  moreover have "\<forall>x \<in> A - run_of a (length (b # bs)). view t x = view s x" using t(5) u(2) by (simp add: run_of_Suc)
  ultimately show ?case using u(1) t(1,2) stores_trans [OF o'(2) t(3)] by (simp add: bnd_run)
qed

text \<open>Two files on the host, \<open>a\<close> and \<open>dev\<close>; their image at 0x100 in two pages of low memory, with the strings behind it.\<close>

definition demo_host :: host_files where
  "demo_host = [[0x61] \<mapsto> [1, 2, 3], map chr ''dev'' \<mapsto> [9]]"

definition demo_names :: "u8 list list" where "demo_names = [[0x61], map chr ''dev'']"

definition demo_strings :: image where
  "demo_strings = demo_image\<lparr>at_str_initrd := 0x1500, at_str_dev := 0x1510\<rparr>"

definition demo_low_pages :: "u32 set" where "demo_low_pages = {x. 8 \<le> unat x \<and> unat x < 8192}"

lemma demo_two_pages:
  "\<exists>u. allocate_page 0x1000 3 demo_more = Inr ((), u) \<and> owned u {x. unat x < 8192} \<and> 2 \<le> length (free_pages u)
    \<and> (\<forall>x. off x = 0 \<longrightarrow> KHEAP_START \<le> x \<longrightarrow> unat x < 0xF0400000 \<longrightarrow> mappable u x)"
proof -
  have i: "PGDIR_IDX_FROM_ADDR 0x1000 = 0" "PGDIR_IDX_FROM_ADDR 0 = 0" "frame 0x1000 = 0x1000" "frame (0 :: u32) = 0" "off (0x1000 :: u32) = 0"
    by (simp_all add: PGDIR_IDX_FROM_ADDR_def PAGE_ADDR_MASK_def PAGE_FLAGS_MASK_def)
  have w: "self_slot demo = 1023" "directory (curdir demo) = 0xFFBFF000"
    by (simp_all add: self_slot_def demo_def PGDIR_IDX_FROM_ADDR_def)
  have m: "mappable demo 0x1000" "mappable demo 0"
    by (simp_all add: mappable_def window_def w i demo_in_stack kernel_view_def KERNEL_ADDRESS_SPACE_def PGDIR_IDX_FROM_ADDR_def)
  have v: "vacant demo 0x1000" by (simp add: vacant_def i demo_pde present_def)
  have "vacant demo_low 0x1000"
    by (rule vacant_map_page [OF demo_mm_ok m(2) demo_low_run(1) _ v]) (simp_all add: w i demo_free_pages)
  then have pg: "mappable demo_more 0x1000" "vacant demo_more 0x1000"
    using grows_mappable [OF demo_low_run(3) m(1)] by (simp_all add: demo_more_memory)
  have fl: "frame (3 :: u32) = 0" by (simp add: PAGE_ADDR_MASK_def)
  have free: "2 \<le> length (free_pages demo_more)" by (simp add: demo_more_memory)
  obtain u where u: "allocate_page 0x1000 3 demo_more = Inr ((), u)" "owned u ({x. unat x < 4096} \<union> page_of 0x1000)"
    "grows demo_more u" "length (free_pages demo_more) \<le> length (free_pages u) + 2"
    using allocate_page_owned [OF demo_more_memory(1) pg(1) i(5) pg(2) fl free] by blast
  have "{x :: u32. unat x < 8192} \<subseteq> {x. unat x < 4096} \<union> page_of 0x1000"
  proof
    fix x :: u32 assume "x \<in> {x. unat x < 8192}"
    then show "x \<in> {x. unat x < 4096} \<union> page_of 0x1000"
      using page_range [OF i(5), of x] by (simp add: page_of_def i(3), linarith)
  qed
  then have "owned u {x. unat x < 8192}" using owned_subset [OF u(2)] by blast
  moreover have "mappable u x" if "off x = 0" "KHEAP_START \<le> x" "unat x < 0xF0400000" for x
    using that grows_mappable [OF u(3)] grows_mappable [OF demo_low_run(3) demo_heap_pages, of x]
    by (simp add: demo_more_memory KHEAP_START_def word_le_nat_alt)
  moreover have "2 \<le> length (free_pages u)" using u(4) by (simp add: demo_more_memory)
  ultimately show ?thesis using u(1) by blast
qed

lemma demo_ramdisk:
  assumes img: "length img = 4872"
  shows "\<exists>s :: initrd. heap_ok demo_low_pages 0xF0400000 s [] \<and> budget 0xF0400000 (4026531840 + 772) s \<and> holds s 0x100 img
    \<and> literal (demo_low_pages - headers_area 0x100 2) s 0x1500 (map chr ''initrd'')
    \<and> literal (demo_low_pages - headers_area 0x100 2) s 0x1510 (map chr ''dev'')"
proof -
  let ?A = "{x :: u32. unat x < 8192}" and ?ni = "map chr ''initrd'' @ [0]" and ?nd = "map chr ''dev'' @ [0]"
  have ru: "x \<in> run_of 0x100 4872 \<longleftrightarrow> 256 \<le> unat x \<and> unat x < 5128" "x \<in> run_of 0x1500 7 \<longleftrightarrow> 5376 \<le> unat x \<and> unat x < 5383"
    "x \<in> run_of 0x1510 4 \<longleftrightarrow> 5392 \<le> unat x \<and> unat x < 5396" for x :: u32
    using run_of_nat [of 256 4872 x] run_of_nat [of 5376 7 x] run_of_nat [of 5392 4 x] by simp_all
  have len: "length ?ni = 7" "length ?nd = 4" by simp_all
  obtain u :: vm where u: "owned u ?A" "2 \<le> length (free_pages u)"
    "\<forall>x. off x = 0 \<longrightarrow> KHEAP_START \<le> x \<longrightarrow> unat x < 0xF0400000 \<longrightarrow> mappable u x" using demo_two_pages by blast
  have sub: "run_of 0x100 4872 \<subseteq> ?A" "run_of 0x1500 7 \<subseteq> ?A" "run_of 0x1510 4 \<subseteq> ?A" by (auto simp: ru)
  obtain v1 where v1: "owned v1 ?A" "stores u v1" "holds v1 0x100 img"
    using fill_bytes_run [OF u(1), of "0x100" img] sub(1) img by auto
  obtain v2 where v2: "owned v2 ?A" "stores v1 v2" "holds v2 0x1500 ?ni" "\<forall>x \<in> ?A - run_of 0x1500 7. view v2 x = view v1 x"
    using fill_bytes_run [OF v1(1), of "0x1500" ?ni] sub(2) unfolding len by auto
  obtain v where v: "owned v ?A" "stores v2 v" "holds v 0x1510 ?nd" "\<forall>x \<in> ?A - run_of 0x1510 4. view v x = view v2 x"
    using fill_bytes_run [OF v2(1), of "0x1510" ?nd] sub(3) unfolding len by auto
  have same: "view v x = view v1 x" if "x \<in> run_of 0x100 4872" for x using v(4) v2(4) that by (simp add: ru)
  have hi: "holds v 0x100 img" using holds_same [of "0x100" img v v1] same v1(3) img by simp
  have "view v x = view v2 x" if "x \<in> run_of 0x1500 7" for x using v(4) that by (simp add: ru)
  then have hn: "holds v 0x1500 ?ni" using holds_same [of "0x1500" ?ni v v2] v2(3) unfolding len by blast
  have st: "stores u v" using stores_trans [OF stores_trans [OF v1(2) v2(2)] v(2)] .
  then have fp: "free_pages v = free_pages u" "mappable v x = mappable u x" for x
    using stores_mappable [OF st] by (simp_all add: stores_def)
  define s where "s = vm.extend v (vm.more (demo_disk\<lparr>kheap_max := KHEAP_START, kheap_first := 0\<rparr>))"
  have f: "kheap_max s = KHEAP_START" "kheap_first s = 0" by (simp_all add: s_def demo_disk_defs)
  have vs: "view s = view v" by (simp add: s_def view_extend)
  have "heap_area demo_low_pages KHEAP_START \<subseteq> ?A" by (auto simp: heap_area_def demo_low_pages_def KHEAP_START_def)
  then have own: "owned s (heap_area demo_low_pages (kheap_max s))" unfolding f(1) using owned_subset [OF v(1)] by (simp add: s_def)
  have "beside_heap demo_low_pages" by (simp add: beside_heap_def demo_low_pages_def)
  then have "heap_ok demo_low_pages 0xF0400000 s []"
    using f own u(3) by (simp add: heap_ok_def heap_mem_def head_of_def PAGE_FLAGS_MASK_def KHEAP_END_def KHEAP_START_def s_def fp)
  moreover have fs: "free_pages s = free_pages u" by (simp add: s_def fp)
  moreover have "budget 0xF0400000 (4026531840 + 772) s"
    using u(2) fs unfolding budget_def f pages_for_def by (simp add: KHEAP_START_def)
  moreover have sub: "run_of 0x1500 7 \<subseteq> demo_low_pages - headers_area 0x100 2" "run_of 0x1510 4 \<subseteq> demo_low_pages - headers_area 0x100 2"
    by (auto simp: ru demo_low_pages_def headers_area_def)
  have n: "Suc (length (map chr ''initrd'')) = 7" "Suc (length (map chr ''dev'')) = 4"
    "0 \<notin> set (map chr ''initrd'')" "0 \<notin> set (map chr ''dev'')" by (simp_all add: chr_def)
  have "literal (demo_low_pages - headers_area 0x100 2) s 0x1500 (map chr ''initrd'')"
    "literal (demo_low_pages - headers_area 0x100 2) s 0x1510 (map chr ''dev'')" "holds s 0x100 img"
    using hi hn v(3) sub n(3,4) unfolding literal_def cstring_def n(1,2) holds_def vs by blast+
  ultimately show ?thesis by blast
qed

theorem mounted_files_are_built_files_witness:
  "\<exists>(s :: initrd) img root t. make_initrd demo_host (replicate 4864 0) demo_names = Inr (0, Some img)
    \<and> init_initrd demo_strings 0x100 s = Inr (root, t)
    \<and> initrd_file demo_strings t (root_nodes t) [1, 2, 3]
    \<and> (\<forall>p. cstring t p [0x61] \<longrightarrow> fs_finddir (call_finddir demo_strings) root p t = Inr (root_nodes t, t))
    \<and> (\<forall>p. cstring t p (map chr ''dev'') \<longrightarrow> fs_finddir (call_finddir demo_strings) root p t = Inr (initrd_dev t, t))"
proof -
  let ?cs = "[[1, 2, 3], [9]] :: u8 list list"
  have host: "map demo_host demo_names = map Some ?cs" "4868 + sum_list (map length ?cs) < 4294967296"
    by (simp_all add: demo_host_def demo_names_def)
  have names: "distinct demo_names" "length demo_names \<le> 64" "\<forall>nm \<in> set demo_names. nm \<noteq> [] \<and> length nm < 64 \<and> 0 \<notin> set nm"
    and n: "length demo_names = 2" by (simp_all add: demo_names_def chr_def)
  have junk: "length (replicate 4864 0) = 4864" by simp
  have short: "\<forall>nm \<in> set demo_names. length nm < 64" using names(3) by blast
  obtain img where img: "make_initrd demo_host (replicate 4864 0) demo_names = Inr (0, Some img)" "image_of demo_names ?cs img"
    using make_initrd_image [OF host(1) short names(2) junk host(2)] by blast
  have len: "length img = 4872" using img(2) by (simp add: image_of_def)
  obtain s :: initrd where s: "heap_ok demo_low_pages 0xF0400000 s []" "budget 0xF0400000 (4026531840 + 772) s" "holds s 0x100 img"
    "literal (demo_low_pages - headers_area 0x100 2) s 0x1500 (map chr ''initrd'')"
    "literal (demo_low_pages - headers_area 0x100 2) s 0x1510 (map chr ''dev'')"
    using demo_ramdisk [OF len] by blast
  have used: "used []" by (simp add: used_def)
  have room: "heap_end 4026531840 [] + (184 * length demo_names + 404) \<le> 4026531840 + 772" by (simp add: n)
  have h: "holds s (of_nat 0x100) img" using s(3) by simp
  have sp: "spans demo_low_pages 0x100 (length img)" by (simp add: spans_def len demo_low_pages_def)
  have im: "at_initrd_read demo_strings \<noteq> 0" "at_initrd_finddir demo_strings \<noteq> 0" "at_str_initrd demo_strings = 0x1500"
    "at_str_dev demo_strings = 0x1510" by (simp_all add: demo_strings_def demo_image_def)
  note lit = s(4,5) [folded im(3,4), folded n]
  obtain root t where t: "init_initrd demo_strings (of_nat 0x100) s = Inr (root, t)"
    "\<forall>i < length demo_names. initrd_file demo_strings t (root_node (root_nodes t) (of_nat i)) (?cs ! i)"
    "\<forall>p nm. cstring t p nm \<longrightarrow>
        fs_finddir (call_finddir demo_strings) root p t = Inr (node_named (initrd_dev t) (root_nodes t) demo_names nm, t)"
    using mounted_files_are_built_files [OF img(1) junk host names s(1) used s(2) room h sp lit im(1,2)] by blast
  have "initrd_file demo_strings t (root_node (root_nodes t) (of_nat 0)) (?cs ! 0)" using t(2) [rule_format, of 0] n by simp
  moreover have "node_named d nodes demo_names [0x61] = nodes" for d nodes
    by (simp add: node_named_def demo_names_def root_node_def upt_rec)
  moreover have "node_named d nodes demo_names (map chr ''dev'') = d" for d nodes by (simp add: node_named_def)
  ultimately show ?thesis using img(1) t(1,3) by (intro exI [of _ s] exI [of _ img] exI [of _ root] exI [of _ t]) (simp add: root_node_def)
qed

end
