(* ===== verification/Kernel_Clone_Props.thy ===== *)
theory Kernel_Clone_Props
  imports Kernel_Clone Kernel_Heap_Props
begin

text \<open>
  What \<open>clone_directory\<close> of \<open>kernel/mm/vmm.c\<close> does with a page of its own: the call of
  \<open>copy_page_physical\<close> (\<open>kernel/asm/vmm.s\<close>) and its effect on the page that was to be copied.
\<close>

section \<open>The routine copies a page of bytes\<close>

lemma ld32_bytes:
  "ucast (ld32 m b) = m b" "ucast (drop_bit 8 (ld32 m b)) = m (b + 1)"
  "ucast (drop_bit 16 (ld32 m b)) = m (b + 2)" "ucast (drop_bit 24 (ld32 m b)) = m (b + 3)"
proof -
  have hi: "\<not> bit (w :: u8) (8 + n)" "\<not> bit (w :: u8) (16 + n)" "\<not> bit (w :: u8) (24 + n)" for w n
    using bit_imp_le_length [of w "8 + n"] bit_imp_le_length [of w "16 + n"] bit_imp_le_length [of w "24 + n"] by auto
  show "ucast (ld32 m b) = m b" by (rule bit_word_eqI) (simp add: ld32_def bit_simps)
  show "ucast (drop_bit 8 (ld32 m b)) = m (b + 1)" by (rule bit_word_eqI) (auto simp: ld32_def bit_simps hi)
  show "ucast (drop_bit 16 (ld32 m b)) = m (b + 2)" by (rule bit_word_eqI) (auto simp: ld32_def bit_simps hi)
  show "ucast (drop_bit 24 (ld32 m b)) = m (b + 3)" by (rule bit_word_eqI) (auto simp: ld32_def bit_simps hi)
qed

lemma copy_word:
  "i < 4 \<Longrightarrow> st32 m c (ld32 m b) (c + of_nat i) = m (b + of_nat i)"
  "x \<notin> run_of c 4 \<Longrightarrow> st32 m c v x = m x"
proof -
  assume "i < 4"
  then consider "i = 0" | "i = 1" | "i = 2" | "i = 3" by linarith
  then show "st32 m c (ld32 m b) (c + of_nat i) = m (b + of_nat i)"
    by cases (simp_all add: st32_def ld32_bytes)
next
  show "x \<notin> run_of c 4 \<Longrightarrow> st32 m c v x = m x"
    using in_run_of [of 0 4 c] in_run_of [of 1 4 c] in_run_of [of 2 4 c] in_run_of [of 3 4 c]
    by (auto simp: st32_def)
qed

lemma copy_words:
  assumes dis: "run_of b (4 * n) \<inter> run_of c (4 * n) = {}" and n: "4 * n < 4294967296"
  shows "\<exists>m. cfor [0..<n] (\<lambda>k. upd (\<lambda>s. s\<lparr>ram := st32 (ram s) (c + 4 * of_nat k) (ld32 (ram s) (b + 4 * of_nat k))\<rparr>)) s
      = Inr ((), s\<lparr>ram := m\<rparr>)
    \<and> (\<forall>k < 4 * n. m (c + of_nat k) = ram s (b + of_nat k)) \<and> (\<forall>x. x \<notin> run_of c (4 * n) \<longrightarrow> m x = ram s x)"
  using assms
proof (induction n)
  case 0
  show ?case by (intro exI [of _ "ram s"]) simp
next
  case (Suc n)
  have sub: "run_of x (4 * n) \<subseteq> run_of x (4 * Suc n)" for x by (auto simp: run_of_def)
  have "run_of b (4 * n) \<inter> run_of c (4 * n) = {}" using Suc.prems(1) sub by blast
  moreover have "4 * n < 4294967296" using Suc.prems(2) by simp
  ultimately obtain m where m: "cfor [0..<n] (\<lambda>k. upd (\<lambda>s. s\<lparr>ram := st32 (ram s) (c + 4 * of_nat k) (ld32 (ram s) (b + 4 * of_nat k))\<rparr>)) s
      = Inr ((), s\<lparr>ram := m\<rparr>)"
    "\<forall>k < 4 * n. m (c + of_nat k) = ram s (b + of_nat k)" "\<forall>x. x \<notin> run_of c (4 * n) \<longrightarrow> m x = ram s x"
    using Suc.IH by blast
  let ?c = "c + 4 * of_nat n" and ?b = "b + 4 * of_nat n"
  let ?m = "st32 m ?c (ld32 m ?b)"
  have at: "x + 4 * of_nat n + of_nat i = x + of_nat (4 * n + i)" for x :: u32 and i by (simp add: algebra_simps)
  have src: "m (b + of_nat k) = ram s (b + of_nat k)" if "k < 4 * Suc n" for k
  proof -
    have "b + of_nat k \<in> run_of b (4 * Suc n)" using that by (rule in_run_of)
    then have "b + of_nat k \<notin> run_of c (4 * n)" using Suc.prems(1) sub by blast
    then show ?thesis using m(3) by blast
  qed
  have low: "c + of_nat k \<notin> run_of ?c 4" if "k < 4 * n" for k
  proof
    assume "c + of_nat k \<in> run_of ?c 4"
    then obtain i where i: "i < 4" "c + of_nat k = c + of_nat (4 * n + i)" by (auto simp: run_of_def at)
    then have "(of_nat k :: u32) = of_nat (4 * n + i)" by (metis add_left_cancel)
    then have "k = 4 * n + i"
      using that i(1) Suc.prems(2) by (simp add: word_of_nat_eq_iff take_bit_eq_mod del: of_nat_add)
    then show False using that by simp
  qed
  have new: "?m (c + of_nat k) = ram s (b + of_nat k)" if k: "k < 4 * Suc n" for k
  proof (cases "k < 4 * n")
    case True
    then show ?thesis using copy_word(2) [OF low [OF True]] m(2) by simp
  next
    case False
    then obtain i where i: "k = 4 * n + i" "i < 4" using k by (metis add_diff_inverse_nat add_less_cancel_left mult_Suc_right add.commute)
    then show ?thesis using copy_word(1) [OF i(2), of m ?c ?b] src [OF k] by (simp only: at i(1))
  qed
  have rest: "?m x = ram s x" if x: "x \<notin> run_of c (4 * Suc n)" for x
  proof -
    have "run_of ?c 4 \<subseteq> run_of c (4 * Suc n)"
    proof
      fix y assume "y \<in> run_of ?c 4"
      then obtain i where "i < 4" "y = c + of_nat (4 * n + i)" by (auto simp: run_of_def at)
      then show "y \<in> run_of c (4 * Suc n)" by (simp add: in_run_of del: of_nat_add)
    qed
    then have "x \<notin> run_of ?c 4" using x by blast
    moreover have "x \<notin> run_of c (4 * n)" using x sub by blast
    ultimately show ?thesis using copy_word(2) m(3) by simp
  qed
  have "cfor [0..<Suc n] (\<lambda>k. upd (\<lambda>s. s\<lparr>ram := st32 (ram s) (c + 4 * of_nat k) (ld32 (ram s) (b + 4 * of_nat k))\<rparr>)) s
      = Inr ((), s\<lparr>ram := ?m\<rparr>)"
    using m(1) by (simp add: cfor_append upd_run)
  then show ?case using new rest by blast
qed

lemma copy_page_run:
  assumes "run_of b 4096 \<inter> run_of c 4096 = {}"
  shows "\<exists>m. copy_page_physical b c s = Inr ((), s\<lparr>ram := m\<rparr>)
    \<and> (\<forall>k < 4096. m (c + of_nat k) = ram s (b + of_nat k)) \<and> (\<forall>x. x \<notin> run_of c 4096 \<longrightarrow> m x = ram s x)"
  using copy_words [of b 1024 c s] assms by (simp add: copy_page_physical_def)


section \<open>A page that is cloned\<close>

lemma page_run_frame: "frame y = y \<Longrightarrow> z \<in> run_of y 4096 \<Longrightarrow> frame z = y"
  using frame_add [of _ y] by (auto simp: run_of_def word_less_nat_alt unat_of_nat)

text \<open>The entry of the new page has its three flags set, so the copy starts seven bytes into the frame.\<close>

lemma user_flags_add: "frame p = p \<Longrightarrow> user_flags p = p + 7"
proof -
  assume p: "frame p = p"
  have "p AND 7 = frame p AND 7" using p by simp
  also have "\<dots> = p AND (PAGE_ADDR_MASK AND 7)" by (simp add: ac_simps)
  also have "PAGE_ADDR_MASK AND 7 = (0 :: u32)" by (simp add: PAGE_ADDR_MASK_def)
  finally have "p + 7 = p OR 7" by (simp add: disjunctive_add_eq_or)
  moreover have "PAGE_PRESENT OR PAGE_WRITE OR PAGE_USER = 7" by (simp add: PAGE_PRESENT_def PAGE_WRITE_def PAGE_USER_def)
  ultimately show ?thesis by (simp add: or.assoc)
qed

lemma shifted_run_apart:
  assumes "frame p = p" and "frame y = y" and "y \<noteq> p" and "y \<noteq> p + 4096"
  shows "run_of (p + 7) 4096 \<inter> run_of y 4096 = {}"
proof -
  have f2: "frame (p + 4096) = p + 4096"
  proof -
    have "p + off p = p" using assms(1) frame_plus_off [of p] by simp
    then have "unat p mod 4096 = 0" by (simp flip: unat_off)
    moreover have "unat (p + 4096) = (unat p + 4096) mod 4294967296" by (simp add: unat_word_ariths)
    moreover have "(unat p + 4096) mod 4294967296 mod 4096 = (unat p + 4096) mod 4096" by (rule mod_mod_cancel) simp
    ultimately have "unat (off (p + 4096)) = 0" by (simp add: unat_off)
    then show ?thesis using frame_plus_off [of "p + 4096"] by (simp add: unat_eq_0)
  qed
  have "frame z \<noteq> y" if z: "z \<in> run_of (p + 7) 4096" for z
  proof -
    obtain i where i: "i < 4096" "z = p + 7 + of_nat i" using z by (auto simp: run_of_def)
    show ?thesis
    proof (cases "i + 7 < 4096")
      case True
      have "z = p + of_nat (i + 7)" using i(2) by simp
      then have "z \<in> run_of p 4096" using in_run_of [OF True, of p] by simp
      then show ?thesis using page_run_frame [OF assms(1)] assms(3) by blast
    next
      case False
      then obtain j where j: "i + 7 = 4096 + j" "j < 4096" using i(1) by (intro that [of "i + 7 - 4096"]) simp_all
      have "z = p + of_nat (i + 7)" using i(2) by simp
      then have "z = (p + 4096) + of_nat j" unfolding j(1) by simp
      then have "z \<in> run_of (p + 4096) 4096" using in_run_of [OF j(2), of "p + 4096"] by simp
      then show ?thesis using page_run_frame [OF f2] assms(4) by blast
    qed
  qed
  then show ?thesis using page_run_frame [OF assms(2)] by blast
qed


text \<open>C25: A page that is cloned is lost. For a page of its own in the source directory, with entry \<open>x\<close>,
  \<open>clone_page\<close> takes the next free frame \<open>p\<close> and enters it in the copy with the flags of the original; but
  \<open>copy_page_physical\<close> reads through its first argument and writes through its second, and the first is the new entry,
  flags included: the 4096 bytes from offset 7 of the new frame on replace the contents of the original
  page, and the new frame keeps what it held. (The hypotheses say that tables and pages are different frames
  and that none of them is the frame behind \<open>p\<close>, in which the last seven bytes are read.)\<close>

theorem clone_page_overwrites_source:
  fixes src dest :: page_directory_mount and j :: u32
  defines "a \<equiv> m_pages src + 4 * j" and "b \<equiv> m_pages dest + 4 * j"
  assumes ok: "mm_ok s" and free: "free_pages s = fs @ [p]"
    and a: "aligned4 a" "translate s a = Some ps" and b: "aligned4 b" "translate s b = Some pd"
    and al: "aligned4 ps" "aligned4 pd" "ps \<noteq> pd"
    and x: "ld32 (ram s) ps = x" "x \<noteq> 0"
    and pd: "frame pd \<notin> pt_frames s" "frame pd \<noteq> p"
    and y: "frame x \<notin> pt_frames s" "frame x \<noteq> frame ps" "frame x \<noteq> frame pd" "frame x \<noteq> p" "frame x \<noteq> p + 4096"
    and sh: "frame pd \<noteq> p + 4096"
  shows "\<exists>t. clone_page src dest j s = Inr ((), t)
    \<and> (\<forall>k < 4096. ram t (frame x + of_nat k) = ram s (p + 7 + of_nat k))
    \<and> (\<forall>z. frame z = p \<longrightarrow> ram t z = ram s z)
    \<and> ld32 (ram t) ps = x \<and> ld32 (ram t) pd = user_flags p OR off x"
proof -
  have p: "frame p = p" using ok free by (simp add: mm_ok_def pool_ok_def)
  obtain t1 where t1: "pmm_alloc_page s = Inr (p, t1)" "t1 = s\<lparr>pmm_stack_loc := pmm_stack_loc s - 4\<rparr>"
    using pmm_alloc_page_pops [OF ok free] by blast
  have f1: "translate t1 = translate s" "pt_frames t1 = pt_frames s" "ram t1 = ram s" by (simp_all add: t1(2))
  define m2 where "m2 = st32 (ram s) pd (user_flags p)"
  define t2 where "t2 = t1\<lparr>ram := m2\<rparr>"
  have s2: "same_except {frame pd} (ram t1) m2" unfolding f1(3) m2_def by (rule same_except_st32 [OF al(2)]) simp
  have tr2: "translate t2 z = translate s z" for z
    unfolding t2_def using translate_same [OF s2] pd(1) f1 by simp
  have pt2: "pt_frames t2 = pt_frames s" unfolding t2_def using pt_frames_same [OF s2] pd(1) f1 by simp
  have w2: "vst32 b (user_flags p) t1 = Inr ((), t2)"
    using vst32_aligned [OF b(1), of t1 pd] b(2) f1 by (simp add: t2_def m2_def)
  have l2: "ld32 m2 pd = user_flags p" "ld32 m2 ps = x"
    using ld32_st32_aligned [OF al(2,1)] al(3) x(1) by (simp_all add: m2_def)
  have r2: "vld32 b t2 = Inr (user_flags p, t2)" "vld32 a t2 = Inr (x, t2)"
    using vld32_aligned [OF b(1), of t2 pd] vld32_aligned [OF a(1), of t2 ps] a(2) b(2) l2
    by (simp_all add: tr2) (simp_all add: t2_def)
  have fy: "frame (frame x) = frame x" by (simp add: and.assoc)
  have u7: "user_flags p = p + 7" by (rule user_flags_add [OF p])
  obtain m3 where m3: "copy_page_physical (user_flags p) (PAGE_ADDR_MASK AND x) t2 = Inr ((), t2\<lparr>ram := m3\<rparr>)"
    "\<forall>k < 4096. m3 (frame x + of_nat k) = m2 (p + 7 + of_nat k)" "\<forall>z. z \<notin> run_of (frame x) 4096 \<longrightarrow> m3 z = m2 z"
    using copy_page_run [OF shifted_run_apart [OF p fy y(4,5)], of t2] unfolding u7 by (auto simp: t2_def and.commute)
  define t3 where "t3 = t2\<lparr>ram := m3\<rparr>"
  have other: "m3 z = m2 z" if "frame z \<noteq> frame x" for z
    using m3(3) page_run_frame [OF fy] that by blast
  have s3: "same_except {frame x} (ram t2) m3" using other by (simp add: same_except_def t2_def)
  have tr3: "translate t3 z = translate s z" for z
    unfolding t3_def using translate_same [OF s3] y(1) pt2 tr2 by simp
  have r3: "ram t3 = m3" "ram t2 = m2" by (simp_all add: t3_def t2_def)
  have l3: "ld32 m3 pd = user_flags p" "ld32 m3 ps = x"
    using ld32_same_except [OF s3, of pd] ld32_same_except [OF s3, of ps] al y(2,3) l2 by (simp_all add: r3)
  have v3: "vld32 b t3 = Inr (user_flags p, t3)" "vld32 a t3 = Inr (x, t3)"
    using vld32_aligned [OF b(1), of t3 pd] vld32_aligned [OF a(1), of t3 ps] a(2) b(2) l3 by (simp_all add: tr3 r3)
  define t4 where "t4 = t3\<lparr>ram := st32 m3 pd (user_flags p OR (PAGE_FLAGS_MASK AND x))\<rparr>"
  have w4: "vst32 b (user_flags p OR (PAGE_FLAGS_MASK AND x)) t3 = Inr ((), t4)"
    using vst32_aligned [OF b(1), of t3 pd] b(2) by (simp add: tr3 r3 t4_def)
  have sx: "vld32 a s = Inr (x, s)" using vld32_aligned [OF a] x(1) by simp
  have run: "clone_page src dest j s = Inr ((), t4)"
    unfolding clone_page_def a_def [symmetric] b_def [symmetric]
    using sx x(2) t1(1) w2 r2 m3(1) v3 w4
    by (simp only: bnd_run sum.case prod.case if_False t3_def [symmetric])
  have s4: "ram t4 z = m3 z" if "frame z \<noteq> frame pd" for z
    using same_except_st32 [OF al(2), of "{frame pd}" m3] that by (simp add: t4_def same_except_def)
  have s2': "m2 z = ram s z" if "frame z \<noteq> frame pd" for z
    using s2 that by (simp add: same_except_def f1(3))
  have "ram t4 (frame x + of_nat k) = ram s (p + 7 + of_nat k)" if k: "k < 4096" for k
  proof -
    have "frame (frame x + of_nat k) = frame x" by (rule page_run_frame [OF fy in_run_of [OF k]])
    then have "ram t4 (frame x + of_nat k) = m3 (frame x + of_nat k)" using s4 y(3) by simp
    also have "\<dots> = m2 (p + 7 + of_nat k)" using m3(2) k by blast
    also have "\<dots> = ram s (p + 7 + of_nat k)"
    proof -
      have "frame pd \<noteq> frame (p + 7 + of_nat k)"
      proof
        assume e: "frame pd = frame (p + 7 + of_nat k)"
        have "frame (frame pd) = frame pd" by (simp add: and.assoc)
        from shifted_run_apart [OF p this pd(2) sh] in_run_of [OF k, of "p + 7"]
        have "p + 7 + of_nat k \<notin> run_of (frame pd) 4096" by blast
        moreover have "p + 7 + of_nat k \<in> run_of (frame pd) 4096"
        proof -
          have "p + 7 + of_nat k = frame pd + of_nat (unat (off (p + 7 + of_nat k)))"
            using frame_plus_off [of "p + 7 + of_nat k"] e by simp
          moreover have "unat (off (p + 7 + of_nat k)) < 4096" by (simp add: unat_off)
          ultimately show ?thesis using in_run_of by metis
        qed
        ultimately show False by blast
      qed
      then show ?thesis using s2' by metis
    qed
    finally show ?thesis .
  qed
  moreover have "ram t4 z = ram s z" if "frame z = p" for z
    using s4 [of z] other [of z] s2' [of z] that pd(2) y(4) by simp
  moreover have "ld32 (ram t4) ps = x" "ld32 (ram t4) pd = user_flags p OR off x"
    using ld32_st32_aligned [OF al(2,1)] al(3) l3 by (simp_all add: t4_def and.commute)
  ultimately show ?thesis using run by blast
qed


text \<open>Entry 0 of the source is at address 0 and that of the copy at address 4; the page is frame 0xC000.\<close>

definition demo_fork :: vm where
  "demo_fork = demo_low\<lparr>ram := st32 (ram demo_low) 0xB000 0xC007\<rparr>"

lemma demo_fork_state:
  "mm_ok demo_fork" "free_pages demo_fork = [0x8000] @ [0x9000]" "translate demo_fork 0 = Some 0xB000"
  "translate demo_fork 4 = Some 0xB004" "pt_frames demo_fork \<subseteq> {0x1000, 0x2000, 0x3000, 0x5000, 0x8000, 0x9000, 0xA000}"
proof -
  have t: "translate demo_low 0 = Some 0xB000" "translate demo_low 4 = Some 0xB004"
    using demo_low_run(5) [of 0] demo_low_run(5) [of 4] by (simp_all add: PAGE_FLAGS_MASK_def)
  have fB: "frame (0xB000 :: u32) = 0xB000" by (simp add: PAGE_ADDR_MASK_def)
  have se: "same_except {0xB000} (ram demo_low) (st32 (ram demo_low) 0xB000 0xC007)"
    by (rule same_except_st32) (simp_all add: aligned4_def fB)
  have nB: "{0xB000} \<inter> pt_frames demo_low = {}" using demo_low_run(6) by auto
  have tr: "translate demo_fork z = translate demo_low z" for z
    unfolding demo_fork_def by (rule translate_same [OF se nB])
  show "pt_frames demo_fork \<subseteq> {0x1000, 0x2000, 0x3000, 0x5000, 0x8000, 0x9000, 0xA000}"
    unfolding demo_fork_def pt_frames_same [OF se nB] by (rule demo_low_run(6))
  show "translate demo_fork 0 = Some 0xB000" "translate demo_fork 4 = Some 0xB004" using t by (simp_all add: tr)
  have v: "vst32 0 0xC007 demo_low = Inr ((), demo_fork)"
    using vst32_aligned [of 0 demo_low "0xB000"] t(1) by (simp add: demo_fork_def aligned4_def)
  have "run_of 0 4 \<subseteq> {x :: u32. unat x < 4096}" by (auto simp: run_of_def unat_of_nat)
  with owned_store [OF demo_low_run(2), of 0 "0xC007"] v
  show "mm_ok demo_fork" "free_pages demo_fork = [0x8000] @ [0x9000]"
    using demo_low_run(4) by (auto simp: owned_def stores_def)
qed


theorem clone_page_overwrites_source_witness:
  "\<exists>t. clone_page \<lparr>m_directory = 0, m_pages = 0\<rparr> \<lparr>m_directory = 0, m_pages = 4\<rparr> 0 demo_fork = Inr ((), t)
    \<and> ram t 0xC000 = ram demo_fork 0x9007 \<and> ld32 (ram t) 0xB004 = 0x9007"
proof -
  note d = demo_fork_state
  have f: "frame (0xB004 :: u32) = 0xB000" "frame (0xB000 :: u32) = 0xB000" "frame (0xC007 :: u32) = 0xC000" "off (0xC007 :: u32) = 7"
    by (simp_all add: PAGE_ADDR_MASK_def PAGE_FLAGS_MASK_def)
  have n: "0xB000 \<notin> pt_frames demo_fork" "0xC000 \<notin> pt_frames demo_fork" using d(5) by auto
  have x: "ld32 (ram demo_fork) 0xB000 = 0xC007" by (simp add: demo_fork_def)
  have u: "user_flags 0x9000 = (0x9007 :: u32)" by (simp add: PAGE_PRESENT_def PAGE_WRITE_def PAGE_USER_def)
  obtain t where t: "clone_page \<lparr>m_directory = 0, m_pages = 0\<rparr> \<lparr>m_directory = 0, m_pages = 4\<rparr> 0 demo_fork = Inr ((), t)"
    "\<forall>k < 4096. ram t (0xC000 + of_nat k) = ram demo_fork (0x9000 + 7 + of_nat k)"
    "ld32 (ram t) 0xB004 = user_flags 0x9000 OR 7"
    using clone_page_overwrites_source [OF d(1,2), of "\<lparr>m_directory = 0, m_pages = 0\<rparr>" 0 "0xB000" "\<lparr>m_directory = 0, m_pages = 4\<rparr>" "0xB004" "0xC007"]
      d(3,4) n x by (auto simp: f aligned4_def)
  from t(2) have "ram t (0xC000 + of_nat 0) = ram demo_fork (0x9000 + 7 + of_nat 0)" by (rule allE [of _ 0]) simp
  with t(1,3) show ?thesis by (simp add: u)
qed

end
