(* ===== verification/Kernel_Shrink.thy ===== *)
theory Kernel_Shrink
  imports Kernel_Heap_Props
begin

text \<open>
  How the kernel heap shrinks: \<open>free_chunk\<close> of \<open>kernel/mm/kheap.c\<close> drops the last chunk and gives
  the pages behind it back to the frame manager.
\<close>

section \<open>A page goes back\<close>

text \<open>The window on the kernel's tables, which \<open>map\<close> reads for every heap address, is not in the heap.\<close>

definition tables_apart :: "'a vm_scheme \<Rightarrow> bool" where
  "tables_apart s \<longleftrightarrow> KHEAP_END \<le> pages (dirs s Kernel_Directory)
     \<and> unat (pages (dirs s Kernel_Directory)) + 4194304 \<le> 4294967296"

lemma owned_page_apart:
  assumes own: "owned s A" and m: "page_of m \<subseteq> A" and p: "translate s m = Some p"
    and x: "x \<in> A" "x \<notin> page_of m"
  shows "frame (the (translate s x)) \<noteq> frame p"
proof
  assume f: "frame (the (translate s x)) = frame p"
  have pg: "cr0_pg s" using own by (simp add: owned_def mm_ok_def paging_ok_def self_mapped_def)
  obtain q where q: "translate s x = Some q" using own x(1) by (auto simp: owned_def buffer_def)
  define y where "y = frame m + off x"
  have fy: "frame y = frame m" "off y = off x"
    unfolding y_def using frame_add [OF off_less, of m x] off_add [OF off_less, of m x] by simp_all
  have "y \<in> page_of m" by (simp add: page_of_def fy)
  then have y: "y \<in> A" "y \<noteq> x" using m x(2) by blast+
  have ty: "translate s y = Some (frame p + off x)"
    using translate_in_page [OF p fy(1)] pg fy(2) by simp
  have "q = frame q + off q" by (rule frame_plus_off [symmetric])
  then have "q = frame p + off x" using translate_off [OF q] f q by (metis option.sel)
  then have "translate s y = translate s x" using q ty by simp
  moreover have "inj_on (translate s) A" using own by (simp add: owned_def buffer_def)
  ultimately show False using y x(1) by (auto dest: inj_onD)
qed

text \<open>The page at \<open>m\<close>, as the loop of \<open>free_chunk\<close> gives it back.\<close>

lemma page_back:
  assumes own: "owned s A" and m: "off m = 0" "page_of m \<subseteq> A" "mappable s m"
    and room: "pmm_stack_loc s < pmm_stack_max s"
  shows "\<exists>p u t. translate s m = Some p \<and> get_mapping m s = Inr (Some p, s) \<and> pmm_free_page p s = Inr ((), u)
    \<and> unmap m u = Inr ((), t) \<and> owned t (A - page_of m) \<and> (\<forall>x \<in> A - page_of m. view t x = view s x)
    \<and> translate t = (\<lambda>x. if x \<in> page_of m then None else translate s x)
    \<and> t = s\<lparr>ram := ram t, pmm_stack_loc := pmm_stack_loc t, klog := klog t\<rparr>
    \<and> unat (pmm_stack_loc t) \<le> unat (pmm_stack_loc s) + 4
    \<and> free_pages t = free_pages s @ (if pmm_location s \<le> p then [p] else [])"
proof -
  have ok: "mm_ok s" and b: "buffer s A" using own by (simp_all add: owned_def)
  have pg: "paging_ok s" using ok by (simp add: mm_ok_def)
  have mA: "m \<in> A" using m(2) by (auto simp: page_of_def)
  obtain p where p: "translate s m = Some p" "frame p \<notin> pt_frames s" using b mA by (auto simp: buffer_def)
  have "off p = 0" using translate_off [OF p(1)] m(1) by simp
  then have fp: "frame p = p" using frame_plus_off [of p] by simp
  have pte: "present (pte_at s m)" "present (pde_at s (PGDIR_IDX_FROM_ADDR m))"
    using p(1) pg by (auto simp: translate_def paging_ok_def self_mapped_def split: if_splits)
  have new: "frame p \<notin> set (free_pages s) \<union> pt_frames s \<union> stack_frames s"
    using own mA p by (auto simp: owned_def)
  obtain u where u: "pmm_free_page p s = Inr ((), u)" "mm_ok u" "translate u = translate s" "pt_frames u = pt_frames s"
    "u = s\<lparr>ram := ram u, pmm_stack_loc := pmm_stack_loc u, klog := klog u\<rparr>"
    "unat (pmm_stack_loc u) \<le> unat (pmm_stack_loc s) + 4" "stack_frames u = stack_frames s"
    "free_pages u = free_pages s @ (if pmm_location s \<le> p then [p] else [])"
    "same_except (pt_frames s \<union> stack_frames s) (ram s) (ram u)"
    "pde_at u (PGDIR_IDX_FROM_ADDR m) = pde_at s (PGDIR_IDX_FROM_ADDR m)"
  proof (cases "pmm_location s \<le> p")
    case False
    then have "pmm_free_page p s = Inr ((), s)" using pmm_free_page_reserved [of p s] fp by simp
    then show ?thesis using that [of s] ok False by simp
  next
    case True
    obtain u where u: "pmm_free_page p s = Inr ((), u)" "mm_ok u" "free_pages u = free_pages s @ [p]" "translate u = translate s"
      "frees p s u" "pmm_stack_loc u = pmm_stack_loc s + 4" "pmm_stack_max u = pmm_stack_max s"
      using pmm_free_page_pushes [OF ok _ room new] True unfolding fp by blast
    have f: "u = s\<lparr>ram := ram u, pmm_stack_loc := pmm_stack_loc u, pmm_stack_max := pmm_stack_max u, klog := klog u\<rparr>"
      "pt_frames u = pt_frames s" "\<forall>i < 1024. pde_at u i = pde_at s i"
      "same_except (pt_frames s \<union> stack_frames s) (ram s) (ram u)" using u(5) unfolding frees_def by blast+
    have "u = s\<lparr>ram := ram u, pmm_stack_loc := pmm_stack_loc u, klog := klog u\<rparr>"
      by (subst f(1)) (simp add: u(7))
    moreover have "unat (pmm_stack_loc u) \<le> unat (pmm_stack_loc s) + 4"
      unfolding u(6) by (simp add: unat_word_ariths)
    moreover have "stack_frames u = stack_frames s" by (rule stack_frames_translate) (simp_all add: u)
    ultimately show ?thesis using that [of u] u(1-4) f True by (simp add: PGDIR_less)
  qed
  have f: "dirs u = dirs s" "current_directory u = current_directory s" "pmm_stack_max u = pmm_stack_max s" "cr3 u = cr3 s"
    by (subst u(5), simp)+
  have mu: "mappable u m" using m(3)
    by (simp add: mappable_def window_def self_slot_def in_stack_def kernel_view_def f u(3))
  note un = unmap_store [OF u(2) mu] and pdu = u(10)
  define t where "t = u\<lparr>ram := st32 (ram u) (pte_addr u m) 0\<rparr>"
  have t: "unmap m u = Inr ((), t)" "mm_ok t" "free_pages t = free_pages u" "stack_frames t = stack_frames u"
    "pt_frames t = pt_frames u" "translate t = (\<lambda>x. if frame x = frame m then None else translate u x)"
    "same_except (pt_frames u) (ram u) (ram t)"
    using un pte(2) pdu by (simp_all add: t_def)
  have tr: "translate t = (\<lambda>x. if x \<in> page_of m then None else translate s x)"
    using t(6) u(3) by (simp add: page_of_def fun_eq_iff)
  have eq: "t = s\<lparr>ram := ram t, pmm_stack_loc := pmm_stack_loc t, klog := klog t\<rparr>"
    unfolding t_def by (subst u(5)) simp
  have ss: "self_slot t = self_slot s" by (subst eq) (simp add: self_slot_def)
  have each: "\<exists>q. translate s x = Some q \<and> frame q \<notin> pt_frames s \<union> set (free_pages t) \<union> stack_frames s
      \<and> PGDIR_IDX_FROM_ADDR x \<noteq> self_slot s" if x: "x \<in> A - page_of m" for x
  proof -
    obtain q where q: "translate s x = Some q" "frame q \<notin> pt_frames s" using b x by (auto simp: buffer_def)
    have "frame q \<noteq> p" using owned_page_apart [OF own m(2) p(1), of x] x q(1) fp by simp
    then have "frame q \<notin> set (free_pages t)" using own x q(1) unfolding t(3) u(8) by (auto simp: owned_def)
    then show ?thesis using own x q by (auto simp: owned_def)
  qed
  have "inj_on (translate t) (A - page_of m)"
    using b by (auto simp: buffer_def tr inj_on_def)
  then have "owned t (A - page_of m)"
    using t(2) each by (fastforce simp: owned_def buffer_def tr t(4,5) u(4,7) ss)
  moreover have "\<forall>x \<in> A - page_of m. view t x = view s x"
  proof
    fix x assume x: "x \<in> A - page_of m"
    from each [OF x] obtain q where q: "translate s x = Some q" "frame q \<notin> pt_frames s \<union> stack_frames s" by blast
    then have "ram u q = ram s q" "ram t q = ram u q" using u(9) t(7) u(4) by (auto simp: same_except_def)
    then show "view t x = view s x" using x q(1) by (simp add: view_def tr)
  qed
  moreover have "get_mapping m s = Inr (Some p, s)" using get_mapping_translate [OF pg, of m] pte(1) p(1) by simp
  moreover have "unat (pmm_stack_loc t) \<le> unat (pmm_stack_loc s) + 4" using u(6) by (simp add: t_def)
  ultimately show ?thesis using p(1) u(1,8) t(1,3) tr eq by (intro exI [of _ p] exI [of _ u] exI [of _ t]) simp
qed

lemma mappable_back:
  assumes ap: "tables_apart s" and x: "mappable s x" and m: "off m = 0" "m < KHEAP_END"
    and tr: "\<And>y. y \<notin> page_of m \<Longrightarrow> translate t y = translate s y"
    and eq: "t = s\<lparr>ram := ram t, pmm_stack_loc := pmm_stack_loc t, klog := klog t\<rparr>"
  shows "mappable t x"
proof -
  have f: "dirs t = dirs s" "current_directory t = current_directory s" "pmm_stack_max t = pmm_stack_max s"
    by (subst eq, simp)+
  let ?p = "pages (dirs s Kernel_Directory)"
  have p: "unat KHEAP_END \<le> unat ?p" "unat ?p + 4194304 \<le> 4294967296" using ap by (simp_all add: tables_apart_def word_le_nat_alt)
  have "unat (PG_NUM_FROM_ADDR x) < 1048576" using unat_u32_less [of x] by (simp add: PG_NUM_FROM_ADDR_def unat_drop_bit_eq drop_bit_eq_div unat_div)
  then have "unat (page_slot (dirs s Kernel_Directory) (PG_NUM_FROM_ADDR x)) = unat ?p + 4 * unat (PG_NUM_FROM_ADDR x)"
    using p(2) by (simp add: unat_word_ariths)
  then have "unat KHEAP_END \<le> unat (page_slot (dirs s Kernel_Directory) (PG_NUM_FROM_ADDR x))" using p(1) by simp
  moreover have "unat m + 4096 \<le> unat KHEAP_END"
  proof -
    have "unat m mod 4096 = 0" using m(1) unat_off [of m] by simp
    then obtain k where "unat m = 4096 * k" by (meson dvd_def mod_eq_0_iff_dvd)
    then show ?thesis using m(2) by (simp add: word_less_nat_alt KHEAP_END_def)
  qed
  ultimately have "page_slot (dirs s Kernel_Directory) (PG_NUM_FROM_ADDR x) \<notin> page_of m"
    using page_range [OF m(1), of "page_slot (dirs s Kernel_Directory) (PG_NUM_FROM_ADDR x)"] frame_plus_off [of m] m(1)
    by (simp add: page_of_def)
  from tr [OF this] show ?thesis using x
    by (simp add: mappable_def window_def self_slot_def in_stack_def kernel_view_def Let_def f)
qed

section \<open>The end of the heap goes back\<close>

text \<open>The frames of the pages between the two ends that are the frame manager's to have.\<close>

definition given_back :: "'a vm_scheme \<Rightarrow> u32 \<Rightarrow> u32 \<Rightarrow> u32 set" where
  "given_back s m m' = {p. \<exists>x. off x = 0 \<and> m \<le> x \<and> x < m' \<and> translate s x = Some p \<and> pmm_location s \<le> p}"

definition shrinks :: "u32 set \<Rightarrow> nat \<Rightarrow> 'a heap_scheme \<Rightarrow> 'a heap_scheme \<Rightarrow> bool" where
  "shrinks X L s t \<longleftrightarrow> heap_mem X L t \<and> tables_apart t \<and> kheap_max t \<le> kheap_max s \<and> kheap_first t = kheap_first s
     \<and> (\<forall>x \<in> heap_area X (kheap_max t). view t x = view s x)
     \<and> set (free_pages t) = set (free_pages s) \<union> given_back s (kheap_max t) (kheap_max s)
     \<and> translate t = (\<lambda>x. if kheap_max t \<le> x \<and> x < kheap_max s then None else translate s x)
     \<and> pmm_location t = pmm_location s"

lemma shrinks_refl: "heap_mem X L s \<Longrightarrow> tables_apart s \<Longrightarrow> shrinks X L s s"
  by (auto simp: shrinks_def given_back_def fun_eq_iff)

lemma shrink_step:
  assumes mem: "heap_mem X L s" and ap: "tables_apart s" and lo: "4026531840 + 4096 \<le> unat (kheap_max s)"
    and room: "unat (pmm_stack_loc s) + 4 \<le> unat (pmm_stack_max s)"
  defines "m \<equiv> kheap_max s - 0x1000"
  defines "s1 \<equiv> s\<lparr>kheap_max := m\<rparr>"
  shows "\<exists>p u t. get_mapping m s1 = Inr (Some p, s1) \<and> pmm_free_page p s1 = Inr ((), u) \<and> unmap m u = Inr ((), t)
    \<and> kheap_max t = m \<and> shrinks X L s t \<and> unat m + 4096 = unat (kheap_max s)
    \<and> unat (pmm_stack_loc t) \<le> unat (pmm_stack_loc s) + 4 \<and> pmm_stack_max t = pmm_stack_max s"
proof -
  let ?M = "kheap_max s"
  have own: "owned s (heap_area X ?M)" and M: "off ?M = 0" "unat ?M \<le> L" "L \<le> unat KHEAP_END" "4096 dvd L" "beside_heap X"
    and all: "\<forall>x. off x = 0 \<longrightarrow> KHEAP_START \<le> x \<longrightarrow> unat x < L \<longrightarrow> mappable s x"
    using mem by (simp_all add: heap_mem_def)
  have um: "unat m = unat ?M - 4096" unfolding m_def using lo by (simp add: unat_sub word_le_nat_alt)
  then have step: "unat m + 4096 = unat ?M" using lo by simp
  have "unat ?M mod 4096 = 0" using M(1) unat_off [of ?M] by simp
  then have "(unat m + 4096) mod 4096 = 0" using step by simp
  then have "unat m mod 4096 = 0" by simp
  then have om: "off m = 0" by (simp add: word_unat_eq_iff unat_off)
  have mlo: "4026531840 \<le> unat m" "unat m < L" using step lo M(2) by linarith+
  have mM: "m + 0x1000 = ?M" by (simp add: m_def)
  note nx = heap_area_next [OF om mlo M(3-5), unfolded mM]
  have pm: "page_of m \<subseteq> heap_area X ?M" "heap_area X ?M - page_of m = heap_area X m" using nx(1,2) by blast+
  have map: "mappable s m" using all om mlo by (simp add: KHEAP_START_def word_le_nat_alt)
  have own1: "owned s1 (heap_area X ?M)" "mappable s1 m" using own map by (simp_all add: s1_def)
  have room1: "pmm_stack_loc s1 < pmm_stack_max s1" using room by (simp add: s1_def word_less_nat_alt)
  obtain p u t where t: "translate s1 m = Some p" "get_mapping m s1 = Inr (Some p, s1)" "pmm_free_page p s1 = Inr ((), u)"
    "unmap m u = Inr ((), t)" "owned t (heap_area X m)" "\<forall>x \<in> heap_area X m. view t x = view s1 x"
    "translate t = (\<lambda>x. if x \<in> page_of m then None else translate s1 x)"
    "t = s1\<lparr>ram := ram t, pmm_stack_loc := pmm_stack_loc t, klog := klog t\<rparr>"
    "unat (pmm_stack_loc t) \<le> unat (pmm_stack_loc s1) + 4"
    "free_pages t = free_pages s1 @ (if pmm_location s1 \<le> p then [p] else [])"
    using page_back [OF own1(1) om pm(1) own1(2) room1] unfolding pm(2) by blast
  have f: "kheap_max t = m" "kheap_first t = kheap_first s" "pmm_location t = pmm_location s"
    "dirs t = dirs s" "pmm_stack_max t = pmm_stack_max s" by (subst t(8), simp add: s1_def)+
  have tr1: "translate s1 = translate s"
    by (simp add: s1_def fun_eq_iff translate_def pde_at_def pte_at_def pte_addr_def)
  have pg: "x \<in> page_of m \<longleftrightarrow> m \<le> x \<and> x < ?M" for x
    using page_range [OF om, of x] frame_plus_off [of m] om step
    by (simp add: page_of_def word_le_nat_alt word_less_nat_alt)
  have mE: "m < KHEAP_END" using mlo M(3) by (simp add: word_less_nat_alt)
  have "tables_apart s1" using ap by (simp add: tables_apart_def s1_def)
  then have mp: "mappable t x" if "mappable s x" for x
    using mappable_back [of s1 x m t] that om mE t(7,8) by (simp add: s1_def)
  have hm: "heap_mem X L t" using t(5) om mlo M(3-5) all mp by (simp add: heap_mem_def f)
  have only: "off x = 0 \<and> m \<le> x \<and> x < ?M \<longleftrightarrow> x = m" for x
  proof
    assume x: "off x = 0 \<and> m \<le> x \<and> x < ?M"
    then have "frame x = frame m" using pg [of x] by (simp add: page_of_def)
    then show "x = m" using frame_plus_off [of x] frame_plus_off [of m] x om by simp
  next
    show "x = m \<Longrightarrow> off x = 0 \<and> m \<le> x \<and> x < ?M" using om step by (simp add: word_less_nat_alt)
  qed
  have "given_back s m ?M = {q. \<exists>x. x = m \<and> translate s x = Some q \<and> pmm_location s \<le> q}"
    unfolding given_back_def only [symmetric] by blast
  then have gb: "given_back s m ?M = (if pmm_location s \<le> p then {p} else {})"
    using t(1) unfolding tr1 by auto
  have "set (free_pages t) = set (free_pages s) \<union> given_back s m ?M" unfolding gb t(10) by (simp add: s1_def)
  moreover have "translate t = (\<lambda>x. if m \<le> x \<and> x < ?M then None else translate s x)" unfolding t(7) tr1 by (simp add: pg)
  moreover have "m \<le> ?M" using step by (simp add: word_le_nat_alt)
  moreover have "\<forall>x \<in> heap_area X m. view t x = view s x" using t(6) by (simp add: s1_def)
  moreover have "tables_apart t" using ap by (simp add: tables_apart_def f)
  ultimately have "shrinks X L s t" using hm by (simp add: shrinks_def f)
  then show ?thesis using t(2-4,9) f step by (intro exI [of _ p] exI [of _ u] exI [of _ t]) (simp add: s1_def)
qed

lemma given_back_split:
  assumes "m \<le> k" and "k \<le> n" and "\<And>x. x < k \<Longrightarrow> translate t x = translate s x" and "pmm_location t = pmm_location s"
  shows "given_back s m n = given_back s k n \<union> given_back t m k"
proof (intro equalityI subsetI)
  fix p assume "p \<in> given_back s m n"
  then obtain x where x: "off x = 0" "m \<le> x" "x < n" "translate s x = Some p" "pmm_location s \<le> p"
    by (auto simp: given_back_def)
  show "p \<in> given_back s k n \<union> given_back t m k"
  proof (cases "x < k")
    case True
    then have "p \<in> given_back t m k" using x assms(3) [OF True] assms(4) unfolding given_back_def by auto
    then show ?thesis by simp
  next
    case False
    then have "p \<in> given_back s k n" using x unfolding given_back_def by (auto simp: not_less)
    then show ?thesis by simp
  qed
next
  fix p assume "p \<in> given_back s k n \<union> given_back t m k"
  then consider x where "off x = 0" "k \<le> x" "x < n" "translate s x = Some p" "pmm_location s \<le> p"
    | x where "off x = 0" "m \<le> x" "x < k" "translate t x = Some p" "pmm_location t \<le> p"
    unfolding given_back_def by blast
  then show "p \<in> given_back s m n"
  proof cases
    case 1
    then show ?thesis using order_trans [OF assms(1)] unfolding given_back_def by blast
  next
    case 2
    then have "translate s x = Some p" "x < n" using assms(2-4) by (simp_all add: less_le_trans)
    then show ?thesis using 2 assms(4) unfolding given_back_def by auto
  qed
qed

lemma shrinks_trans:
  assumes "shrinks X L s t" and "shrinks X L t u"
  shows "shrinks X L s u"
proof -
  note a = assms(1) [unfolded shrinks_def] and b = assms(2) [unfolded shrinks_def]
  have le: "kheap_max u \<le> kheap_max t" "kheap_max t \<le> kheap_max s" using a b by blast+
  have tr: "translate t x = translate s x" if "x < kheap_max t" for x
  proof -
    have "\<not> kheap_max t \<le> x" using that by (simp add: not_le)
    then have "\<not> (kheap_max t \<le> x \<and> x < kheap_max s)" by blast
    then show ?thesis using a by metis
  qed
  have loc: "pmm_location t = pmm_location s" using a by blast
  note gb = given_back_split [OF le tr loc]
  have "heap_area X (kheap_max u) \<subseteq> heap_area X (kheap_max t)"
    using le(1) by (auto simp: heap_area_def word_le_nat_alt)
  then have "x \<in> heap_area X (kheap_max t)" if "x \<in> heap_area X (kheap_max u)" for x using that by blast
  then have v: "\<forall>x \<in> heap_area X (kheap_max u). view u x = view s x" using a b by simp
  have "translate u x = (if kheap_max u \<le> x \<and> x < kheap_max s then None else translate s x)" for x
  proof (cases "x < kheap_max t")
    case True
    then have "x < kheap_max s" using le(2) by (rule less_le_trans)
    then show ?thesis using b tr [OF True] True by simp
  next
    case False
    then have "kheap_max t \<le> x" by simp
    then have "kheap_max u \<le> x" using le(1) by (rule order_trans [rotated])
    then show ?thesis using a b False \<open>kheap_max t \<le> x\<close> by simp
  qed
  then have "translate u = (\<lambda>x. if kheap_max u \<le> x \<and> x < kheap_max s then None else translate s x)" by blast
  moreover have "set (free_pages u) = set (free_pages s) \<union> given_back s (kheap_max u) (kheap_max s)"
    using a b by (simp add: gb Un_assoc)
  ultimately show ?thesis using a b v order_trans [OF le] unfolding shrinks_def by simp
qed

lemma free_loop_run:
  assumes "heap_mem X L s" and "tables_apart s" and "4026531840 \<le> a" and "a \<le> unat (kheap_max s)"
    and "unat (pmm_stack_loc s) + 4 * ((unat (kheap_max s) - a) div 4096) \<le> unat (pmm_stack_max s)"
    and "(unat (kheap_max s) - a) div 4096 < n"
  shows "\<exists>t. free_chunk_loop n (of_nat a) s = Inr ((), t) \<and> shrinks X L s t \<and> a \<le> unat (kheap_max t)
    \<and> unat (kheap_max t) < a + 4096"
  using assms
proof (induction n arbitrary: s)
  case 0
  then show ?case by simp
next
  case (Suc n)
  let ?M = "kheap_max s"
  have "a < 4294967296" using Suc.prems(4) unat_u32_less [of ?M] by linarith
  then have ua: "unat (of_nat a :: u32) = a" by (simp add: unat_of_nat)
  have lo: "4026531840 \<le> unat ?M" using Suc.prems(3,4) by linarith
  then have um: "unat (?M - 0x1000) = unat ?M - 4096" by (simp add: unat_sub word_le_nat_alt)
  have test: "of_nat a \<le> ?M - 0x1000 \<longleftrightarrow> a + 4096 \<le> unat ?M" using lo by (auto simp: word_le_nat_alt um ua)
  show ?case
  proof (cases "a + 4096 \<le> unat ?M")
    case False
    then have "free_chunk_loop (Suc n) (of_nat a) s = Inr ((), s)" using test by (simp add: bnd_run gets_run skip_run)
    then show ?thesis using False Suc.prems(4) shrinks_refl [OF Suc.prems(1,2)] by auto
  next
    case True
    have d: "(unat ?M - a) div 4096 = Suc ((unat ?M - 4096 - a) div 4096)"
      using True by (simp add: le_div_geq diff_commute)
    have "4026531840 + 4096 \<le> unat ?M" "unat (pmm_stack_loc s) + 4 \<le> unat (pmm_stack_max s)"
      using True Suc.prems(3,5) d by simp_all
    from shrink_step [OF Suc.prems(1,2) this] obtain p u t where
      t: "get_mapping (?M - 0x1000) (s\<lparr>kheap_max := ?M - 0x1000\<rparr>) = Inr (Some p, s\<lparr>kheap_max := ?M - 0x1000\<rparr>)"
        "pmm_free_page p (s\<lparr>kheap_max := ?M - 0x1000\<rparr>) = Inr ((), u)" "unmap (?M - 0x1000) u = Inr ((), t)"
        "kheap_max t = ?M - 0x1000" "shrinks X L s t"
        "unat (pmm_stack_loc t) \<le> unat (pmm_stack_loc s) + 4" "pmm_stack_max t = pmm_stack_max s"
      by blast
    have "heap_mem X L t" "tables_apart t" using t(5) by (simp_all add: shrinks_def)
    moreover have "a \<le> unat (kheap_max t)" using True by (simp add: t(4) um)
    moreover have "unat (pmm_stack_loc t) + 4 * ((unat (kheap_max t) - a) div 4096) \<le> unat (pmm_stack_max t)"
      "(unat (kheap_max t) - a) div 4096 < n"
      using Suc.prems(5,6) t(6,7) d by (simp_all add: t(4) um)
    ultimately obtain r where r: "free_chunk_loop n (of_nat a) t = Inr ((), r)" "shrinks X L t r" "a \<le> unat (kheap_max r)"
      "unat (kheap_max r) < a + 4096" using Suc.IH [of t] Suc.prems(3) by blast
    have "free_chunk_loop (Suc n) (of_nat a) s = Inr ((), r)"
      using True test t(1-3) r(1) by (simp add: bnd_run gets_run upd_run)
    then show ?thesis using shrinks_trans [OF t(5) r(2)] r(3,4) by blast
  qed
qed

section \<open>The last chunk goes\<close>

lemma stores_apart:
  assumes "stores s t"
  shows "tables_apart t = tables_apart s" "given_back t = given_back s" "free_pages t = free_pages s"
    "pmm_stack_loc t = pmm_stack_loc s" "pmm_stack_max t = pmm_stack_max s" "kheap_max t = kheap_max s"
proof -
  have eq: "t = s\<lparr>ram := ram t\<rparr>" and tr: "translate t = translate s" using assms by (simp_all add: stores_def)
  show "free_pages t = free_pages s" using assms by (simp add: stores_def)
  have "pmm_location t = pmm_location s" by (subst eq) simp
  then show "given_back t = given_back s" by (simp add: given_back_def tr fun_eq_iff)
  show "tables_apart t = tables_apart s" by (subst eq) (simp add: tables_apart_def)
  show "pmm_stack_loc t = pmm_stack_loc s" "pmm_stack_max t = pmm_stack_max s" "kheap_max t = kheap_max s"
    by (subst eq, simp)+
qed

text \<open>How far the heap's pages return when it ends at \<open>e\<close>.\<close>

definition trimmed :: "nat \<Rightarrow> 'a heap_scheme \<Rightarrow> 'a heap_scheme \<Rightarrow> bool" where
  "trimmed e s t \<longleftrightarrow> kheap_max t \<le> kheap_max s \<and> unat (kheap_max t) < e + 4096
     \<and> set (free_pages t) = set (free_pages s) \<union> given_back s (kheap_max t) (kheap_max s)"

definition stack_room :: "nat \<Rightarrow> 'a heap_scheme \<Rightarrow> bool" where
  "stack_room e s \<longleftrightarrow> unat (pmm_stack_loc s) + 4 * ((unat (kheap_max s) - e) div 4096) \<le> unat (pmm_stack_max s)"

lemma free_chunk_run:
  assumes ok: "heap_ok X L s (xs @ [(b, l)])" and ap: "tables_apart s" and room: "stack_room (heap_end 4026531840 xs) s"
  shows "\<exists>t. free_chunk (of_nat (heap_end 4026531840 xs)) s = Inr ((), t) \<and> heap_ok X L t xs
    \<and> kept X xs s t \<and> trimmed (heap_end 4026531840 xs) s t"
proof -
  let ?K = "4026531840" and ?a = "heap_end 4026531840 xs" and ?p = "prev_of 0 4026531840 xs"
  have mem: "heap_mem X L s" and first: "kheap_first s = head_of ?K (xs @ [(b, l)]) 0"
    and ch: "chain s 0 ?K (xs @ [(b, l)]) 0" and fits: "?a + l \<le> unat (kheap_max s)"
    using ok by (simp_all add: heap_ok_def)
  have own: "owned s (heap_area X (kheap_max s))" using mem by (simp add: heap_mem_def)
  note c = chain_chunk [OF ch]
  have ge: "?K \<le> ?a" by (rule heap_end_ge)
  have um: "unat (kheap_max s) < 4294967296" by (rule unat_u32_less)
  have le: "?a \<le> unat (kheap_max s)" and lim: "?a + 12 \<le> 4294967296" using fits um c(2) by linarith+
  have cx: "chain s 0 ?K xs (of_nat ?a)" using ch by (simp add: chain_append head_of_def)
  obtain t where t: "set_next ?p 0 s = Inr ((), t)" "owned t (heap_area X (kheap_max s))" "stores s t" "chain t 0 ?K xs 0"
    "\<forall>x \<in> heap_area X (kheap_max s). ?a \<le> unat x \<longrightarrow> view t x = view s x"
    "\<forall>ys c. xs = ys @ [c] \<longrightarrow> (\<forall>x \<in> heap_area X (kheap_max s). unat x < heap_end ?K ys + 4
        \<or> heap_end ?K ys + 8 \<le> unat x \<longrightarrow> view t x = view s x)"
    "xs = [] \<longrightarrow> (\<forall>x \<in> heap_area X (kheap_max s). 8 \<le> unat x \<longrightarrow> view t x = view s x)"
    using link_last [OF own cx le, of 0] by blast
  have A: "x \<in> heap_area X (kheap_max s)" if "?a \<le> unat x" "unat x < ?a + 12" for x
    by (rule heap_area_in [OF ge fits]) (use that c(2) in auto)
  have "chunk_at t ?a ?p 0 b l"
    using chunk_at_same [of ?a t s ?p 0 b l] t(5) A lim c(1) by (simp add: head_of_def)
  note pr = chunk_reads(1) [OF c(1)] chunk_reads(1) [OF this]
  have pz: "?p = 0 \<longleftrightarrow> xs = []"
  proof (cases xs rule: rev_cases)
    case (snoc ys d)
    have "?K \<le> heap_end ?K ys" by (rule heap_end_ge)
    moreover have "heap_end ?K ys < 4294967296" using le um by (simp add: snoc)
    ultimately show ?thesis by (simp add: snoc word_unat_eq_iff unat_of_nat)
  qed simp
  define u where "u = (if xs = [] then t\<lparr>kheap_first := 0\<rparr> else t)"
  have up: "(if ?p = 0 then upd (\<lambda>s. s\<lparr>kheap_first := 0\<rparr>) else skip) t = Inr ((), u)"
    unfolding pz by (simp add: u_def upd_run skip_run)
  note sa = stores_apart [OF t(3)]
  have u: "heap_mem X L u" "tables_apart u" "kheap_max u = kheap_max s" "view u = view t" "free_pages u = free_pages s"
    "pmm_stack_loc u = pmm_stack_loc s" "pmm_stack_max u = pmm_stack_max s" "given_back u = given_back s"
    "kheap_first u = head_of ?K xs 0"
  proof -
    have "given_back (t\<lparr>kheap_first := 0\<rparr>) = given_back t"
      by (simp add: given_back_def fun_eq_iff translate_def pde_at_def pte_at_def pte_addr_def)
    then show "given_back u = given_back s" by (simp add: u_def sa)
    show "heap_mem X L u" using heap_mem_stores [OF mem t(3,2)] by (simp add: u_def heap_mem_def)
    show "tables_apart u" using ap sa(1) by (simp add: u_def tables_apart_def)
    show "kheap_first u = head_of ?K xs 0"
      using first by (auto simp: u_def head_of_def stores_heap [OF t(3)])
  qed (simp_all add: u_def sa)
  have "(unat (kheap_max u) - ?a) div 4096 < page_fuel" using um by (simp add: u(3) page_fuel_def less_mult_imp_div_less)
  moreover have "unat (pmm_stack_loc u) + 4 * ((unat (kheap_max u) - ?a) div 4096) \<le> unat (pmm_stack_max u)"
    using room by (simp add: stack_room_def u)
  ultimately obtain r where r: "free_chunk_loop page_fuel (of_nat ?a) u = Inr ((), r)" "shrinks X L u r"
    "?a \<le> unat (kheap_max r)" "unat (kheap_max r) < ?a + 4096"
    using free_loop_run [OF u(1,2) ge, of page_fuel] le unfolding u(3) by blast
  note sh = r(2) [unfolded shrinks_def]
  have old: "view r x = view t x" if "?K \<le> unat x" "unat x < ?a" for x
    using sh that r(3) u(4) by (auto simp: heap_area_def)
  have "chain r 0 ?K xs 0 = chain t 0 ?K xs 0" by (rule chain_same) (use old lim in auto)
  then have "heap_ok X L r xs" using sh t(4) r(3) u(9) by (simp add: heap_ok_def)
  moreover have "trimmed ?a s r" using sh r(4) by (simp add: trimmed_def u)
  moreover have "kept X xs s r"
  proof (rule keptI [OF heap_okD(2) [OF ok] le heap_okD(3) [OF ok]])
    fix x assume x: "x \<in> heap_area X (kheap_max s)" "unat x \<in> payload ?K xs \<or> x \<in> X"
    have low: "8 \<le> unat x"
      using x(2) payload_bounds [of "unat x" ?K xs] beside_heapD [OF heap_okD(2) [OF ok], of x] by auto
    have "view t x = view s x"
    proof (cases xs rule: rev_cases)
      case Nil
      then show ?thesis using t(7) x(1) low by simp
    next
      case (snoc ys d)
      have "heap_end ?K ys + 12 \<le> 4244635648" using cx le heap_okD(3) [OF ok] by (simp add: snoc chain_append)
      then have "unat x < heap_end ?K ys \<or> heap_end ?K ys + 12 \<le> unat x"
        using payload_clear [OF heap_okD(2) [OF ok], of x ys "fst d" "snd d" "[]"] x(2) snoc by simp
      then have "unat x < heap_end ?K ys + 4 \<or> heap_end ?K ys + 8 \<le> unat x" by linarith
      then show ?thesis using t(6) snoc x(1) by blast
    qed
    moreover have "x \<in> heap_area X (kheap_max r)"
      using x(2) payload_bounds [of "unat x" ?K xs] r(3) by (auto simp: heap_area_def)
    then have "view r x = view t x" using sh u(4) by simp
    ultimately show "view r x = view s x" by simp
  qed
  moreover have "free_chunk (of_nat ?a) s = Inr ((), r)"
    using pr t(1) up r(1) by (simp add: free_chunk_def bnd_run)
  ultimately show ?thesis by blast
qed

end
