(* ===== verification/Kernel_Kfree.thy ===== *)
theory Kernel_Kfree
  imports Kernel_Shrink Kernel_Steady
begin

text \<open>
  \<open>kfree\<close> of \<open>kernel/mm/kheap.c\<close> in full: the released chunk joins its free neighbours, and
  when it is the last one then, it goes.
\<close>

section \<open>Neighbours join\<close>

lemma chain_merge:
  assumes c: "chain s p a (xs @ (b, l) # (d, m) # ys) n" and lm: "l + m < 2147483648"
    and lim: "heap_end a (xs @ (b, l) # (d, m) # ys) \<le> 4294967296"
    and h: "chunk_at t (heap_end a xs) (prev_of p a xs) (head_of (heap_end a xs + l + m) ys n) b (l + m)"
    and nx: "ys \<noteq> [] \<Longrightarrow> word_at t (of_nat (heap_end a xs + l + m)) (of_nat (heap_end a xs))"
    and same: "\<And>x. a \<le> unat x \<Longrightarrow> unat x < heap_end a (xs @ (b, l) # (d, m) # ys) \<Longrightarrow>
      unat x < heap_end a xs \<or> heap_end a xs + 12 \<le> unat x \<Longrightarrow>
      unat x < heap_end a xs + l + m \<or> heap_end a xs + l + m + 4 \<le> unat x \<Longrightarrow> view t x = view s x"
  shows "chain t p a (xs @ (b, l + m) # ys) n"
proof -
  let ?a = "heap_end a xs" and ?e = "heap_end a xs + l + m"
  note l = chain_chunk(2,3) [OF c]
  have c': "chain s p a ((xs @ [(b, l)]) @ (d, m) # ys) n" using c by simp
  note m = chain_chunk(2,3) [OF c']
  have g: "?e \<le> heap_end ?e ys" "a \<le> ?a" by (rule heap_end_ge)+
  have lime: "heap_end ?e ys \<le> 4294967296" using lim by (simp add: add.assoc)
  have "chain t p a xs (of_nat ?a) = chain s p a xs (of_nat ?a)"
    by (rule chain_same) (use same g lime l in \<open>auto simp: add.assoc\<close>)
  moreover have "chain s p a xs (of_nat ?a)" using c by (simp add: chain_append head_of_def)
  ultimately have front: "chain t p a xs (of_nat ?a)" by simp
  have rear: "chain s (of_nat (?a + l)) ?e ys n" using c by (auto simp: chain_append)
  have "chain t (of_nat ?a) ?e ys n"
  proof (cases ys)
    case (Cons y zs)
    have y: "12 \<le> snd y" "snd y < 2147483648"
      "chunk_at s ?e (of_nat (?a + l)) (if zs = [] then n else of_nat (?e + snd y)) (fst y) (snd y)"
      "chain s (of_nat ?e) (?e + snd y) zs n" using rear by (simp_all add: Cons)
    have ge: "?e + snd y \<le> heap_end (?e + snd y) zs" by (rule heap_end_ge)
    have lz: "heap_end (?e + snd y) zs \<le> 4294967296" using lime by (simp add: Cons)
    have w: "word_at t (of_nat (?e + k)) v = word_at s (of_nat (?e + k)) v" if "k = 4 \<or> k = 8" for k v
      by (rule word_at_nat) (use that same g l y ge lz in \<open>auto simp: Cons add.assoc\<close>)
    have "chunk_at t ?e (of_nat ?a) (if zs = [] then n else of_nat (?e + snd y)) (fst y) (snd y)"
      using y(3) w [of 4] w [of 8] nx by (simp add: chunk_at_def Cons)
    moreover have "chain t (of_nat ?e) (?e + snd y) zs n = chain s (of_nat ?e) (?e + snd y) zs n"
      by (rule chain_same) (use same g l y ge lz in \<open>auto simp: Cons add.assoc\<close>)
    ultimately show ?thesis using y by (simp add: Cons)
  qed simp
  then show ?thesis using front h lm l by (auto simp: chain_append head_of_def add.assoc split: if_splits)
qed

text \<open>The parts of a list around two neighbours, in the heap.\<close>

lemma pair_bounds:
  assumes ok: "heap_ok X L s (xs @ (b, l) # (d, m) # ys)"
  defines "a \<equiv> heap_end 4026531840 xs" and "e \<equiv> heap_end 4026531840 xs + l + m"
  shows "owned s (heap_area X (kheap_max s))" and "4026531840 \<le> a" and "12 \<le> l" and "12 \<le> m" and "l + m < 2147483648"
    and "e \<le> unat (kheap_max s)" and "ys \<noteq> [] \<longrightarrow> e + 12 \<le> unat (kheap_max s)"
    and "chunk_at s a (prev_of 0 4026531840 xs) (of_nat (a + l)) b l"
    and "chunk_at s (a + l) (of_nat a) (head_of e ys 0) d m"
    and "heap_end 4026531840 (xs @ (b, l) # (d, m) # ys) \<le> unat (kheap_max s)"
proof -
  have mem: "heap_mem X L s" and ch: "chain s 0 4026531840 (xs @ (b, l) # (d, m) # ys) 0"
    and fits: "heap_end e ys \<le> unat (kheap_max s)" using ok by (simp_all add: heap_ok_def e_def)
  show "heap_end 4026531840 (xs @ (b, l) # (d, m) # ys) \<le> unat (kheap_max s)" using ok by (simp add: heap_ok_def)
  show "owned s (heap_area X (kheap_max s))" using mem by (simp add: heap_mem_def)
  show a: "4026531840 \<le> a" unfolding a_def by (rule heap_end_ge)
  note c = chain_chunk [OF ch]
  have ch': "chain s 0 4026531840 ((xs @ [(b, l)]) @ (d, m) # ys) 0" using ch by simp
  note c' = chain_chunk [OF ch']
  show "12 \<le> l" "12 \<le> m" by (rule c(2), rule c'(2))
  show "chunk_at s a (prev_of 0 4026531840 xs) (of_nat (a + l)) b l" using c(1) by (simp add: a_def head_of_def)
  show "chunk_at s (a + l) (of_nat a) (head_of e ys 0) d m" using c'(1) by (simp add: a_def e_def)
  have "e \<le> heap_end e ys" by (rule heap_end_ge)
  then show e: "e \<le> unat (kheap_max s)" using fits by linarith
  have "unat (kheap_max s) \<le> 4244635648" using mem by (simp add: heap_mem_def KHEAP_END_def)
  then show "l + m < 2147483648" using a e unfolding a_def e_def by linarith
  show "ys \<noteq> [] \<longrightarrow> e + 12 \<le> unat (kheap_max s)"
  proof
    assume "ys \<noteq> []"
    then obtain y zs where y: "ys = y # zs" by (cases ys) auto
    have "12 \<le> snd y" using ch by (simp add: y chain_append)
    moreover have "e + snd y \<le> heap_end (e + snd y) zs" by (rule heap_end_ge)
    ultimately show "e + 12 \<le> unat (kheap_max s)" using fits by (simp add: y)
  qed
qed

lemma merge_ok:
  assumes ok: "heap_ok X L s (xs @ (b, l) # (d, m) # ys)" and own: "owned t (heap_area X (kheap_max s))" and st: "stores s t"
    and h: "chunk_at t (heap_end 4026531840 xs) (prev_of 0 4026531840 xs)
      (head_of (heap_end 4026531840 xs + l + m) ys 0) b (l + m)"
    and nx: "ys \<noteq> [] \<Longrightarrow> word_at t (of_nat (heap_end 4026531840 xs + l + m)) (of_nat (heap_end 4026531840 xs))"
    and same: "\<And>x. x \<in> heap_area X (kheap_max s) \<Longrightarrow> 8 \<le> unat x \<Longrightarrow>
      unat x < heap_end 4026531840 xs \<or> heap_end 4026531840 xs + 12 \<le> unat x \<Longrightarrow>
      ys = [] \<or> unat x < heap_end 4026531840 xs + l + m \<or> heap_end 4026531840 xs + l + m + 4 \<le> unat x \<Longrightarrow> view t x = view s x"
  shows "heap_ok X L t (xs @ (b, l + m) # ys)"
    and "kept X (xs @ (False, l) # (False, m) # ys) s t"
proof -
  let ?K = "4026531840" and ?a = "heap_end 4026531840 xs"
  note p = pair_bounds [OF ok]
  have mem: "heap_mem X L s" and first: "kheap_first s = head_of ?K (xs @ (b, l) # (d, m) # ys) 0"
    and ch: "chain s 0 ?K (xs @ (b, l) # (d, m) # ys) 0" using ok by (simp_all add: heap_ok_def)
  have um: "unat (kheap_max s) < 4294967296" by (rule unat_u32_less)
  have same': "view t x = view s x" if "?K \<le> unat x" "unat x < heap_end ?K (xs @ (b, l) # (d, m) # ys)"
    "unat x < ?a \<or> ?a + 12 \<le> unat x" "unat x < ?a + l + m \<or> ?a + l + m + 4 \<le> unat x" for x
    by (rule same) (use that p(10) in \<open>auto simp: heap_area_def\<close>)
  have "chain t 0 ?K (xs @ (b, l + m) # ys) 0"
    by (rule chain_merge [OF ch p(5) _ h nx same']) (use p(10) um in linarith)+
  moreover have "heap_mem X L t" by (rule heap_mem_stores [OF mem st own])
  moreover have "heap_end ?K (xs @ (b, l + m) # ys) \<le> unat (kheap_max s)" using p(10) by (simp add: add.assoc)
  ultimately show "heap_ok X L t (xs @ (b, l + m) # ys)"
    using first by (simp add: heap_ok_def stores_heap [OF st] head_of_def)
  have fits: "heap_end ?K (xs @ (False, l) # (False, m) # ys) \<le> unat (kheap_max s)" using p(10) by simp
  show "kept X (xs @ (False, l) # (False, m) # ys) s t"
  proof (rule keptI [OF heap_okD(2) [OF ok] fits heap_okD(3) [OF ok]])
    fix x assume x: "x \<in> heap_area X (kheap_max s)" "unat x \<in> payload ?K (xs @ (False, l) # (False, m) # ys) \<or> x \<in> X"
    note M = heap_okD(3) [OF ok] and B = beside_heapD [OF heap_okD(2) [OF ok], of x]
    have "(unat x < ?a \<or> ?a + l + m + 12 \<le> unat x) \<and> 8 \<le> unat x \<or> x \<in> X"
      using x(2) payload_bounds [of "unat x" ?K xs] payload_bounds [of "unat x" "?a + l + m" ys] p(2) by auto
    then have "8 \<le> unat x" "unat x < ?a \<or> ?a + 12 \<le> unat x"
      "ys = [] \<or> unat x < ?a + l + m \<or> ?a + l + m + 4 \<le> unat x"
      using B M p(2,3,6,7) by linarith+
    then show "view t x = view s x" by (rule same [OF x(1)])
  qed
qed

text \<open>The next chunk, or the null pointer, gets a new \<open>prev\<close>.\<close>

lemma link_prev:
  assumes own: "owned s (heap_area X M)" and e: "4026531840 \<le> e" "ys \<noteq> [] \<longrightarrow> e + 12 \<le> unat M"
  shows "\<exists>t. set_prev (head_of e ys 0) v s = Inr ((), t) \<and> owned t (heap_area X M) \<and> stores s t
    \<and> (ys \<noteq> [] \<longrightarrow> word_at t (of_nat e) v)
    \<and> (\<forall>x \<in> heap_area X M. 8 \<le> unat x \<longrightarrow> ys = [] \<or> unat x < e \<or> e + 4 \<le> unat x \<longrightarrow> view t x = view s x)"
proof -
  let ?k = "if ys = [] then 0 else e"
  have k: "x \<in> heap_area X M" if "?k \<le> unat x" "unat x < ?k + 4" for x
    using that e by (auto simp: heap_area_def split: if_splits)
  have "?k + 4 \<le> 4294967296" using e(2) unat_u32_less [of M] by auto
  then obtain t where "vst32 (of_nat ?k) v s = Inr ((), t)" "owned t (heap_area X M)" "stores s t" "word_at t (of_nat ?k) v"
    "\<forall>x \<in> heap_area X M. unat x < ?k \<or> ?k + 4 \<le> unat x \<longrightarrow> view t x = view s x"
    using store_at [OF own k] by blast
  then show ?thesis by (intro exI [of _ t]) (auto simp: set_prev_def head_of_def split: if_splits)
qed

lemma glue_next_run:
  assumes ok: "heap_ok X L s (xs @ (b, l) # (d, m) # ys)"
  shows "\<exists>t. glue_next (of_nat (heap_end 4026531840 xs)) s = Inr ((), t) \<and> heap_ok X L t (xs @ (b, l + m) # ys)
    \<and> stores s t \<and> kept X (xs @ (False, l) # (False, m) # ys) s t"
proof -
  define a e where "a = heap_end 4026531840 xs" and "e = a + l + m"
  let ?M = "kheap_max s" and ?nn = "head_of e ys 0" and ?p = "prev_of 0 4026531840 xs"
  note p = pair_bounds [OF ok, folded a_def, folded e_def]
  have um: "unat ?M < 4294967296" by (rule unat_u32_less)
  have lim: "a + 12 \<le> 4294967296" "a + l + 12 \<le> 4294967296" using p(3,4,6) um by (simp_all add: e_def)
  have A: "x \<in> heap_area X ?M" if "a \<le> unat x" "unat x < a + 12" for x
    by (rule heap_area_in [OF p(2,6)]) (use that p(3) in \<open>auto simp: e_def\<close>)
  have lm: "of_nat l + of_nat m = (of_nat (l + m) :: u32)" by simp
  have l31: "l < 2147483648" "m < 2147483648" using p(5) by simp_all
  obtain t1 where t1: "set_length (of_nat a) (of_nat (l + m)) s = Inr ((), t1)" "owned t1 (heap_area X ?M)" "stores s t1"
    "chunk_at t1 a ?p (of_nat (a + l)) b (l + m)"
    "\<forall>x \<in> heap_area X ?M. unat x < a + 8 \<or> a + 12 \<le> unat x \<longrightarrow> view t1 x = view s x"
    using set_length_at [OF p(1) A lim(1) p(8)] by blast
  have B: "x \<in> heap_area X ?M" if "a + l \<le> unat x" "unat x < a + l + 12" for x
    using that p(2,4,6) by (auto simp: heap_area_def e_def)
  have c1: "chunk_at t1 (a + l) (of_nat a) ?nn d m"
    using chunk_at_same [of "a + l" t1 s "of_nat a" ?nn d m] t1(5) B lim(2) p(3,9) by simp
  have e: "4026531840 \<le> e" using p(2) by (simp add: e_def)
  obtain t2 where t2: "set_prev ?nn (of_nat a) t1 = Inr ((), t2)" "owned t2 (heap_area X ?M)" "stores t1 t2"
    "ys \<noteq> [] \<longrightarrow> word_at t2 (of_nat e) (of_nat a)"
    "\<forall>x \<in> heap_area X ?M. 8 \<le> unat x \<longrightarrow> ys = [] \<or> unat x < e \<or> e + 4 \<le> unat x \<longrightarrow> view t2 x = view t1 x"
    using link_prev [OF t1(2) e p(7), of "of_nat a"] by blast
  have c2: "chunk_at t2 a ?p (of_nat (a + l)) b (l + m)"
    using chunk_at_same [of a t2 t1 ?p "of_nat (a + l)" b "l + m"] t2(5) A lim(1) t1(4) p(2-4) by (simp add: e_def)
  have c2': "chunk_at t2 (a + l) (of_nat a) ?nn d m"
    using chunk_at_same [of "a + l" t2 t1 "of_nat a" ?nn d m] t2(5) B lim(2) c1 p(2-4) by (simp add: e_def)
  obtain t where t: "set_next (of_nat a) ?nn t2 = Inr ((), t)" "owned t (heap_area X ?M)" "stores t2 t"
    "chunk_at t a ?p ?nn b (l + m)"
    "\<forall>x \<in> heap_area X ?M. unat x < a + 4 \<or> a + 8 \<le> unat x \<longrightarrow> view t x = view t2 x"
    using set_next_at [OF t2(2) A lim(1) c2] by blast
  have st: "stores s t" by (rule stores_trans [OF stores_trans [OF t1(3) t2(3)] t(3)])
  have nx: "word_at t (of_nat e) (of_nat a)" if "ys \<noteq> []"
  proof -
    have "word_at t (of_nat e) (of_nat a) = word_at t2 (of_nat e) (of_nat a)"
      by (rule word_at_nat) (use that t(5) p um in \<open>auto simp: heap_area_def e_def\<close>)
    then show ?thesis using t2(4) that by simp
  qed
  have same: "view t x = view s x" if "x \<in> heap_area X ?M" "8 \<le> unat x" "unat x < a \<or> a + 12 \<le> unat x"
    "ys = [] \<or> unat x < e \<or> e + 4 \<le> unat x" for x using that t(5) t2(5) t1(5) by auto
  have "glue_next (of_nat a) s = Inr ((), t)"
    using chunk_reads [OF p(8)] chunk_reads [OF p(9)] chunk_reads [OF t1(4)] chunk_reads [OF c1] chunk_reads [OF c2]
      chunk_reads [OF c2'] t1(1) t2(1) t(1) l31 by (simp add: glue_next_def bnd_run lm del: of_nat_add)
  moreover have "heap_ok X L t (xs @ (b, l + m) # ys)"
    by (rule merge_ok(1) [OF ok t(2) st, folded a_def, folded e_def, OF t(4) nx same]) assumption+
  moreover have "kept X (xs @ (False, l) # (False, m) # ys) s t"
    by (rule merge_ok(2) [OF ok t(2) st, folded a_def, folded e_def, OF t(4) nx same]) assumption+
  ultimately show ?thesis using st unfolding a_def by blast
qed

lemma glue_prev_run:
  assumes ok: "heap_ok X L s (xs @ (b, l) # (d, m) # ys)"
  shows "\<exists>t. glue_prev (of_nat (heap_end 4026531840 xs + l)) s = Inr (of_nat (heap_end 4026531840 xs), t)
    \<and> heap_ok X L t (xs @ (b, l + m) # ys) \<and> stores s t
    \<and> kept X (xs @ (False, l) # (False, m) # ys) s t"
proof -
  define a e where "a = heap_end 4026531840 xs" and "e = a + l + m"
  let ?M = "kheap_max s" and ?nn = "head_of e ys 0" and ?p = "prev_of 0 4026531840 xs"
  note p = pair_bounds [OF ok, folded a_def, folded e_def]
  have um: "unat ?M < 4294967296" by (rule unat_u32_less)
  have lim: "a + 12 \<le> 4294967296" "a + l + 12 \<le> 4294967296" using p(3,4,6) um by (simp_all add: e_def)
  have A: "x \<in> heap_area X ?M" if "a \<le> unat x" "unat x < a + 12" for x
    by (rule heap_area_in [OF p(2,6)]) (use that p(3) in \<open>auto simp: e_def\<close>)
  have lm: "of_nat l + of_nat m = (of_nat (l + m) :: u32)" by simp
  have l31: "l < 2147483648" "m < 2147483648" using p(5) by simp_all
  obtain t1 where t1: "set_length (of_nat a) (of_nat (l + m)) s = Inr ((), t1)" "owned t1 (heap_area X ?M)" "stores s t1"
    "chunk_at t1 a ?p (of_nat (a + l)) b (l + m)"
    "\<forall>x \<in> heap_area X ?M. unat x < a + 8 \<or> a + 12 \<le> unat x \<longrightarrow> view t1 x = view s x"
    using set_length_at [OF p(1) A lim(1) p(8)] by blast
  have B: "x \<in> heap_area X ?M" if "a + l \<le> unat x" "unat x < a + l + 12" for x
    using that p(2,4,6) by (auto simp: heap_area_def e_def)
  have c1: "chunk_at t1 (a + l) (of_nat a) ?nn d m"
    using chunk_at_same [of "a + l" t1 s "of_nat a" ?nn d m] t1(5) B lim(2) p(3,9) by simp
  obtain t2 where t2: "set_next (of_nat a) ?nn t1 = Inr ((), t2)" "owned t2 (heap_area X ?M)" "stores t1 t2"
    "chunk_at t2 a ?p ?nn b (l + m)"
    "\<forall>x \<in> heap_area X ?M. unat x < a + 4 \<or> a + 8 \<le> unat x \<longrightarrow> view t2 x = view t1 x"
    using set_next_at [OF t1(2) A lim(1) t1(4)] by blast
  have c2: "chunk_at t2 (a + l) (of_nat a) ?nn d m"
    using chunk_at_same [of "a + l" t2 t1 "of_nat a" ?nn d m] t2(5) B lim(2) c1 p(3) by simp
  have e: "4026531840 \<le> e" using p(2) by (simp add: e_def)
  obtain t where t: "set_prev ?nn (of_nat a) t2 = Inr ((), t)" "owned t (heap_area X ?M)" "stores t2 t"
    "ys \<noteq> [] \<longrightarrow> word_at t (of_nat e) (of_nat a)"
    "\<forall>x \<in> heap_area X ?M. 8 \<le> unat x \<longrightarrow> ys = [] \<or> unat x < e \<or> e + 4 \<le> unat x \<longrightarrow> view t x = view t2 x"
    using link_prev [OF t2(2) e p(7), of "of_nat a"] by blast
  have st: "stores s t" by (rule stores_trans [OF stores_trans [OF t1(3) t2(3)] t(3)])
  have h: "chunk_at t a ?p ?nn b (l + m)"
    using chunk_at_same [of a t t2 ?p ?nn b "l + m"] t(5) A lim(1) t2(4) p(2-4) by (simp add: e_def)
  have c: "chunk_at t (a + l) (of_nat a) ?nn d m"
    using chunk_at_same [of "a + l" t t2 "of_nat a" ?nn d m] t(5) B lim(2) c2 p(2-4) by (simp add: e_def)
  have same: "view t x = view s x" if "x \<in> heap_area X ?M" "8 \<le> unat x" "unat x < a \<or> a + 12 \<le> unat x"
    "ys = [] \<or> unat x < e \<or> e + 4 \<le> unat x" for x using that t(5) t2(5) t1(5) by auto
  have nx: "ys \<noteq> [] \<Longrightarrow> word_at t (of_nat e) (of_nat a)" using t(4) by blast
  have "glue_prev (of_nat (a + l)) s = Inr (of_nat a, t)"
    using chunk_reads [OF p(8)] chunk_reads [OF p(9)] chunk_reads [OF c1] chunk_reads [OF c2] chunk_reads [OF c]
      t1(1) t2(1) t(1) l31 by (simp add: glue_prev_def bnd_run lm del: of_nat_add)
  moreover have "heap_ok X L t (xs @ (b, l + m) # ys)"
    by (rule merge_ok(1) [OF ok t(2) st, folded a_def, folded e_def, OF h nx same]) assumption+
  moreover have "kept X (xs @ (False, l) # (False, m) # ys) s t"
    by (rule merge_ok(2) [OF ok t(2) st, folded a_def, folded e_def, OF h nx same]) assumption+
  ultimately show ?thesis using st unfolding a_def by blast
qed

section \<open>Release, abstractly\<close>

text \<open>
  A released chunk of length \<open>l\<close> between \<open>xs\<close> and \<open>ys\<close> joins a free successor, then a free
  predecessor. What is last then is dropped.
\<close>

fun join_next :: "nat \<Rightarrow> chunks \<Rightarrow> nat \<times> chunks" where
  "join_next l ((False, m) # ys) = (l + m, ys)"
| "join_next l ys = (l, ys)"

definition join_prev :: "chunks \<Rightarrow> nat \<Rightarrow> chunks \<times> nat" where
  "join_prev xs l = (if xs \<noteq> [] \<and> \<not> fst (last xs) then (butlast xs, snd (last xs) + l) else (xs, l))"

definition release :: "chunks \<Rightarrow> nat \<Rightarrow> chunks \<Rightarrow> chunks" where
  "release xs l ys = (case join_next l ys of (l, ys) \<Rightarrow> case join_prev xs l of (xs, l) \<Rightarrow>
     if ys = [] then xs else xs @ (False, l) # ys)"

text \<open>No two free chunks are neighbours, and the last chunk is in use.\<close>

fun coalesced :: "chunks \<Rightarrow> bool" where
  "coalesced [] \<longleftrightarrow> True"
| "coalesced [(b, l)] \<longleftrightarrow> b"
| "coalesced ((b, l) # (d, m) # cs) \<longleftrightarrow> (b \<or> d) \<and> coalesced ((d, m) # cs)"

lemma coalesced_append:
  "coalesced (xs @ (True, l) # ys) \<longleftrightarrow> coalesced (xs @ [(True, l)]) \<and> coalesced ys"
proof (induction xs rule: coalesced.induct)
  case 1
  show ?case by (cases ys) auto
next
  case (2 b k)
  show ?case by (cases ys) auto
qed auto

lemma coalesced_free: "coalesced (xs @ [(True, l)]) \<Longrightarrow> used_last xs \<Longrightarrow> coalesced ((True, m) # ys) \<Longrightarrow>
    coalesced (xs @ (False, k) # (True, m) # ys)"
proof (induction xs rule: coalesced.induct)
  case (3 b j d i cs)
  then show ?case by (auto simp: used_last_def)
qed (auto simp: used_last_def)

lemma coalesced_used: "coalesced (xs @ [(True, l)]) \<Longrightarrow> used_last xs \<Longrightarrow> coalesced xs"
  by (induction xs rule: coalesced.induct) (auto simp: used_last_def split: if_splits)

lemma coalesced_pair: "coalesced (vs @ (c, h) # (d, i) # ys) \<Longrightarrow> c \<or> d"
  by (induction vs rule: coalesced.induct) auto

lemma release_coalesced:
  assumes "coalesced (xs @ (True, l) # ys)"
  shows "coalesced (release xs l ys)"
proof -
  have xs: "coalesced (xs @ [(True, l)])" and ys: "coalesced ys" using assms by (simp_all add: coalesced_append [of xs l ys])
  obtain k zs where n: "join_next l ys = (k, zs)" by (cases "join_next l ys")
  have zs: "coalesced zs" "zs \<noteq> [] \<longrightarrow> fst (hd zs)"
    using n ys by (cases "(l, ys)" rule: join_next.cases; cases zs; auto)+
  obtain ws j where p: "join_prev xs k = (ws, j)" by (cases "join_prev xs k")
  have ws: "coalesced (ws @ [(True, l)])" "used_last ws"
  proof -
    have "coalesced (ws @ [(True, l)]) \<and> used_last ws"
    proof (cases "xs \<noteq> [] \<and> \<not> fst (last xs)")
      case True
      then obtain i where x: "xs = ws @ [(False, i)]" using p by (cases xs rule: rev_cases) (auto simp: join_prev_def)
      show ?thesis
      proof (cases ws rule: rev_cases)
        case (snoc vs v)
        obtain c h where v: "v = (c, h)" by (cases v)
        have "c" using xs x coalesced_pair [of vs c h False i "[(True, l)]"] by (simp add: snoc v)
        then show ?thesis using xs x coalesced_append [of vs h "[(False, i), (True, l)]"] coalesced_append [of vs h "[(True, l)]"]
          by (simp add: snoc v used_last_def)
      qed (simp add: used_last_def)
    next
      case False
      then show ?thesis using p xs by (auto simp: join_prev_def used_last_def)
    qed
    then show "coalesced (ws @ [(True, l)])" "used_last ws" by blast+
  qed
  show ?thesis
  proof (cases zs)
    case Nil
    then show ?thesis using coalesced_used [OF ws] by (simp add: release_def n p)
  next
    case (Cons z vs)
    obtain c h where "z = (c, h)" by (cases z)
    then show ?thesis using coalesced_free [OF ws] zs by (simp add: release_def n p Cons)
  qed
qed

section \<open>kfree\<close>

lemma join_next_run:
  assumes ok: "heap_ok X L s (xs @ (False, l) # ys)" and j: "join_next l ys = (k, zs)"
  shows "\<exists>t. bnd (next_free (of_nat (heap_end 4026531840 xs))) (\<lambda>nf. if nf then glue_next (of_nat (heap_end 4026531840 xs)) else skip) s
      = Inr ((), t) \<and> heap_ok X L t (xs @ (False, k) # zs) \<and> stores s t \<and> kept X (xs @ (False, l) # ys) s t
    \<and> payload 4026531840 (xs @ (False, l) # ys) = payload 4026531840 (xs @ (False, k) # zs)"
proof -
  let ?K = "4026531840" and ?a = "heap_end 4026531840 xs"
  have ch: "chain s 0 ?K (xs @ (False, l) # ys) 0" and fits: "heap_end ?K (xs @ (False, l) # ys) \<le> unat (kheap_max s)"
    using ok by (simp_all add: heap_ok_def)
  note c = chunk_reads [OF chain_chunk(1) [OF ch]]
  show ?thesis
  proof (cases ys)
    case Nil
    then have "next_free (of_nat ?a) s = Inr (False, s)" using c(2) by (simp add: next_free_def bnd_run ret_run head_of_def)
    then show ?thesis using ok j Nil by (intro exI [of _ s]) (auto simp: bnd_run skip_run kept_def)
  next
    case (Cons y ws)
    obtain d m where y: "y = (d, m)" by (cases y)
    have ok': "heap_ok X L s (xs @ (False, l) # (d, m) # ws)" using ok by (simp add: Cons y)
    note p = pair_bounds [OF ok']
    have "(of_nat (?a + l) :: u32) \<noteq> 0"
      using p(2,4,6) unat_u32_less [of "kheap_max s"] by (simp add: word_unat_eq_iff unat_of_nat del: of_nat_add)
    then have nf: "next_free (of_nat ?a) s = Inr (\<not> d, s)"
      using chunk_reads(2) [OF p(8)] chunk_reads(3) [OF p(9)] by (simp add: next_free_def bnd_run ret_run)
    show ?thesis
    proof (cases d)
      case True
      then show ?thesis using ok nf j by (intro exI [of _ s]) (auto simp: Cons y bnd_run skip_run kept_def)
    next
      case False
      obtain t where t: "glue_next (of_nat ?a) s = Inr ((), t)" "heap_ok X L t (xs @ (False, l + m) # ws)" "stores s t"
        "kept X (xs @ (False, l) # (False, m) # ws) s t"
        using glue_next_run [OF ok'] by blast
      have "k = l + m" "zs = ws" using j False by (simp_all add: Cons y)
      then show ?thesis using t nf False by (intro exI [of _ t]) (simp add: Cons y bnd_run kept_def add.assoc)
    qed
  qed
qed

lemma join_prev_run:
  assumes ok: "heap_ok X L s (xs @ (False, l) # ys)" and j: "join_prev xs l = (ws, k)"
  shows "\<exists>t. bnd (prev_free (of_nat (heap_end 4026531840 xs)))
      (\<lambda>pf. if pf then glue_prev (of_nat (heap_end 4026531840 xs)) else ret (of_nat (heap_end 4026531840 xs))) s
      = Inr (of_nat (heap_end 4026531840 ws), t) \<and> heap_ok X L t (ws @ (False, k) # ys) \<and> stores s t
    \<and> kept X (xs @ (False, l) # ys) s t
    \<and> payload 4026531840 (xs @ (False, l) # ys) = payload 4026531840 (ws @ (False, k) # ys)"
proof -
  let ?K = "4026531840" and ?a = "heap_end 4026531840 xs"
  have ch: "chain s 0 ?K (xs @ (False, l) # ys) 0" using ok by (simp_all add: heap_ok_def)
  note c = chunk_reads [OF chain_chunk(1) [OF ch]]
  show ?thesis
  proof (cases xs rule: rev_cases)
    case Nil
    then have "prev_free (of_nat ?a) s = Inr (False, s)" using c(1) by (simp add: prev_free_def bnd_run ret_run)
    then show ?thesis using ok j Nil by (intro exI [of _ s]) (auto simp: bnd_run ret_run kept_def join_prev_def)
  next
    case (snoc vs v)
    obtain d m where v: "v = (d, m)" by (cases v)
    have ok': "heap_ok X L s (vs @ (d, m) # (False, l) # ys)" using ok by (simp add: snoc v)
    note p = pair_bounds [OF ok']
    have "(of_nat (heap_end ?K vs) :: u32) \<noteq> 0"
      using p(2,6) unat_u32_less [of "kheap_max s"] by (simp add: word_unat_eq_iff unat_of_nat)
    moreover have "?a = heap_end ?K vs + m" by (simp add: snoc v)
    ultimately have pf: "prev_free (of_nat ?a) s = Inr (\<not> d, s)"
      using chunk_reads(1) [OF p(9)] chunk_reads(3) [OF p(8)] by (simp add: prev_free_def bnd_run ret_run del: of_nat_add)
    show ?thesis
    proof (cases d)
      case True
      then show ?thesis using ok pf j by (intro exI [of _ s]) (auto simp: snoc v bnd_run ret_run kept_def join_prev_def)
    next
      case False
      obtain t where t: "glue_prev (of_nat (heap_end ?K vs + m)) s = Inr (of_nat (heap_end ?K vs), t)"
        "heap_ok X L t (vs @ (d, m + l) # ys)" "stores s t"
        "kept X (vs @ (False, m) # (False, l) # ys) s t"
        using glue_prev_run [OF ok'] by blast
      have "k = m + l" "ws = vs" using j False by (simp_all add: snoc v join_prev_def)
      then show ?thesis using t pf False
        by (intro exI [of _ t]) (simp add: snoc v bnd_run kept_def add.assoc del: of_nat_add)
    qed
  qed
qed

lemma kfree_run:
  assumes ok: "heap_ok X L s (xs @ (b, l) # ys)" and ap: "tables_apart s"
    and room: "stack_room (heap_end 4026531840 (release xs l ys)) s"
  shows "\<exists>t. kfree (of_nat (heap_end 4026531840 xs + 12)) s = Inr ((), t) \<and> heap_ok X L t (release xs l ys)
    \<and> kept X (xs @ (False, l) # ys) s t
    \<and> (if snd (join_next l ys) = [] then trimmed (heap_end 4026531840 (release xs l ys)) s t
       else kheap_max t = kheap_max s \<and> free_pages t = free_pages s)"
proof -
  let ?K = "4026531840" and ?a = "heap_end 4026531840 xs"
  obtain k zs where n: "join_next l ys = (k, zs)" by (cases "join_next l ys")
  obtain ws j where p: "join_prev xs k = (ws, j)" by (cases "join_prev xs k")
  let ?g = "\<lambda>nf. if nf then glue_next (of_nat ?a) else skip"
  let ?h = "\<lambda>pf. if pf then glue_prev (of_nat ?a) else ret (of_nat ?a)"
  let ?r = "\<lambda>chunk. bnd (chunk_next chunk) (\<lambda>n. if n = 0 then free_chunk chunk else skip)"
  obtain t1 where t1: "set_allocated (of_nat ?a) 0 s = Inr ((), t1)" "heap_ok X L t1 (xs @ (False, l) # ys)" "stores s t1"
    "\<forall>x \<in> heap_area X (kheap_max s). unat x < ?a + 8 \<or> ?a + 12 \<le> unat x \<longrightarrow> view t1 x = view s x"
    using mark_chunk [OF ok, of False] by auto
  have "kept X (xs @ (b, l) # ys) s t1" by (rule kept_flag [OF ok t1(4)])
  then have k1: "kept X (xs @ (False, l) # ys) s t1" by (auto simp: kept_def)
  obtain t2 where t2: "bnd (next_free (of_nat ?a)) ?g t1 = Inr ((), t2)" "heap_ok X L t2 (xs @ (False, k) # zs)" "stores t1 t2"
    "kept X (xs @ (False, l) # ys) t1 t2"
    "payload ?K (xs @ (False, l) # ys) = payload ?K (xs @ (False, k) # zs)"
    using join_next_run [OF t1(2) n] by blast
  obtain t3 where t3: "bnd (prev_free (of_nat ?a)) ?h t2 = Inr (of_nat (heap_end ?K ws), t3)"
    "heap_ok X L t3 (ws @ (False, j) # zs)" "stores t2 t3" "kept X (xs @ (False, k) # zs) t2 t3"
    "payload ?K (xs @ (False, k) # zs) = payload ?K (ws @ (False, j) # zs)"
    using join_prev_run [OF t2(2) p] by blast
  have st: "stores s t3" by (rule stores_trans [OF stores_trans [OF t1(3) t2(3)] t3(3)])
  note sa = stores_apart [OF st]
  have kept3: "kept X (xs @ (False, l) # ys) s t3" using k1 t2(4) t3(4) unfolding kept_def t2(5) by simp
  have hdr: "of_nat (?a + 12) - sizeof_kheader = (of_nat ?a :: u32)" by (simp add: sizeof_kheader_def)
  have run: "kfree (of_nat (?a + 12)) s = ?r (of_nat (heap_end ?K ws)) t3"
  proof -
    have "kfree (of_nat (?a + 12)) s = glue_chunk (of_nat ?a) t1"
      unfolding kfree_def Let_def hdr by (rule bnd_ok) (rule t1(1))
    also have "\<dots> = bnd (bnd (next_free (of_nat ?a)) ?g) (\<lambda>_. bnd (bnd (prev_free (of_nat ?a)) ?h) ?r) t1"
      by (simp only: glue_chunk_def bnd_assoc)
    also have "\<dots> = bnd (bnd (prev_free (of_nat ?a)) ?h) ?r t2" by (rule bnd_ok) (rule t2(1))
    also have "\<dots> = ?r (of_nat (heap_end ?K ws)) t3" by (rule bnd_ok) (rule t3(1))
    finally show ?thesis .
  qed
  have ch: "chain t3 0 ?K (ws @ (False, j) # zs) 0" using t3(2) by (simp add: heap_ok_def)
  note c = chunk_reads(2) [OF chain_chunk(1) [OF ch]]
  show ?thesis
  proof (cases zs)
    case Nil
    have rel: "release xs l ys = ws" by (simp add: release_def n p Nil)
    have ok3: "heap_ok X L t3 (ws @ [(False, j)])" using t3(2) by (simp add: Nil)
    have ap3: "tables_apart t3" and room3: "stack_room (heap_end ?K ws) t3"
      using ap room by (simp_all add: sa rel stack_room_def)
    obtain t where t: "free_chunk (of_nat (heap_end ?K ws)) t3 = Inr ((), t)" "heap_ok X L t ws" "kept X ws t3 t"
      "trimmed (heap_end ?K ws) t3 t"
      using free_chunk_run [OF ok3 ap3 room3] by blast
    have "?r (of_nat (heap_end ?K ws)) t3 = Inr ((), t)" using c t(1) by (simp add: Nil head_of_def bnd_run)
    moreover have "payload ?K (xs @ (False, l) # ys) = payload ?K ws" using trans [OF t2(5) t3(5)] by (simp add: Nil)
    then have "kept X (xs @ (False, l) # ys) s t" by (intro kept_trans [OF kept3 t(3)]) simp
    moreover have "trimmed (heap_end ?K ws) s t" using t(4) by (simp add: trimmed_def sa)
    ultimately show ?thesis using run t(2) by (intro exI [of _ t]) (simp add: rel n Nil)
  next
    case (Cons z vs)
    have rel: "release xs l ys = ws @ (False, j) # zs" by (simp add: release_def n p Cons)
    have "heap_end ?K (ws @ (False, j) # zs) \<le> unat (kheap_max t3)" using t3(2) by (simp add: heap_ok_def)
    moreover have "12 \<le> snd z" using ch by (simp add: Cons chain_append)
    moreover have "?K \<le> heap_end ?K ws" "heap_end ?K ws + j + snd z \<le> heap_end (heap_end ?K ws + j + snd z) vs"
      by (rule heap_end_ge)+
    ultimately have "0 < heap_end ?K ws + j" "heap_end ?K ws + j < 4294967296"
      using unat_u32_less [of "kheap_max t3"] by (simp_all add: Cons)
    then have "(of_nat (heap_end ?K ws + j) :: u32) \<noteq> 0" by (simp add: word_unat_eq_iff unat_of_nat del: of_nat_add)
    then have "?r (of_nat (heap_end ?K ws)) t3 = Inr ((), t3)"
      using c by (simp add: Cons head_of_def bnd_run skip_run del: of_nat_add)
    then show ?thesis using run t3(2) kept3 sa by (intro exI [of _ t3]) (simp add: rel n Cons)
  qed
qed

section \<open>The property\<close>

lemma heap_ok_limit: "heap_ok X L s cs \<Longrightarrow> unat (kheap_max s) \<le> M \<Longrightarrow> M \<le> L \<Longrightarrow> 4096 dvd M \<Longrightarrow> heap_ok X M s cs"
  unfolding heap_ok_def heap_mem_def by auto

lemma demo_heap_one:
  obtains s where "kmalloc 100 demo_heap = Inr (0xF000000C, s)" "heap_ok demo_rest 0xF0001000 s ([] @ (True, 112) # [])"
    "tables_apart s" "stack_room 0xF0000000 s"
proof -
  have ok: "heap_ok demo_rest 0xF0001000 demo_heap []"
    by (rule heap_ok_limit [OF demo_heap_ok(1)]) (simp_all add: demo_heap_ok(3))
  have "pages_for 4026531952 0xF0000000 = 1" by (simp add: pages_for_def)
  then obtain s where s: "kmalloc 100 demo_heap = Inr (0xF000000C, s)" "heap_ok demo_rest 0xF0001000 s [(True, 112)]"
    using kmalloc_append [OF ok refl, of 100] demo_heap_ok(2,3) by auto
  have g: "demo_low = demo\<lparr>pmm_stack_loc := pmm_stack_loc demo_low, ram := ram demo_low, klog := klog demo_low\<rparr>"
    using demo_low_run(3) by (simp add: grows_def)
  have f: "dirs demo_heap = dirs demo" "pmm_stack_max demo_heap = 0xFF800000" "pmm_stack_loc demo_heap = pmm_stack_loc demo_low"
    unfolding demo_heap_def by (subst g, simp add: vm.defs demo_def)+
  have "pmm_stack_loc demo_low \<le> pmm_stack_loc demo"
    by (rule steadyD(2) [OF steady_map_page beyond_parts(1) demo_low_run(1)])
  then have low: "pmm_stack_loc demo_low \<le> 0xFF7FF00C" by (simp add: demo_def)
  have st: "dirs s = dirs demo_heap \<and> pmm_stack_max s = pmm_stack_max demo_heap \<and> pmm_stack_loc s \<le> pmm_stack_loc demo_heap"
    using steadyD [OF steady_kmalloc _ s(1)] by (simp add: above_heap_def places_def)
  have "pmm_stack_loc s \<le> pmm_stack_loc demo_low" using st f(3) by simp
  then have "pmm_stack_loc s \<le> 0xFF7FF00C" using low by (rule order_trans)
  then have "unat (pmm_stack_loc s) \<le> 0xFF7FF00C" by (simp add: word_le_nat_alt)
  moreover have "unat (kheap_max s) \<le> 0xF0001000" using s(2) by (simp add: heap_ok_def heap_mem_def)
  then have "(unat (kheap_max s) - 0xF0000000) div 4096 \<le> 1" by simp
  ultimately have "stack_room 0xF0000000 s" using st f(2) by (simp add: stack_room_def)
  moreover have "tables_apart s" using st f(1) by (simp add: tables_apart_def demo_def KHEAP_END_def)
  ultimately show ?thesis using that s by simp
qed

text \<open>C9: \<open>kfree\<close> implements the abstract release. The chunk in front of the pointer, wherever it is in the list,
  becomes free and joins a free successor and a free predecessor; if the result is
  the last chunk it is dropped, and the pages of the heap behind the new end, down to the
  page that still holds some of it, are unmapped and their frames free again; otherwise the pages stay. The other blocks in
  use and the rest of the memory in use keep their contents, and a list without free neighbours and without a free last chunk stays so. (The
  window on the kernel's tables lies above the heap, and the stack of free frames
  has mapped room for the pages that return.)\<close>

theorem kfree_refines_release:
  assumes "heap_ok X L s (xs @ (True, l) # ys)" and "tables_apart s"
    and "stack_room (heap_end 4026531840 (release xs l ys)) s"
  shows "\<exists>t. kfree (of_nat (heap_end 4026531840 xs + 12)) s = Inr ((), t) \<and> heap_ok X L t (release xs l ys)
    \<and> kept X (xs @ (False, l) # ys) s t
    \<and> (if snd (join_next l ys) = [] then trimmed (heap_end 4026531840 (release xs l ys)) s t
       else kheap_max t = kheap_max s \<and> free_pages t = free_pages s)
    \<and> (coalesced (xs @ (True, l) # ys) \<longrightarrow> coalesced (release xs l ys))"
  using kfree_run [OF assms] release_coalesced [of xs l ys] by blast

theorem kfree_refines_release_witness:
  "\<exists>s t. kmalloc 100 demo_heap = Inr (0xF000000C, s) \<and> kfree 0xF000000C s = Inr ((), t) \<and> heap_ok demo_rest 0xF0001000 t []
    \<and> kheap_max t = KHEAP_START"
proof -
  obtain s where s: "kmalloc 100 demo_heap = Inr (0xF000000C, s)" "heap_ok demo_rest 0xF0001000 s ([] @ (True, 112) # [])"
    "tables_apart s" "stack_room 0xF0000000 s" by (rule demo_heap_one)
  have r: "release [] 112 [] = []" "snd (join_next 112 []) = []" by (simp_all add: release_def join_prev_def)
  have "stack_room (heap_end 4026531840 (release [] 112 [])) s" using s(4) by (simp add: r)
  then obtain t where t: "kfree (of_nat (heap_end 4026531840 [] + 12)) s = Inr ((), t)"
      "heap_ok demo_rest 0xF0001000 t (release [] 112 [])"
      "if snd (join_next 112 []) = [] then trimmed (heap_end 4026531840 (release [] 112 [])) s t
       else kheap_max t = kheap_max s \<and> free_pages t = free_pages s"
    using kfree_refines_release [OF s(2,3)] by blast
  have p: "of_nat (heap_end 4026531840 [] + 12) = (0xF000000C :: u32)" by simp
  have t: "kfree 0xF000000C s = Inr ((), t)" "heap_ok demo_rest 0xF0001000 t []" "trimmed 4026531840 s t"
    using t(1) [unfolded p] t(2,3) by (simp_all only: r heap_end_simps if_True simp_thms)
  have "4026531840 \<le> unat (kheap_max t)" "unat (kheap_max t) mod 4096 = 0" "unat (kheap_max t) < 4026531840 + 4096"
    using t(2,3) unat_off [of "kheap_max t"] by (simp_all add: heap_ok_def heap_mem_def trimmed_def)
  then have "unat (kheap_max t) div 4096 = 983040" and m: "unat (kheap_max t) mod 4096 = 0" by linarith+
  then have "unat (kheap_max t) = 4026531840" using div_mult_mod_eq [of "unat (kheap_max t)" 4096] by simp
  then have "kheap_max t = KHEAP_START" by (simp add: word_unat_eq_iff KHEAP_START_def)
  then show ?thesis using s(1) t(1,2) by blast
qed

end
