(* ===== verification/Kernel_Io.thy ===== *)
theory Kernel_Io
  imports Kernel_Prelude
begin

text \<open>
  The I/O ports of \<open>kernel/lib/common.c\<close> and the table of interrupt handlers that
  the drivers share. A device is what its ports answer: \<open>in_port\<close> and
  \<open>in_port16\<close> give the byte and word the next read of a port returns, and every
  \<open>outb\<close> is recorded in order. A function pointer is the name of the function it
  points to; the null pointer is \<open>None\<close>.
\<close>

datatype handler = Page_Fault_Handler | Timer_Callback | Kbd_Handler | Debug_Universal_Handler

record io =
  in_port :: "u16 \<Rightarrow> u8"
  in_port16 :: "u16 \<Rightarrow> u16"
  out_log :: "(u16 \<times> u8) list"
  interrupt_handlers :: "u8 \<Rightarrow> handler option"
  io_log :: "(string \<times> u32 list) list"

definition outb :: "u16 \<Rightarrow> u8 \<Rightarrow> ('a io_scheme, unit) cmd" where
  "outb port v = upd (\<lambda>s. s\<lparr>out_log := out_log s @ [(port, v)]\<rparr>)"

definition inb :: "u16 \<Rightarrow> ('a io_scheme, u8) cmd" where
  "inb port = gets (\<lambda>s. in_port s port)"

definition inw :: "u16 \<Rightarrow> ('a io_scheme, u16) cmd" where
  "inw port = gets (\<lambda>s. in_port16 s port)"

definition register_interrupt_handler :: "u8 \<Rightarrow> handler \<Rightarrow> ('a io_scheme, unit) cmd" where
  "register_interrupt_handler n h =
     upd (\<lambda>s. s\<lparr>interrupt_handlers := (interrupt_handlers s)(n := Some h)\<rparr>)"

text \<open>A message of a driver on the console: the format and its arguments.\<close>

definition kprintf_io :: "string \<Rightarrow> u32 list \<Rightarrow> ('a io_scheme, unit) cmd" where
  "kprintf_io fmt args = upd (\<lambda>s. s\<lparr>io_log := io_log s @ [(fmt, args)]\<rparr>)"

lemma outb_run [cmd_simps]: "outb port v s = Inr ((), s\<lparr>out_log := out_log s @ [(port, v)]\<rparr>)"
  by (simp add: outb_def cmd_simps)

lemma inb_run [cmd_simps]: "inb port s = Inr (in_port s port, s)"
  by (simp add: inb_def cmd_simps)

lemma register_run [cmd_simps]:
  "register_interrupt_handler n h s =
   Inr ((), s\<lparr>interrupt_handlers := (interrupt_handlers s)(n := Some h)\<rparr>)"
  by (simp add: register_interrupt_handler_def cmd_simps)

section \<open>Interrupt numbers (idt.h)\<close>

definition IRQ0 :: u8 where "IRQ0 = 32"
definition IRQ1 :: u8 where "IRQ1 = 33"

end
