(* ===== verification/Kernel_Debug.thy ===== *)
theory Kernel_Debug
  imports Kernel_Fork Kernel_Io
begin

text \<open>
  Reports: the stack trace and the panic message of \<open>kernel/kernel/panic.c\<close> and the helpers of
  \<open>kernel/init/debug.c\<close>. A line of output is recorded with its arguments; a string
  argument is the address of the string.
\<close>

section \<open>Panic\<close>

text \<open>The chain of saved frame pointers may be circular; then the trace does not end.\<close>

primrec trace_loop :: "nat \<Rightarrow> u32 \<Rightarrow> Elf32_Sym_Map \<Rightarrow> u32 \<Rightarrow> ('a vm_scheme, unit) cmd" where
  "trace_loop 0 str_empty kernel_elf ebp = fault Out_of_Fuel"
| "trace_loop (Suc n) str_empty kernel_elf ebp =
     (if ebp = 0 then skip
      else
        let eip = ebp + 4 in
        bnd (vld32 eip) (\<lambda>r.
        bnd (elf_sym_map_lookup str_empty r kernel_elf) (\<lambda>name.
        bnd (kprintf_log ([CHR 0x09] @ ''[0x%x] %s'' @ [CHR 0x0A]) [r, name]) (\<lambda>_.
        bnd (vld32 ebp) (\<lambda>ebp.
        trace_loop n str_empty kernel_elf ebp)))))"

definition print_stack_trace :: "u32 \<Rightarrow> Elf32_Sym_Map \<Rightarrow> u32 \<Rightarrow> ('a vm_scheme, unit) cmd" where
  "print_stack_trace str_empty kernel_elf ebp = trace_loop string_fuel str_empty kernel_elf ebp"

text \<open>
  With the interrupts off nothing ends the \<open>hlt\<close>: it is the end of the computation.
\<close>

definition system_hung :: "('a threading_scheme, unit) cmd" where
  "system_hung = bnd cli (\<lambda>_. panic '''')"

text \<open>\<open>panic\<close> with its output; elsewhere only its end is of interest.\<close>

definition kernel_panic :: "u32 \<Rightarrow> Elf32_Sym_Map \<Rightarrow> u32 \<Rightarrow> u32 \<Rightarrow> ('a threading_scheme, unit) cmd" where
  "kernel_panic str_empty kernel_elf ebp msg =
     bnd (kprintf_log (''*** System panic: %s'' @ [CHR 0x0A]) [msg]) (\<lambda>_.
     bnd (print_stack_trace str_empty kernel_elf ebp) (\<lambda>_.
     bnd (kprintf_log (''***'' @ [CHR 0x0A]) []) (\<lambda>_.
     system_hung)))"

section \<open>Debugging helpers\<close>

text \<open>The listing of a directory; \<open>i\<close> is an \<open>int\<close> that \<open>readdir\<close> takes as unsigned.\<close>

primrec list_loop :: "nat \<Rightarrow> image \<Rightarrow> u32 \<Rightarrow> u32 \<Rightarrow> ('a initrd_scheme, unit) cmd" where
  "list_loop 0 im root i = fault Out_of_Fuel"
| "list_loop (Suc n) im root i =
     bnd (fs_readdir (call_readdir im) root i) (\<lambda>node.
     if node = 0 then skip
     else
       bnd (fs_finddir (call_finddir im) root node) (\<lambda>fsnode.
       bnd (node_get fsnode Flags) (\<lambda>fl.
       bnd (node_get fsnode Length) (\<lambda>len.
       bnd (kprintf_log ([CHR 0x09] @ ''%.20s'' @ [CHR 0x09] @ ''0x%x'' @ [CHR 0x09] @ ''%d'' @ [CHR 0x0A])
         [node, fl, len]) (\<lambda>_.
       list_loop n im root (i + 1))))))"

definition debug_print_root_content :: "image \<Rightarrow> u32 \<Rightarrow> ('a initrd_scheme, unit) cmd" where
  "debug_print_root_content im root = list_loop string_fuel im root 0"

definition debug_run_threads :: "exec_image \<Rightarrow> u32 \<Rightarrow> u32 \<Rightarrow> ('a sched_scheme, unit) cmd" where
  "debug_run_threads im test_thread num =
     cfor [1..<Suc (unat num)] (\<lambda>i. bnd (exec_thread im test_thread (of_nat i)) (\<lambda>_. skip))"

definition debug_universal_handler :: "u32 \<Rightarrow> u32 \<Rightarrow> u32 \<Rightarrow> u32 \<Rightarrow> ('a threading_scheme, unit) cmd" where
  "debug_universal_handler str_kernel str_empty eip err_code =
     bnd (gets current_task) (\<lambda>ct.
     bnd (get_task ct) (\<lambda>t.
     bnd (gets current_thread) (\<lambda>cth.
     bnd (get_thread cth) (\<lambda>th.
     bnd (kprintf_log (''Scheduler: pid: %d tid: %d'' @ [CHR 0x0A]) [task_pid t, th_tid th]) (\<lambda>_.
     bnd (gets current_directory) (\<lambda>r.
     bnd (gets curdir) (\<lambda>c.
     bnd (kprintf_log (''Current directory: 0x%.8x %s'' @ [CHR 0x0A])
        [physical c, if r = Kernel_Directory then str_kernel else str_empty]) (\<lambda>_.
     bnd (kprintf_log (''Registers: eip: 0x%x'' @ [CHR 0x0A]) [eip]) (\<lambda>_.
     bnd (kprintf_log (''Error code: %x'' @ [CHR 0x0A]) [err_code]) (\<lambda>_.
     panic ''DEBUG universal handler''))))))))))"

definition debug_register_handler :: "u8 \<Rightarrow> ('a io_scheme, unit) cmd" where
  "debug_register_handler n = register_interrupt_handler n Debug_Universal_Handler"

end
