(* ===== verification/Kernel_Boot.thy ===== *)
theory Kernel_Boot
  imports Kernel_Space
begin

text \<open>
  The memory managers at boot: \<open>init_vmm\<close> of \<open>kernel/mm/vmm.c\<close> builds the kernel's page
  tables with paging off and switches it on; \<open>pmm_collect_pages\<close> of \<open>kernel/mm/pmm.c\<close> reads the
  memory map of the boot loader (\<open>kernel/include/boot/multiboot.h\<close>) and frees every usable frame.
\<close>

section \<open>The boot loader's structures\<close>

text \<open>Fields of a \<open>multiboot_info_t\<close>, of a \<open>multiboot_memory_map_t\<close> and of a \<open>multiboot_module_t\<close>.\<close>

definition mods_count :: "u32 \<Rightarrow> ('a vm_scheme, u32) cmd" where "mods_count m = vld32 (m + 20)"
definition mods_addr :: "u32 \<Rightarrow> ('a vm_scheme, u32) cmd" where "mods_addr m = vld32 (m + 24)"
definition u_elf_sec :: "u32 \<Rightarrow> u32" where "u_elf_sec m = m + 28"
definition mmap_length :: "u32 \<Rightarrow> ('a vm_scheme, u32) cmd" where "mmap_length m = vld32 (m + 44)"
definition mmap_addr :: "u32 \<Rightarrow> ('a vm_scheme, u32) cmd" where "mmap_addr m = vld32 (m + 48)"

definition me_size :: "u32 \<Rightarrow> ('a vm_scheme, u32) cmd" where "me_size e = vld32 e"
definition me_base_addr_low :: "u32 \<Rightarrow> ('a vm_scheme, u32) cmd" where "me_base_addr_low e = vld32 (e + 4)"
definition me_length_low :: "u32 \<Rightarrow> ('a vm_scheme, u32) cmd" where "me_length_low e = vld32 (e + 12)"
definition me_type :: "u32 \<Rightarrow> ('a vm_scheme, u32) cmd" where "me_type e = vld32 (e + 20)"

definition mod_start :: "u32 \<Rightarrow> ('a vm_scheme, u32) cmd" where "mod_start m = vld32 m"
definition mod_end :: "u32 \<Rightarrow> ('a vm_scheme, u32) cmd" where "mod_end m = vld32 (m + 4)"

definition MULTIBOOT_MEMORY_AVAILABLE :: u32 where "MULTIBOOT_MEMORY_AVAILABLE = 1"

section \<open>The kernel's page tables\<close>

definition set_kernel :: "(page_directory \<Rightarrow> page_directory) \<Rightarrow> ('a vm_scheme, unit) cmd" where
  "set_kernel f = upd (\<lambda>s. s\<lparr>dirs := (dirs s)(Kernel_Directory := f (dirs s Kernel_Directory))\<rparr>)"

text \<open>\<open>pmm_alloc_page\<close> and \<open>memset\<close> to zero, as \<open>init_vmm\<close> calls them in pairs.\<close>

definition alloc_table :: "('a vm_scheme, u32) cmd" where
  "alloc_table = bnd pmm_alloc_page (\<lambda>p. bnd (memset p 0 PAGE_SIZE) (\<lambda>_. ret p))"

abbreviation table_entry :: "u32 \<Rightarrow> u32" where
  "table_entry p \<equiv> p OR PAGE_PRESENT OR PAGE_WRITE"

definition identity_map :: "u32 \<Rightarrow> ('a vm_scheme, unit) cmd" where
  "identity_map dir_ptr =
     bnd alloc_table (\<lambda>tab_ptr.
     bnd (vst32 dir_ptr (table_entry tab_ptr)) (\<lambda>_.
     cfor [0..<unat (PG_NUM_FROM_ADDR LOWMEM_ID_MAP_END)] (\<lambda>i.
       vst32 (tab_ptr + 4 * of_nat i) (table_entry (of_nat i * 0x1000)))))"

definition mount_kernel :: "u32 \<Rightarrow> ('a vm_scheme, unit) cmd" where
  "mount_kernel dir_ptr =
     bnd alloc_table (\<lambda>tab_ptr.
     bnd (vst32 (dir_ptr + 4 * PGDIR_IDX_FROM_ADDR KERNEL_DIR_VIRTUAL) (table_entry tab_ptr)) (\<lambda>_.
     bnd (vst32 (tab_ptr + 4 * PGTAB_IDX_FROM_ADDR KERNEL_DIR_VIRTUAL) (table_entry dir_ptr)) (\<lambda>_.
     bnd (vst32 (dir_ptr + 4 * PGDIR_IDX_FROM_ADDR KERNEL_TABLES_VIRTUAL) (table_entry dir_ptr)) (\<lambda>_.
     set_kernel (\<lambda>k. k\<lparr>directory := KERNEL_DIR_VIRTUAL, pages := KERNEL_TABLES_VIRTUAL\<rparr>)))))"

text \<open>The loop over the tables of the kernel part; the source has it twice.\<close>

definition kernel_tables :: "u32 \<Rightarrow> ('a vm_scheme, unit) cmd" where
  "kernel_tables dir_ptr =
     cfor [unat (PGDIR_IDX_FROM_ADDR KERNEL_ADDRESS_SPACE)..<unat (PGDIR_IDX_FROM_ADDR MOUNT_TABS_START)] (\<lambda>i.
       bnd (vld32 (dir_ptr + 4 * of_nat i)) (\<lambda>e.
       if e = 0 then
         bnd alloc_table (\<lambda>tab_ptr. vst32 (dir_ptr + 4 * of_nat i) (table_entry tab_ptr))
       else skip))"

definition enable_paging :: "('a vm_scheme, unit) cmd" where
  "enable_paging = upd (\<lambda>s. s\<lparr>cr0_pg := True\<rparr>)"

text \<open>The table of the stack of free frames, now through the kernel's own windows.\<close>

definition stack_table :: "('a vm_scheme, unit) cmd" where
  "stack_table =
     bnd pmm_alloc_page (\<lambda>p.
     bnd (gets (\<lambda>s. dirs s Kernel_Directory)) (\<lambda>k.
     bnd (vst32 (dir_slot k (PGDIR_IDX_FROM_ADDR PMM_STACK_START)) (table_entry p)) (\<lambda>_.
     memset (page_slot k (PG_FIRST_DIR_FROM_ADDR PMM_STACK_START)) 0 PAGE_SIZE)))"

text \<open>\<open>init_vmm\<close> after the registration of its interrupt handler.\<close>

definition init_vmm :: "('a vm_scheme, unit) cmd" where
  "init_vmm =
     bnd alloc_table (\<lambda>dir_ptr.
     bnd (set_kernel (\<lambda>k. k\<lparr>physical := dir_ptr\<rparr>)) (\<lambda>_.
     bnd (identity_map dir_ptr) (\<lambda>_.
     bnd (mount_kernel dir_ptr) (\<lambda>_.
     bnd (kernel_tables dir_ptr) (\<lambda>_.
     bnd (kernel_tables dir_ptr) (\<lambda>_.
     bnd (switch_page_directory Kernel_Directory) (\<lambda>_.
     bnd enable_paging (\<lambda>_.
     bnd (gets current_directory) (\<lambda>c.
     if Kernel_Directory \<noteq> c then panic ''VMM: God doesn't exist.''
     else
       bnd stack_table (\<lambda>_.
       upd (\<lambda>s. s\<lparr>pmm_paging_active := True\<rparr>)))))))))))"

section \<open>The memory map\<close>

primrec free_frames :: "nat \<Rightarrow> u32 \<Rightarrow> u32 \<Rightarrow> ('a vm_scheme, unit) cmd" where
  "free_frames 0 me j = fault Out_of_Fuel"
| "free_frames (Suc n) me j =
     bnd (me_base_addr_low me) (\<lambda>base.
     bnd (me_length_low me) (\<lambda>len.
     if j < base + len then bnd (pmm_free_page j) (\<lambda>_. free_frames n me (j + 0x1000))
     else skip))"

text \<open>
  The variable of the outer loop may wrap around or stand still; a loop that ends has fewer rounds
  than there are addresses.
\<close>

definition map_fuel :: nat where "map_fuel = 4294967297"

primrec collect_loop :: "nat \<Rightarrow> u32 \<Rightarrow> u32 \<Rightarrow> ('a vm_scheme, unit) cmd" where
  "collect_loop 0 mboot_ptr i = fault Out_of_Fuel"
| "collect_loop (Suc n) mboot_ptr i =
     bnd (mmap_addr mboot_ptr) (\<lambda>ma.
     bnd (mmap_length mboot_ptr) (\<lambda>ml.
     if i < ma + ml then
       bnd (me_type i) (\<lambda>ty.
       bnd (if ty = MULTIBOOT_MEMORY_AVAILABLE then
              bnd (me_base_addr_low i) (\<lambda>base.
              bnd (me_length_low i) (\<lambda>len.
              bnd (kprintf_log (''0x%.8x'' @ [CHR 0x09] @ ''0x%.8x'' @ [CHR 0x0A]) [base, base + len]) (\<lambda>_.
              free_frames page_fuel i base)))
            else skip) (\<lambda>_.
       bnd (me_size i) (\<lambda>sz.
       collect_loop n mboot_ptr (i + (sz + 4)))))
     else skip))"

definition pmm_collect_pages :: "u32 \<Rightarrow> ('a vm_scheme, unit) cmd" where
  "pmm_collect_pages mboot_ptr =
     bnd (mmap_addr mboot_ptr) (\<lambda>i.
     bnd (gets pmm_location) (\<lambda>loc.
     bnd (kprintf_log (''ignore pages before: 0x%.8x'' @ [CHR 0x0A] @ ''usable ram:'' @ [CHR 0x0A]) [loc]) (\<lambda>_.
     collect_loop map_fuel mboot_ptr i)))"

end
