(* ===== verification/Kernel_Boot_Tables.thy ===== *)
theory Kernel_Boot_Tables
  imports Kernel_Boot
begin

text \<open>
  What \<open>init_vmm\<close> of \<open>kernel/mm/vmm.c\<close> leaves behind: the kernel's directory with
  itself as its last table, an identity mapping of the first four megabytes, a table for
  every four megabytes of the heap and one for the stack of free frames. So it
  establishes the invariant that every operation of the memory managers keeps.
\<close>

section \<open>With paging off\<close>

lemma flat_translate: "\<not> cr0_pg s \<Longrightarrow> translate s a = Some a"
  by (simp add: translate_def)

lemma flat_vst32: "\<not> cr0_pg s \<Longrightarrow> vst32 a v s = Inr ((), s\<lparr>ram := st32 (ram s) a v\<rparr>)"
  by (simp add: vst32_def vtrans32_def flat_translate st32_def)

lemma flat_vld32: "\<not> cr0_pg s \<Longrightarrow> vld32 a s = Inr (ld32 (ram s) a, s)"
  by (simp add: vld32_def vtrans32_def flat_translate ld32_def)

lemma flat_memset_loop:
  "\<not> cr0_pg s \<Longrightarrow> n < 4294967296 \<Longrightarrow> memset_loop n p v s = Inr ((), s\<lparr>ram := fill (ram s) p n v\<rparr>)"
proof (induction n arbitrary: s p)
  case 0
  then show ?case by (simp add: skip_run)
next
  case (Suc n)
  let ?s = "s\<lparr>ram := (ram s)(p := v)\<rparr>"
  have "memset_loop (Suc n) p v s = memset_loop n (p + 1) v ?s"
    using Suc.prems by (simp add: bnd_run vst8_def flat_translate)
  also have "\<dots> = Inr ((), ?s\<lparr>ram := fill (ram ?s) (p + 1) n v\<rparr>)"
    by (rule Suc.IH) (use Suc.prems in simp_all)
  finally show ?case using fill_Suc [of n "ram s" p v] Suc.prems(2) by simp
qed

definition clear_page :: "bytes \<Rightarrow> u32 \<Rightarrow> bytes" where
  "clear_page m p = (\<lambda>a. if frame a = p then 0 else m a)"

lemma flat_memset:
  assumes "\<not> cr0_pg s" and "off p = 0"
  shows "memset p 0 PAGE_SIZE s = Inr ((), s\<lparr>ram := clear_page (ram s) p\<rparr>)"
proof -
  have "fill (ram s) p 4096 0 = clear_page (ram s) p"
    by (rule ext) (simp add: fill_page [OF assms(2)] clear_page_def)
  then show ?thesis using flat_memset_loop [OF assms(1), of 4096 p 0] by (simp add: memset_def PAGE_SIZE_def)
qed

lemma ld32_clear:
  assumes "i < 1024"
  shows "ld32 (clear_page m p) (entry f i) = (if frame f = p then 0 else ld32 m (entry f i))"
proof (cases "frame f = p")
  case True
  then show ?thesis using frame_plus_in_word(1) [OF aligned4_entry [OF assms, of f]]
    by (intro trans [OF ld32_zero]) (simp_all add: clear_page_def page_simps assms)
next
  case False
  have "same_except {p} m (clear_page m p)" by (simp add: same_except_def clear_page_def)
  then show ?thesis using False by (simp add: ld32_same_except page_simps assms)
qed

lemma same_except_clear: "p \<in> F \<Longrightarrow> same_except F m (clear_page m p)"
  by (auto simp: same_except_def clear_page_def)

text \<open>The part of the state that the boot changes, and a step of it.\<close>

definition boot_step :: "'a vm_scheme \<Rightarrow> bytes \<Rightarrow> u32 \<Rightarrow> (string \<times> u32 list) list \<Rightarrow> 'a vm_scheme" where
  "boot_step s m loc k = s\<lparr>ram := m, pmm_location := loc, klog := k\<rparr>"

lemma boot_step_simps [simp]:
  "ram (boot_step s m loc k) = m" "pmm_location (boot_step s m loc k) = loc"
  "cr0_pg (boot_step s m loc k) = cr0_pg s" "pmm_paging_active (boot_step s m loc k) = pmm_paging_active s"
  "klog (boot_step s m loc k) = k" "dirs (boot_step s m loc k) = dirs s" "cr3 (boot_step s m loc k) = cr3 s"
  "boot_step (boot_step s m loc k) m' loc' k' = boot_step s m' loc' k'"
  "(boot_step s m loc k)\<lparr>ram := m'\<rparr> = boot_step s m' loc k"
  by (simp_all add: boot_step_def)

lemma boot_step_refl: "s = boot_step s (ram s) (pmm_location s) (klog s)"
  by (simp add: boot_step_def)

lemma alloc_table_run:
  assumes "\<not> cr0_pg s" and "\<not> pmm_paging_active s" and "off (pmm_location s) = 0"
  shows "\<exists>k. alloc_table s = Inr (pmm_location s,
    boot_step s (clear_page (ram s) (pmm_location s)) (pmm_location s + PAGE_SIZE) k)"
proof -
  define k where "k = klog s @ [(''pmm_location alloc: 0x%.8x'' @ [CHR 0x0A], [pmm_location s])]"
  have "pmm_alloc_page s = Inr (pmm_location s, boot_step s (ram s) (pmm_location s + PAGE_SIZE) k)"
    using pmm_alloc_page_bump [OF assms(2)] by (simp add: boot_step_def k_def)
  moreover have "memset (pmm_location s) 0 PAGE_SIZE (boot_step s (ram s) (pmm_location s + PAGE_SIZE) k)
      = Inr ((), boot_step s (clear_page (ram s) (pmm_location s)) (pmm_location s + PAGE_SIZE) k)"
    using flat_memset [of "boot_step s (ram s) (pmm_location s + PAGE_SIZE) k" "pmm_location s"] assms by simp
  ultimately have "alloc_table s = Inr (pmm_location s,
      boot_step s (clear_page (ram s) (pmm_location s)) (pmm_location s + PAGE_SIZE) k)"
    by (simp add: alloc_table_def bnd_run ret_run)
  then show ?thesis by blast
qed

section \<open>The pages in order\<close>

text \<open>Page \<open>k\<close> from the location \<open>l\<close> on; the last of them is page 55.\<close>

definition nth_page :: "u32 \<Rightarrow> nat \<Rightarrow> u32" where
  "nth_page l k = l + PAGE_SIZE * of_nat k"

definition room :: "u32 \<Rightarrow> bool" where
  "room l \<longleftrightarrow> off l = 0 \<and> unat l + 56 * 4096 \<le> 4294967296"

lemma nth_page_0 [simp]: "nth_page l 0 = l"
  by (simp add: nth_page_def)

lemma nth_page_Suc: "nth_page l k + PAGE_SIZE = nth_page l (Suc k)"
  by (simp add: nth_page_def algebra_simps)

lemma unat_nth_page: "room l \<Longrightarrow> k < 56 \<Longrightarrow> unat (nth_page l k) = unat l + 4096 * k"
  by (simp add: room_def nth_page_def PAGE_SIZE_def unat_word_ariths unat_of_nat)

lemma off_nth_page: "room l \<Longrightarrow> k < 56 \<Longrightarrow> off (nth_page l k) = 0"
proof -
  assume r: "room l" "k < 56"
  have "unat l mod 4096 = 0" using r(1) unat_off [of l] by (simp add: room_def)
  then show ?thesis using unat_nth_page [OF r] by (simp add: word_unat_eq_iff unat_off mod_add_eq)
qed

lemma frame_nth_page: "room l \<Longrightarrow> k < 56 \<Longrightarrow> frame (nth_page l k) = nth_page l k"
  using off_nth_page [of l k] frame_plus_off [of "nth_page l k"] by simp

lemma nth_page_eq: "room l \<Longrightarrow> j < 56 \<Longrightarrow> k < 56 \<Longrightarrow> nth_page l j = nth_page l k \<longleftrightarrow> j = k"
  by (auto simp: word_unat_eq_iff unat_nth_page)

lemma table_entry_nth:
  assumes "room l" and "k < 56"
  shows "frame (table_entry (nth_page l k)) = nth_page l k" and "present (table_entry (nth_page l k))"
    and "table_entry (nth_page l k) \<noteq> 0"
  using frame_page_entry [OF frame_nth_page [OF assms]] present_entry [of "nth_page l k" PAGE_WRITE]
  by (simp_all add: present_nonzero)

section \<open>The steps of init_vmm with paging off\<close>

lemma entry_nth: "room l \<Longrightarrow> k < 56 \<Longrightarrow> nth_page l k + 4 * i = entry (nth_page l k) i"
  by (simp add: entry_def frame_nth_page)

lemma fill_table:
  assumes "\<not> cr0_pg s" and "frame p = p" and "n \<le> 1024"
  shows "\<exists>m. cfor [0..<n] (\<lambda>i. vst32 (p + 4 * of_nat i) (v i)) s
      = Inr ((), boot_step s m (pmm_location s) (klog s))
    \<and> same_except {p} (ram s) m \<and> (\<forall>i < n. ld32 m (entry p (of_nat i)) = v i)"
  using assms(3)
proof (induction n)
  case 0
  then show ?case using boot_step_refl [of s] by (intro exI [of _ "ram s"]) simp
next
  case (Suc n)
  then obtain m where m: "cfor [0..<n] (\<lambda>i. vst32 (p + 4 * of_nat i) (v i)) s
      = Inr ((), boot_step s m (pmm_location s) (klog s))"
    "same_except {p} (ram s) m" "\<forall>i < n. ld32 m (entry p (of_nat i)) = v i" by auto
  let ?m = "st32 m (entry p (of_nat n)) (v n)"
  have idx: "(of_nat i :: u32) < 1024" if "i \<le> n" for i
    using that Suc.prems by (simp add: word_less_nat_alt unat_of_nat)
  have e: "p + 4 * of_nat n = entry p (of_nat n)" by (simp add: entry_def assms(2))
  have "cfor [0..<Suc n] (\<lambda>i. vst32 (p + 4 * of_nat i) (v i)) s
      = Inr ((), boot_step s ?m (pmm_location s) (klog s))"
    using m(1) assms(1) by (simp add: cfor_append e flat_vst32)
  moreover have "same_except {p} (ram s) ?m"
    using same_except_trans [OF m(2) same_except_st32 [of "entry p (of_nat n)" "{p}"]]
    by (simp add: page_simps idx assms(2))
  moreover have "ld32 ?m (entry p (of_nat i)) = v i" if i: "i < Suc n" for i
  proof -
    have "(of_nat i :: u32) = of_nat n \<longleftrightarrow> i = n"
      using Suc.prems i by (simp add: word_unat_eq_iff unat_of_nat)
    then show ?thesis using i m(3) idx by (auto simp: ld32_st32_entry)
  qed
  ultimately show ?case by blast
qed

text \<open>A word of another page.\<close>

lemma ld32_other_page:
  "same_except F m m' \<Longrightarrow> i < 1024 \<Longrightarrow> frame f \<notin> F \<Longrightarrow> ld32 m' (entry f i) = ld32 m (entry f i)"
  by (simp add: ld32_same_except page_simps)

lemma identity_map_run:
  assumes s: "\<not> cr0_pg s" "\<not> pmm_paging_active s" and l: "room l" and loc: "pmm_location s = nth_page l 1"
  shows "\<exists>m k. identity_map l s = Inr ((), boot_step s m (nth_page l 2) k)
    \<and> same_except {l, nth_page l 1} (ram s) m
    \<and> (\<forall>i < 1024. ld32 m (entry l i) = (if i = 0 then table_entry (nth_page l 1) else ld32 (ram s) (entry l i)))
    \<and> (\<forall>i < 1024. ld32 m (entry (nth_page l 1) i) = table_entry (i * 0x1000))"
proof -
  let ?P = "nth_page l 1"
  have fl: "frame l = l" "frame ?P = ?P" "?P \<noteq> l"
    using frame_nth_page [OF l, of 0] frame_nth_page [OF l, of 1] nth_page_eq [OF l, of 1 0] by simp_all
  have "off ?P = 0" by (rule off_nth_page [OF l]) simp
  then obtain k where a: "alloc_table s = Inr (?P, boot_step s (clear_page (ram s) ?P) (nth_page l 2) k)"
    using alloc_table_run [OF s] loc nth_page_Suc [of l 1] by (auto simp: numeral_2_eq_2)
  define m1 where "m1 = st32 (clear_page (ram s) ?P) (entry l 0) (table_entry ?P)"
  have st: "vst32 l (table_entry ?P) (boot_step s (clear_page (ram s) ?P) (nth_page l 2) k)
      = Inr ((), boot_step s m1 (nth_page l 2) k)"
    using s(1) by (simp add: flat_vst32 m1_def entry_def fl(1))
  have pg: "\<not> cr0_pg (boot_step s m1 (nth_page l 2) k)" using s(1) by simp
  obtain m where m: "cfor [0..<1024] (\<lambda>i. vst32 (?P + 4 * of_nat i) (table_entry (of_nat i * 0x1000)))
      (boot_step s m1 (nth_page l 2) k) = Inr ((), boot_step s m (nth_page l 2) k)"
    "same_except {?P} m1 m" "\<forall>i < 1024. ld32 m (entry ?P (of_nat i)) = table_entry (of_nat i * 0x1000)"
    using fill_table [OF pg fl(2), of 1024 "\<lambda>i. table_entry (of_nat i * 0x1000)"] by auto
  have n: "unat (PG_NUM_FROM_ADDR LOWMEM_ID_MAP_END) = 1024" by (simp add: unat_PG_NUM LOWMEM_ID_MAP_END_def)
  have run: "identity_map l s = Inr ((), boot_step s m (nth_page l 2) k)"
    unfolding identity_map_def n using a st m(1) by (simp add: bnd_run)
  have "same_except {l, ?P} (ram s) m1"
    unfolding m1_def
    by (rule same_except_trans [OF same_except_clear same_except_st32]) (simp_all add: page_simps fl)
  then have same: "same_except {l, ?P} (ram s) m"
    using same_except_trans same_except_mono [OF m(2), of "{l, ?P}"] by blast
  have "ld32 m (entry l i) = (if i = 0 then table_entry ?P else ld32 (ram s) (entry l i))" if i: "i < 1024" for i
    using ld32_other_page [OF m(2) i, of l] fl i by (simp add: m1_def ld32_st32_entry ld32_clear)
  moreover have "ld32 m (entry ?P i) = table_entry (i * 0x1000)" if i: "i < 1024" for i
    using m(3) [rule_format, of "unat i"] i by (simp add: word_less_nat_alt)
  ultimately show ?thesis using run same by blast
qed

lemma mount_kernel_run:
  assumes s: "\<not> cr0_pg s" "\<not> pmm_paging_active s" and l: "room l" and loc: "pmm_location s = nth_page l 2"
  shows "\<exists>m k. mount_kernel l s = Inr ((), (boot_step s m (nth_page l 3) k)\<lparr>dirs := (dirs s)(Kernel_Directory :=
        (dirs s Kernel_Directory)\<lparr>directory := KERNEL_DIR_VIRTUAL, pages := KERNEL_TABLES_VIRTUAL\<rparr>)\<rparr>)
    \<and> same_except {l, nth_page l 2} (ram s) m
    \<and> (\<forall>i < 1024. ld32 m (entry l i) = (if i = 1022 then table_entry (nth_page l 2)
         else if i = 1023 then table_entry l else ld32 (ram s) (entry l i)))
    \<and> (\<forall>i < 1024. ld32 m (entry (nth_page l 2) i) = (if i = 1023 then table_entry l else 0))"
proof -
  let ?P = "nth_page l 2"
  have fl: "frame l = l" "frame ?P = ?P" "?P \<noteq> l"
    using frame_nth_page [OF l, of 0] frame_nth_page [OF l, of 2] nth_page_eq [OF l, of 2 0] by simp_all
  have "off ?P = 0" by (rule off_nth_page [OF l]) simp
  then obtain k where a: "alloc_table s = Inr (?P, boot_step s (clear_page (ram s) ?P) (nth_page l 3) k)"
    using alloc_table_run [OF s] loc nth_page_Suc [of l 2] by (auto simp: numeral_3_eq_3 numeral_2_eq_2)
  define m where "m = st32 (st32 (st32 (clear_page (ram s) ?P) (entry l 1022) (table_entry ?P))
    (entry ?P 1023) (table_entry l)) (entry l 1023) (table_entry l)"
  have i: "PGDIR_IDX_FROM_ADDR KERNEL_DIR_VIRTUAL = 1022" "PGTAB_IDX_FROM_ADDR KERNEL_DIR_VIRTUAL = 1023"
    "PGDIR_IDX_FROM_ADDR KERNEL_TABLES_VIRTUAL = 1023"
    by (simp_all add: word_unat_eq_iff unat_page KERNEL_DIR_VIRTUAL_def KERNEL_TABLES_VIRTUAL_def)
  have e: "l + 4 * j = entry l j" "?P + 4 * j = entry ?P j" for j by (simp_all add: entry_def fl)
  have e1: "?P + 4092 = entry ?P 1023" using e(2) [of 1023] by simp
  have run: "mount_kernel l s = Inr ((), (boot_step s m (nth_page l 3) k)\<lparr>dirs := (dirs s)(Kernel_Directory :=
        (dirs s Kernel_Directory)\<lparr>directory := KERNEL_DIR_VIRTUAL, pages := KERNEL_TABLES_VIRTUAL\<rparr>)\<rparr>)"
    unfolding mount_kernel_def i e set_kernel_def using a s(1)
    by (simp add: bnd_run upd_run flat_vst32 m_def e1)
  have "same_except {l, ?P} (ram s) m"
    unfolding m_def
    by (intro same_except_trans [OF same_except_trans [OF same_except_trans [OF same_except_clear same_except_st32]
          same_except_st32] same_except_st32]) (simp_all add: page_simps fl)
  moreover have "ld32 m (entry l i) = (if i = 1022 then table_entry ?P
      else if i = 1023 then table_entry l else ld32 (ram s) (entry l i))" if "i < 1024" for i
    using that fl by (simp add: m_def ld32_st32_entry ld32_clear)
  moreover have "ld32 m (entry ?P i) = (if i = 1023 then table_entry l else 0)" if "i < 1024" for i
    using that fl by (simp add: m_def ld32_st32_entry ld32_clear)
  ultimately show ?thesis using run by blast
qed

text \<open>The loop over the heap's tables: the first time it fills every slot, the second time none.\<close>

lemma kernel_slots: "unat (PGDIR_IDX_FROM_ADDR KERNEL_ADDRESS_SPACE) = 960" "unat (PGDIR_IDX_FROM_ADDR MOUNT_TABS_START) = 1012"
  by (simp_all add: unat_PGDIR KERNEL_ADDRESS_SPACE_def MOUNT_TABS_START_def)

lemma upt_snoc: "[960..<960 + Suc j] = [960..<960 + j] @ [960 + j :: nat]"
  unfolding add_Suc_right by (rule upt_Suc_append) simp

lemma cfor_snoc: "cfor xs b s = Inr ((), t) \<Longrightarrow> b x t = Inr ((), u) \<Longrightarrow> cfor (xs @ [x]) b s = Inr ((), u)"
  by (simp add: cfor_append)

abbreviation heap_pages :: "u32 \<Rightarrow> nat \<Rightarrow> u32 set" where
  "heap_pages l j \<equiv> nth_page l ` {3..<3 + j}"

lemma kernel_tables_fill:
  assumes s: "\<not> cr0_pg s" "\<not> pmm_paging_active s" and l: "room l" and loc: "pmm_location s = nth_page l 3"
    and empty: "\<forall>i. 960 \<le> i \<and> i < 1012 \<longrightarrow> ld32 (ram s) (entry l i) = 0"
  shows "j \<le> 52 \<Longrightarrow> \<exists>m k. cfor [960..<960 + j] (\<lambda>i.
       bnd (vld32 (l + 4 * of_nat i)) (\<lambda>e.
       if e = 0 then bnd alloc_table (\<lambda>tab_ptr. vst32 (l + 4 * of_nat i) (table_entry tab_ptr)) else skip)) s
      = Inr ((), boot_step s m (nth_page l (3 + j)) k)
    \<and> same_except (insert l (heap_pages l j)) (ram s) m
    \<and> (\<forall>i < 1024. ld32 m (entry l i) = (if 960 \<le> i \<and> unat i < 960 + j
         then table_entry (nth_page l (unat i - 957)) else ld32 (ram s) (entry l i)))
    \<and> (\<forall>q. 3 \<le> q \<and> q < 3 + j \<longrightarrow> (\<forall>i < 1024. ld32 m (entry (nth_page l q) i) = 0))"
proof (induction j)
  case 0
  then show ?case
    using boot_step_refl [of s] loc by (intro exI [of _ "ram s"] exI [of _ "klog s"]) (auto simp: word_le_nat_alt)
next
  case (Suc j)
  let ?body = "\<lambda>i. bnd (vld32 (l + 4 * of_nat i)) (\<lambda>e.
       if e = 0 then bnd alloc_table (\<lambda>tab_ptr. vst32 (l + 4 * of_nat i) (table_entry tab_ptr)) else skip)"
  obtain m k where m: "cfor [960..<960 + j] ?body s = Inr ((), boot_step s m (nth_page l (3 + j)) k)"
    "same_except (insert l (heap_pages l j)) (ram s) m"
    "\<forall>i < 1024. ld32 m (entry l i) = (if 960 \<le> i \<and> unat i < 960 + j
         then table_entry (nth_page l (unat i - 957)) else ld32 (ram s) (entry l i))"
    "\<forall>q. 3 \<le> q \<and> q < 3 + j \<longrightarrow> (\<forall>i < 1024. ld32 m (entry (nth_page l q) i) = 0)"
    using Suc by auto
  let ?P = "nth_page l (3 + j)" and ?w = "of_nat (960 + j) :: u32"
  let ?t = "boot_step s m ?P k"
  have j: "3 + j < 56" using Suc.prems by simp
  have uw: "unat ?w = 960 + j" using Suc.prems by (simp add: unat_of_nat del: of_nat_add)
  have w: "?w < 1024" "960 \<le> ?w" "?w < 1012"
    using Suc.prems uw by (simp_all add: word_less_nat_alt word_le_nat_alt)
  have fl: "frame l = l" "frame ?P = ?P" "?P \<noteq> l"
    using frame_nth_page [OF l, of 0] frame_nth_page [OF l j] nth_page_eq [OF l j, of 0] by simp_all
  have other: "nth_page l q \<noteq> ?P" if "q < 3 + j" for q using nth_page_eq [OF l, of q "3 + j"] that j by simp
  have e: "l + 4 * ?w = entry l ?w" by (simp add: entry_def fl)
  have z: "ld32 m (entry l ?w) = 0" using m(3) w empty uw by simp
  have "off ?P = 0" by (rule off_nth_page [OF l j])
  then obtain k' where a: "alloc_table ?t = Inr (?P, boot_step s (clear_page m ?P) (nth_page l (3 + Suc j)) k')"
    using alloc_table_run [of ?t] s nth_page_Suc [of l "3 + j"] by auto
  define m' where "m' = st32 (clear_page m ?P) (entry l ?w) (table_entry ?P)"
  have step: "?body (960 + j) ?t = Inr ((), boot_step s m' (nth_page l (3 + Suc j)) k')"
    unfolding e using z a s by (simp add: bnd_run flat_vld32 flat_vst32 m'_def del: of_nat_add)
  have run: "cfor [960..<960 + Suc j] ?body s = Inr ((), boot_step s m' (nth_page l (3 + Suc j)) k')"
    by (simp only: upt_snoc cfor_snoc [where b = ?body, OF m(1)] step)
  have "same_except (insert l (heap_pages l (Suc j))) (ram s) m"
    by (rule same_except_mono [OF m(2)]) auto
  moreover have "same_except (insert l (heap_pages l (Suc j))) m m'"
    unfolding m'_def by (rule same_except_trans [OF same_except_clear same_except_st32]) (auto simp: page_simps fl w simp del: of_nat_add)
  ultimately have same: "same_except (insert l (heap_pages l (Suc j))) (ram s) m'" by (rule same_except_trans)
  have dir: "ld32 m' (entry l i) = (if 960 \<le> i \<and> unat i < 960 + Suc j
      then table_entry (nth_page l (unat i - 957)) else ld32 (ram s) (entry l i))" if i: "i < 1024" for i
  proof (cases "i = ?w")
    case True
    then show ?thesis using uw w by (simp add: m'_def ld32_st32_entry del: of_nat_add)
  next
    case False
    then have "unat i \<noteq> 960 + j" using uw by (metis word_unat_eq_iff)
    then have "unat i < 960 + Suc j \<longleftrightarrow> unat i < 960 + j" by linarith
    then show ?thesis
      using False m(3) i w fl by (simp add: m'_def ld32_st32_entry ld32_clear del: of_nat_add)
  qed
  have "ld32 m' (entry (nth_page l q) i) = 0" if q: "3 \<le> q" "q < 3 + Suc j" and i: "i < 1024" for q i
  proof -
    have fq: "frame (nth_page l q) = nth_page l q" "nth_page l q \<noteq> l"
      using frame_nth_page [OF l, of q] nth_page_eq [OF l, of q 0] q j by simp_all
    then show ?thesis
      using m(4) q i w fl other [of q] by (cases "q = 3 + j") (auto simp: m'_def ld32_st32_entry ld32_clear simp del: of_nat_add)
  qed
  with run same dir show ?case by blast
qed

lemma kernel_tables_skip:
  assumes s: "\<not> cr0_pg s" and "frame l = l" and full: "\<forall>i. 960 \<le> i \<and> i < 1012 \<longrightarrow> ld32 (ram s) (entry l i) \<noteq> 0"
  shows "j \<le> 52 \<Longrightarrow> cfor [960..<960 + j] (\<lambda>i.
       bnd (vld32 (l + 4 * of_nat i)) (\<lambda>e.
       if e = 0 then bnd alloc_table (\<lambda>tab_ptr. vst32 (l + 4 * of_nat i) (table_entry tab_ptr)) else skip)) s
      = Inr ((), s)"
proof (induction j)
  case 0
  then show ?case by simp
next
  case (Suc j)
  let ?w = "of_nat (960 + j) :: u32"
  have "unat ?w = 960 + j" using Suc.prems by (simp add: unat_of_nat del: of_nat_add)
  then have "ld32 (ram s) (entry l ?w) \<noteq> 0"
    using full Suc.prems by (simp add: word_less_nat_alt word_le_nat_alt del: of_nat_add)
  moreover have "l + 4 * ?w = entry l ?w" by (simp add: entry_def assms(2))
  ultimately have step: "bnd (vld32 (l + 4 * ?w)) (\<lambda>e. if e = 0 then bnd alloc_table (\<lambda>tab_ptr.
      vst32 (l + 4 * ?w) (table_entry tab_ptr)) else skip) s = Inr ((), s)"
    using s by (simp add: bnd_run flat_vld32 skip_run del: of_nat_add)
  show ?case unfolding upt_snoc by (rule cfor_snoc [OF Suc.IH step]) (use Suc.prems in simp)
qed

end
