(* ===== verification/Kernel_Boot_Props.thy ===== *)
theory Kernel_Boot_Props
  imports Kernel_Boot_Tables Kernel_Words
begin

text \<open>
  \<open>init_vmm\<close> of \<open>kernel/mm/vmm.c\<close>, second part: the address space that the tables of
  \<open>Kernel_Boot_Tables\<close> make once paging is on, and the theorem that it satisfies the invariant of
  the memory managers.
\<close>

section \<open>The tables once they are complete\<close>

text \<open>Entry \<open>i\<close> of the directory when all tables but the one of the stack of free frames are there.\<close>

definition kernel_dir :: "u32 \<Rightarrow> u32 \<Rightarrow> u32" where
  "kernel_dir l i = (if i = 0 then table_entry (nth_page l 1) else if i = 1022 then table_entry (nth_page l 2)
     else if i = 1023 then table_entry l
     else if 960 \<le> i \<and> i < 1012 then table_entry (nth_page l (unat i - 957)) else 0)"

definition boot_tables :: "u32 \<Rightarrow> bytes \<Rightarrow> bool" where
  "boot_tables l m \<longleftrightarrow> (\<forall>i < 1024. ld32 m (entry l i) = kernel_dir l i)
     \<and> (\<forall>i < 1024. ld32 m (entry (nth_page l 1) i) = table_entry (i * 0x1000))
     \<and> (\<forall>i < 1024. ld32 m (entry (nth_page l 2) i) = (if i = 1023 then table_entry l else 0))
     \<and> (\<forall>q. 3 \<le> q \<and> q < 55 \<longrightarrow> (\<forall>i < 1024. ld32 m (entry (nth_page l q) i) = 0))"

definition kernel_record :: "u32 \<Rightarrow> page_directory" where
  "kernel_record l = \<lparr>physical = l, directory = KERNEL_DIR_VIRTUAL, pages = KERNEL_TABLES_VIRTUAL\<rparr>"

abbreviation kernel_dirs :: "'a vm_scheme \<Rightarrow> u32 \<Rightarrow> dirref \<Rightarrow> page_directory" where
  "kernel_dirs s l \<equiv> (dirs s)(Kernel_Directory := kernel_record l)"

lemma boot_step_dirs:
  "(boot_step s m loc k)\<lparr>dirs := d\<rparr> = boot_step (s\<lparr>dirs := d\<rparr>) m loc k"
  by (simp add: boot_step_def)

lemma empty_directory_filled:
  assumes l: "room l" and d0: "\<forall>i < 1024. ld32 m0 (entry l i) = 0"
    and d1: "\<forall>i < 1024. ld32 m1 (entry l i) = (if i = 0 then table_entry (nth_page l 1) else ld32 m0 (entry l i))"
    and d2: "\<forall>i < 1024. ld32 m2 (entry l i) = (if i = 1022 then table_entry (nth_page l 2)
         else if i = 1023 then table_entry l else ld32 m1 (entry l i))"
    and d3: "\<forall>i < 1024. ld32 m3 (entry l i) = (if 960 \<le> i \<and> unat i < 960 + 52
         then table_entry (nth_page l (unat i - 957)) else ld32 m2 (entry l i))"
  shows "\<forall>i < 1024. ld32 m3 (entry l i) = kernel_dir l i"
proof (intro allI impI)
  fix i :: u32 assume i: "i < 1024"
  have "unat i < 960 + 52 \<longleftrightarrow> i < 1012" by (simp add: word_less_nat_alt)
  then show "ld32 m3 (entry l i) = kernel_dir l i" using i d0 d1 d2 d3 by (auto simp: kernel_dir_def)
qed

lemma before_paging:
  assumes s: "\<not> cr0_pg s" "\<not> pmm_paging_active s" and l: "room l" "pmm_location s = l"
  shows "\<exists>m k. init_vmm s =
      bnd (switch_page_directory Kernel_Directory) (\<lambda>_.
      bnd enable_paging (\<lambda>_.
      bnd (gets current_directory) (\<lambda>c.
      if Kernel_Directory \<noteq> c then panic ''VMM: God doesn't exist.''
      else bnd stack_table (\<lambda>_. upd (\<lambda>s. s\<lparr>pmm_paging_active := True\<rparr>)))))
        (boot_step (s\<lparr>dirs := kernel_dirs s l\<rparr>) m (nth_page l 55) k)
    \<and> boot_tables l m \<and> same_except (nth_page l ` {0..<55}) (ram s) m"
proof -
  have fr: "frame (nth_page l q) = nth_page l q" if "q < 56" for q using frame_nth_page [OF l(1) that] .
  have ne: "nth_page l p \<noteq> nth_page l q" if "p < 56" "q < 56" "p \<noteq> q" for p q
    using nth_page_eq [OF l(1) that(1,2)] that(3) by simp
  have fl: "frame l = l" using fr [of 0] by simp
  have o: "off (pmm_location s) = 0" using l by (simp add: room_def)
  define m0 where "m0 = clear_page (ram s) l"
  obtain k0 where a0: "alloc_table s = Inr (l, boot_step s m0 (nth_page l 1) k0)"
    using alloc_table_run [OF s o] l(2) nth_page_Suc [of l 0] by (auto simp: m0_def)
  define s0 where "s0 = boot_step (s\<lparr>dirs := (dirs s)(Kernel_Directory := (dirs s Kernel_Directory)\<lparr>physical := l\<rparr>)\<rparr>)
    m0 (nth_page l 1) k0"
  have b0: "set_kernel (\<lambda>k. k\<lparr>physical := l\<rparr>) (boot_step s m0 (nth_page l 1) k0) = Inr ((), s0)"
    by (simp add: set_kernel_def upd_run s0_def boot_step_def)
  have f0: "\<not> cr0_pg s0" "\<not> pmm_paging_active s0" "pmm_location s0 = nth_page l 1" "ram s0 = m0"
    using s by (simp_all add: s0_def)
  obtain m1 k1 where a1: "identity_map l s0 = Inr ((), boot_step s0 m1 (nth_page l 2) k1)"
    "same_except {l, nth_page l 1} m0 m1"
    "\<forall>i < 1024. ld32 m1 (entry l i) = (if i = 0 then table_entry (nth_page l 1) else ld32 m0 (entry l i))"
    "\<forall>i < 1024. ld32 m1 (entry (nth_page l 1) i) = table_entry (i * 0x1000)"
    using identity_map_run [OF f0(1,2) l(1) f0(3)] f0(4) by auto
  have f1: "\<not> cr0_pg (boot_step s0 m1 (nth_page l 2) k1)" "\<not> pmm_paging_active (boot_step s0 m1 (nth_page l 2) k1)"
    "pmm_location (boot_step s0 m1 (nth_page l 2) k1) = nth_page l 2"
    using f0 by simp_all
  define s2 where "s2 = s\<lparr>dirs := kernel_dirs s l\<rparr>"
  obtain m2 k2 where a2: "mount_kernel l (boot_step s0 m1 (nth_page l 2) k1) = Inr ((), boot_step s2 m2 (nth_page l 3) k2)"
    "same_except {l, nth_page l 2} m1 m2"
    "\<forall>i < 1024. ld32 m2 (entry l i) = (if i = 1022 then table_entry (nth_page l 2)
         else if i = 1023 then table_entry l else ld32 m1 (entry l i))"
    "\<forall>i < 1024. ld32 m2 (entry (nth_page l 2) i) = (if i = 1023 then table_entry l else 0)"
  proof -
    have full: "d\<lparr>physical := a, directory := b, pages := c\<rparr> = \<lparr>physical = a, directory = b, pages = c\<rparr>"
      for d :: page_directory and a b c by (cases d) simp
    have "(boot_step s0 m (nth_page l 3) k)\<lparr>dirs := (dirs s0)(Kernel_Directory :=
        (dirs s0 Kernel_Directory)\<lparr>directory := KERNEL_DIR_VIRTUAL, pages := KERNEL_TABLES_VIRTUAL\<rparr>)\<rparr>
      = boot_step s2 m (nth_page l 3) k" for m k
      by (simp add: s0_def s2_def kernel_record_def boot_step_def full)
    then show ?thesis using mount_kernel_run [OF f1(1,2) l(1) f1(3)] that by auto
  qed
  let ?s2 = "boot_step s2 m2 (nth_page l 3) k2"
  have f2: "\<not> cr0_pg ?s2" "\<not> pmm_paging_active ?s2" "pmm_location ?s2 = nth_page l 3" "ram ?s2 = m2"
    using s by (simp_all add: s2_def)
  have d0: "\<forall>i < 1024. ld32 m0 (entry l i) = 0" by (simp add: m0_def ld32_clear fl)
  have lt: "i < 1024" if "i < 1012" for i :: u32 using that by (simp add: word_less_nat_alt)
  have e2: "\<forall>i. 960 \<le> i \<and> i < 1012 \<longrightarrow> ld32 (ram ?s2) (entry l i) = 0"
    using a2(3) a1(3) d0 lt by auto
  obtain m3 k3 where a3: "kernel_tables l ?s2 = Inr ((), boot_step s2 m3 (nth_page l 55) k3)"
    "same_except (insert l (heap_pages l 52)) m2 m3"
    "\<forall>i < 1024. ld32 m3 (entry l i) = (if 960 \<le> i \<and> unat i < 960 + 52
         then table_entry (nth_page l (unat i - 957)) else ld32 m2 (entry l i))"
    "\<forall>q. 3 \<le> q \<and> q < 55 \<longrightarrow> (\<forall>i < 1024. ld32 m3 (entry (nth_page l q) i) = 0)"
    using kernel_tables_fill [OF f2(1,2) l(1) f2(3) e2, of 52] by (auto simp: kernel_tables_def kernel_slots)
  have dir: "\<forall>i < 1024. ld32 m3 (entry l i) = kernel_dir l i"
    by (rule empty_directory_filled [OF l(1) d0 a1(3) a2(3) a3(3)])
  have full: "\<forall>i. 960 \<le> i \<and> i < 1012 \<longrightarrow> ld32 m3 (entry l i) \<noteq> 0"
  proof (intro allI impI)
    fix i :: u32 assume i: "960 \<le> i \<and> i < 1012"
    then have "unat i < 1012" by (simp add: word_less_nat_alt)
    then have "unat i - 957 < 56" by linarith
    moreover have "i < 1024" "unat i < 960 + 52" using i lt by (simp_all add: word_less_nat_alt)
    ultimately show "ld32 m3 (entry l i) \<noteq> 0" using i a3(3) table_entry_nth(3) [OF l(1)] by simp
  qed
  have a4: "kernel_tables l (boot_step s2 m3 (nth_page l 55) k3) = Inr ((), boot_step s2 m3 (nth_page l 55) k3)"
    using kernel_tables_skip [of "boot_step s2 m3 (nth_page l 55) k3" l 52] f2(1) fl full
    by (simp add: kernel_tables_def kernel_slots s2_def)
  have "heap_pages l 52 \<subseteq> nth_page l ` {0..<55}" by auto
  moreover have in0: "l \<in> nth_page l ` {0..<55}" by (rule image_eqI [of _ _ 0]) simp_all
  ultimately have sub: "insert l (heap_pages l 52) \<subseteq> nth_page l ` {0..<55}" "{l, nth_page l 1} \<subseteq> nth_page l ` {0..<55}"
    "{l, nth_page l 2} \<subseteq> nth_page l ` {0..<55}" by auto
  have same: "same_except (nth_page l ` {0..<55}) (ram s) m3"
    using same_except_trans [OF same_except_trans [OF same_except_trans [OF same_except_clear [OF in0]
      same_except_mono [OF a1(2)[unfolded m0_def] sub(2)]] same_except_mono [OF a2(2) sub(3)]] same_except_mono [OF a3(2) sub(1)]] .
  have "nth_page l 1 \<notin> insert l (heap_pages l 52)" "nth_page l 2 \<notin> insert l (heap_pages l 52)" "nth_page l 1 \<notin> {l, nth_page l 2}"
  proof -
    have "nth_page l x \<noteq> nth_page l 1" "nth_page l x \<noteq> nth_page l 2" if "3 \<le> x" "x < 55" for x
      using ne [of x 1] ne [of x 2] that by simp_all
    moreover have "nth_page l 1 \<noteq> l" "nth_page l 2 \<noteq> l" "nth_page l 1 \<noteq> nth_page l 2"
      using ne [of 1 0] ne [of 2 0] ne [of 1 2] by simp_all
    ultimately show "nth_page l 1 \<notin> insert l (heap_pages l 52)" "nth_page l 2 \<notin> insert l (heap_pages l 52)"
      "nth_page l 1 \<notin> {l, nth_page l 2}" by (fastforce simp del: One_nat_def)+
  qed
  then have t: "\<forall>i < 1024. ld32 m3 (entry (nth_page l 1) i) = table_entry (i * 0x1000)"
    "\<forall>i < 1024. ld32 m3 (entry (nth_page l 2) i) = (if i = 1023 then table_entry l else 0)"
    using a1(4) a2(4) ld32_other_page [OF a2(2)] ld32_other_page [OF a3(2)] fr by auto
  have "boot_tables l m3" using dir t a3(4) by (simp add: boot_tables_def)
  moreover have "init_vmm s =
      bnd (switch_page_directory Kernel_Directory) (\<lambda>_.
      bnd enable_paging (\<lambda>_.
      bnd (gets current_directory) (\<lambda>c.
      if Kernel_Directory \<noteq> c then panic ''VMM: God doesn't exist.''
      else bnd stack_table (\<lambda>_. upd (\<lambda>s. s\<lparr>pmm_paging_active := True\<rparr>)))))
        (boot_step s2 m3 (nth_page l 55) k3)"
    unfolding init_vmm_def by (simp only: bnd_run a0 b0 a1(1) a2(1) a3(1) a4 sum.case prod.case)
  ultimately show ?thesis using same unfolding s2_def by blast
qed

section \<open>The address space they make\<close>

lemma unat_word_1024: "i < (1024 :: u32) \<longleftrightarrow> unat i < 1024"
  by (simp add: word_less_nat_alt)

text \<open>Which page holds the table of a slot.\<close>

definition dir_page :: "u32 \<Rightarrow> nat" where
  "dir_page i = (if i = 0 then 1 else if i = 1022 then 2 else if i = 1023 then 0 else unat i - 957)"

definition dir_used :: "u32 \<Rightarrow> bool" where
  "dir_used i \<longleftrightarrow> i = 0 \<or> i = 1022 \<or> i = 1023 \<or> 960 \<le> i \<and> i < 1012"

lemma dir_cases:
  assumes "dir_used i"
  obtains "i = 0" "dir_page i = 1" | "i = 1022" "dir_page i = 2" | "i = 1023" "dir_page i = 0"
    | "960 \<le> unat i" "unat i < 1012" "dir_page i = unat i - 957"
proof -
  consider "i = 0" | "i = 1022" | "i = 1023" | "i \<notin> {0, 1022, 1023}" "960 \<le> unat i" "unat i < 1012"
    using assms by (auto simp: dir_used_def word_le_nat_alt word_less_nat_alt)
  then show thesis using that by cases (simp_all add: dir_page_def)
qed

lemma dir_page_less: "dir_used i \<Longrightarrow> dir_page i < 55"
  by (erule dir_cases) simp_all

lemma dir_page_inj:
  assumes "dir_used i" and "dir_used j" and eq: "dir_page i = dir_page j"
  shows "i = j"
proof -
  have "unat i = unat j"
    using assms(1)
  proof (cases rule: dir_cases)
    case 1
    with assms(2) eq show ?thesis by (cases rule: dir_cases) simp_all
  next
    case 2
    with assms(2) eq show ?thesis by (cases rule: dir_cases) simp_all
  next
    case 3
    with assms(2) eq show ?thesis by (cases rule: dir_cases) simp_all
  next
    case 4
    with assms(2) eq show ?thesis by (cases rule: dir_cases) simp_all
  qed
  then show ?thesis by (simp add: word_unat_eq_iff)
qed

lemma dir_page_onto: "k < 55 \<Longrightarrow> \<exists>i. dir_used i \<and> i < 1024 \<and> dir_page i = k"
proof -
  assume k: "k < 55"
  consider "k = 0" | "k = 1" | "k = 2" | "3 \<le> k" by linarith
  then show ?thesis
  proof cases
    case 1
    then show ?thesis by (intro exI [of _ 1023]) (simp add: dir_used_def dir_page_def)
  next
    case 2
    then show ?thesis by (intro exI [of _ 0]) (simp add: dir_used_def dir_page_def)
  next
    case 3
    then show ?thesis by (intro exI [of _ 1022]) (simp add: dir_used_def dir_page_def)
  next
    case 4
    define w where "w = (of_nat (k + 957) :: u32)"
    have u: "unat w = k + 957" unfolding w_def using k by (simp add: unat_of_nat del: of_nat_add)
    then have "960 \<le> w" "w < 1012" "w < 1024" using 4 k by (simp_all add: word_le_nat_alt word_less_nat_alt)
    moreover have "w \<noteq> 0" "w \<noteq> 1022" "w \<noteq> 1023" using u 4 k by auto
    ultimately show ?thesis using u by (intro exI [of _ w]) (simp add: dir_used_def dir_page_def)
  qed
qed

lemma kernel_dir_used: "kernel_dir l i = (if dir_used i then table_entry (nth_page l (dir_page i)) else 0)"
  by (auto simp: kernel_dir_def dir_used_def dir_page_def)

text \<open>Paging is on with these tables.\<close>

definition kernel_paging :: "u32 \<Rightarrow> 'a vm_scheme \<Rightarrow> bool" where
  "kernel_paging l s \<longleftrightarrow> cr0_pg s \<and> room l \<and> cr3 s = l \<and> curdir s = kernel_record l \<and> boot_tables l (ram s)"

lemma boot_pde: "kernel_paging l s \<Longrightarrow> i < 1024 \<Longrightarrow> pde_at s i = kernel_dir l i"
  by (simp add: pde_at_def kernel_paging_def boot_tables_def)

lemma boot_pde_entry:
  assumes "kernel_paging l s" and "i < 1024" and "dir_used i"
  shows "frame (pde_at s i) = nth_page l (dir_page i)" and "present (pde_at s i)" and "pde_at s i \<noteq> 0"
proof -
  have e: "pde_at s i = table_entry (nth_page l (dir_page i))"
    using boot_pde [OF assms(1,2)] assms(3) by (simp add: kernel_dir_used)
  have "room l" "dir_page i < 56" using assms(1) dir_page_less [OF assms(3)] by (simp_all add: kernel_paging_def)
  note t = table_entry_nth [OF this]
  show "frame (pde_at s i) = nth_page l (dir_page i)" unfolding e by (rule t(1))
  show "present (pde_at s i)" unfolding e by (rule t(2))
  show "pde_at s i \<noteq> 0" unfolding e by (rule t(3))
qed

lemma boot_pde_empty: "kernel_paging l s \<Longrightarrow> i < 1024 \<Longrightarrow> \<not> dir_used i \<Longrightarrow> pde_at s i = 0"
  by (simp add: boot_pde kernel_dir_used)

lemma boot_pte:
  assumes "kernel_paging l s" and "dir_used (PGDIR_IDX_FROM_ADDR a)"
  shows "pte_at s a = ld32 (ram s) (entry (nth_page l (dir_page (PGDIR_IDX_FROM_ADDR a))) (PGTAB_IDX_FROM_ADDR a))"
proof -
  have "frame (nth_page l (dir_page (PGDIR_IDX_FROM_ADDR a))) = nth_page l (dir_page (PGDIR_IDX_FROM_ADDR a))"
    using frame_nth_page dir_page_less [OF assms(2)] assms(1) by (simp add: kernel_paging_def)
  then show ?thesis
    using boot_pde_entry(1) [OF assms(1) PGDIR_less assms(2)] by (simp add: pte_at_def pte_addr_def entry_def)
qed

lemma boot_translate_identity:
  assumes k: "kernel_paging l s" and a: "unat a < 0x400000"
  shows "translate s a = Some a"
proof -
  have d: "PGDIR_IDX_FROM_ADDR a = 0" using a by (simp add: word_unat_eq_iff unat_PGDIR)
  then have u: "dir_used (PGDIR_IDX_FROM_ADDR a)" by (simp add: dir_used_def)
  have e: "pte_at s a = table_entry (PGTAB_IDX_FROM_ADDR a * 0x1000)"
    using boot_pte [OF k u] k PGTAB_less [of a] by (simp add: d dir_page_def kernel_paging_def boot_tables_def)
  have "unat a div 4096 < 1024" using a by simp
  then have "unat (PGTAB_IDX_FROM_ADDR a * 0x1000) = unat a div 4096 * 4096"
    by (simp add: unat_word_ariths unat_PGTAB)
  then have t: "PGTAB_IDX_FROM_ADDR a * 0x1000 = frame a" by (simp add: word_unat_eq_iff unat_frame)
  have "frame (pte_at s a) = frame a" using frame_page_entry [of "frame a"] by (simp add: e t)
  moreover have "present (pte_at s a)" using present_entry [of "frame a" PAGE_WRITE] by (simp add: e t)
  ultimately show ?thesis
    using k boot_pde_entry(2) [OF k PGDIR_less u] frame_plus_off [of a]
    by (simp add: translate_def kernel_paging_def)
qed

lemma boot_translate_unmapped:
  assumes k: "kernel_paging l s" and a: "dir_used (PGDIR_IDX_FROM_ADDR a) \<longrightarrow> 960 \<le> PGDIR_IDX_FROM_ADDR a \<and> PGDIR_IDX_FROM_ADDR a < 1012"
  shows "translate s a = None"
proof (cases "dir_used (PGDIR_IDX_FROM_ADDR a)")
  case True
  let ?i = "PGDIR_IDX_FROM_ADDR a"
  have i: "960 \<le> unat ?i" "unat ?i < 1012" using a True by (simp_all add: word_le_nat_alt word_less_nat_alt)
  then have p: "dir_page ?i = unat ?i - 957" by (auto simp: dir_page_def)
  then have "3 \<le> dir_page ?i" "dir_page ?i < 55" using i by linarith+
  then have "pte_at s a = 0"
    using boot_pte [OF k True] k PGTAB_less [of a] by (simp add: kernel_paging_def boot_tables_def)
  then show ?thesis using k by (simp add: translate_def kernel_paging_def)
next
  case False
  then show ?thesis using k boot_pde_empty [OF k PGDIR_less False] by (simp add: translate_def kernel_paging_def)
qed

lemma boot_paging_ok:
  assumes k: "kernel_paging l s"
  shows "paging_ok s" and "pt_frames s = nth_page l ` {0..<55}" and "self_slot s = 1023"
proof -
  have cd: "curdir s = kernel_record l" and room: "room l" and cr3: "cr3 s = l" and pg: "cr0_pg s"
    using k by (simp_all add: kernel_paging_def)
  have fl: "frame l = l" using frame_nth_page [OF room, of 0] by simp
  show ss: "self_slot s = 1023"
    by (simp add: self_slot_def cd kernel_record_def word_unat_eq_iff unat_PGDIR KERNEL_TABLES_VIRTUAL_def)
  have u: "dir_used 1022" "dir_used 1023" by (simp_all add: dir_used_def)
  have l3: "(1022 :: u32) < 1024" "(1023 :: u32) < 1024" by simp_all
  have D: "PGDIR_IDX_FROM_ADDR KERNEL_DIR_VIRTUAL = 1022" "PGTAB_IDX_FROM_ADDR KERNEL_DIR_VIRTUAL = 1023"
    "off KERNEL_DIR_VIRTUAL = 0"
    by (simp_all add: word_unat_eq_iff unat_page KERNEL_DIR_VIRTUAL_def)
  have e: "pte_at s KERNEL_DIR_VIRTUAL = table_entry l"
    using boot_pte [OF k, of KERNEL_DIR_VIRTUAL] u(1) k by (simp add: D dir_page_def kernel_paging_def boot_tables_def)
  have te: "frame (table_entry l) = l" "present (table_entry l)"
    using table_entry_nth [OF room, of 0] by simp_all
  have "translate s KERNEL_DIR_VIRTUAL = Some l"
    using boot_pde_entry(2) [OF k l3(1) u(1)] pg e te by (simp add: translate_def D)
  then have "self_mapped s"
    using boot_pde_entry [OF k l3(2) u(2)] pg fl
    by (simp add: self_mapped_def ss cd kernel_record_def D(3) cr3 dir_page_def KERNEL_TABLES_VIRTUAL_def)
  moreover have "tables_ok s"
    unfolding tables_ok_def
  proof (intro conjI allI impI)
    fix i :: u32 assume "i < 1024" "pde_at s i \<noteq> 0"
    then show "present (pde_at s i)" using boot_pde_empty [OF k] boot_pde_entry(2) [OF k] by blast
  next
    fix i j :: u32
    assume i: "i < 1024" "j < 1024" "present (pde_at s i)" "present (pde_at s j)" "frame (pde_at s i) = frame (pde_at s j)"
    have d: "dir_used i" "dir_used j" using boot_pde_empty [OF k] i by fastforce+
    then have "nth_page l (dir_page i) = nth_page l (dir_page j)"
      using boot_pde_entry(1) [OF k] i by metis
    then have "dir_page i = dir_page j"
      using nth_page_eq [OF room] dir_page_less [OF d(1)] dir_page_less [OF d(2)] by simp
    with d show "i = j" by (rule dir_page_inj)
  qed
  ultimately show "paging_ok s" by (simp add: paging_ok_def)
  show "pt_frames s = nth_page l ` {0..<55}"
  proof
    show "pt_frames s \<subseteq> nth_page l ` {0..<55}"
    proof
      fix f assume "f \<in> pt_frames s"
      then consider "f = l" | i where "i < 1024" "present (pde_at s i)" "f = frame (pde_at s i)"
        by (auto simp: pt_frames_def cr3 fl)
      then show "f \<in> nth_page l ` {0..<55}"
      proof cases
        case 1
        then show ?thesis by (intro image_eqI [of _ _ 0]) simp_all
      next
        case 2
        then have "dir_used i" using boot_pde_empty [OF k] by fastforce
        then show ?thesis using boot_pde_entry(1) [OF k 2(1)] dir_page_less 2(3) by auto
      qed
    qed
    show "nth_page l ` {0..<55} \<subseteq> pt_frames s"
    proof
      fix f assume "f \<in> nth_page l ` {0..<55}"
      then obtain q where q: "q < 55" "f = nth_page l q" by auto
      obtain i where i: "dir_used i" "i < 1024" "dir_page i = q" using dir_page_onto [OF q(1)] by blast
      show "f \<in> pt_frames s"
        using pde_in_pt_frames [OF i(2) boot_pde_entry(2) [OF k i(2,1)]] boot_pde_entry(1) [OF k i(2,1)] i(3) q(2) by simp
    qed
  qed
qed

section \<open>Paging on, and the table of the stack\<close>

text \<open>What holds of the kernel's own address space from here on.\<close>

definition kernel_space :: "'a vm_scheme \<Rightarrow> bool" where
  "kernel_space s \<longleftrightarrow> current_directory s = Kernel_Directory \<and> self_slot s = 1023
     \<and> directory (curdir s) = KERNEL_DIR_VIRTUAL
     \<and> (\<forall>i. 960 \<le> i \<and> i < 1012 \<or> i = 1021 \<or> i = 1022 \<longrightarrow> present (pde_at s i))"

lemma kernel_space_view:
  assumes "paging_ok s" and "kernel_space s" and "present (pde_at s (PGDIR_IDX_FROM_ADDR a))"
  shows "kernel_view s a"
proof -
  have self: "self_mapped s" using assms(1) by (simp add: paging_ok_def)
  have c: "dirs s Kernel_Directory = curdir s" using assms(2) by (simp add: kernel_space_def)
  show ?thesis
    using page_window_walk [OF self, of a] page_window_aligned [OF self, of a] assms(3)
    by (simp add: kernel_view_def c Let_def)
qed

lemma kernel_space_window:
  assumes "kernel_space s" and "PGDIR_IDX_FROM_ADDR a \<noteq> 1023" and "frame a \<noteq> KERNEL_DIR_VIRTUAL"
  shows "\<not> window s a"
  using assms unfolding kernel_space_def window_def by metis

lemma heap_slot:
  assumes "KHEAP_START \<le> a" and "a < KHEAP_END"
  shows "960 \<le> PGDIR_IDX_FROM_ADDR a" and "PGDIR_IDX_FROM_ADDR a < 1012"
proof -
  have "4026531840 \<le> unat a" "unat a < 4244635648"
    using assms by (simp_all add: KHEAP_START_def KHEAP_END_def word_le_nat_alt word_less_nat_alt)
  then have "960 \<le> unat a div 4194304" "unat a div 4194304 < 1012" by simp_all
  then show "960 \<le> PGDIR_IDX_FROM_ADDR a" "PGDIR_IDX_FROM_ADDR a < 1012"
    by (simp_all add: word_le_nat_alt word_less_nat_alt unat_PGDIR)
qed

lemma heap_not_window:
  assumes "kernel_space s" and "KHEAP_START \<le> a" and "a < KHEAP_END"
  shows "\<not> window s a"
proof (rule kernel_space_window [OF assms(1)])
  have i: "unat (PGDIR_IDX_FROM_ADDR a) < 1012" using heap_slot(2) [OF assms(2,3)] by (simp add: word_less_nat_alt)
  then show "PGDIR_IDX_FROM_ADDR a \<noteq> 1023" by auto
  have "PGDIR_IDX_FROM_ADDR (frame a) = PGDIR_IDX_FROM_ADDR a" using frame_eq_iff_idx [of "frame a" a] by simp
  moreover have "unat (PGDIR_IDX_FROM_ADDR KERNEL_DIR_VIRTUAL) = 1022" by (simp add: unat_PGDIR KERNEL_DIR_VIRTUAL_def)
  ultimately show "frame a \<noteq> KERNEL_DIR_VIRTUAL" using i by auto
qed

lemma heap_mappable:
  assumes "paging_ok s" and "kernel_space s" and "KHEAP_START \<le> a" and "a < KHEAP_END"
  shows "mappable s a"
proof -
  have "unat a < unat PMM_STACK_START"
    using assms(4) by (simp add: word_less_nat_alt KHEAP_END_def PMM_STACK_START_def)
  then have "\<not> in_stack s a" by (simp add: in_stack_def word_le_nat_alt)
  moreover have "kernel_view s a"
    using kernel_space_view [OF assms(1,2)] heap_slot [OF assms(3,4)] assms(2) by (simp add: kernel_space_def)
  ultimately show ?thesis using heap_not_window [OF assms(2-4)] by (simp add: mappable_def)
qed

lemma stack_slot_index: "PGDIR_IDX_FROM_ADDR PMM_STACK_START = 1021" "PG_FIRST_DIR_FROM_ADDR PMM_STACK_START = 1021 * 1024"
proof -
  show d: "PGDIR_IDX_FROM_ADDR PMM_STACK_START = 1021"
    by (simp add: word_unat_eq_iff unat_PGDIR PMM_STACK_START_def)
  then have "drop_bit 22 PMM_STACK_START = 1021" by (simp add: PGDIR_IDX_FROM_ADDR_def)
  then show "PG_FIRST_DIR_FROM_ADDR PMM_STACK_START = 1021 * 1024"
    by (simp add: PG_FIRST_DIR_FROM_ADDR_def push_bit_eq_mult)
qed

lemma last_page_new: "room l \<Longrightarrow> nth_page l 55 \<notin> nth_page l ` {0..<55}"
proof
  assume r: "room l" and "nth_page l 55 \<in> nth_page l ` {0..<55}"
  then obtain x where "x < 55" "nth_page l 55 = nth_page l x" by auto
  then show False using nth_page_eq [OF r, of 55 x] by simp
qed

lemma stack_table_run:
  assumes k: "kernel_paging l s" and cd: "current_directory s = Kernel_Directory"
    and s: "\<not> pmm_paging_active s" "pmm_location s = nth_page l 55"
  shows "\<exists>g. stack_table s = Inr ((), install_table 1021 (nth_page l 55) (s\<lparr>pmm_location := nth_page l 56, klog := g\<rparr>))"
proof -
  let ?P = "nth_page l 55"
  define g where "g = klog s @ [(''pmm_location alloc: 0x%.8x'' @ [CHR 0x0A], [?P])]"
  define u where "u = s\<lparr>pmm_location := nth_page l 56, klog := g\<rparr>"
  have a: "pmm_alloc_page s = Inr (?P, u)"
    using pmm_alloc_page_bump [OF s(1)] s(2) nth_page_Suc [of l 55] by (simp add: u_def g_def)
  have ku: "kernel_paging l u" using k by (simp add: kernel_paging_def u_def)
  have room: "room l" using k by (simp add: kernel_paging_def)
  have i: "(1021 :: u32) < 1024" by simp
  have np: "pde_at u 1021 = 0" by (rule boot_pde_empty [OF ku i]) (simp add: dir_used_def)
  have fP: "frame ?P = ?P" by (rule frame_nth_page [OF room]) simp
  have nP: "?P \<notin> pt_frames u" unfolding boot_paging_ok(2) [OF ku] by (rule last_page_new [OF room])
  have cu: "dirs u Kernel_Directory = curdir u" using cd by (simp add: u_def)
  have self: "self_mapped u" using boot_paging_ok(1) [OF ku] by (simp add: paging_ok_def)
  have st: "vst32 (dir_slot (curdir u) 1021) (table_entry ?P) u
      = Inr ((), u\<lparr>ram := st32 (ram u) (entry (cr3 u) 1021) (table_entry ?P)\<rparr>)"
    by (rule vst32_aligned [OF dir_window(2,1) [OF self i]])
  note ms = memset_table [OF boot_paging_ok(1) [OF ku] i np fP nP]
  have "stack_table s = Inr ((), install_table 1021 ?P u)"
    unfolding stack_table_def stack_slot_index using a st ms by (simp only: bnd_run gets_run cu sum.case prod.case)
  then show ?thesis unfolding u_def by blast
qed

lemma paging_ok_active [simp]: "paging_ok (s\<lparr>pmm_paging_active := b\<rparr>) = paging_ok s"
  by (simp add: paging_ok_def tables_ok_def self_mapped_def self_slot_def)

lemma empty_stack:
  assumes "pmm_stack_loc s = PMM_STACK_START" and "pmm_stack_max s = PMM_STACK_START" and "pmm_paging_active s"
  shows "stack_ok s" and "free_pages s = []" and "stack_frames s = {}" and "\<not> in_stack s a"
proof -
  show n: "\<not> in_stack s a" for a using assms(2) by (auto simp: in_stack_def)
  then show "stack_frames s = {}" by (simp add: stack_frames_def)
  then show "stack_ok s" using assms n
    by (simp add: stack_ok_def stack_mapped_def) (simp add: PMM_STACK_START_def PMM_STACK_END_def aligned4_def word_unat_eq_iff unat_off)
  show "free_pages s = []" by (simp add: free_pages_def stack_depth_def assms(1))
qed

text \<open>The final state, from the state just before the stack's table is made.\<close>

lemma boot_final:
  assumes k: "kernel_paging l u" and cd: "current_directory u = Kernel_Directory"
    and st: "pmm_stack_loc u = PMM_STACK_START" "pmm_stack_max u = PMM_STACK_START"
  defines "t \<equiv> (install_table 1021 (nth_page l 55) u)\<lparr>pmm_paging_active := True\<rparr>"
  shows "mm_ok t" and "kernel_space t" and "free_pages t = []" and "pt_frames t = nth_page l ` {0..<56}"
    and "unat a < 0x400000 \<Longrightarrow> translate t a = Some a"
    and "0x400000 \<le> unat a \<Longrightarrow> a < KHEAP_END \<Longrightarrow> translate t a = None"
    and "same_except (nth_page l ` {0..<56}) (ram u) (ram t)" and "stack_frames t = {}"
proof -
  let ?P = "nth_page l 55"
  have room: "room l" and cr3: "cr3 u = l" and cur: "curdir u = kernel_record l"
    using k by (simp_all add: kernel_paging_def)
  have ok: "paging_ok u" and pt: "pt_frames u = nth_page l ` {0..<55}" and ss: "self_slot u = 1023"
    by (rule boot_paging_ok [OF k])+
  have i: "(1021 :: u32) < 1024" by simp
  have np: "pde_at u 1021 = 0" by (rule boot_pde_empty [OF k i]) (simp add: dir_used_def)
  have fP: "frame ?P = ?P" by (rule frame_nth_page [OF room]) simp
  have nP: "?P \<notin> pt_frames u" unfolding pt by (rule last_page_new [OF room])
  note w = install_table_walk [OF ok i np fP nP]
  have tt: "translate t = translate (install_table 1021 ?P u)" "pde_at t = pde_at (install_table 1021 ?P u)"
    by (simp_all add: t_def)
  have okt: "paging_ok t" using w(3) by (simp add: t_def)
  have ft: "pmm_stack_loc t = PMM_STACK_START" "pmm_stack_max t = PMM_STACK_START" "pmm_paging_active t"
    "current_directory t = Kernel_Directory" "curdir t = kernel_record l"
    using st cd cur by (simp_all add: t_def install_table_def)
  have sst: "self_slot t = 1023" using ss by (simp add: self_slot_def t_def install_table_def)
  have "pt_frames t = insert ?P (pt_frames u)"
    using pt_frames_install [OF ok np fP nP i, of "pmm_stack_loc u"] by (simp add: t_def)
  also have "\<dots> = nth_page l ` {0..<56}"
  proof -
    have "{0..<56} = insert 55 {0..<55 :: nat}" by auto
    then show ?thesis by (simp add: pt)
  qed
  finally show ptt: "pt_frames t = nth_page l ` {0..<56}" .
  note e = empty_stack [OF ft(1-3)]
  show "free_pages t = []" "stack_frames t = {}" by (rule e(2,3))+
  show "mm_ok t" using okt e by (simp add: mm_ok_def pool_ok_def)
  have "present (pde_at t j)" if j: "960 \<le> j \<and> j < 1012 \<or> j = 1021 \<or> j = 1022" for j
  proof (cases "j = 1021")
    case True
    then show ?thesis using w(1) [OF i] by (simp add: tt)
  next
    case False
    have "j < 1024" using j by (auto simp: word_less_nat_alt)
    moreover have "dir_used j" using j False by (auto simp: dir_used_def)
    ultimately show ?thesis using w(1) [of j] boot_pde_entry(2) [OF k] False by (simp add: tt)
  qed
  then show "kernel_space t" using sst ft by (simp add: kernel_space_def kernel_record_def)
  have other: "translate t a = translate u a" if "PGDIR_IDX_FROM_ADDR a \<noteq> 1023" for a
    using that by (simp add: tt w(2) ss)
  show "translate t a = Some a" if a: "unat a < 0x400000"
  proof -
    have "PGDIR_IDX_FROM_ADDR a = 0" using a by (simp add: word_unat_eq_iff unat_PGDIR)
    then show ?thesis using boot_translate_identity [OF k a] other [of a] by simp
  qed
  show "translate t a = None" if a: "0x400000 \<le> unat a" "a < KHEAP_END"
  proof -
    let ?i = "PGDIR_IDX_FROM_ADDR a"
    have "unat a < 4244635648" using a(2) by (simp add: KHEAP_END_def word_less_nat_alt)
    then have r: "0 < unat ?i" "unat ?i < 1012" using a(1) by (simp_all add: unat_PGDIR div_greater_zero_iff)
    have "?i \<noteq> 0" "?i \<noteq> 1022" "?i \<noteq> 1023" using r by auto
    then have "dir_used ?i \<longrightarrow> 960 \<le> ?i \<and> ?i < 1012" by (simp add: dir_used_def)
    then show ?thesis using boot_translate_unmapped [OF k] other [of a] \<open>?i \<noteq> 1023\<close> by simp
  qed
  have fl: "frame l = l" using frame_nth_page [OF room, of 0] by simp
  have "same_except (nth_page l ` {0..<56}) (ram u) (st32 (ram u) (entry (cr3 u) 1021) (table_entry ?P))"
    by (rule same_except_st32) (simp_all add: page_simps cr3 fl image_eqI [of _ _ 0])
  moreover have "ram t = (\<lambda>a. if frame a = ?P then 0 else st32 (ram u) (entry (cr3 u) 1021) (table_entry ?P) a)"
    by (simp add: t_def install_table_def)
  ultimately show "same_except (nth_page l ` {0..<56}) (ram u) (ram t)" by (auto simp: same_except_def)
qed

lemma init_vmm_run:
  assumes s: "\<not> cr0_pg s" "\<not> pmm_paging_active s"
    and st: "pmm_stack_loc s = PMM_STACK_START" "pmm_stack_max s = PMM_STACK_START" and room: "room (pmm_location s)"
  shows "\<exists>t. init_vmm s = Inr ((), t) \<and> mm_ok t \<and> kernel_space t \<and> free_pages t = []
    \<and> stack_frames t = {} \<and> vm.more t = vm.more s
    \<and> pmm_location t = nth_page (pmm_location s) 56
    \<and> pt_frames t = nth_page (pmm_location s) ` {0..<56} \<and> same_except (pt_frames t) (ram s) (ram t)
    \<and> (\<forall>a. unat a < 0x400000 \<longrightarrow> translate t a = Some a)
    \<and> (\<forall>a. 0x400000 \<le> unat a \<and> a < KHEAP_END \<longrightarrow> translate t a = None)
    \<and> (\<forall>a. KHEAP_START \<le> a \<and> a < KHEAP_END \<longrightarrow> mappable t a \<and> present (pde_at t (PGDIR_IDX_FROM_ADDR a)))"
proof -
  define l where "l = pmm_location s"
  have r: "room l" using room by (simp add: l_def)
  obtain m k where run: "init_vmm s =
      bnd (switch_page_directory Kernel_Directory) (\<lambda>_.
      bnd enable_paging (\<lambda>_.
      bnd (gets current_directory) (\<lambda>c.
      if Kernel_Directory \<noteq> c then panic ''VMM: God doesn't exist.''
      else bnd stack_table (\<lambda>_. upd (\<lambda>s. s\<lparr>pmm_paging_active := True\<rparr>)))))
        (boot_step (s\<lparr>dirs := kernel_dirs s l\<rparr>) m (nth_page l 55) k)"
    and m: "boot_tables l m" "same_except (nth_page l ` {0..<55}) (ram s) m"
    using before_paging [OF s r l_def [symmetric]] by blast
  define u where "u = (boot_step (s\<lparr>dirs := kernel_dirs s l\<rparr>) m (nth_page l 55) k)
    \<lparr>current_directory := Kernel_Directory, cr3 := l, cr0_pg := True\<rparr>"
  have fu: "current_directory u = Kernel_Directory" "\<not> pmm_paging_active u" "pmm_location u = nth_page l 55" "ram u = m"
    using s by (simp_all add: u_def)
  have ku: "kernel_paging l u" using r m(1) by (simp add: kernel_paging_def u_def)
  obtain g where g: "stack_table u = Inr ((), install_table 1021 (nth_page l 55) (u\<lparr>pmm_location := nth_page l 56, klog := g\<rparr>))"
    using stack_table_run [OF ku fu(1-3)] by blast
  let ?v = "u\<lparr>pmm_location := nth_page l 56, klog := g\<rparr>"
  let ?t = "(install_table 1021 (nth_page l 55) ?v)\<lparr>pmm_paging_active := True\<rparr>"
  have kv: "kernel_paging l ?v" using ku by (simp add: kernel_paging_def)
  have fv: "current_directory ?v = Kernel_Directory" "pmm_stack_loc ?v = PMM_STACK_START" "pmm_stack_max ?v = PMM_STACK_START"
    using st by (simp_all add: u_def boot_step_def)
  have "init_vmm s = Inr ((), ?t)"
    unfolding run using g
    by (simp add: bnd_run switch_page_directory_def upd_run enable_paging_def gets_run kernel_record_def u_def [symmetric])
      (simp add: u_def boot_step_def kernel_record_def upd_run)
  note f = boot_final [OF kv fv]
  have loc: "pmm_location ?t = nth_page l 56" by (simp add: install_table_def)
  have more: "vm.more ?t = vm.more s" by (simp add: install_table_def u_def boot_step_def)
  have same: "same_except (nth_page l ` {0..<56}) (ram s) (ram ?t)"
  proof (rule same_except_trans)
    show "same_except (nth_page l ` {0..<56}) (ram s) m" by (rule same_except_mono [OF m(2)]) auto
    show "same_except (nth_page l ` {0..<56}) m (ram ?t)" using f(7) fu(4) by simp
  qed
  have ok: "paging_ok ?t" using f(1) by (simp add: mm_ok_def)
  have "mappable ?t a \<and> present (pde_at ?t (PGDIR_IDX_FROM_ADDR a))" if "KHEAP_START \<le> a" "a < KHEAP_END" for a
    using heap_mappable [OF ok f(2) that] heap_slot [OF that] f(2) by (simp add: kernel_space_def)
  then show ?thesis
    using \<open>init_vmm s = Inr ((), ?t)\<close> f loc same more unfolding l_def [symmetric] by (intro exI [of _ ?t]) simp
qed

text \<open>C6: \<open>init_vmm\<close> returns and establishes the invariant of the memory managers. With paging off and
  room for 56 pages from \<open>pmm_location\<close> on it takes exactly those pages, and they are the pages of the
  tables; the first four megabytes are mapped to themselves and everything else up to the end of the heap
  is unmapped; every address of the heap can then be mapped without a new table; no frame is free yet, and no
  other memory has changed.\<close>

theorem init_vmm_establishes_invariant:
  assumes s: "\<not> cr0_pg s" "\<not> pmm_paging_active s"
    and st: "pmm_stack_loc s = PMM_STACK_START" "pmm_stack_max s = PMM_STACK_START" and room: "room (pmm_location s)"
  shows "\<exists>t. init_vmm s = Inr ((), t) \<and> mm_ok t \<and> kernel_space t \<and> free_pages t = []
    \<and> pmm_location t = nth_page (pmm_location s) 56
    \<and> pt_frames t = nth_page (pmm_location s) ` {0..<56} \<and> same_except (pt_frames t) (ram s) (ram t)
    \<and> (\<forall>a. unat a < 0x400000 \<longrightarrow> translate t a = Some a)
    \<and> (\<forall>a. 0x400000 \<le> unat a \<and> a < KHEAP_END \<longrightarrow> translate t a = None)
    \<and> (\<forall>a. KHEAP_START \<le> a \<and> a < KHEAP_END \<longrightarrow> mappable t a \<and> present (pde_at t (PGDIR_IDX_FROM_ADDR a)))"
  using init_vmm_run [OF assms] by blast

text \<open>The kernel ends at 0x200000.\<close>

definition demo_reset :: vm where
  "demo_reset = (flat_memory (\<lambda>_. 0))\<lparr>pmm_stack_loc := PMM_STACK_START, pmm_stack_max := PMM_STACK_START,
     pmm_location := 0x201000\<rparr>"

lemma demo_reset_state:
  "\<not> cr0_pg demo_reset" "\<not> pmm_paging_active demo_reset" "pmm_stack_loc demo_reset = PMM_STACK_START"
  "pmm_stack_max demo_reset = PMM_STACK_START" "pmm_location demo_reset = 0x201000" "room 0x201000"
  by (simp_all add: demo_reset_def flat_memory_def room_def PAGE_FLAGS_MASK_def)

theorem init_vmm_establishes_invariant_witness:
  "\<exists>t. init_vmm demo_reset = Inr ((), t) \<and> mm_ok t \<and> pmm_location t = 0x239000 \<and> translate t 0x1234 = Some 0x1234
    \<and> translate t 0xF0000000 = None"
proof -
  have p: "nth_page 0x201000 56 = 0x239000" by (simp add: nth_page_def PAGE_SIZE_def)
  have a: "unat (0x1234 :: u32) < 0x400000" "0x400000 \<le> unat (0xF0000000 :: u32)" "(0xF0000000 :: u32) < KHEAP_END"
    by (simp_all add: KHEAP_END_def)
  note d = demo_reset_state
  have r: "room (pmm_location demo_reset)" by (simp only: d(5,6))
  obtain t where t: "init_vmm demo_reset = Inr ((), t)" "mm_ok t" "pmm_location t = nth_page (pmm_location demo_reset) 56"
    "\<forall>a. unat a < 0x400000 \<longrightarrow> translate t a = Some a"
    "\<forall>a. 0x400000 \<le> unat a \<and> a < KHEAP_END \<longrightarrow> translate t a = None"
    using init_vmm_establishes_invariant [OF d(1-4) r] by blast
  then show ?thesis using a p d(5) by auto
qed

end
