(* ===== verification/Kernel_Collect.thy ===== *)
theory Kernel_Collect
  imports Kernel_Boot_Props
begin

text \<open>
  The memory map of the boot loader becomes the pool of free frames: \<open>pmm_collect_pages\<close> of
  \<open>kernel/mm/pmm.c\<close> after \<open>init_vmm\<close>. The stack of free frames can hold every
  frame there is, so no release of a fresh frame panics.
\<close>

section \<open>The stack never overflows\<close>

lemma few_pages: "finite {p :: u32. frame p = p} \<and> card {p :: u32. frame p = p} \<le> 1048576"
proof -
  have "{p :: u32. frame p = p} \<subseteq> (\<lambda>n. of_nat (n * 4096)) ` {..<1048576}"
  proof
    fix p :: u32 assume "p \<in> {p. frame p = p}"
    then have "unat p = unat p div 4096 * 4096" using unat_frame [of p] by simp
    moreover have "of_nat (unat p) = p" by simp
    ultimately have "p = of_nat (unat p div 4096 * 4096)" by metis
    moreover have "unat p div 4096 < 1048576" using unat_u32_less [of p] by simp
    ultimately show "p \<in> (\<lambda>n. of_nat (n * 4096)) ` {..<1048576}" by blast
  qed
  then have s: "finite {p :: u32. frame p = p}" "card {p :: u32. frame p = p} \<le> card ((\<lambda>n. of_nat (n * 4096) :: u32) ` {..<1048576 :: nat})"
    by (auto intro: finite_subset card_mono)
  have "card ((\<lambda>n. of_nat (n * 4096) :: u32) ` {..<1048576 :: nat}) \<le> card {..<1048576 :: nat}"
    by (rule card_image_le) simp
  with s show ?thesis by simp
qed

lemma stack_has_room:
  assumes ok: "mm_ok s" and full: "pmm_stack_loc s = pmm_stack_max s"
  shows "pmm_stack_max s < PMM_STACK_END"
proof (rule ccontr)
  assume "\<not> pmm_stack_max s < PMM_STACK_END"
  moreover have sok: "stack_ok s" and pool: "pool_ok s" using ok by (simp_all add: mm_ok_def)
  ultimately have m: "pmm_stack_max s = PMM_STACK_END" using stack_bounds(5) [OF sok]
    by (simp add: stack_ok_def)
  have d: "stack_depth s = 1048576"
    using full m by (simp add: stack_depth_def unat_stack_end unat_stack_start)
  have "in_stack s PMM_STACK_START" by (simp add: in_stack_def m PMM_STACK_START_def PMM_STACK_END_def)
  then obtain q where "translate s PMM_STACK_START = Some q"
    using stack_okD(1) [OF sok] unfolding stack_mapped_def by blast
  with \<open>in_stack s PMM_STACK_START\<close> have q: "frame q \<in> stack_frames s" by (auto simp: stack_frames_def)
  have "set (free_pages s) \<subseteq> {p. frame p = p} - {frame q}"
    using pool q unfolding pool_ok_def by fastforce
  then have "card (set (free_pages s)) \<le> card ({p :: u32. frame p = p} - {frame q})"
    using few_pages by (intro card_mono) simp_all
  also have "\<dots> < card {p :: u32. frame p = p}" using few_pages by (intro card_Diff1_less) simp_all
  also have "\<dots> \<le> 1048576" using few_pages by simp
  finally have "card (set (free_pages s)) < 1048576" .
  moreover have "card (set (free_pages s)) = 1048576"
  proof -
    have "card (set (free_pages s)) = length (free_pages s)"
      by (rule distinct_card) (use pool in \<open>simp add: pool_ok_def\<close>)
    then show ?thesis using d by (simp add: free_pages_def)
  qed
  ultimately show False by simp
qed

section \<open>One frame\<close>

text \<open>
  While memory is collected: the managers' invariant, the kernel's address space, and
  memory below \<open>L\<close> that is mapped to itself and stays as it is.
\<close>

definition collecting :: "nat \<Rightarrow> 'a vm_scheme \<Rightarrow> bool" where
  "collecting L s \<longleftrightarrow> mm_ok s \<and> kernel_space s \<and> L \<le> 0x400000 \<and> L \<le> unat (pmm_location s)
     \<and> (\<forall>f \<in> pt_frames s. L \<le> unat f \<and> f < pmm_location s) \<and> (\<forall>f \<in> pool_frames s. pmm_location s \<le> f)
     \<and> (\<forall>a. unat a < L \<longrightarrow> translate s a = Some a)"

lemma frame_le: "frame a \<le> a"
  by (simp add: word_le_nat_alt unat_frame)

lemma stack_top_mapped:
  assumes ok: "mm_ok s" and k: "kernel_space s" and full: "pmm_stack_loc s = pmm_stack_max s"
  shows "present (pde_at s (PGDIR_IDX_FROM_ADDR (pmm_stack_max s)))"
    and "\<not> window s (pmm_stack_max s)" and "kernel_view s (pmm_stack_max s)"
proof -
  let ?m = "pmm_stack_max s"
  have sok: "stack_ok s" and pg: "paging_ok s" using ok by (simp_all add: mm_ok_def)
  have lo: "4286574592 \<le> unat ?m"
    using sok full by (simp add: stack_ok_def word_le_nat_alt unat_stack_start)
  have hi: "unat ?m < 4290768896"
    using stack_has_room [OF ok full] by (simp add: word_less_nat_alt unat_stack_end)
  have "1021 \<le> unat ?m div 4194304" using div_le_mono [OF lo, of 4194304] by simp
  moreover have "unat ?m div 4194304 < 1023" using hi by (simp add: div_less_iff_less_mult)
  ultimately have "unat ?m div 4194304 = 1021 \<or> unat ?m div 4194304 = 1022" by linarith
  then have i: "PGDIR_IDX_FROM_ADDR ?m = 1021 \<or> PGDIR_IDX_FROM_ADDR ?m = 1022"
    by (simp add: word_unat_eq_iff unat_PGDIR)
  then show pr: "present (pde_at s (PGDIR_IDX_FROM_ADDR ?m))"
    using k unfolding kernel_space_def by metis
  have "off ?m = 0" using sok by (simp add: stack_ok_def)
  then have fm: "frame ?m = ?m" using frame_plus_off [of ?m] by simp
  show "\<not> window s ?m"
  proof (rule kernel_space_window [OF k])
    show "PGDIR_IDX_FROM_ADDR ?m \<noteq> 1023" using i by auto
    show "frame ?m \<noteq> KERNEL_DIR_VIRTUAL" using hi unfolding fm by (auto simp: KERNEL_DIR_VIRTUAL_def)
  qed
  show "kernel_view s ?m" by (rule kernel_space_view [OF pg k pr])
qed

lemma free_frame:
  assumes ok: "mm_ok s" and k: "kernel_space s" and loc: "pmm_location s \<le> frame p"
    and new: "frame p \<notin> set (free_pages s) \<union> pt_frames s \<union> stack_frames s"
  shows "\<exists>t. pmm_free_page p s = Inr ((), t) \<and> mm_ok t \<and> frees p s t
    \<and> (\<forall>a. a < PMM_STACK_START \<longrightarrow> translate t a = translate s a)"
proof (cases "pmm_stack_loc s < pmm_stack_max s")
  case True
  then show ?thesis using pmm_free_page_pushes [OF ok loc _ new] by auto
next
  case False
  have sok: "stack_ok s" using ok by (simp add: mm_ok_def)
  then have full: "pmm_stack_loc s = pmm_stack_max s" using False by (simp add: stack_ok_def)
  note m = stack_top_mapped [OF ok k full]
  obtain t where t: "pmm_free_page p s = Inr ((), t)" "mm_ok t" "frees p s t"
    "translate t = (\<lambda>x. if frame x = frame (pmm_stack_max s) then Some (frame p + off x) else translate s x)"
    using pmm_free_page_grows [OF ok loc full stack_has_room [OF ok full] m new] by blast
  have "off (pmm_stack_max s) = 0" "PMM_STACK_START \<le> pmm_stack_max s" using sok full by (simp_all add: stack_ok_def)
  then have fm: "PMM_STACK_START \<le> frame (pmm_stack_max s)" using frame_plus_off [of "pmm_stack_max s"] by simp
  have "frame a \<noteq> frame (pmm_stack_max s)" if "a < PMM_STACK_START" for a
    using frame_le [of a] that fm by auto
  then show ?thesis using t by auto
qed

text \<open>Everything the map's reader sees stays as it is.\<close>

definition same_low :: "nat \<Rightarrow> 'a vm_scheme \<Rightarrow> 'a vm_scheme \<Rightarrow> bool" where
  "same_low L s t \<longleftrightarrow> (\<forall>a. unat a < L \<longrightarrow> view t a = view s a) \<and> pmm_location t = pmm_location s
     \<and> pt_frames t = pt_frames s \<and> vm.more t = vm.more s"

lemma same_low_refl [simp]: "same_low L s s"
  by (simp add: same_low_def)

lemma same_low_trans: "same_low L s t \<Longrightarrow> same_low L t u \<Longrightarrow> same_low L s u"
  by (simp add: same_low_def)

lemma same_low_word: "same_low L s t \<Longrightarrow> b + 4 \<le> L \<Longrightarrow> L \<le> 4294967296 \<Longrightarrow> word_at s (of_nat b) v \<Longrightarrow> word_at t (of_nat b) v"
  using word_at_nat [of b t s v] by (simp add: same_low_def)

lemma collect_frame:
  assumes c: "collecting L s" and new: "pmm_location s \<le> frame p \<Longrightarrow> frame p \<notin> pool_frames s"
  shows "\<exists>t. pmm_free_page p s = Inr ((), t) \<and> collecting L t \<and> same_low L s t
    \<and> pool_frames t = pool_frames s \<union> (if pmm_location s \<le> frame p then {frame p} else {})"
proof (cases "pmm_location s \<le> frame p")
  case False
  then show ?thesis using c pmm_free_page_reserved [of p s] by auto
next
  case True
  note cc = c [unfolded collecting_def]
  have "frame p \<notin> pt_frames s" using cc True by (meson leD)
  then have nw: "frame p \<notin> set (free_pages s) \<union> pt_frames s \<union> stack_frames s"
    using new [OF True] by (simp add: pool_frames_def)
  obtain t where t: "pmm_free_page p s = Inr ((), t)" "mm_ok t" "frees p s t"
    "\<forall>a. a < PMM_STACK_START \<longrightarrow> translate t a = translate s a"
    using free_frame [OF _ _ True nw] cc by blast
  note f = t(3) [unfolded frees_def]
  have g: "t = s\<lparr>ram := ram t, pmm_stack_loc := pmm_stack_loc t, pmm_stack_max := pmm_stack_max t, klog := klog t\<rparr>"
    using f by blast
  have fields: "pmm_location t = pmm_location s" "current_directory t = current_directory s" "dirs t = dirs s"
    by (subst g, simp)+
  have ks: "kernel_space t"
  proof -
    have "self_slot t = self_slot s" by (simp add: self_slot_def fields)
    moreover have "pde_at t i = pde_at s i" if "960 \<le> i \<and> i < 1012 \<or> i = 1021 \<or> i = 1022" for i
      using f that by (auto simp: word_less_nat_alt)
    moreover have "curdir t = curdir s" by (simp add: fields)
    moreover have k: "kernel_space s" using cc by blast
    ultimately show ?thesis using k [unfolded kernel_space_def] unfolding kernel_space_def
      by (intro conjI allI impI) (simp_all only: fields)
  qed
  have "L \<le> 0x400000" using cc by blast
  then have L: "a < PMM_STACK_START" if "unat a < L" for a
    using that by (simp add: word_less_nat_alt unat_stack_start)
  have "view t a = view s a" if a: "unat a < L" for a
  proof -
    have "translate s a = Some a" "translate t a = Some a" using cc t(4) L [OF a] a by simp_all
    moreover have "frame a \<notin> pt_frames s \<union> stack_frames s"
    proof -
      have fa: "unat (frame a) < L" using frame_le [of a] a by (simp add: word_le_nat_alt)
      have "L \<le> unat (pmm_location s)" using cc by blast
      then have "frame a < pmm_location s" using fa by (simp add: word_less_nat_alt)
      then have "frame a \<notin> pool_frames s" using cc by (meson leD)
      moreover have "frame a \<notin> pt_frames s" using cc fa by (meson leD)
      ultimately show ?thesis by (simp add: pool_frames_def)
    qed
    then have "ram t a = ram s a" using f by (simp add: same_except_def)
    ultimately show ?thesis by (simp add: view_def)
  qed
  moreover have "vm.more t = vm.more s" using arg_cong [OF conjunct1 [OF f], of vm.more] by simp
  ultimately have low: "same_low L s t" using f fields by (simp add: same_low_def)
  have pool: "pool_frames t = insert (frame p) (pool_frames s)" and pt: "pt_frames t = pt_frames s" using f by blast+
  have "translate t a = Some a" if "unat a < L" for a
    using cc t(4) L [OF that] that by simp
  then have "collecting L t"
    using cc t(2) ks True unfolding collecting_def fields pool pt by blast
  then show ?thesis using t(1) low pool True by auto
qed

section \<open>One entry of the map\<close>

text \<open>The frames that the inner loop releases: those of the addresses from \<open>j\<close> to \<open>e\<close> in steps of a page.\<close>

definition region :: "nat \<Rightarrow> nat \<Rightarrow> u32 set" where
  "region j e = (\<lambda>i. frame (of_nat (j + 4096 * i))) ` {i. j + 4096 * i < e}"

lemma region_end: "e \<le> j \<Longrightarrow> region j e = {}"
  by (auto simp: region_def)

lemma region_step:
  assumes "j < e"
  shows "region j e = insert (frame (of_nat j)) (region (j + 4096) e)"
proof -
  have "{i. j + 4096 * i < e} = insert 0 (Suc ` {i. j + 4096 + 4096 * i < e})"
  proof (intro equalityI subsetI)
    fix i assume "i \<in> {i. j + 4096 * i < e}"
    then show "i \<in> insert 0 (Suc ` {i. j + 4096 + 4096 * i < e})"
      by (cases i) (auto simp: algebra_simps)
  qed (use assms in \<open>auto simp: algebra_simps\<close>)
  then show ?thesis by (simp add: region_def image_image algebra_simps del: of_nat_add)
qed

lemma frame_of_nat: "n < 4294967296 \<Longrightarrow> unat (frame (of_nat n)) = n div 4096 * 4096"
  by (simp add: unat_frame unat_of_nat)

lemma region_fresh:
  assumes "e \<le> 4294967296" and "j < e"
  shows "frame (of_nat j) \<notin> region (j + 4096) e"
proof
  assume "frame (of_nat j) \<in> region (j + 4096) e"
  then obtain i where i: "j + 4096 + 4096 * i < e" "(frame (of_nat j) :: u32) = frame (of_nat (j + 4096 + 4096 * i))"
    by (auto simp: region_def)
  then have "unat (frame (of_nat j) :: u32) = unat (frame (of_nat (j + 4096 + 4096 * i)) :: u32)" by simp
  moreover have "unat (frame (of_nat j) :: u32) = j div 4096 * 4096"
    by (rule frame_of_nat) (use assms in simp)
  moreover have "unat (frame (of_nat (j + 4096 + 4096 * i)) :: u32) = (j + 4096 + 4096 * i) div 4096 * 4096"
    by (rule frame_of_nat) (use assms i(1) in simp)
  moreover have "(j + 4096 + 4096 * i) div 4096 = j div 4096 + 1 + i"
  proof -
    have "j + 4096 + 4096 * i = j + 4096 * (1 + i)" by simp
    then show ?thesis by (simp only: div_mult_self2 [of "4096 :: nat" j "1 + i"])
  qed
  ultimately show False by simp
qed

lemma free_frames_run:
  assumes c: "collecting L s" and me: "me + 16 \<le> L"
    and w: "word_at s (of_nat (me + 4)) base" "word_at s (of_nat (me + 12)) len"
    and e: "unat (base + len) = e" "e + 4096 \<le> 4294967296"
    and j: "j \<le> e + 4095" "e + 4096 \<le> j + 4096 * fuel"
    and new: "\<forall>f \<in> region j e. pmm_location s \<le> f \<longrightarrow> f \<notin> pool_frames s"
  shows "\<exists>t. free_frames fuel (of_nat me) (of_nat j) s = Inr ((), t) \<and> collecting L t \<and> same_low L s t
    \<and> pool_frames t = pool_frames s \<union> {f \<in> region j e. pmm_location s \<le> f}"
  using c w j new
proof (induction fuel arbitrary: j s)
  case 0
  then show ?case by simp
next
  case (Suc fuel)
  have L: "L \<le> 4294967296" using Suc.prems(1) by (simp add: collecting_def)
  have rd: "me_base_addr_low (of_nat me) s = Inr (base, s)" "me_length_low (of_nat me) s = Inr (len, s)"
    using vld32_word [OF Suc.prems(2)] vld32_word [OF Suc.prems(3)] by (simp_all add: me_base_addr_low_def me_length_low_def)
  have uj: "unat (of_nat j :: u32) = j" using Suc.prems(4) e(2) by (simp add: unat_of_nat)
  have lt: "(of_nat j :: u32) < base + len \<longleftrightarrow> j < e" using uj e(1) by (simp add: word_less_nat_alt)
  show ?case
  proof (cases "j < e")
    case False
    then show ?thesis using Suc.prems(1) rd lt by (auto simp: region_end cmd_simps)
  next
    case True
    note reg = region_step [OF True]
    have n1: "pmm_location s \<le> frame (of_nat j) \<Longrightarrow> frame (of_nat j) \<notin> pool_frames s"
      using Suc.prems(6) reg by blast
    obtain u where u: "pmm_free_page (of_nat j) s = Inr ((), u)" "collecting L u" "same_low L s u"
      "pool_frames u = pool_frames s \<union> (if pmm_location s \<le> frame (of_nat j) then {frame (of_nat j)} else {})"
      using collect_frame [OF Suc.prems(1) n1] by blast
    have loc: "pmm_location u = pmm_location s" using u(3) by (simp add: same_low_def)
    have wu: "word_at u (of_nat (me + 4)) base" "word_at u (of_nat (me + 12)) len"
      by (rule same_low_word [OF u(3) _ L]; use Suc.prems(2,3) me in \<open>simp del: of_nat_add\<close>)+
    have j': "j + 4096 \<le> e + 4095" "e + 4096 \<le> j + 4096 + 4096 * fuel" using True Suc.prems(5) by simp_all
    have "frame (of_nat j) \<notin> region (j + 4096) e" by (rule region_fresh) (use e(2) True in simp_all)
    then have n2: "\<forall>f \<in> region (j + 4096) e. pmm_location u \<le> f \<longrightarrow> f \<notin> pool_frames u"
      using Suc.prems(6) reg unfolding loc u(4) by (auto split: if_splits)
    obtain t where t: "free_frames fuel (of_nat me) (of_nat (j + 4096)) u = Inr ((), t)" "collecting L t" "same_low L u t"
      "pool_frames t = pool_frames u \<union> {f \<in> region (j + 4096) e. pmm_location u \<le> f}"
      using Suc.IH [OF u(2) wu j' n2] by blast
    have step: "(of_nat j :: u32) + 0x1000 = of_nat (j + 4096)" by simp
    have "free_frames (Suc fuel) (of_nat me) (of_nat j) s = Inr ((), t)"
      using rd lt True u(1) t(1) by (simp only: free_frames.simps bnd_run sum.case prod.case step if_True simp_thms)
    moreover have "pool_frames t = pool_frames s \<union> {f \<in> region j e. pmm_location s \<le> f}"
      unfolding t(4) u(4) reg loc by auto
    ultimately show ?thesis using t(2) same_low_trans [OF u(3) t(3)] by blast
  qed
qed

section \<open>The whole map\<close>

text \<open>
  An entry: its size without the size field itself, the low words of base and length, and the
  type. \<open>mmap_at s a es e\<close>: the entries \<open>es\<close> lie from \<open>a\<close> to \<open>e\<close>.
\<close>

type_synonym mmap_entry = "u32 \<times> u32 \<times> u32 \<times> u32"

fun mmap_at :: "'a vm_scheme \<Rightarrow> nat \<Rightarrow> mmap_entry list \<Rightarrow> nat \<Rightarrow> bool" where
  "mmap_at s a [] e \<longleftrightarrow> a = e"
| "mmap_at s a ((sz, base, len, ty) # es) e \<longleftrightarrow>
     word_at s (of_nat a) sz \<and> word_at s (of_nat (a + 4)) base \<and> word_at s (of_nat (a + 12)) len
     \<and> word_at s (of_nat (a + 20)) ty \<and> 20 \<le> unat sz \<and> mmap_at s (a + unat sz + 4) es e"

fun usable :: "mmap_entry list \<Rightarrow> u32 set" where
  "usable [] = {}"
| "usable ((sz, base, len, ty) # es) =
     (if ty = MULTIBOOT_MEMORY_AVAILABLE then region (unat base) (unat base + unat len) else {}) \<union> usable es"

text \<open>Available memory ends below the last page of the address space, and no frame belongs to two entries.\<close>

fun map_ok :: "mmap_entry list \<Rightarrow> bool" where
  "map_ok [] \<longleftrightarrow> True"
| "map_ok ((sz, base, len, ty) # es) \<longleftrightarrow> (ty = MULTIBOOT_MEMORY_AVAILABLE \<longrightarrow>
     unat base + unat len + 4096 \<le> 4294967296 \<and> region (unat base) (unat base + unat len) \<inter> usable es = {})
     \<and> map_ok es"

lemma mmap_at_le: "mmap_at s a es e \<Longrightarrow> a + 24 * length es \<le> e"
proof (induction es arbitrary: a)
  case (Cons x es)
  then obtain sz base len ty where x: "x = (sz, base, len, ty)" by (cases x) auto
  with Cons.prems have "20 \<le> unat sz" "mmap_at s (a + unat sz + 4) es e" by simp_all
  with Cons.IH [of "a + unat sz + 4"] show ?case by simp
qed simp

lemma mmap_at_same: "mmap_at s a es e \<Longrightarrow> e \<le> L \<Longrightarrow> same_low L s t \<Longrightarrow> L \<le> 4294967296 \<Longrightarrow> mmap_at t a es e"
proof (induction es arbitrary: a)
  case (Cons x es)
  obtain sz base len ty where x: "x = (sz, base, len, ty)" by (cases x) auto
  have m: "mmap_at s (a + unat sz + 4) es e" "20 \<le> unat sz" using Cons.prems(1) x by simp_all
  have le: "a + 24 \<le> L" using mmap_at_le [OF m(1)] m(2) Cons.prems(2) by simp
  have w: "word_at s (of_nat b) v \<Longrightarrow> b + 4 \<le> a + 24 \<Longrightarrow> word_at t (of_nat b) v" for b v
    using same_low_word [OF Cons.prems(3) _ Cons.prems(4), of b v] le by simp
  have "mmap_at t (a + unat sz + 4) es e" by (rule Cons.IH [OF m(1) Cons.prems(2-4)])
  then show ?case using Cons.prems(1) unfolding x mmap_at.simps
    by (elim conjE, intro conjI) (assumption | rule w, assumption, simp)+
qed simp

lemma log_collecting: "collecting L s \<Longrightarrow> collecting L (s\<lparr>klog := k\<rparr>)" "same_low L s (s\<lparr>klog := k\<rparr>)"
  "pool_frames (s\<lparr>klog := k\<rparr>) = pool_frames s"
proof -
  have w: "stack_word (s\<lparr>klog := k\<rparr>) = stack_word s" by (simp add: stack_word_def fun_eq_iff)
  have i: "in_stack (s\<lparr>klog := k\<rparr>) = in_stack s" by (simp add: in_stack_def fun_eq_iff)
  have f: "free_pages (s\<lparr>klog := k\<rparr>) = free_pages s" "stack_frames (s\<lparr>klog := k\<rparr>) = stack_frames s"
    by (simp_all add: free_pages_def w stack_depth_def stack_frames_def i)
  then show p: "pool_frames (s\<lparr>klog := k\<rparr>) = pool_frames s" by (simp add: pool_frames_def)
  show "same_low L s (s\<lparr>klog := k\<rparr>)" by (simp add: same_low_def view_def)
  have "mm_ok (s\<lparr>klog := k\<rparr>) = mm_ok s"
    by (simp add: mm_ok_def stack_ok_def stack_mapped_def pool_ok_def f i)
  moreover have "kernel_space (s\<lparr>klog := k\<rparr>) = kernel_space s" by (simp add: kernel_space_def)
  ultimately show "collecting L s \<Longrightarrow> collecting L (s\<lparr>klog := k\<rparr>)"
    by (simp add: collecting_def p)
qed

lemma collect_loop_run:
  assumes c: "collecting L s" and mb: "word_at s (of_nat (mb + 44)) ml" "word_at s (of_nat (mb + 48)) ma" "mb + 52 \<le> L"
    and e: "unat (ma + ml) = e" "e \<le> L" and m: "mmap_at s a es e" "map_ok es" and fuel: "length es < fuel"
    and new: "\<forall>f \<in> usable es. pmm_location s \<le> f \<longrightarrow> f \<notin> pool_frames s"
  shows "\<exists>t. collect_loop fuel (of_nat mb) (of_nat a) s = Inr ((), t) \<and> collecting L t \<and> same_low L s t
    \<and> pool_frames t = pool_frames s \<union> {f \<in> usable es. pmm_location s \<le> f}"
  using c mb(1,2) m fuel new
proof (induction es arbitrary: a s fuel)
  case Nil
  obtain n where n: "fuel = Suc n" using Nil.prems(6) by (cases fuel) auto
  have "a = e" "e < 4294967296" using Nil.prems(4) e(1) unat_u32_less [of "ma + ml"] by simp_all
  then have "\<not> of_nat a < ma + ml" using e(1) by (simp add: word_less_nat_alt unat_of_nat)
  moreover have "mmap_addr (of_nat mb) s = Inr (ma, s)" "mmap_length (of_nat mb) s = Inr (ml, s)"
    using vld32_word [OF Nil.prems(2)] vld32_word [OF Nil.prems(3)] by (simp_all add: mmap_addr_def mmap_length_def)
  ultimately show ?case using Nil.prems(1) by (simp add: n cmd_simps)
next
  case (Cons x es)
  obtain n where n: "fuel = Suc n" "length es < n" using Cons.prems(6) by (cases fuel) auto
  obtain sz base len ty where x: "x = (sz, base, len, ty)" by (cases x) auto
  have L: "L \<le> 0x400000" "L \<le> 4294967296" using Cons.prems(1) by (simp_all add: collecting_def)
  have xe: "word_at s (of_nat a) sz" "word_at s (of_nat (a + 4)) base" "word_at s (of_nat (a + 12)) len"
    "word_at s (of_nat (a + 20)) ty" "20 \<le> unat sz" "mmap_at s (a + unat sz + 4) es e"
    using Cons.prems(4) unfolding x mmap_at.simps by blast+
  have le: "a + 24 \<le> e" using mmap_at_le [OF xe(6)] xe(5) by simp
  have "unat (of_nat a :: u32) = a" using le e(2) L by (simp add: unat_of_nat)
  then have lt: "of_nat a < ma + ml" using le e(1) by (simp add: word_less_nat_alt)
  have rd: "mmap_addr (of_nat mb) s = Inr (ma, s)" "mmap_length (of_nat mb) s = Inr (ml, s)"
    "me_type (of_nat a) s = Inr (ty, s)" "me_base_addr_low (of_nat a) s = Inr (base, s)" "me_length_low (of_nat a) s = Inr (len, s)"
    using vld32_word [OF Cons.prems(2)] vld32_word [OF Cons.prems(3)] vld32_word [OF xe(2)] vld32_word [OF xe(3)]
      vld32_word [OF xe(4)]
    by (simp_all add: mmap_addr_def mmap_length_def me_type_def me_base_addr_low_def me_length_low_def)
  let ?now = "if ty = MULTIBOOT_MEMORY_AVAILABLE then region (unat base) (unat base + unat len) else {}"
  let ?body = "if ty = MULTIBOOT_MEMORY_AVAILABLE then
              bnd (me_base_addr_low (of_nat a)) (\<lambda>base.
              bnd (me_length_low (of_nat a)) (\<lambda>len.
              bnd (kprintf_log (''0x%.8x'' @ [CHR 0x09] @ ''0x%.8x'' @ [CHR 0x0A]) [base, base + len]) (\<lambda>_.
              free_frames page_fuel (of_nat a) base)))
            else skip"
  obtain u where u: "?body s = Inr ((), u)" "collecting L u" "same_low L s u"
    "pool_frames u = pool_frames s \<union> {f \<in> ?now. pmm_location s \<le> f}"
  proof (cases "ty = MULTIBOOT_MEMORY_AVAILABLE")
    case False
    then show ?thesis using that [of s] Cons.prems(1) by (simp add: skip_run)
  next
    case True
    define k where "k = klog s @ [(''0x%.8x'' @ [CHR 0x09] @ ''0x%.8x'' @ [CHR 0x0A], [base, base + len])]"
    let ?s = "s\<lparr>klog := k\<rparr>"
    have ok: "unat base + unat len + 4096 \<le> 4294967296" using Cons.prems(5) True x by simp
    then have sum: "unat (base + len) = unat base + unat len" by (simp add: unat_word_ariths)
    have w: "word_at ?s (of_nat (a + 4)) base" "word_at ?s (of_nat (a + 12)) len"
      using same_low_word [OF log_collecting(2) _ L(2), of "a + 4" s base k] same_low_word [OF log_collecting(2) _ L(2), of "a + 12" s len k]
        xe(2,3) le e(2) by simp_all
    have fresh: "\<forall>f \<in> region (unat base) (unat base + unat len). pmm_location ?s \<le> f \<longrightarrow> f \<notin> pool_frames ?s"
      using Cons.prems(7) True x by (simp add: log_collecting(3))
    obtain v where v: "free_frames page_fuel (of_nat a) (of_nat (unat base)) ?s = Inr ((), v)" "collecting L v" "same_low L ?s v"
      "pool_frames v = pool_frames ?s \<union> {f \<in> region (unat base) (unat base + unat len). pmm_location ?s \<le> f}"
      using free_frames_run [OF log_collecting(1) [OF Cons.prems(1)] _ w sum ok _ _ fresh, of page_fuel] le e(2) ok
      by (auto simp: page_fuel_def)
    have "?body s = Inr ((), v)" using True rd v(1) by (simp add: bnd_run kprintf_log_def upd_run k_def)
    then show ?thesis
      using that v(2) same_low_trans [OF log_collecting(2) v(3)] v(4) True by (simp add: log_collecting(3))
  qed
  have loc: "pmm_location u = pmm_location s" using u(3) by (simp add: same_low_def)
  have wu: "word_at u (of_nat (mb + 44)) ml" "word_at u (of_nat (mb + 48)) ma"
    by (rule same_low_word [OF u(3) _ L(2)]; use Cons.prems(2,3) mb(3) in \<open>simp del: of_nat_add\<close>)+
  have mu: "mmap_at u (a + unat sz + 4) es e" by (rule mmap_at_same [OF xe(6) e(2) u(3) L(2)])
  have su: "me_size (of_nat a) u = Inr (sz, u)"
    using vld32_word [OF same_low_word [OF u(3) _ L(2) xe(1)]] le e(2) by (simp add: me_size_def)
  have ok: "map_ok es" using Cons.prems(5) x by simp
  have n2: "\<forall>f \<in> usable es. pmm_location u \<le> f \<longrightarrow> f \<notin> pool_frames u"
    using Cons.prems(5,7) x unfolding loc u(4) by (auto split: if_splits)
  obtain t where t: "collect_loop n (of_nat mb) (of_nat (a + unat sz + 4)) u = Inr ((), t)" "collecting L t" "same_low L u t"
    "pool_frames t = pool_frames u \<union> {f \<in> usable es. pmm_location u \<le> f}"
    using Cons.IH [OF u(2) wu mu ok n(2) n2] by blast
  have step: "(of_nat a :: u32) + (sz + 4) = of_nat (a + unat sz + 4)" by simp
  have "collect_loop fuel (of_nat mb) (of_nat a) s = Inr ((), t)"
    unfolding n(1) collect_loop.simps
    using rd(1-3) lt u(1) su t(1) by (simp only: bnd_run sum.case prod.case step if_True)
  moreover have "pool_frames t = pool_frames s \<union> {f \<in> usable (x # es). pmm_location s \<le> f}"
    unfolding t(4) u(4) x loc usable.simps by auto
  ultimately show ?case using t(2) same_low_trans [OF u(3) t(3)] by blast
qed

section \<open>From the boot loader to the pool\<close>

text \<open>The boot of the memory managers: with the kernel and the boot loader's structures below
  \<open>pmm_location\<close> and that below four megabytes, \<open>init_vmm\<close> and then \<open>pmm_collect_pages\<close> return; the
  managers' invariant holds and the frames in their hands, free or part of the stack of free
  frames, are exactly the frames of available memory above the kernel and its page tables; memory below
  them is mapped to itself and unchanged. In particular the stack never overflows.\<close>

lemma boot_collects_run:
  assumes s: "\<not> cr0_pg s" "\<not> pmm_paging_active s"
    and st: "pmm_stack_loc s = PMM_STACK_START" "pmm_stack_max s = PMM_STACK_START"
    and room: "room (pmm_location s)" "unat (pmm_location s) = L" "L \<le> 0x400000"
    and mb: "word_at s (of_nat (mb + 44)) ml" "word_at s (of_nat (mb + 48)) ma" "mb + 52 \<le> L"
    and m: "mmap_at s (unat ma) es (unat ma + unat ml)" "unat ma + unat ml \<le> L" "map_ok es"
  shows "\<exists>t. bnd init_vmm (\<lambda>_. pmm_collect_pages (of_nat mb)) s = Inr ((), t) \<and> collecting L t \<and> vm.more t = vm.more s
    \<and> set (free_pages t) \<union> stack_frames t = {f \<in> usable es. nth_page (pmm_location s) 56 \<le> f}
    \<and> (\<forall>a. unat a < L \<longrightarrow> translate t a = Some a \<and> ram t a = ram s a)"
proof -
  let ?l = "pmm_location s"
  obtain u where u: "init_vmm s = Inr ((), u)" "mm_ok u" "kernel_space u" "free_pages u = []" "stack_frames u = {}"
    "pmm_location u = nth_page ?l 56" "pt_frames u = nth_page ?l ` {0..<56}" "same_except (pt_frames u) (ram s) (ram u)"
    "\<forall>a. unat a < 0x400000 \<longrightarrow> translate u a = Some a" "vm.more u = vm.more s"
    using init_vmm_run [OF s st room(1)] by blast
  have l56: "unat (nth_page ?l 56) = L + 4096 * 56"
    using room by (simp add: nth_page_def PAGE_SIZE_def unat_word_ariths)
  have pt: "L \<le> unat f \<and> f < pmm_location u" if f: "f \<in> pt_frames u" for f
  proof -
    obtain q where "q < 56" "f = nth_page ?l q" using f u(7) by auto
    then show ?thesis using unat_nth_page [OF room(1), of q] room(2) l56 u(6) by (simp add: word_less_nat_alt)
  qed
  have c: "collecting L u"
    using u(2,3,4,5,6,9) l56 pt room(3) by (simp add: collecting_def pool_frames_def)
  have eq: "ram u a = ram s a" "translate u a = Some a" if a: "unat a < L" for a
  proof -
    have "unat (frame a) < L" using frame_le [of a] a by (simp add: word_le_nat_alt)
    then have "frame a \<notin> pt_frames u" using pt by (meson leD)
    then show "ram u a = ram s a" using u(8) by (simp add: same_except_def)
    show "translate u a = Some a" using u(9) a room(3) by simp
  qed
  have v: "view u a = view s a" if "unat a < L" for a
    using eq [OF that] s(1) by (simp add: view_def flat_translate)
  have L: "L \<le> 4294967296" using room(3) by simp
  have wd: "word_at u (of_nat b) x" if "word_at s (of_nat b) x" "b + 4 \<le> L" for b x
    using word_at_nat [of b u s x] v that L by simp
  have mu: "mmap_at u a fs e" if "mmap_at s a fs e" "e \<le> L" for a fs e
    using that
  proof (induction fs arbitrary: a)
    case (Cons x fs)
    obtain sz base len ty where x: "x = (sz, base, len, ty)" by (cases x) auto
    have r: "20 \<le> unat sz" "mmap_at s (a + unat sz + 4) fs e" using Cons.prems(1) x by simp_all
    have le: "a + 24 \<le> L" using mmap_at_le [OF r(2)] r(1) Cons.prems(2) by simp
    have "mmap_at u (a + unat sz + 4) fs e" by (rule Cons.IH [OF r(2) Cons.prems(2)])
    then show ?case using Cons.prems(1) le unfolding x mmap_at.simps
      by (elim conjE, intro conjI) (assumption | rule wd, assumption, simp)+
  qed simp
  define k where "k = klog u @ [(''ignore pages before: 0x%.8x'' @ [CHR 0x0A] @ ''usable ram:'' @ [CHR 0x0A], [pmm_location u])]"
  let ?v = "u\<lparr>klog := k\<rparr>"
  have low: "same_low L u ?v" by (rule log_collecting(2))
  have wv: "word_at ?v (of_nat (mb + 44)) ml" "word_at ?v (of_nat (mb + 48)) ma"
    by (rule same_low_word [OF low _ L]; use wd mb in \<open>simp del: of_nat_add\<close>)+
  have mv: "mmap_at ?v (unat ma) es (unat ma + unat ml)" by (rule mmap_at_same [OF mu [OF m(1,2)] m(2) low L])
  have sum: "unat (ma + ml) = unat ma + unat ml" using m(2) L room(3) by (simp add: unat_word_ariths)
  have fuel: "length es < map_fuel" using mmap_at_le [OF m(1)] m(2) L by (simp add: map_fuel_def)
  have new: "\<forall>f \<in> usable es. pmm_location ?v \<le> f \<longrightarrow> f \<notin> pool_frames ?v"
    by (simp only: log_collecting(3)) (simp add: pool_frames_def u(4,5))
  obtain t where t: "collect_loop map_fuel (of_nat mb) (of_nat (unat ma)) ?v = Inr ((), t)" "collecting L t" "same_low L ?v t"
    "pool_frames t = pool_frames ?v \<union> {f \<in> usable es. pmm_location ?v \<le> f}"
    using collect_loop_run [OF log_collecting(1) [OF c] wv mb(3) sum m(2) mv m(3) fuel new] by blast
  have "mmap_addr (of_nat mb) u = Inr (ma, u)"
    using vld32_word [OF wd [OF mb(2)]] mb(3) by (simp add: mmap_addr_def)
  then have "pmm_collect_pages (of_nat mb) u = Inr ((), t)"
    using t(1) by (simp add: pmm_collect_pages_def bnd_run gets_run kprintf_log_def upd_run k_def)
  then have run: "bnd init_vmm (\<lambda>_. pmm_collect_pages (of_nat mb)) s = Inr ((), t)" using u(1) by (simp add: bnd_run)
  have pool: "set (free_pages t) \<union> stack_frames t = {f \<in> usable es. nth_page ?l 56 \<le> f}"
    using t(4) u(4,5,6) unfolding log_collecting(3) by (simp add: pool_frames_def)
  have "translate t a = Some a \<and> ram t a = ram s a" if a: "unat a < L" for a
  proof -
    have tr: "translate t a = Some a" using t(2) a by (simp add: collecting_def)
    have "view t a = view u a" using same_low_trans [OF low t(3)] a by (simp add: same_low_def)
    then show ?thesis using tr eq [OF a] by (simp add: view_def)
  qed
  moreover have "vm.more t = vm.more s" using u(10) t(3) by (simp add: same_low_def)
  ultimately show ?thesis using run pool t(2) by blast
qed

text \<open>A map of one entry: four available frames from 0x300000 on.\<close>

definition demo_map :: vm where
  "demo_map = demo_reset\<lparr>ram := (\<lambda>_. 0)(0x102C := 24, 0x1031 := 0x20, 0x2000 := 20, 0x2006 := 0x30, 0x200D := 0x40,
     0x2014 := 1)\<rparr>"

lemma demo_map_state:
  "\<not> cr0_pg demo_map" "\<not> pmm_paging_active demo_map" "pmm_stack_loc demo_map = PMM_STACK_START"
  "pmm_stack_max demo_map = PMM_STACK_START" "pmm_location demo_map = 0x201000"
  using demo_reset_state by (simp_all add: demo_map_def)

lemma demo_map_words:
  "word_at demo_map 0x102C 24" "word_at demo_map 0x1030 0x2000" "word_at demo_map 0x2000 20"
  "word_at demo_map 0x2004 0x300000" "word_at demo_map 0x200C 0x4000" "word_at demo_map 0x2014 1"
proof -
  have "view demo_map a = Some (ram demo_map a)" for a by (simp add: view_def flat_translate demo_map_state(1))
  moreover have "ram demo_map = (\<lambda>_. 0)(0x102C := 24, 0x1031 := 0x20, 0x2000 := 20, 0x2006 := 0x30, 0x200D := 0x40,
     0x2014 := 1)" by (simp add: demo_map_def)
  ultimately show "word_at demo_map 0x102C 24" "word_at demo_map 0x1030 0x2000" "word_at demo_map 0x2000 20"
    "word_at demo_map 0x2004 0x300000" "word_at demo_map 0x200C 0x4000" "word_at demo_map 0x2014 1"
    by (simp_all add: word_at_bytes drop_bit_eq_div)
qed

lemma demo_region: "region 0x300000 0x304000 = {0x300000, 0x301000, 0x302000, 0x303000}"
proof -
  have f: "frame 0x300000 = (0x300000 :: u32)" "frame 0x301000 = (0x301000 :: u32)" "frame 0x302000 = (0x302000 :: u32)"
    "frame 0x303000 = (0x303000 :: u32)" by (simp_all add: PAGE_ADDR_MASK_def)
  show ?thesis
    using region_step [of "0x300000" "0x304000"] region_step [of "0x301000" "0x304000"]
      region_step [of "0x302000" "0x304000"] region_step [of "0x303000" "0x304000"] region_end [of "0x304000" "0x304000"]
    by (simp add: f)
qed

end
