(* ===== verification/Kernel_Kbd.thy ===== *)
theory Kernel_Kbd
  imports Kernel_Io
begin

text \<open>
  The keyboard driver of \<open>kernel/kernel/kbd.c\<close>: the layout tables, the status
  bits of the control keys, and the circular buffer between the interrupt
  handler and \<open>kbd_getchar\<close>.
\<close>

section \<open>Data\<close>

definition CONTROL :: u8 where "CONTROL = 0x1"
definition ALT :: u8 where "ALT = 0x2"
definition ALTGR :: u8 where "ALTGR = 0x4"
definition LSHIFT :: u8 where "LSHIFT = 0x8"
definition RSHIFT :: u8 where "RSHIFT = 0x10"
definition CAPSLOCK :: u8 where "CAPSLOCK = 0x20"
definition SCROLLLOCK :: u8 where "SCROLLLOCK = 0x40"
definition NUMLOCK :: u8 where "NUMLOCK = 0x80"
definition RELEASED_MASK :: u8 where "RELEASED_MASK = 0x80"

record keymap =
  scancodes :: "u8 list"
  shift_scancodes :: "u8 list"
  control_map :: "u8 list"
  controls :: u8

text \<open>An initialiser of an array of 128 bytes: what is not written is zero.\<close>

definition row128 :: "u8 list \<Rightarrow> u8 list" where
  "row128 xs = xs @ replicate (128 - length xs) 0"

definition kbd_keymap_us :: keymap where
  "kbd_keymap_us = \<lparr>
     scancodes = row128 (
       [0, 27] @ map chr ''1234567890-='' @ [8]
       @ [9] @ map chr ''qwertyuiop[]'' @ [10]
       @ [0] @ map chr ''asdfghjkl;'' @ [0x27] @ [0x60]
       @ [0] @ [0x5C] @ map chr ''zxcvbnm,./'' @ [0]
       @ map chr ''*''
       @ [0, 0x20, 0]
       @ replicate 10 0
       @ [0, 0, 0, 0, 0]
       @ map chr ''-'' @ [0, 0, 0]
       @ map chr ''+'' @ [0, 0, 0, 0, 0]
       @ [0, 0, 0, 0, 0, 0]),
     shift_scancodes = row128 (
       [0, 27] @ map chr ''!@#$%^&*()_+'' @ [8]
       @ [9] @ map chr ''QWERTYUIOP{}'' @ [10]
       @ [0] @ map chr ''ASDFGHJKL:'' @ [0x22] @ [0x7E]
       @ [0] @ map chr ''|ZXCVBNM<>?'' @ [0]
       @ map chr ''*''
       @ [0, 0x20, 0]
       @ replicate 10 0
       @ [0, 0, 0, 0, 0]
       @ map chr ''-'' @ [0, 0, 0]
       @ map chr ''+'' @ [0, 0, 0, 0, 0]
       @ [0, 0, 0, 0, 0, 0]),
     control_map = [29, 56, 0, 42, 54, 58, 70, 69],
     controls = 0\<rparr>"

text \<open>A \<open>keymap_t*\<close> is an address; \<open>keymaps\<close> is the memory behind it.\<close>

record kbd = io +
  keymaps :: "u32 \<Rightarrow> keymap"
  kbd_current_layout :: u32
  kbd_buffer_start :: u32
  kbd_buffer_end :: u32
  keyboard_buffer :: "u8 list"

abbreviation layout :: "'a kbd_scheme \<Rightarrow> keymap" where
  "layout s \<equiv> keymaps s (kbd_current_layout s)"

section \<open>Operations\<close>

definition kbd_switch_layout :: "u32 \<Rightarrow> ('a kbd_scheme, unit) cmd" where
  "kbd_switch_layout l = upd (\<lambda>s. s\<lparr>kbd_current_layout := l\<rparr>)"

definition kbd_init_driver :: "u32 \<Rightarrow> ('a kbd_scheme, unit) cmd" where
  "kbd_init_driver us =
     bnd (register_interrupt_handler IRQ1 Kbd_Handler) (\<lambda>_.
     bnd (kbd_switch_layout us) (\<lambda>_.
     bnd (upd (\<lambda>s. s\<lparr>kbd_buffer_start := 0\<rparr>)) (\<lambda>_.
     upd (\<lambda>s. s\<lparr>kbd_buffer_end := 0\<rparr>))))"

definition kbd_getchar :: "('a kbd_scheme, u8) cmd" where
  "kbd_getchar =
     bnd (gets (\<lambda>s. kbd_buffer_start s \<noteq> kbd_buffer_end s)) (\<lambda>more.
     if more then
       bnd (gets (\<lambda>s. keyboard_buffer s ! unat (kbd_buffer_start s))) (\<lambda>c.
       bnd (upd (\<lambda>s. s\<lparr>kbd_buffer_start := kbd_buffer_start s + 1\<rparr>)) (\<lambda>_.
       bnd (upd (\<lambda>s. s\<lparr>kbd_buffer_start := kbd_buffer_start s AND 255\<rparr>)) (\<lambda>_.
       ret c)))
     else ret 0)"

definition kbd_buffer_empty :: "('a kbd_scheme, bool) cmd" where
  "kbd_buffer_empty = gets (\<lambda>s. kbd_buffer_start s = kbd_buffer_end s)"

text \<open>The first \<open>i\<close> of the loop with \<open>control_map[i] == code\<close>.\<close>

definition control_index :: "nat \<Rightarrow> keymap \<Rightarrow> u8 \<Rightarrow> nat option" where
  "control_index n k code = List.find (\<lambda>i. control_map k ! i = code) [0..<n]"

definition set_controls :: "u8 \<Rightarrow> ('a kbd_scheme, unit) cmd" where
  "set_controls c = upd (\<lambda>s. s\<lparr>keymaps := (keymaps s)(kbd_current_layout s := layout s\<lparr>controls := c\<rparr>)\<rparr>)"

definition kbd_handler :: "('a kbd_scheme, unit) cmd" where
  "kbd_handler =
     bnd (inb 0x60) (\<lambda>scancode.
     bnd (gets layout) (\<lambda>k.
     if scancode AND RELEASED_MASK \<noteq> 0 then
       (case control_index 5 k (scancode AND NOT RELEASED_MASK) of
          Some i \<Rightarrow> set_controls (controls k AND NOT (push_bit i 1))
        | None \<Rightarrow> skip)
     else
       (case control_index 8 k scancode of
          Some i \<Rightarrow>
            if controls k AND push_bit i 1 \<noteq> 0
            then set_controls (controls k AND NOT (push_bit i 1))
            else set_controls (controls k OR push_bit i 1)
        | None \<Rightarrow>
            let codes = (if controls k AND (LSHIFT OR RSHIFT OR CAPSLOCK) \<noteq> 0
                \<and> \<not> controls k AND CONTROL \<noteq> 0 then shift_scancodes k else scancodes k) in
            bnd (gets kbd_buffer_start) (\<lambda>start.
            bnd (gets kbd_buffer_end) (\<lambda>e.
            if e \<noteq> start - 1 then
              bnd (upd (\<lambda>s. s\<lparr>keyboard_buffer := (keyboard_buffer s)[unat e := codes ! unat scancode]\<rparr>)) (\<lambda>_.
              bnd (upd (\<lambda>s. s\<lparr>kbd_buffer_end := kbd_buffer_end s + 1\<rparr>)) (\<lambda>_.
              upd (\<lambda>s. s\<lparr>kbd_buffer_end := kbd_buffer_end s AND 255\<rparr>)))
            else skip)))))"

text \<open>A key event: the controller offers a scancode, and the interrupt runs the handler.\<close>

definition key_event :: "u8 \<Rightarrow> ('a kbd_scheme, unit) cmd" where
  "key_event sc = bnd (upd (\<lambda>s. s\<lparr>in_port := (in_port s)(0x60 := sc)\<rparr>)) (\<lambda>_. kbd_handler)"

section \<open>The circular buffer as a queue\<close>

definition ring_ok :: "'a kbd_scheme \<Rightarrow> bool" where
  "ring_ok s \<longleftrightarrow> kbd_buffer_start s < 256 \<and> kbd_buffer_end s < 256 \<and> length (keyboard_buffer s) = 256"

definition ring_length :: "'a kbd_scheme \<Rightarrow> nat" where
  "ring_length s = (unat (kbd_buffer_end s) + 256 - unat (kbd_buffer_start s)) mod 256"

definition kbd_queue :: "'a kbd_scheme \<Rightarrow> u8 list" where
  "kbd_queue s = map (\<lambda>i. keyboard_buffer s ! ((unat (kbd_buffer_start s) + i) mod 256)) [0..<ring_length s]"

lemma unat_and_255: "unat ((x :: u32) AND 255) = unat x mod 256"
proof -
  have "x AND 255 = take_bit 8 x" by (simp add: take_bit_eq_mask mask_eq_exp_minus_1)
  then show ?thesis by (simp add: take_bit_eq_mod unat_mod)
qed

lemma ring_step: "(x :: u32) < 256 \<Longrightarrow> unat ((x + 1) AND 255) = (unat x + 1) mod 256"
  by (simp add: unat_and_255 unat_word_ariths word_less_nat_alt)

lemma ring_wraps: "(x + 1) AND (255 :: u32) < 256"
  by (simp add: word_less_nat_alt unat_and_255)

lemma ring_arith:
  assumes b: "(b :: nat) < 256" and e: "e < 256"
  shows "(b + (e + 256 - b) mod 256) mod 256 = e"
    and "(e + 256 - b) mod 256 < 255 \<Longrightarrow> ((e + 1) mod 256 + 256 - b) mod 256 = Suc ((e + 256 - b) mod 256)"
    and "b \<noteq> e \<Longrightarrow> (e + 256 - b) mod 256 = Suc ((e + 256 - (b + 1) mod 256) mod 256)"
    and "(e + 256 - b) mod 256 = 0 \<longleftrightarrow> b = e"
    and "i < (e + 256 - b) mod 256 \<Longrightarrow> (b + i) mod 256 \<noteq> e"
proof -
  have d: "(y + 256 - x) mod 256 = (if x \<le> y then y - x else y + 256 - x)" if "x < 256" "y < 256" for x y :: nat
    using that by (simp add: mod_if)
  have m: "(x + y) mod 256 = (if x + y < 256 then x + y else x + y - 256)" if "x < 256" "y < 256" for x y :: nat
    using that by (simp add: mod_if)
  have m1: "Suc x mod 256 = (if x < 255 then Suc x else 0)" if "x < 256" for x :: nat
    using that by (cases "x = 255") (simp_all add: mod_if)
  show "(b + (e + 256 - b) mod 256) mod 256 = e"
    using b e by (simp add: d m)
  show "(e + 256 - b) mod 256 < 255 \<Longrightarrow> ((e + 1) mod 256 + 256 - b) mod 256 = Suc ((e + 256 - b) mod 256)"
    using b e by (auto simp: d m m1 split: if_splits)
  show "b \<noteq> e \<Longrightarrow> (e + 256 - b) mod 256 = Suc ((e + 256 - (b + 1) mod 256) mod 256)"
    using b e by (auto simp: d m m1 split: if_splits)
  show "(e + 256 - b) mod 256 = 0 \<longleftrightarrow> b = e"
    using b e by (auto simp: d split: if_splits)
  show "(b + i) mod 256 \<noteq> e" if i: "i < (e + 256 - b) mod 256"
  proof -
    have "i < 256" using i by (meson less_trans mod_less_divisor zero_less_numeral)
    then show ?thesis using b e i by (auto simp: d m m1 split: if_splits)
  qed
qed

lemma kbd_queue_empty: "ring_ok s \<Longrightarrow> kbd_queue s = [] \<longleftrightarrow> kbd_buffer_start s = kbd_buffer_end s"
  using ring_arith(4) [of "unat (kbd_buffer_start s)" "unat (kbd_buffer_end s)"]
  by (simp add: ring_ok_def kbd_queue_def ring_length_def word_less_nat_alt word_unat_eq_iff)

text \<open>Writing at the end adds one character to the queue; the buffer holds 255.\<close>

lemma ring_put:
  fixes s :: "'a kbd_scheme" and c :: u8
  assumes ok: "ring_ok s" and len: "ring_length s < 255"
  defines "t \<equiv> s\<lparr>keyboard_buffer := (keyboard_buffer s)[unat (kbd_buffer_end s) := c],
      kbd_buffer_end := (kbd_buffer_end s + 1) AND 255\<rparr>"
  shows "ring_ok t" and "kbd_queue t = kbd_queue s @ [c]" and "ring_length t = Suc (ring_length s)"
proof -
  let ?b = "unat (kbd_buffer_start s)" and ?e = "unat (kbd_buffer_end s)" and ?n = "ring_length s"
  have lt: "?b < 256" "?e < 256" using ok by (simp_all add: ring_ok_def word_less_nat_alt)
  note ar = ring_arith [OF lt]
  have e': "unat ((kbd_buffer_end s + 1) AND 255) = (?e + 1) mod 256"
    by (rule ring_step) (use ok in \<open>simp add: ring_ok_def\<close>)
  show "ring_ok t" using ok ring_wraps by (simp add: ring_ok_def t_def)
  show n: "ring_length t = Suc ?n" using ar(2) len by (simp add: ring_length_def t_def e')
  have old: "(keyboard_buffer s)[?e := c] ! ((?b + i) mod 256) = keyboard_buffer s ! ((?b + i) mod 256)"
    if "i < ?n" for i
    using ar(5) [of i] that by (simp add: ring_length_def)
  have new: "(keyboard_buffer s)[?e := c] ! ((?b + ?n) mod 256) = c"
    using ar(1) lt ok by (simp add: ring_length_def ring_ok_def)
  show "kbd_queue t = kbd_queue s @ [c]"
    unfolding kbd_queue_def n using old new by (simp add: t_def)
qed

lemma ring_get:
  assumes ok: "ring_ok s" and q: "kbd_queue s = c # cs"
  defines "t \<equiv> s\<lparr>kbd_buffer_start := (kbd_buffer_start s + 1) AND 255\<rparr>"
  shows "ring_ok t" and "kbd_queue t = cs" and "kbd_getchar s = Inr (c, t)"
proof -
  let ?b = "unat (kbd_buffer_start s)" and ?e = "unat (kbd_buffer_end s)" and ?n = "ring_length s"
  have lt: "?b < 256" "?e < 256" using ok by (simp_all add: ring_ok_def word_less_nat_alt)
  note ar = ring_arith [OF lt]
  have ne: "kbd_buffer_start s \<noteq> kbd_buffer_end s" using kbd_queue_empty [OF ok] q by simp
  have b': "unat ((kbd_buffer_start s + 1) AND 255) = (?b + 1) mod 256"
    by (rule ring_step) (use ok in \<open>simp add: ring_ok_def\<close>)
  have n: "?n = Suc (ring_length t)"
    using ar(3) ne by (simp add: ring_length_def t_def b' word_unat_eq_iff)
  show "ring_ok t" using ok ring_wraps by (simp add: ring_ok_def t_def)
  have idx: "(?b + Suc i) mod 256 = ((?b + 1) mod 256 + i) mod 256" for i by presburger
  have head: "kbd_queue s = keyboard_buffer s ! ?b # kbd_queue t"
    unfolding kbd_queue_def n upt_conv_Cons [OF zero_less_Suc] list.map map_Suc_upt [symmetric] map_map
    using lt idx by (simp add: t_def b' o_def)
  with q show "kbd_queue t = cs" by simp
  have "keyboard_buffer s ! ?b = c" using head q by simp
  with ne show "kbd_getchar s = Inr (c, t)" by (simp add: kbd_getchar_def cmd_simps t_def)
qed

section \<open>A queue between two parties\<close>

text \<open>
  A producer puts inputs in, a consumer takes results out; \<open>val\<close> is the result
  an acceptable input produces, \<open>cap\<close> the number that fits.
\<close>

locale fifo =
  fixes put :: "'x \<Rightarrow> ('s, unit) cmd" and get :: "('s, 'y) cmd"
    and inv :: "'s \<Rightarrow> bool" and q :: "'s \<Rightarrow> 'y list"
    and accepts :: "'x \<Rightarrow> bool" and val :: "'x \<Rightarrow> 'y" and cap :: nat
  assumes put_step: "inv s \<Longrightarrow> accepts x \<Longrightarrow> length (q s) < cap \<Longrightarrow>
      \<exists>t. put x s = Inr ((), t) \<and> inv t \<and> q t = q s @ [val x]"
    and get_step: "inv s \<Longrightarrow> q s = y # ys \<Longrightarrow> \<exists>t. get s = Inr (y, t) \<and> inv t \<and> q t = ys"
begin

lemma puts:
  "inv s \<Longrightarrow> list_all accepts xs \<Longrightarrow> length (q s) + length xs \<le> cap \<Longrightarrow>
   \<exists>t. cfor xs put s = Inr ((), t) \<and> inv t \<and> q t = q s @ map val xs"
proof (induction xs arbitrary: s)
  case Nil
  then show ?case by simp
next
  case (Cons x xs)
  then have "accepts x" "length (q s) < cap" by simp_all
  from put_step [OF Cons.prems(1) this] obtain t
    where t: "put x s = Inr ((), t)" "inv t" "q t = q s @ [val x]" by blast
  with Cons.prems Cons.IH [OF t(2)] show ?case by simp
qed

lemma gets:
  "inv s \<Longrightarrow> q s = ys @ zs \<Longrightarrow>
   \<exists>t. crepeat (length ys) get s = Inr (ys, t) \<and> inv t \<and> q t = zs"
proof (induction ys arbitrary: s)
  case Nil
  then show ?case by (simp add: cmd_simps)
next
  case (Cons y ys)
  then obtain t where t: "get s = Inr (y, t)" "inv t" "q t = ys @ zs"
    using get_step [of s y "ys @ zs"] by auto
  with Cons.IH [OF t(2,3)] show ?case by (auto simp: cmd_simps)
qed

lemma through:
  assumes "inv s" and "q s = []" and "list_all accepts xs" and "length xs \<le> cap"
  shows "\<exists>t. bnd (cfor xs put) (\<lambda>_. crepeat (length xs) get) s = Inr (map val xs, t) \<and> inv t \<and> q t = []"
proof -
  obtain t where t: "cfor xs put s = Inr ((), t)" "inv t" "q t = map val xs @ []"
    using puts [OF assms(1,3)] assms(2,4) by auto
  with gets [OF t(2,3)] show ?thesis by (simp add: cmd_simps)
qed

end

section \<open>The interrupt handler, case by case\<close>

definition plain_key :: "keymap \<Rightarrow> u8 \<Rightarrow> bool" where
  "plain_key k sc \<longleftrightarrow> sc AND RELEASED_MASK = 0 \<and> control_index 8 k sc = None"

definition key_char :: "keymap \<Rightarrow> u8 \<Rightarrow> u8" where
  "key_char k sc = (if controls k AND (LSHIFT OR RSHIFT OR CAPSLOCK) \<noteq> 0 \<and> controls k AND CONTROL = 0
     then shift_scancodes k else scancodes k) ! unat sc"

lemma key_event_plain:
  assumes "plain_key (layout s) sc"
  defines "u \<equiv> s\<lparr>in_port := (in_port s)(0x60 := sc)\<rparr>"
  shows "key_event sc s = Inr ((), if kbd_buffer_end s \<noteq> kbd_buffer_start s - 1
    then u\<lparr>keyboard_buffer := (keyboard_buffer s)[unat (kbd_buffer_end s) := key_char (layout s) sc],
      kbd_buffer_end := (kbd_buffer_end s + 1) AND 255\<rparr> else u)"
  using assms(1) unfolding u_def
  by (simp add: key_event_def kbd_handler_def cmd_simps plain_key_def key_char_def Let_def)

lemma ring_port [simp]:
  "ring_ok (s\<lparr>in_port := f\<rparr>) = ring_ok s" "kbd_queue (s\<lparr>in_port := f\<rparr>) = kbd_queue s"
  "ring_length (s\<lparr>in_port := f\<rparr>) = ring_length s"
  by (simp_all add: ring_ok_def kbd_queue_def ring_length_def)

lemma ring_keymaps [simp]:
  "ring_ok (s\<lparr>keymaps := f\<rparr>) = ring_ok s" "kbd_queue (s\<lparr>keymaps := f\<rparr>) = kbd_queue s"
  by (simp_all add: ring_ok_def kbd_queue_def ring_length_def)

lemma ring_length_queue: "length (kbd_queue s) = ring_length s"
  by (simp add: kbd_queue_def)

lemma not_full:
  assumes "ring_ok s" and "ring_length s < 255"
  shows "kbd_buffer_end s \<noteq> kbd_buffer_start s - 1"
proof
  assume "kbd_buffer_end s = kbd_buffer_start s - 1"
  moreover from this have "kbd_buffer_start s \<noteq> 0" using assms(1) by (auto simp: ring_ok_def)
  ultimately have "unat (kbd_buffer_start s) = unat (kbd_buffer_end s) + 1" "unat (kbd_buffer_end s) < 256"
    using assms(1) by (simp_all add: unat_minus_one ring_ok_def word_less_nat_alt unat_gt_0)
  then show False using assms(2) by (simp add: ring_length_def)
qed

lemma key_event_puts:
  assumes "ring_ok s" and "plain_key (layout s) sc" and "ring_length s < 255"
  shows "\<exists>t. key_event sc s = Inr ((), t) \<and> ring_ok t \<and> layout t = layout s
    \<and> kbd_queue t = kbd_queue s @ [key_char (layout s) sc]"
  using key_event_plain [OF assms(2)] not_full [OF assms(1,3)]
    ring_put [of "s\<lparr>in_port := (in_port s)(0x60 := sc)\<rparr>" "key_char (layout s) sc"] assms(1,3)
  by simp

interpretation kbd_fifo: fifo key_event kbd_getchar "\<lambda>s. ring_ok s \<and> layout s = k" kbd_queue
  "plain_key k" "key_char k" 255 for k
proof
  fix s :: "'a kbd_scheme" and x
  assume "ring_ok s \<and> layout s = k" "plain_key k x" "length (kbd_queue s) < 255"
  with key_event_puts [of s x] show "\<exists>t. key_event x s = Inr ((), t) \<and> (ring_ok t \<and> layout t = k)
      \<and> kbd_queue t = kbd_queue s @ [key_char k x]"
    by (auto simp: ring_length_queue)
next
  fix s :: "'a kbd_scheme" and y ys
  assume "ring_ok s \<and> layout s = k" "kbd_queue s = y # ys"
  with ring_get [of s y ys] show "\<exists>t. kbd_getchar s = Inr (y, t) \<and> (ring_ok t \<and> layout t = k) \<and> kbd_queue t = ys"
    by auto
qed

section \<open>A concrete keyboard\<close>

definition demo_kbd :: kbd where
  "demo_kbd = \<lparr>in_port = (\<lambda>_. 0), in_port16 = (\<lambda>_. 0), out_log = [], interrupt_handlers = (\<lambda>_. None), io_log = [],
     keymaps = (\<lambda>_. kbd_keymap_us), kbd_current_layout = 0x8000,
     kbd_buffer_start = 0, kbd_buffer_end = 0, keyboard_buffer = replicate 256 0\<rparr>"

lemma demo_kbd_ring: "ring_ok demo_kbd" "kbd_queue demo_kbd = []" "layout demo_kbd = kbd_keymap_us"
  by (simp_all add: ring_ok_def kbd_queue_def ring_length_def demo_kbd_def)

section \<open>Properties of the keyboard driver\<close>

text \<open>What is typed is what is read. From an empty buffer, any sequence of at most 255
  presses of keys that are not control keys, followed by as many calls of \<open>kbd_getchar\<close>,
  returns the characters of the keys in the current layout and shift state, in order, with none
  lost or repeated, and leaves the buffer empty.\<close>

lemma kbd_typed_is_read:
  assumes "ring_ok s" and "kbd_queue s = []" and "list_all (plain_key (layout s)) keys" and "length keys \<le> 255"
  shows "\<exists>t. bnd (cfor keys key_event) (\<lambda>_. crepeat (length keys) kbd_getchar) s
      = Inr (map (key_char (layout s)) keys, t) \<and> ring_ok t \<and> kbd_queue t = []"
  using kbd_fifo.through [of s "layout s" keys] assms by blast

text \<open>C32: What the handler does with a plain key when the buffer is full, that is when it holds 255
  characters: with the reader's index above zero the key is dropped and the buffer stays; with
  the reader's index at zero the test of the handler does not see that the buffer is full (the
  index minus one is not reduced modulo 256), the writer's index wraps onto the reader's, and
  all 255 characters are lost.\<close>

theorem kbd_full_buffer:
  assumes "ring_ok s" and "plain_key (layout s) sc" and "ring_length s = 255"
  shows "\<exists>t. key_event sc s = Inr ((), t) \<and> ring_ok t
    \<and> kbd_queue t = (if kbd_buffer_start s = 0 then [] else kbd_queue s)"
proof -
  let ?b = "unat (kbd_buffer_start s)" and ?e = "unat (kbd_buffer_end s)"
  have lt: "?b < 256" "?e < 256" and l: "length (keyboard_buffer s) = 256"
    using assms(1) by (simp_all add: ring_ok_def word_less_nat_alt)
  have e: "?e = (?b + 255) mod 256" using ring_arith(1) [OF lt] assms(3) by (simp add: ring_length_def)
  show ?thesis
  proof (cases "kbd_buffer_start s = 0")
    case True
    then have e255: "kbd_buffer_end s = 255" using e by (simp add: word_unat_eq_iff)
    then have "kbd_buffer_end s \<noteq> kbd_buffer_start s - 1" using True by simp
    then show ?thesis
      using key_event_plain [OF assms(2)] True e255 l by (simp add: ring_ok_def kbd_queue_def ring_length_def)
  next
    case False
    then have "0 < ?b" by (simp add: unat_gt_0)
    then have "?b + 255 = (?b - 1) + 256" by simp
    then have "?e = ?b - 1" using e lt by (metis less_imp_diff_less mod_add_self2 mod_less)
    then have "kbd_buffer_end s = kbd_buffer_start s - 1"
      using False by (simp add: word_unat_eq_iff unat_minus_one)
    then show ?thesis using key_event_plain [OF assms(2)] False assms(1) by simp
  qed
qed

theorem kbd_full_buffer_witness:
  "\<exists>t. key_event 0x1E (demo_kbd\<lparr>kbd_buffer_end := 255\<rparr>) = Inr ((), t) \<and> kbd_queue t = []"
proof -
  let ?s = "demo_kbd\<lparr>kbd_buffer_end := 255\<rparr>"
  have "ring_ok ?s" "ring_length ?s = 255" "layout ?s = kbd_keymap_us" "kbd_buffer_start ?s = 0"
    by (simp_all add: ring_ok_def ring_length_def demo_kbd_def)
  moreover have "plain_key kbd_keymap_us 0x1E" by code_simp
  ultimately show ?thesis using kbd_full_buffer [of ?s "0x1E"] by auto
qed

lemma toggle_bit:
  fixes c :: u8
  shows "c XOR push_bit i 1 = (if c AND push_bit i 1 = 0 then c OR push_bit i 1 else c AND NOT (push_bit i 1))"
proof -
  have "c AND push_bit i 1 \<noteq> 0 \<longleftrightarrow> i < 8 \<and> bit c i"
  proof
    assume "c AND push_bit i 1 \<noteq> 0"
    then obtain n where "bit (c AND push_bit i 1) n" by (metis bit_0_eq bit_eq_iff bot_apply bot_bool_def)
    then show "i < 8 \<and> bit c i" by (auto simp: bit_simps)
  next
    assume "i < 8 \<and> bit c i"
    then have "bit (c AND push_bit i 1) i" by (simp add: bit_simps)
    then show "c AND push_bit i 1 \<noteq> 0" by (metis bit_0_eq bot_apply bot_bool_def)
  qed
  then show ?thesis by (cases "c AND push_bit i 1 = 0") (rule bit_word_eqI, auto simp: bit_simps)+
qed

text \<open>A control key changes one status bit and nothing else. Pressing the key at place \<open>i\<close> of
  the control map inverts bit \<open>i\<close>; releasing one of the first five clears it; the
  buffer, the tables of characters and all other bits stay.\<close>

lemma kbd_control_key:
  "(sc AND RELEASED_MASK = 0 \<and> control_index 8 (layout s) sc = Some i \<longrightarrow>
      (\<exists>t. key_event sc s = Inr ((), t) \<and> kbd_queue t = kbd_queue s
        \<and> layout t = layout s\<lparr>controls := controls (layout s) XOR push_bit i 1\<rparr>))
   \<and> (sc AND RELEASED_MASK \<noteq> 0 \<and> control_index 5 (layout s) (sc AND NOT RELEASED_MASK) = Some i \<longrightarrow>
      (\<exists>t. key_event sc s = Inr ((), t) \<and> kbd_queue t = kbd_queue s
        \<and> layout t = layout s\<lparr>controls := controls (layout s) AND NOT (push_bit i 1)\<rparr>))"
  using toggle_bit [of "controls (layout s)" i]
  by (auto simp: key_event_def kbd_handler_def cmd_simps set_controls_def split: if_splits)

text \<open>A call into the driver: a key event, a read, or a change of the layout.\<close>

datatype kbd_call = Key u8 | Read | Switch u32

primrec kbd_run :: "kbd_call \<Rightarrow> ('a kbd_scheme, unit) cmd" where
  "kbd_run (Key sc) = key_event sc"
| "kbd_run Read = bnd kbd_getchar (\<lambda>_. skip)"
| "kbd_run (Switch l) = kbd_switch_layout l"

lemma set_controls_ring: "\<exists>t. set_controls c s = Inr ((), t) \<and> ring_ok t = ring_ok s"
  by (simp add: set_controls_def cmd_simps)

lemma key_event_ring:
  assumes "ring_ok s"
  shows "\<exists>t. key_event sc s = Inr ((), t) \<and> ring_ok t"
proof (cases "plain_key (layout s) sc")
  case True
  then show ?thesis using key_event_plain [OF True] assms ring_wraps by (auto simp: ring_ok_def)
next
  case False
  then show ?thesis using assms
    by (auto simp: key_event_def kbd_handler_def cmd_simps plain_key_def set_controls_def split: option.splits)
qed

lemma kbd_run_ring: "ring_ok s \<Longrightarrow> \<exists>t. kbd_run op s = Inr ((), t) \<and> ring_ok t"
  using key_event_ring ring_wraps
  by (cases op) (auto simp: kbd_getchar_def kbd_switch_layout_def cmd_simps ring_ok_def)

text \<open>C31: The driver's data stay well formed. After the initialisation and any sequence of key
  events with any scancodes, reads and changes of layout, both indices are below 256 and the buffer has
  its 256 characters, so no access is outside it; and every one of these calls returns.\<close>

theorem kbd_stays_well_formed:
  assumes "length (keyboard_buffer s) = 256"
  shows "\<exists>t. bnd (kbd_init_driver us) (\<lambda>_. cfor calls kbd_run) s = Inr ((), t) \<and> ring_ok t"
proof -
  obtain u where u: "kbd_init_driver us s = Inr ((), u)" "ring_ok u"
    using assms by (simp add: kbd_init_driver_def kbd_switch_layout_def register_interrupt_handler_def cmd_simps ring_ok_def)
  have "\<exists>t. cfor calls kbd_run u = Inr ((), t) \<and> ring_ok t"
    using u(2)
  proof (induction calls arbitrary: u)
    case (Cons c calls)
    then show ?case using kbd_run_ring [OF Cons.prems, of c] by fastforce
  qed simp
  then show ?thesis using u(1) by (simp add: bnd_run)
qed

theorem kbd_stays_well_formed_witness:
  "\<exists>t. bnd (kbd_init_driver 0x8000) (\<lambda>_. cfor [Key 0x1E, Key 0x9E, Read, Read] kbd_run) demo_kbd = Inr ((), t) \<and> ring_ok t"
  by (rule kbd_stays_well_formed) (simp add: demo_kbd_def)

end
