(* ===== verification/Kernel_Timer.thy ===== *)
theory Kernel_Timer
  imports Kernel_Io
begin

text \<open>
  The programmable interval timer of \<open>kernel/kernel/timer.c\<close>: the tick counter, the
  divisor sent to the chip, and the callback of its interrupt.
\<close>

section \<open>Operations\<close>

text \<open>\<open>timer_callback\<close> counts the tick and calls the scheduler, which is its parameter here.\<close>

definition TIMER_FREQUENCY :: u32 where "TIMER_FREQUENCY = 1193180"

record timer = io +
  tick :: u32
  frequency :: u32

definition timer_callback :: "('a timer_scheme, unit) cmd \<Rightarrow> ('a timer_scheme, unit) cmd" where
  "timer_callback schedule = bnd (upd (\<lambda>s. s\<lparr>tick := tick s + 1\<rparr>)) (\<lambda>_. schedule)"

definition udiv :: "u32 \<Rightarrow> u32 \<Rightarrow> ('s, u32) cmd" where
  "udiv a b = (if b = 0 then fault Divide_Error else ret (a div b))"

definition init_timer :: "u32 \<Rightarrow> ('a timer_scheme, unit) cmd" where
  "init_timer freq =
     bnd (register_interrupt_handler IRQ0 Timer_Callback) (\<lambda>_.
     bnd (udiv TIMER_FREQUENCY freq) (\<lambda>divisor.
     bnd (udiv TIMER_FREQUENCY divisor) (\<lambda>f.
     bnd (upd (\<lambda>s. s\<lparr>frequency := f\<rparr>)) (\<lambda>_.
     bnd (outb 0x43 0x36) (\<lambda>_.
     let l = ucast (divisor AND 0xFF) :: u8; h = ucast (drop_bit 8 divisor AND 0xFF) :: u8 in
     bnd (outb 0x40 l) (\<lambda>_. outb 0x40 h))))))"

text \<open>The 16-bit reload value that the two bytes form.\<close>

definition pit_reload :: "u8 \<Rightarrow> u8 \<Rightarrow> u32" where
  "pit_reload l h = ucast l OR push_bit 8 (ucast h)"

lemma pit_reload_split:
  assumes "d < 0x10000"
  shows "pit_reload (ucast (d AND 0xFF)) (ucast (drop_bit 8 d AND 0xFF)) = d"
proof (rule bit_word_eqI)
  have m: "(0xFF :: 32 word) = mask 8" by (simp add: mask_eq_exp_minus_1)
  have d: "take_bit 16 d = d" using assms by (simp add: take_bit_eq_mod word_less_nat_alt word_unat_eq_iff unat_mod)
  fix n assume n: "n < LENGTH(32)"
  have high: "\<not> bit d n" if "16 \<le> n" using d that by (metis bit_take_bit_iff not_le)
  consider "n < 8" | "8 \<le> n" "n < 16" | "16 \<le> n" by linarith
  then show "bit (pit_reload (ucast (d AND 0xFF)) (ucast (drop_bit 8 d AND 0xFF))) n \<longleftrightarrow> bit d n"
    by cases (use n high in \<open>auto simp: pit_reload_def m bit_simps\<close>)
qed

section \<open>Properties of the timer\<close>

text \<open>C35: For a frequency between 19 Hz and the frequency of the chip, \<open>init_timer\<close> programs
  the chip in square-wave mode with exactly the divisor it computed, low byte first;
  the frequency recorded is that of this divisor and at least the one asked for. For frequency 0
  or above the chip's the kernel divides by zero.\<close>

theorem init_timer_programs_chip:
  "(19 \<le> freq \<and> freq \<le> TIMER_FREQUENCY \<longrightarrow>
      (\<exists>t l h. init_timer freq s = Inr ((), t)
        \<and> out_log t = out_log s @ [(0x43, 0x36), (0x40, l), (0x40, h)]
        \<and> pit_reload l h = TIMER_FREQUENCY div freq \<and> pit_reload l h \<noteq> 0
        \<and> frequency t = TIMER_FREQUENCY div pit_reload l h \<and> freq \<le> frequency t
        \<and> interrupt_handlers t IRQ0 = Some Timer_Callback))
   \<and> (freq = 0 \<or> TIMER_FREQUENCY < freq \<longrightarrow> init_timer freq s = Inl Divide_Error)"
proof -
  let ?d = "TIMER_FREQUENCY div freq"
  have ok: "?d \<noteq> 0 \<and> ?d < 0x10000 \<and> freq \<le> TIMER_FREQUENCY div ?d" if "19 \<le> freq" "freq \<le> TIMER_FREQUENCY"
  proof -
    have f: "19 \<le> unat freq" "unat freq \<le> 1193180"
      using that by (simp_all add: word_le_nat_alt TIMER_FREQUENCY_def)
    have d: "unat ?d = 1193180 div unat freq" by (simp add: TIMER_FREQUENCY_def unat_div)
    have "1193180 div unat freq \<le> 1193180 div 19" using f by (intro div_le_mono2) simp_all
    moreover have pos: "0 < 1193180 div unat freq" using f by (simp add: div_greater_zero_iff)
    moreover have "unat freq \<le> 1193180 div (1193180 div unat freq)"
    proof -
      have "unat freq * (1193180 div unat freq) \<le> 1193180" by simp
      then show ?thesis using pos by (simp add: less_eq_div_iff_mult_less_eq)
    qed
    ultimately show ?thesis
      using d by (auto simp: word_less_nat_alt word_le_nat_alt unat_div word_unat_eq_iff TIMER_FREQUENCY_def)
  qed
  have big: "?d = 0" if "TIMER_FREQUENCY < freq"
    using that by (simp add: word_less_nat_alt word_unat_eq_iff unat_div div_eq_0_iff)
  have "(\<exists>t l h. init_timer freq s = Inr ((), t)
        \<and> out_log t = out_log s @ [(0x43, 0x36), (0x40, l), (0x40, h)]
        \<and> pit_reload l h = TIMER_FREQUENCY div freq \<and> pit_reload l h \<noteq> 0
        \<and> frequency t = TIMER_FREQUENCY div pit_reload l h \<and> freq \<le> frequency t
        \<and> interrupt_handlers t IRQ0 = Some Timer_Callback)"
    if r: "19 \<le> freq" "freq \<le> TIMER_FREQUENCY"
  proof -
    note o = ok [OF r]
    have "freq \<noteq> 0" using r(1) by auto
    with o pit_reload_split [of ?d] show ?thesis
      by (simp add: init_timer_def udiv_def cmd_simps Let_def)
  qed
  moreover have "init_timer freq s = Inl Divide_Error" if "freq = 0 \<or> TIMER_FREQUENCY < freq"
    using that big by (auto simp: init_timer_def udiv_def cmd_simps)
  ultimately show ?thesis by blast
qed

definition demo_timer :: timer where
  "demo_timer = \<lparr>in_port = (\<lambda>_. 0), in_port16 = (\<lambda>_. 0), out_log = [], interrupt_handlers = (\<lambda>_. None), io_log = [],
     tick = 0, frequency = 0\<rparr>"

theorem init_timer_programs_chip_witness:
  "\<exists>t l h. init_timer 25 demo_timer = Inr ((), t) \<and> pit_reload l h = 47727 \<and> frequency t = 25
    \<and> out_log t = [(0x43, 0x36), (0x40, l), (0x40, h)]"
proof -
  have "(19 :: u32) \<le> 25" "25 \<le> TIMER_FREQUENCY" "TIMER_FREQUENCY div 25 = 47727" "TIMER_FREQUENCY div 47727 = 25"
    "out_log demo_timer = []"
    by (simp_all add: TIMER_FREQUENCY_def demo_timer_def)
  with init_timer_programs_chip [of 25 demo_timer] show ?thesis by auto
qed

end
