(* ===== verification/Kernel_Idt.thy ===== *)
theory Kernel_Idt
  imports Kernel_Io
begin

text \<open>
  The interrupt descriptor table, the interrupt controllers and the dispatch of
  \<open>kernel/kernel/idt.c\<close>. The addresses
  of the assembly stubs (\<open>isr\<close> and \<open>irq\<close>, by number) and of the table are
  parameters, fixed by the linker; the function that a handler pointer names is the
  parameter \<open>call\<close> of the dispatch.
\<close>

section \<open>Data\<close>

record idt_entry =
  base_lo :: u16
  sel :: u16
  always0 :: u8
  idt_flags :: u8
  base_hi :: u16

record idt_ptr =
  idt_limit :: u16
  idt_base :: u32

record registers =
  r_ds :: u32
  r_edi :: u32
  r_esi :: u32
  r_ebp :: u32
  r_esp :: u32
  r_ebx :: u32
  r_edx :: u32
  r_ecx :: u32
  r_eax :: u32
  int_no :: u32
  err_code :: u32
  r_eip :: u32
  r_cs :: u32
  r_eflags :: u32
  r_useresp :: u32
  r_ss :: u32

definition zero_gate :: idt_entry where
  "zero_gate = \<lparr>base_lo = 0, sel = 0, always0 = 0, idt_flags = 0, base_hi = 0\<rparr>"

definition sizeof_idt_entry :: u32 where "sizeof_idt_entry = 2 + 2 + 1 + 1 + 2"

record idt = io +
  idt_entries :: "idt_entry list"
  idt_ptr :: idt_ptr
  idtr :: idt_ptr

section \<open>Building the table\<close>

definition set_idt_entry :: "u32 \<Rightarrow> u16 \<Rightarrow> u8 \<Rightarrow> idt_entry \<Rightarrow> idt_entry" where
  "set_idt_entry base s flags e =
     (let e = e\<lparr>base_lo := ucast (base AND 0xFFFF)\<rparr>;
          e = e\<lparr>base_hi := ucast (drop_bit 16 base AND 0xFFFF)\<rparr>;
          e = e\<lparr>sel := s\<rparr>;
          e = e\<lparr>always0 := 0\<rparr>
      in e\<lparr>idt_flags := flags\<rparr>)"

definition idt_set_gate :: "nat \<Rightarrow> u32 \<Rightarrow> u16 \<Rightarrow> u8 \<Rightarrow> ('a idt_scheme, unit) cmd" where
  "idt_set_gate num base s flags =
     upd (\<lambda>st. st\<lparr>idt_entries := (idt_entries st)[num := set_idt_entry base s flags (idt_entries st ! num)]\<rparr>)"

text \<open>Every call of \<open>outb\<close> that remaps the controllers, in order.\<close>

definition pic_commands :: "(u16 \<times> u8) list" where
  "pic_commands = [(0x20, 0x11), (0xA0, 0x11), (0x21, 0x20), (0xA1, 0x28), (0x21, 0x04),
     (0xA1, 0x02), (0x21, 0x01), (0xA1, 0x01), (0x21, 0x0), (0xA1, 0x0)]"

definition init_idt :: "(nat \<Rightarrow> u32) \<Rightarrow> (nat \<Rightarrow> u32) \<Rightarrow> u32 \<Rightarrow> ('a idt_scheme, unit) cmd" where
  "init_idt isr irq idt_addr =
     bnd (upd (\<lambda>s. s\<lparr>interrupt_handlers := (\<lambda>_. None)\<rparr>)) (\<lambda>_.
     bnd (upd (\<lambda>s. s\<lparr>idt_ptr := (idt_ptr s)\<lparr>idt_limit := ucast (sizeof_idt_entry * 256 - 1)\<rparr>\<rparr>)) (\<lambda>_.
     bnd (upd (\<lambda>s. s\<lparr>idt_ptr := (idt_ptr s)\<lparr>idt_base := idt_addr\<rparr>\<rparr>)) (\<lambda>_.
     bnd (upd (\<lambda>s. s\<lparr>idt_entries := replicate 255 zero_gate @ drop 255 (idt_entries s)\<rparr>)) (\<lambda>_.
     bnd (cfor pic_commands (\<lambda>(port, v). outb port v)) (\<lambda>_.
     bnd (cfor [0..<32] (\<lambda>n. idt_set_gate n (isr n) 0x08 0x8E)) (\<lambda>_.
     bnd (cfor [0..<16] (\<lambda>n. idt_set_gate (32 + n) (irq n) 0x08 0x8E)) (\<lambda>_.
     bnd (idt_set_gate 255 (isr 255) 0x08 0x8E) (\<lambda>_.
     upd (\<lambda>s. s\<lparr>idtr := idt_ptr s\<rparr>)))))))))"

section \<open>Dispatch\<close>

definition lookup_handler :: "u32 \<Rightarrow> ('a io_scheme, handler option) cmd" where
  "lookup_handler n = (if n < 256 then gets (\<lambda>s. interrupt_handlers s (ucast n)) else fault Bad_Access)"

definition idt_handler :: "(handler \<Rightarrow> registers \<Rightarrow> ('a io_scheme, unit) cmd) \<Rightarrow> registers \<Rightarrow> ('a io_scheme, unit) cmd" where
  "idt_handler call regs =
     bnd (lookup_handler (int_no regs)) (\<lambda>h.
     case h of Some f \<Rightarrow> call f regs
     | None \<Rightarrow>
         bnd (kprintf_io (''Unhandled interrupt: %d'' @ [CHR 0x0A]) [int_no regs]) (\<lambda>_.
         panic ''''))"

definition irq_handler :: "(handler \<Rightarrow> registers \<Rightarrow> ('a io_scheme, unit) cmd) \<Rightarrow> registers \<Rightarrow> ('a io_scheme, unit) cmd" where
  "irq_handler call regs =
     bnd (if 40 \<le> int_no regs then outb 0xA0 0x20 else skip) (\<lambda>_.
     bnd (outb 0x20 0x20) (\<lambda>_.
     bnd (lookup_handler (int_no regs)) (\<lambda>h.
     case h of Some f \<Rightarrow> call f regs | None \<Rightarrow> skip)))"

section \<open>What the processor and the controllers do with it\<close>

definition gate_offset :: "idt_entry \<Rightarrow> u32" where
  "gate_offset e = ucast (base_lo e) OR push_bit 16 (ucast (base_hi e))"

definition gate_present :: "idt_entry \<Rightarrow> bool" where
  "gate_present e \<longleftrightarrow> bit (idt_flags e) 7"

text \<open>
  An 8259 controller, as its data sheet describes it: a command with bit 4 set
  starts the initialisation, whose next three data bytes are the vector of line
  0, the cascade and the mode; a data byte outside an initialisation is the mask
  of lines.
\<close>

record pic =
  pic_stage :: nat
  pic_vector :: u8
  pic_mask :: u8

definition pic_write :: "u16 \<Rightarrow> u16 \<Rightarrow> pic \<Rightarrow> u16 \<times> u8 \<Rightarrow> pic" where
  "pic_write cmd_port data_port p w =
     (if fst w = cmd_port then (if bit (snd w) 4 then p\<lparr>pic_stage := 1, pic_mask := 0\<rparr> else p)
      else if fst w = data_port then
        (if pic_stage p = 0 then p\<lparr>pic_mask := snd w\<rparr>
         else if pic_stage p = 1 then p\<lparr>pic_stage := 2, pic_vector := snd w\<rparr>
         else if pic_stage p = 2 then p\<lparr>pic_stage := 3\<rparr>
         else p\<lparr>pic_stage := 0\<rparr>)
      else p)"

definition run_pic :: "u16 \<Rightarrow> u16 \<Rightarrow> (u16 \<times> u8) list \<Rightarrow> pic \<Rightarrow> pic" where
  "run_pic c d ws p = fold (\<lambda>w q. pic_write c d q w) ws p"

section \<open>The table after the initialisation\<close>

lemma gate_offset_set: "gate_offset (set_idt_entry base s flags e) = base"
proof (rule bit_word_eqI)
  have m: "(0xFFFF :: 32 word) = mask 16" by (simp add: mask_eq_exp_minus_1)
  fix n assume n: "n < LENGTH(32)"
  consider "n < 16" | "16 \<le> n" by linarith
  then show "bit (gate_offset (set_idt_entry base s flags e)) n \<longleftrightarrow> bit base n"
    by cases (use n in \<open>auto simp: gate_offset_def set_idt_entry_def Let_def m bit_simps\<close>)
qed

lemma cfor_idt_gates:
  "cfor xs (\<lambda>n. idt_set_gate (f n) (g n) sl fl) s =
     Inr ((), s\<lparr>idt_entries := fold (\<lambda>n es. es[f n := set_idt_entry (g n) sl fl (es ! f n)]) xs (idt_entries s)\<rparr>)"
  by (induction xs arbitrary: s) (simp_all add: idt_set_gate_def cmd_simps)

lemma cfor_outb:
  "cfor xs (\<lambda>(p, v). outb p v) s = Inr ((), s\<lparr>out_log := out_log s @ xs\<rparr>)"
  by (induction xs arbitrary: s) (auto simp: cmd_simps)

lemma length_fold_gates:
  "length (fold (\<lambda>n es. es[c + n := set_idt_entry (g n) sl fl (es ! (c + n))]) ns es) = length es"
  by (induction ns arbitrary: es) simp_all

lemma fold_gates:
  assumes "i < length es"
  shows "fold (\<lambda>n es. es[c + n := set_idt_entry (g n) sl fl (es ! (c + n))]) [0..<k] es ! i =
     (if c \<le> i \<and> i < c + k then set_idt_entry (g (i - c)) sl fl (es ! i) else es ! i)"
  using assms by (induction k) (auto simp: nth_list_update less_Suc_eq length_fold_gates)

lemma idt_set_gate_run [cmd_simps]:
  "idt_set_gate n b sl fl s =
     Inr ((), s\<lparr>idt_entries := (idt_entries s)[n := set_idt_entry b sl fl (idt_entries s ! n)]\<rparr>)"
  by (simp add: idt_set_gate_def cmd_simps)

lemma init_idt_run:
  assumes "length (idt_entries s) = 256"
  shows "\<exists>t. init_idt isr irq idt_addr s = Inr ((), t) \<and> length (idt_entries t) = 256
    \<and> (\<forall>i < 256. idt_entries t ! i =
        (if i < 32 then set_idt_entry (isr i) 0x08 0x8E zero_gate
         else if i < 48 then set_idt_entry (irq (i - 32)) 0x08 0x8E zero_gate
         else if i = 255 then set_idt_entry (isr 255) 0x08 0x8E (idt_entries s ! 255) else zero_gate))
    \<and> idtr t = \<lparr>idt_limit = 2047, idt_base = idt_addr\<rparr>
    \<and> out_log t = out_log s @ pic_commands \<and> interrupt_handlers t = (\<lambda>_. None)"
proof -
  obtain e where e: "drop 255 (idt_entries s) = [e]" "e = idt_entries s ! 255"
  proof -
    have "drop 255 (idt_entries s) = idt_entries s ! 255 # drop 256 (idt_entries s)"
      using assms Cons_nth_drop_Suc [of 255 "idt_entries s"] by simp
    with assms that show ?thesis by simp
  qed
  let ?g = "\<lambda>c g k es. fold (\<lambda>n es. es[c + n := set_idt_entry (g n) 0x08 0x8E (es ! (c + n))]) [0..<k] es"
  let ?e0 = "replicate 255 zero_gate @ [e]"
  let ?e1 = "?g 0 isr 32 ?e0" and ?e2 = "?g 32 irq 16 (?g 0 isr 32 ?e0)"
  have l: "length ?e0 = 256" "length ?e1 = 256" "length ?e2 = 256"
    by (simp_all add: length_fold_gates length_fold_gates [of 0, simplified])
  have run: "init_idt isr irq idt_addr s = Inr ((), s\<lparr>interrupt_handlers := (\<lambda>_. None),
      idt_ptr := \<lparr>idt_limit = 2047, idt_base = idt_addr\<rparr>, out_log := out_log s @ pic_commands,
      idt_entries := ?e2[255 := set_idt_entry (isr 255) 0x08 0x8E (?e2 ! 255)],
      idtr := \<lparr>idt_limit = 2047, idt_base = idt_addr\<rparr>\<rparr>)"
    by (cases "idt_ptr s") (simp add: init_idt_def cmd_simps cfor_outb e(1) sizeof_idt_entry_def
      cfor_idt_gates [of _ "\<lambda>n. n" isr] cfor_idt_gates [of _ "\<lambda>n. 32 + n" irq])
  have nth: "?e2 ! i = (if i < 32 then set_idt_entry (isr i) 0x08 0x8E zero_gate
      else if i < 48 then set_idt_entry (irq (i - 32)) 0x08 0x8E zero_gate else ?e0 ! i)" if "i < 256" for i
  proof -
    have "?e0 ! i = zero_gate" if "i < 48" using that by (simp add: nth_append)
    then show ?thesis
      using that fold_gates [of i ?e0 0 isr "0x08" "0x8E" 32] fold_gates [of i ?e1 32 irq "0x08" "0x8E" 16] l by simp
  qed
  have "?e0 ! i = (if i = 255 then e else zero_gate)" if "i < 256" for i
    using that by (cases "i = 255") (auto simp: nth_append)
  with nth l show ?thesis unfolding run by (auto simp: nth_list_update e(2))
qed

section \<open>Properties of the interrupt set-up\<close>

text \<open>C34: Every interrupt the kernel expects reaches its own stub. After \<open>init_idt\<close> the
  two controllers are ready, unmasked, and deliver line \<open>n\<close> as a vector whose gate is
  present, in the kernel's code segment, and leads to the stub \<open>irq n\<close>; the gates of
  the processor's own vectors lead to \<open>isr n\<close>; every vector that has no stub has an empty gate.\<close>

theorem init_idt_routes_interrupts:
  assumes "length (idt_entries s) = 256"
  shows "\<exists>t ws. init_idt isr irq idt_addr s = Inr ((), t) \<and> out_log t = out_log s @ ws
    \<and> (let master = run_pic 0x20 0x21 ws p; slave = run_pic 0xA0 0xA1 ws q in
        pic_stage master = 0 \<and> pic_stage slave = 0 \<and> pic_mask master = 0 \<and> pic_mask slave = 0
        \<and> (\<forall>n < 8. gate_offset (idt_entries t ! (unat (pic_vector master) + n)) = irq n
            \<and> gate_offset (idt_entries t ! (unat (pic_vector slave) + n)) = irq (8 + n)))
    \<and> (\<forall>n < 32. gate_offset (idt_entries t ! n) = isr n)
    \<and> gate_offset (idt_entries t ! 255) = isr 255
    \<and> (\<forall>n < 256. gate_present (idt_entries t ! n) \<longleftrightarrow> n < 48 \<or> n = 255)
    \<and> (\<forall>n < 256. gate_present (idt_entries t ! n) \<longrightarrow> sel (idt_entries t ! n) = 0x08)
    \<and> idtr t = \<lparr>idt_limit = 256 * 8 - 1, idt_base = idt_addr\<rparr>"
proof -
  obtain t where t: "init_idt isr irq idt_addr s = Inr ((), t)"
    "\<And>i. i < 256 \<Longrightarrow> idt_entries t ! i =
        (if i < 32 then set_idt_entry (isr i) 0x08 0x8E zero_gate
         else if i < 48 then set_idt_entry (irq (i - 32)) 0x08 0x8E zero_gate
         else if i = 255 then set_idt_entry (isr 255) 0x08 0x8E (idt_entries s ! 255) else zero_gate)"
    "idtr t = \<lparr>idt_limit = 2047, idt_base = idt_addr\<rparr>" "out_log t = out_log s @ pic_commands"
    using init_idt_run [OF assms, of isr irq idt_addr] by blast
  have pics: "run_pic 0x20 0x21 pic_commands p = p\<lparr>pic_stage := 0, pic_vector := 0x20, pic_mask := 0\<rparr>"
    "run_pic 0xA0 0xA1 pic_commands q = q\<lparr>pic_stage := 0, pic_vector := 0x28, pic_mask := 0\<rparr>"
    by (simp_all add: run_pic_def pic_commands_def pic_write_def)
  have present: "gate_present (set_idt_entry b 0x08 0x8E e)" "\<not> gate_present zero_gate"
    "sel (set_idt_entry b 0x08 0x8E e) = 0x08" for b e
    by (simp_all add: gate_present_def set_idt_entry_def zero_gate_def)
  show ?thesis
    by (rule exI [of _ t], rule exI [of _ pic_commands])
      (auto simp: t pics gate_offset_set present Let_def)
qed

definition demo_idt :: idt where
  "demo_idt = \<lparr>in_port = (\<lambda>_. 0), in_port16 = (\<lambda>_. 0), out_log = [], interrupt_handlers = (\<lambda>_. None), io_log = [],
     idt_entries = replicate 256 zero_gate, idt_ptr = \<lparr>idt_limit = 0, idt_base = 0\<rparr>,
     idtr = \<lparr>idt_limit = 0, idt_base = 0\<rparr>\<rparr>"

theorem init_idt_routes_interrupts_witness:
  "\<exists>t. init_idt (\<lambda>n. 0x100000 + 16 * of_nat n) (\<lambda>n. 0x101000 + 16 * of_nat n) 0x105000 demo_idt = Inr ((), t)
    \<and> gate_offset (idt_entries t ! 14) = 0x1000E0 \<and> \<not> gate_present (idt_entries t ! 128)"
proof -
  have "length (idt_entries demo_idt) = 256" by (simp add: demo_idt_def)
  from init_idt_routes_interrupts [OF this, of "\<lambda>n. 0x100000 + 16 * of_nat n" "\<lambda>n. 0x101000 + 16 * of_nat n" "0x105000"]
  show ?thesis by (fastforce simp: Let_def)
qed

text \<open>Dispatch. A processor exception runs its registered handler, and panics without one; a
  device interrupt is acknowledged exactly once at each controller it came through
  (the slave for lines 8 to 15, always the master), before its handler runs, and is ignored
  without one.\<close>

lemma interrupt_dispatch:
  fixes s :: "'a io_scheme"
  assumes "int_no regs < 256"
  defines "h \<equiv> interrupt_handlers s (ucast (int_no regs))"
    and "acks \<equiv> (if 40 \<le> int_no regs then [(0xA0, 0x20)] else []) @ [(0x20, 0x20)]"
  shows "idt_handler call regs s = (case h of Some f \<Rightarrow> call f regs s | None \<Rightarrow> Inl (Panic ''''))
    \<and> irq_handler call regs s = (case h of Some f \<Rightarrow> call f regs (s\<lparr>out_log := out_log s @ acks\<rparr>)
        | None \<Rightarrow> Inr ((), s\<lparr>out_log := out_log s @ acks\<rparr>))"
  using assms(1) unfolding h_def acks_def
  by (auto simp: idt_handler_def irq_handler_def lookup_handler_def cmd_simps kprintf_io_def split: option.splits)

text \<open>The registers of an interrupt \<open>n\<close> that came while the kernel ran.\<close>

definition demo_regs :: "u32 \<Rightarrow> registers" where
  "demo_regs n = \<lparr>r_ds = 0x10, r_edi = 0, r_esi = 0, r_ebp = 0, r_esp = 0, r_ebx = 0, r_edx = 0, r_ecx = 0,
     r_eax = 0, int_no = n, err_code = 0, r_eip = 0x100000, r_cs = 8, r_eflags = 0x200, r_useresp = 0, r_ss = 0x10\<rparr>"

end
