(* ===== verification/Kernel_Gdt.thy ===== *)
theory Kernel_Gdt
  imports Kernel_Prelude
begin

text \<open>
  The segment descriptors and the task state segment of \<open>kernel/kernel/gdt.c\<close>,
  and what the processor reads from a descriptor. The addresses of the globals
  \<open>gdt_entries\<close> and \<open>tss_entry\<close>, fixed by the linker, are parameters.
\<close>

section \<open>Data\<close>

record gdt_entry =
  limit_low :: u16
  base_low :: u16
  base_middle :: u8
  gdt_access :: u8
  granularity :: u8
  base_high :: u8

record gdt_ptr =
  gdt_limit :: u16
  gdt_base :: u32

record tss_entry =
  prev_tss :: u32
  tss_esp0 :: u32
  tss_ss0 :: u32
  tss_esp1 :: u32
  tss_ss1 :: u32
  tss_esp2 :: u32
  tss_ss2 :: u32
  tss_cr3 :: u32
  tss_eip :: u32
  tss_eflags :: u32
  tss_eax :: u32
  tss_ecx :: u32
  tss_edx :: u32
  tss_ebx :: u32
  tss_esp :: u32
  tss_ebp :: u32
  tss_esi :: u32
  tss_edi :: u32
  tss_es :: u32
  tss_cs :: u32
  tss_ss :: u32
  tss_ds :: u32
  tss_fs :: u32
  tss_gs :: u32
  tss_ldt :: u32
  tss_trap :: u16
  tss_iomap_base :: u16

text \<open>The size in bytes of the packed structures: eight, and 25 words and two halfwords.\<close>

definition sizeof_gdt_entry :: u32 where "sizeof_gdt_entry = 2 + 2 + 1 + 1 + 1 + 1"
definition sizeof_tss_entry :: u32 where "sizeof_tss_entry = 25 * 4 + 2 * 2"

text \<open>
  The globals, and the two registers that \<open>gdt_flush\<close> and \<open>tss_flush\<close>
  load: \<open>gdtr\<close> with the pointer structure, \<open>tr\<close> with the selector of entry 5.
\<close>

record gdt =
  gdt_entries :: "gdt_entry list"
  gdt_ptr :: gdt_ptr
  tss :: tss_entry
  gdtr :: gdt_ptr
  tr :: u16

section \<open>Operations\<close>

definition set_gate :: "u32 \<Rightarrow> u32 \<Rightarrow> u8 \<Rightarrow> u8 \<Rightarrow> gdt_entry \<Rightarrow> gdt_entry" where
  "set_gate base limit access gran e =
     (let e = e\<lparr>base_low := ucast (base AND 0xFFFF)\<rparr>;
          e = e\<lparr>base_middle := ucast (drop_bit 16 base AND 0xFF)\<rparr>;
          e = e\<lparr>base_high := ucast (drop_bit 24 base AND 0xFF)\<rparr>;
          e = e\<lparr>limit_low := ucast (limit AND 0xFFFF)\<rparr>;
          e = e\<lparr>granularity := ucast (drop_bit 16 limit AND 0x0F)\<rparr>;
          e = e\<lparr>granularity := granularity e OR (gran AND 0xF0)\<rparr>
      in e\<lparr>gdt_access := access\<rparr>)"

definition gdt_set_gate :: "nat \<Rightarrow> u32 \<Rightarrow> u32 \<Rightarrow> u8 \<Rightarrow> u8 \<Rightarrow> ('a gdt_scheme, unit) cmd" where
  "gdt_set_gate num base limit access gran =
     upd (\<lambda>s. s\<lparr>gdt_entries := (gdt_entries s)[num := set_gate base limit access gran (gdt_entries s ! num)]\<rparr>)"

definition zero_tss :: tss_entry where
  "zero_tss = \<lparr>prev_tss = 0, tss_esp0 = 0, tss_ss0 = 0, tss_esp1 = 0, tss_ss1 = 0, tss_esp2 = 0,
     tss_ss2 = 0, tss_cr3 = 0, tss_eip = 0, tss_eflags = 0, tss_eax = 0, tss_ecx = 0, tss_edx = 0,
     tss_ebx = 0, tss_esp = 0, tss_ebp = 0, tss_esi = 0, tss_edi = 0, tss_es = 0, tss_cs = 0,
     tss_ss = 0, tss_ds = 0, tss_fs = 0, tss_gs = 0, tss_ldt = 0, tss_trap = 0, tss_iomap_base = 0\<rparr>"

definition write_tss :: "u32 \<Rightarrow> nat \<Rightarrow> u16 \<Rightarrow> u32 \<Rightarrow> ('a gdt_scheme, unit) cmd" where
  "write_tss tss_addr num ss0 esp0 =
     (let base = tss_addr; limit = base + sizeof_tss_entry in
      bnd (gdt_set_gate num base limit 0xE9 0x00) (\<lambda>_.
      bnd (upd (\<lambda>s. s\<lparr>tss := zero_tss\<rparr>)) (\<lambda>_.
      bnd (upd (\<lambda>s. s\<lparr>tss := (tss s)\<lparr>tss_ss0 := ucast ss0\<rparr>\<rparr>)) (\<lambda>_.
      bnd (upd (\<lambda>s. s\<lparr>tss := (tss s)\<lparr>tss_esp0 := esp0\<rparr>\<rparr>)) (\<lambda>_.
      bnd (upd (\<lambda>s. s\<lparr>tss := (tss s)\<lparr>tss_cs := 0x0b\<rparr>\<rparr>)) (\<lambda>_.
      upd (\<lambda>s. s\<lparr>tss := (tss s)\<lparr>tss_ss := 0x13, tss_ds := 0x13, tss_es := 0x13, tss_fs := 0x13,
        tss_gs := 0x13\<rparr>\<rparr>)))))))"

text \<open>The assembly stubs: \<open>lgdt\<close> of the pointer, \<open>ltr\<close> of selector 0x2B.\<close>

definition gdt_flush :: "('a gdt_scheme, unit) cmd" where
  "gdt_flush = upd (\<lambda>s. s\<lparr>gdtr := gdt_ptr s\<rparr>)"

definition tss_flush :: "('a gdt_scheme, unit) cmd" where
  "tss_flush = upd (\<lambda>s. s\<lparr>tr := 0x2B\<rparr>)"

definition init_gdt :: "u32 \<Rightarrow> u32 \<Rightarrow> u32 \<Rightarrow> ('a gdt_scheme, unit) cmd" where
  "init_gdt gdt_addr tss_addr kstack_ptr =
     bnd (upd (\<lambda>s. s\<lparr>gdt_ptr := (gdt_ptr s)\<lparr>gdt_limit := ucast (sizeof_gdt_entry * 6 - 1)\<rparr>\<rparr>)) (\<lambda>_.
     bnd (upd (\<lambda>s. s\<lparr>gdt_ptr := (gdt_ptr s)\<lparr>gdt_base := gdt_addr\<rparr>\<rparr>)) (\<lambda>_.
     bnd (gdt_set_gate 0 0 0 0 0) (\<lambda>_.
     bnd (gdt_set_gate 1 0 0xFFFFF 0x9A 0xCF) (\<lambda>_.
     bnd (gdt_set_gate 2 0 0xFFFFF 0x92 0xCF) (\<lambda>_.
     bnd (gdt_set_gate 3 0 0xFFFFF 0xFA 0xCF) (\<lambda>_.
     bnd (gdt_set_gate 4 0 0xFFFFF 0xF2 0xCF) (\<lambda>_.
     bnd (write_tss tss_addr 5 0x10 kstack_ptr) (\<lambda>_.
     bnd gdt_flush (\<lambda>_. tss_flush)))))))))"

section \<open>What the processor reads\<close>

definition descriptor_base :: "gdt_entry \<Rightarrow> u32" where
  "descriptor_base e = ucast (base_low e) OR push_bit 16 (ucast (base_middle e))
     OR push_bit 24 (ucast (base_high e))"

definition descriptor_limit :: "gdt_entry \<Rightarrow> u32" where
  "descriptor_limit e = ucast (limit_low e) OR push_bit 16 (ucast (granularity e AND 0x0F))"

definition descriptor_flags :: "gdt_entry \<Rightarrow> u8" where
  "descriptor_flags e = granularity e AND 0xF0"

text \<open>The last byte offset of the segment: with bit 7 of the flags set the limit counts pages.\<close>

definition segment_last :: "gdt_entry \<Rightarrow> u32" where
  "segment_last e = (if bit (granularity e) 7 then push_bit 12 (descriptor_limit e) OR 0xFFF else descriptor_limit e)"

definition descriptor_dpl :: "gdt_entry \<Rightarrow> u8" where
  "descriptor_dpl e = drop_bit 5 (gdt_access e) AND 3"

lemma low_masks:
  "(0xFFFF :: 32 word) = mask 16" "(0xFF :: 32 word) = mask 8" "(0x0F :: 32 word) = mask 4"
  "(0xFFFFF :: 32 word) = mask 20" "(0x0F :: 8 word) = mask 4" "(0xF0 :: 8 word) = NOT (mask 4)"
  by (simp_all add: mask_eq_exp_minus_1)

lemma descriptor_set_gate:
  "descriptor_base (set_gate base limit access gran e) = base"
  "descriptor_limit (set_gate base limit access gran e) = limit AND 0xFFFFF"
  "descriptor_flags (set_gate base limit access gran e) = gran AND 0xF0"
  "gdt_access (set_gate base limit access gran e) = access"
proof -
  show "descriptor_base (set_gate base limit access gran e) = base"
  proof (rule bit_word_eqI)
    fix n assume n: "n < LENGTH(32)"
    consider "n < 16" | "16 \<le> n" "n < 24" | "24 \<le> n" by linarith
    then show "bit (descriptor_base (set_gate base limit access gran e)) n \<longleftrightarrow> bit base n"
      by cases (use n in \<open>auto simp: descriptor_base_def set_gate_def Let_def low_masks bit_simps\<close>)
  qed
  show "descriptor_limit (set_gate base limit access gran e) = limit AND 0xFFFFF"
  proof (rule bit_word_eqI)
    fix n assume n: "n < LENGTH(32)"
    consider "n < 16" | "16 \<le> n" "n < 20" | "20 \<le> n" by linarith
    then show "bit (descriptor_limit (set_gate base limit access gran e)) n \<longleftrightarrow> bit (limit AND 0xFFFFF) n"
      by cases (use n in \<open>auto simp: descriptor_limit_def set_gate_def Let_def low_masks bit_simps\<close>)
  qed
  show "descriptor_flags (set_gate base limit access gran e) = gran AND 0xF0"
    by (rule bit_word_eqI) (auto simp: descriptor_flags_def set_gate_def Let_def low_masks bit_simps)
  show "gdt_access (set_gate base limit access gran e) = access"
    by (simp add: set_gate_def Let_def)
qed

section \<open>The table after the initialisation\<close>

definition flat :: "u8 \<Rightarrow> gdt_entry \<Rightarrow> gdt_entry" where
  "flat access e = set_gate 0 0xFFFFF access 0xCF e"

lemma init_gdt_run:
  assumes "length (gdt_entries s) = 6"
  shows "\<exists>t. init_gdt gdt_addr tss_addr kstack s = Inr ((), t)
    \<and> gdt_entries t = [set_gate 0 0 0 0 (gdt_entries s ! 0), flat 0x9A (gdt_entries s ! 1),
        flat 0x92 (gdt_entries s ! 2), flat 0xFA (gdt_entries s ! 3), flat 0xF2 (gdt_entries s ! 4),
        set_gate tss_addr (tss_addr + 104) 0xE9 0 (gdt_entries s ! 5)]
    \<and> gdtr t = \<lparr>gdt_limit = 47, gdt_base = gdt_addr\<rparr> \<and> tr t = 0x2B
    \<and> tss t = zero_tss\<lparr>tss_ss0 := 0x10, tss_esp0 := kstack, tss_cs := 0x0B, tss_ss := 0x13,
        tss_ds := 0x13, tss_es := 0x13, tss_fs := 0x13, tss_gs := 0x13\<rparr>"
proof -
  obtain e0 e1 e2 e3 e4 e5 where "gdt_entries s = [e0, e1, e2, e3, e4, e5]"
    using assms by (auto simp: length_Suc_conv eval_nat_numeral)
  then show ?thesis
    by (cases "gdt_ptr s") (simp add: init_gdt_def gdt_set_gate_def write_tss_def gdt_flush_def tss_flush_def
        cmd_simps Let_def flat_def sizeof_tss_entry_def sizeof_gdt_entry_def zero_tss_def)
qed

lemma flat_segment:
  "descriptor_base (flat a e) = 0" "segment_last (flat a e) = 0xFFFFFFFF" "gdt_access (flat a e) = a"
proof -
  show "descriptor_base (flat a e) = 0" "gdt_access (flat a e) = a" by (simp_all add: flat_def descriptor_set_gate)
  have "descriptor_limit (flat a e) = 0xFFFFF" by (simp add: flat_def descriptor_set_gate)
  moreover have "bit (granularity (flat a e)) 7 = bit (descriptor_flags (flat a e)) 7"
    by (simp add: descriptor_flags_def low_masks bit_simps)
  moreover have "descriptor_flags (flat a e) = 0xC0" by (simp add: flat_def descriptor_set_gate)
  ultimately show "segment_last (flat a e) = 0xFFFFFFFF" by (simp add: segment_last_def)
qed

section \<open>Properties of the descriptor table\<close>

text \<open>C33: After \<open>init_gdt\<close> the machine has the flat memory model: the register
  points at six entries, the code and data segments of kernel (privilege 0) and user (privilege
  3) each start at 0 and end at the last byte of the address space, entry 0 is null, and the task
  segment gives the processor the kernel stack on an interrupt from user mode. The limit of
  the task segment is the low 20 bits of its address plus its size; it is not its size minus one.\<close>

theorem init_gdt_flat_segments:
  assumes "length (gdt_entries s) = 6"
  shows "\<exists>t. init_gdt gdt_addr tss_addr kstack s = Inr ((), t)
    \<and> gdtr t = \<lparr>gdt_limit = 6 * 8 - 1, gdt_base = gdt_addr\<rparr>
    \<and> (\<forall>i \<in> {1, 2, 3, 4}. descriptor_base (gdt_entries t ! i) = 0 \<and> segment_last (gdt_entries t ! i) = 0xFFFFFFFF)
    \<and> map (\<lambda>i. descriptor_dpl (gdt_entries t ! i)) [1, 2, 3, 4] = [0, 0, 3, 3]
    \<and> gdt_access (gdt_entries t ! 0) = 0
    \<and> tr t AND 0xFFF8 = 8 * 5 \<and> descriptor_base (gdt_entries t ! 5) = tss_addr
    \<and> descriptor_limit (gdt_entries t ! 5) = (tss_addr + 104) AND 0xFFFFF
    \<and> tss_ss0 (tss t) = 0x10 \<and> tss_esp0 (tss t) = kstack"
proof -
  obtain t where t: "init_gdt gdt_addr tss_addr kstack s = Inr ((), t)"
    "gdt_entries t = [set_gate 0 0 0 0 (gdt_entries s ! 0), flat 0x9A (gdt_entries s ! 1),
        flat 0x92 (gdt_entries s ! 2), flat 0xFA (gdt_entries s ! 3), flat 0xF2 (gdt_entries s ! 4),
        set_gate tss_addr (tss_addr + 104) 0xE9 0 (gdt_entries s ! 5)]"
    "gdtr t = \<lparr>gdt_limit = 47, gdt_base = gdt_addr\<rparr>" "tr t = 0x2B"
    "tss t = zero_tss\<lparr>tss_ss0 := 0x10, tss_esp0 := kstack, tss_cs := 0x0B, tss_ss := 0x13,
        tss_ds := 0x13, tss_es := 0x13, tss_fs := 0x13, tss_gs := 0x13\<rparr>"
    using init_gdt_run [OF assms, of gdt_addr tss_addr kstack] by blast
  have "descriptor_dpl (flat a e) = drop_bit 5 a AND 3" for a e by (simp add: descriptor_dpl_def flat_segment)
  then show ?thesis
    using t by (simp add: descriptor_set_gate flat_segment zero_tss_def)
qed

definition demo_gdt :: gdt where
  "demo_gdt = \<lparr>gdt_entries = replicate 6 \<lparr>limit_low = 0, base_low = 0, base_middle = 0, gdt_access = 0,
       granularity = 0, base_high = 0\<rparr>, gdt_ptr = \<lparr>gdt_limit = 0, gdt_base = 0\<rparr>, tss = zero_tss,
     gdtr = \<lparr>gdt_limit = 0, gdt_base = 0\<rparr>, tr = 0\<rparr>"

theorem init_gdt_flat_segments_witness:
  "\<exists>t. init_gdt 0x105000 0x106000 0x110000 demo_gdt = Inr ((), t)
    \<and> descriptor_base (gdt_entries t ! 5) = 0x106000 \<and> descriptor_limit (gdt_entries t ! 5) = 0x6068"
proof -
  have "length (gdt_entries demo_gdt) = 6" by (simp add: demo_gdt_def)
  from init_gdt_flat_segments [OF this, of "0x105000" "0x106000" "0x110000"] show ?thesis by auto
qed

end
