(* ===== verification/Kernel_Monitor.thy ===== *)
theory Kernel_Monitor
  imports Kernel_Io
begin

text \<open>
  The text console of \<open>kernel/lib/monitor.c\<close>. The 80 by 25 cells of the video
  memory are a list; an access outside of it is a fault. The cursor is set
  through the ports of the VGA board.
\<close>

section \<open>State\<close>

definition COLUMNS :: nat where "COLUMNS = 80"
definition LINES :: nat where "LINES = 25"

record monitor = io +
  video_mem :: "u16 list"
  xpos :: u8
  ypos :: u8
  back_color :: u8
  fore_color :: u8

section \<open>Operations\<close>

definition vga_set_attr :: "u8 \<Rightarrow> u8 \<Rightarrow> u16" where
  "vga_set_attr back fore = (let attr = push_bit 4 back OR (fore AND 0x0F) in push_bit 8 (ucast attr))"

definition vga_format_ascii :: "u8 \<Rightarrow> u8 \<Rightarrow> u8 \<Rightarrow> u16" where
  "vga_format_ascii back fore ascii = (let attr = vga_set_attr back fore in scast ascii OR attr)"

definition update_cursor :: "('a monitor_scheme, unit) cmd" where
  "update_cursor =
     bnd (gets (\<lambda>s. ucast (ypos s) * 80 + ucast (xpos s) :: u16)) (\<lambda>cursorLocation.
     bnd (outb 0x3D4 14) (\<lambda>_.
     bnd (outb 0x3D5 (ucast (drop_bit 8 cursorLocation))) (\<lambda>_.
     bnd (outb 0x3D4 15) (\<lambda>_.
     outb 0x3D5 (ucast cursorLocation)))))"

definition load_cell :: "nat \<Rightarrow> ('a monitor_scheme, u16) cmd" where
  "load_cell i = bnd (gets video_mem) (\<lambda>v. if i < length v then ret (v ! i) else fault Bad_Access)"

definition store_cell :: "nat \<Rightarrow> u16 \<Rightarrow> ('a monitor_scheme, unit) cmd" where
  "store_cell i c = bnd (gets video_mem) (\<lambda>v.
     if i < length v then upd (\<lambda>s. s\<lparr>video_mem := v[i := c]\<rparr>) else fault Bad_Access)"

definition scroll :: "('a monitor_scheme, unit) cmd" where
  "scroll =
     bnd (gets (\<lambda>s. vga_format_ascii (back_color s) (fore_color s) 0x20)) (\<lambda>blank.
     bnd (gets ypos) (\<lambda>y.
     if 25 \<le> y then
       bnd (cfor [0 * 80..<24 * 80] (\<lambda>i. bnd (load_cell (i + 80)) (store_cell i))) (\<lambda>_.
       bnd (cfor [24 * 80..<25 * 80] (\<lambda>i. store_cell i blank)) (\<lambda>_.
       upd (\<lambda>s. s\<lparr>ypos := 24\<rparr>)))
     else skip))"

definition init_monitor :: "('a monitor_scheme, unit) cmd" where
  "init_monitor =
     bnd (gets (\<lambda>s. vga_format_ascii (back_color s) (fore_color s) 0x20)) (\<lambda>blank.
     bnd (cfor [0..<COLUMNS * LINES] (\<lambda>i. store_cell i blank)) (\<lambda>_.
     bnd (upd (\<lambda>s. s\<lparr>xpos := 0\<rparr>)) (\<lambda>_.
     bnd (upd (\<lambda>s. s\<lparr>ypos := 0\<rparr>)) (\<lambda>_.
     update_cursor))))"

text \<open>\<open>char\<close> is signed, so \<open>c >= 0x20\<close> holds for 0x20 to 0x7F only.\<close>

definition monitor_put :: "u8 \<Rightarrow> ('a monitor_scheme, unit) cmd" where
  "monitor_put c =
     bnd (gets (\<lambda>s. vga_set_attr (back_color s) (fore_color s))) (\<lambda>attribute.
     bnd (gets xpos) (\<lambda>x. bnd (gets ypos) (\<lambda>y.
     bnd (if c = 0x08 \<and> x \<noteq> 0 then upd (\<lambda>s. s\<lparr>xpos := xpos s - 1\<rparr>)
          else if c = 0x09 then upd (\<lambda>s. s\<lparr>xpos := (xpos s + 4) AND NOT (4 - 1)\<rparr>)
          else if c = 0x0D then upd (\<lambda>s. s\<lparr>xpos := 0\<rparr>)
          else if c = 0x0A then upd (\<lambda>s. s\<lparr>xpos := 0, ypos := ypos s + 1\<rparr>)
          else if 0x20 \<le> sint c then
            bnd (store_cell (unat y * 80 + unat x) (ucast c OR attribute)) (\<lambda>_.
            upd (\<lambda>s. s\<lparr>xpos := xpos s + 1\<rparr>))
          else skip) (\<lambda>_.
     bnd (gets xpos) (\<lambda>x.
     bnd (if 80 \<le> x then upd (\<lambda>s. s\<lparr>xpos := 0, ypos := ypos s + 1\<rparr>) else skip) (\<lambda>_.
     bnd scroll (\<lambda>_.
     update_cursor)))))))"

text \<open>The string is the list of its bytes before the terminator.\<close>

definition monitor_write :: "u8 list \<Rightarrow> ('a monitor_scheme, unit) cmd" where
  "monitor_write s = cfor s monitor_put"

section \<open>What the screen shows\<close>

definition cell :: "'a monitor_scheme \<Rightarrow> nat \<Rightarrow> nat \<Rightarrow> u16" where
  "cell s row col = video_mem s ! (row * 80 + col)"

definition blank_cell :: "'a monitor_scheme \<Rightarrow> u16" where
  "blank_cell s = vga_format_ascii (back_color s) (fore_color s) 0x20"

definition on_screen :: "'a monitor_scheme \<Rightarrow> bool" where
  "on_screen s \<longleftrightarrow> length (video_mem s) = 2000 \<and> xpos s < 80 \<and> ypos s < 25"

lemma load_cell_run: "i < length (video_mem s) \<Longrightarrow> load_cell i s = Inr (video_mem s ! i, s)"
  by (simp add: load_cell_def cmd_simps)

lemma store_cell_run:
  "i < length (video_mem s) \<Longrightarrow> store_cell i c s = Inr ((), s\<lparr>video_mem := (video_mem s)[i := c]\<rparr>)"
  by (simp add: store_cell_def cmd_simps)

lemma store_cells:
  "n + k \<le> length (video_mem s) \<Longrightarrow>
   cfor [n..<n + k] (\<lambda>i. store_cell i b) s =
     Inr ((), s\<lparr>video_mem := take n (video_mem s) @ replicate k b @ drop (n + k) (video_mem s)\<rparr>)"
proof (induction k arbitrary: s)
  case (Suc k)
  let ?v = "take n (video_mem s) @ replicate k b @ drop (n + k) (video_mem s)"
  have "cfor [n..<n + Suc k] (\<lambda>i. store_cell i b) s = store_cell (n + k) b (s\<lparr>video_mem := ?v\<rparr>)"
    using Suc by (auto simp: cfor_append split: sum.splits)
  also have "\<dots> = Inr ((), s\<lparr>video_mem := ?v[n + k := b]\<rparr>)"
    using Suc.prems by (simp add: store_cell_run)
  also have "?v[n + k := b] = take n (video_mem s) @ replicate (Suc k) b @ drop (n + Suc k) (video_mem s)"
    using Suc.prems
    by (simp add: list_update_append min_def replicate_append_same flip: Cons_nth_drop_Suc)
  finally show ?case .
qed simp

lemma move_cells:
  "k + 80 \<le> length (video_mem s) \<Longrightarrow>
   cfor [0..<k] (\<lambda>i. bnd (load_cell (i + 80)) (store_cell i)) s =
     Inr ((), s\<lparr>video_mem := take k (drop 80 (video_mem s)) @ drop k (video_mem s)\<rparr>)"
proof (induction k arbitrary: s)
  case (Suc k)
  let ?v = "take k (drop 80 (video_mem s)) @ drop k (video_mem s)"
  have l: "length ?v = length (video_mem s)" using Suc.prems by simp
  have nth: "?v ! (k + 80) = video_mem s ! (k + 80)" using Suc.prems by (simp add: nth_append)
  let ?b = "\<lambda>i. bnd (load_cell (i + 80)) (store_cell i)"
  have ih: "cfor [0..<k] ?b s = Inr ((), s\<lparr>video_mem := ?v\<rparr>)" by (rule Suc.IH) (use Suc.prems in simp)
  have "?b k (s\<lparr>video_mem := ?v\<rparr>) = Inr ((), s\<lparr>video_mem := ?v[k := video_mem s ! (k + 80)]\<rparr>)"
    using Suc.prems l nth by (simp add: bnd_run load_cell_run store_cell_run)
  then have "cfor [0..<Suc k] ?b s = Inr ((), s\<lparr>video_mem := ?v[k := video_mem s ! (k + 80)]\<rparr>)"
    by (simp add: cfor_append ih)
  also have "?v[k := video_mem s ! (k + 80)] = take (Suc k) (drop 80 (video_mem s)) @ drop (Suc k) (video_mem s)"
  proof -
    have "drop k (video_mem s) = video_mem s ! k # drop (Suc k) (video_mem s)"
      using Suc.prems by (simp add: Cons_nth_drop_Suc)
    moreover have "take (Suc k) (drop 80 (video_mem s)) = take k (drop 80 (video_mem s)) @ [video_mem s ! (k + 80)]"
      using Suc.prems by (simp add: take_Suc_conv_app_nth add.commute)
    ultimately show ?thesis using Suc.prems by (simp add: list_update_append)
  qed
  finally show ?case .
qed simp

text \<open>A scroll drops the top row and appends a blank one.\<close>

lemma scroll_run:
  assumes "length (video_mem s) = 2000"
  shows "scroll s = Inr ((), if 25 \<le> ypos s
    then s\<lparr>video_mem := drop 80 (video_mem s) @ replicate 80 (blank_cell s), ypos := 24\<rparr> else s)"
proof (cases "25 \<le> ypos s")
  case True
  let ?v = "take 1920 (drop 80 (video_mem s)) @ drop 1920 (video_mem s)"
  have v: "take 1920 (drop 80 (video_mem s)) = drop 80 (video_mem s)" using assms by simp
  have m: "cfor [0..<1920] (\<lambda>i. bnd (load_cell (i + 80)) (store_cell i)) s = Inr ((), s\<lparr>video_mem := ?v\<rparr>)"
    by (rule move_cells) (simp add: assms)
  have l: "length ?v = 2000" using assms by simp
  have "cfor [1920..<1920 + 80] (\<lambda>i. store_cell i (blank_cell s)) (s\<lparr>video_mem := ?v\<rparr>) =
      Inr ((), s\<lparr>video_mem := take 1920 ?v @ replicate 80 (blank_cell s) @ drop 2000 ?v\<rparr>)"
    using store_cells [of 1920 80 "s\<lparr>video_mem := ?v\<rparr>" "blank_cell s"] l by simp
  moreover have "take 1920 ?v @ replicate 80 (blank_cell s) @ drop 2000 ?v = drop 80 (video_mem s) @ replicate 80 (blank_cell s)"
    using assms v l by simp
  ultimately have b: "cfor [1920..<2000] (\<lambda>i. store_cell i (blank_cell s)) (s\<lparr>video_mem := ?v\<rparr>) =
      Inr ((), s\<lparr>video_mem := drop 80 (video_mem s) @ replicate 80 (blank_cell s)\<rparr>)" by simp
  show ?thesis
    using True m b by (simp add: scroll_def bnd_run gets_run upd_run blank_cell_def)
next
  case False
  then show ?thesis by (simp add: scroll_def cmd_simps)
qed

definition cursor_commands :: "'a monitor_scheme \<Rightarrow> (u16 \<times> u8) list" where
  "cursor_commands s = (let l = ucast (ypos s) * 80 + ucast (xpos s) :: u16 in
     [(0x3D4, 14), (0x3D5, ucast (drop_bit 8 l)), (0x3D4, 15), (0x3D5, ucast l)])"

lemma update_cursor_run: "update_cursor s = Inr ((), s\<lparr>out_log := out_log s @ cursor_commands s\<rparr>)"
  by (simp add: update_cursor_def cursor_commands_def cmd_simps Let_def)

text \<open>The position after the character, before a row is ended by the right edge.\<close>

definition advance :: "u8 \<Rightarrow> u8 \<times> u8 \<Rightarrow> u8 \<times> u8" where
  "advance c p = (case p of (x, y) \<Rightarrow>
     if c = 0x08 \<and> x \<noteq> 0 then (x - 1, y)
     else if c = 0x09 then ((x + 4) AND NOT 3, y)
     else if c = 0x0D then (0, y)
     else if c = 0x0A then (0, y + 1)
     else if 0x20 \<le> sint c then (x + 1, y) else (x, y))"

definition printed :: "u8 \<Rightarrow> bool" where
  "printed c \<longleftrightarrow> \<not> c = 0x08 \<and> \<not> c = 0x09 \<and> \<not> c = 0x0D \<and> \<not> c = 0x0A \<and> 0x20 \<le> sint c"

definition wrap_row :: "u8 \<times> u8 \<Rightarrow> u8 \<times> u8" where
  "wrap_row p = (if 80 \<le> fst p then (0, snd p + 1) else p)"

definition draw :: "u8 \<Rightarrow> 'a monitor_scheme \<Rightarrow> 'a monitor_scheme" where
  "draw c s = (let (x, y) = wrap_row (advance c (xpos s, ypos s)) in
     s\<lparr>video_mem := (if printed c
         then (video_mem s)[unat (ypos s) * 80 + unat (xpos s) := ucast c OR vga_set_attr (back_color s) (fore_color s)]
         else video_mem s), xpos := x, ypos := y\<rparr>)"

definition scrolled :: "'a monitor_scheme \<Rightarrow> 'a monitor_scheme" where
  "scrolled s = (if 25 \<le> ypos s
     then s\<lparr>video_mem := drop 80 (video_mem s) @ replicate 80 (blank_cell s), ypos := 24\<rparr> else s)"

lemma on_screen_index:
  assumes "on_screen s"
  shows "unat (ypos s) * 80 + unat (xpos s) < 2000"
proof -
  have "unat (ypos s) \<le> 24" "unat (xpos s) < 80" using assms by (simp_all add: on_screen_def word_less_nat_alt)
  then have "unat (ypos s) * 80 \<le> 24 * 80" "unat (xpos s) < 80" by simp_all
  then show ?thesis by linarith
qed

lemma advance_bounds:
  assumes "x < 80" and "y < 25" and "(x', y') = wrap_row (advance c (x, y))"
  shows "x' < 80" and "y' \<le> 25"
proof -
  have y1: "y + 1 \<le> 25" and y0: "y \<le> 25" using assms(2) by unat_arith+
  have pre: "fst (advance c (x, y)) < 80 \<and> snd (advance c (x, y)) \<le> 25 \<or> snd (advance c (x, y)) = y"
    using y1 by (simp add: advance_def)
  have "fst (wrap_row p) < 80 \<and> snd (wrap_row p) \<le> 25" if "fst p < 80 \<and> snd p \<le> 25 \<or> snd p = y" for p
    using that y0 y1 by (auto simp: wrap_row_def not_le)
  from this [OF pre] show "x' < 80" "y' \<le> 25" by (simp_all flip: assms(3))
qed

lemma draw_fields [simp]:
  "back_color (draw c s) = back_color s" "fore_color (draw c s) = fore_color s"
  "length (video_mem (draw c s)) = length (video_mem s)"
  by (simp_all add: draw_def Let_def split: prod.splits)

lemma monitor_put_run:
  assumes "on_screen s"
  shows "monitor_put c s = (let t = scrolled (draw c s) in Inr ((), t\<lparr>out_log := out_log t @ cursor_commands t\<rparr>))"
proof -
  have l: "length (video_mem s) = 2000" using assms by (simp add: on_screen_def)
  have i: "unat (ypos s) * 80 + unat (xpos s) < 2000" by (rule on_screen_index [OF assms])
  have "scroll (draw c s) = Inr ((), scrolled (draw c s))"
    using scroll_run [of "draw c s"] l by (simp add: scrolled_def)
  then have tail: "bnd scroll (\<lambda>_. update_cursor) (draw c s) =
      (let t = scrolled (draw c s) in Inr ((), t\<lparr>out_log := out_log t @ cursor_commands t\<rparr>))"
    by (simp add: bnd_run update_cursor_run Let_def)
  have "monitor_put c s = bnd scroll (\<lambda>_. update_cursor) (draw c s)"
    using i l by (simp add: monitor_put_def draw_def advance_def wrap_row_def printed_def bnd_run gets_run
      upd_run skip_run store_cell_run Let_def)
  with tail show ?thesis by simp
qed

lemma monitor_put_on_screen:
  assumes "on_screen s"
  shows "\<exists>t l. monitor_put c s = Inr ((), t) \<and> on_screen t \<and> out_log t = l @ cursor_commands t"
proof -
  let ?t = "scrolled (draw c s)"
  have l: "length (video_mem s) = 2000" "xpos s < 80" "ypos s < 25" using assms by (simp_all add: on_screen_def)
  obtain x y where xy: "(x, y) = wrap_row (advance c (xpos s, ypos s))" by (metis surj_pair)
  have b: "x < 80" "y \<le> 25" using advance_bounds [OF l(2,3) xy] by simp_all
  have d: "xpos (draw c s) = x" "ypos (draw c s) = y"
    by (simp_all add: draw_def Let_def flip: xy)
  have "y < 25" if "\<not> 25 \<le> y" using that by (simp add: not_le)
  then have "on_screen ?t" using l b d by (auto simp: on_screen_def scrolled_def)
  moreover have "on_screen (?t\<lparr>out_log := o'\<rparr>) = on_screen ?t" "cursor_commands (?t\<lparr>out_log := o'\<rparr>) = cursor_commands ?t" for o'
    by (simp_all add: on_screen_def cursor_commands_def)
  ultimately show ?thesis using monitor_put_run [OF assms, of c] by (simp add: Let_def)
qed

lemma monitor_write_on_screen:
  assumes "on_screen s"
  shows "\<exists>t l. monitor_write cs s = Inr ((), t) \<and> on_screen t \<and> (cs \<noteq> [] \<longrightarrow> out_log t = l @ cursor_commands t)"
  using assms unfolding monitor_write_def
proof (induction cs arbitrary: s)
  case (Cons c cs)
  from monitor_put_on_screen [OF Cons.prems, of c] obtain u l
    where u: "monitor_put c s = Inr ((), u)" "on_screen u" "out_log u = l @ cursor_commands u" by blast
  obtain t l' where t: "cfor cs monitor_put u = Inr ((), t)" "on_screen t" "cs \<noteq> [] \<longrightarrow> out_log t = l' @ cursor_commands t"
    using Cons.IH [OF u(2)] by blast
  show ?case
  proof (cases cs)
    case Nil
    with t(1) have "t = u" by simp
    with u Nil show ?thesis by auto
  next
    case (Cons d ds)
    with t u show ?thesis by auto
  qed
qed auto

lemma init_monitor_run:
  assumes "length (video_mem s) = 2000"
  shows "\<exists>t. init_monitor s = Inr ((), t) \<and> on_screen t \<and> xpos t = 0 \<and> ypos t = 0
    \<and> video_mem t = replicate 2000 (blank_cell s)"
  using assms store_cells [of 0 2000 s "blank_cell s"]
  by (simp add: init_monitor_def bnd_run gets_run upd_run update_cursor_run COLUMNS_def LINES_def
      on_screen_def blank_cell_def)

section \<open>A concrete console\<close>

definition demo_monitor :: monitor where
  "demo_monitor = \<lparr>in_port = (\<lambda>_. 0), in_port16 = (\<lambda>_. 0), out_log = [], interrupt_handlers = (\<lambda>_. None), io_log = [],
     video_mem = replicate 2000 0, xpos = 0, ypos = 0, back_color = 0, fore_color = 15\<rparr>"

lemma demo_on_screen: "on_screen (demo_monitor\<lparr>xpos := 79, ypos := 24\<rparr>)"
  by (simp add: on_screen_def demo_monitor_def)

section \<open>Properties of the console\<close>

text \<open>C29: Whatever bytes are written, the console stays on its screen. After \<open>init_monitor\<close> on the
  4000 bytes of video memory, \<open>monitor_write\<close> of any string returns, never touches a byte outside
  the video memory, leaves the cursor on one of the 80 by 25 cells, and the last four
  commands sent to the VGA board place the hardware cursor on this cell.\<close>

theorem console_stays_on_screen:
  assumes "length (video_mem s) = 2000"
  shows "\<exists>t l. bnd init_monitor (\<lambda>_. monitor_write (c # cs)) s = Inr ((), t)
    \<and> length (video_mem t) = 2000 \<and> xpos t < 80 \<and> ypos t < 25
    \<and> (let at = ucast (ypos t) * 80 + ucast (xpos t) :: u16 in
        out_log t = l @ [(0x3D4, 14), (0x3D5, ucast (drop_bit 8 at)), (0x3D4, 15), (0x3D5, ucast at)])"
proof -
  obtain u where u: "init_monitor s = Inr ((), u)" "on_screen u" using init_monitor_run [OF assms] by blast
  with monitor_write_on_screen [OF u(2), of "c # cs"] show ?thesis
    by (auto simp: bnd_run on_screen_def cursor_commands_def Let_def)
qed

theorem console_stays_on_screen_witness:
  "\<exists>t. bnd init_monitor (\<lambda>_. monitor_write [0x68, 0x0A]) demo_monitor = Inr ((), t) \<and> xpos t < 80 \<and> ypos t < 25"
proof -
  have "length (video_mem demo_monitor) = 2000" by (simp add: demo_monitor_def)
  from console_stays_on_screen [OF this, of "0x68" "[0x0A]"] show ?thesis by (auto simp: Let_def)
qed

text \<open>C36: What one printable character does to the screen. Away from the last cell it appears in
  the cell under the cursor in the current colours, no other cell changes, and the cursor moves
  one cell on, to the next row after column 79. On the last cell the screen also
  scrolls: each row shows what was below it, the character is at the end of the row before the
  last, and the last row is blank.\<close>

theorem console_put_printable:
  assumes "on_screen s" and "printed c"
  defines "g \<equiv> ucast c OR vga_set_attr (back_color s) (fore_color s)"
    and "y \<equiv> unat (ypos s)" and "x \<equiv> unat (xpos s)"
  shows "\<exists>t. monitor_put c s = Inr ((), t) \<and>
    (if y = 24 \<and> x = 79
     then xpos t = 0 \<and> ypos t = 24 \<and> cell t 23 79 = g
       \<and> (\<forall>i j. i < 24 \<and> j < 80 \<and> (i, j) \<noteq> (23, 79) \<longrightarrow> cell t i j = cell s (i + 1) j)
       \<and> (\<forall>j < 80. cell t 24 j = blank_cell s)
     else unat (ypos t) * 80 + unat (xpos t) = y * 80 + x + 1
       \<and> (\<forall>i j. i < 25 \<and> j < 80 \<longrightarrow> cell t i j = (if i = y \<and> j = x then g else cell s i j)))"
proof -
  have l: "length (video_mem s) = 2000" "xpos s < 80" "ypos s < 25" using assms(1) by (simp_all add: on_screen_def)
  have b: "x < 80" "y < 25" using l(2,3) by (simp_all add: x_def y_def word_less_nat_alt)
  let ?v = "(video_mem s)[y * 80 + x := g]" and ?d = "draw c s"
  have adv: "advance c (xpos s, ypos s) = (xpos s + 1, ypos s)" using assms(2) by (simp add: advance_def printed_def)
  have vd: "video_mem ?d = ?v" "blank_cell ?d = blank_cell s"
    using assms(2) by (simp_all add: draw_def Let_def g_def x_def y_def blank_cell_def split: prod.splits)
  have x1: "unat (xpos s + 1) = x + 1" using b(1) by (simp add: x_def unat_word_ariths)
  have y1: "unat (ypos s + 1) = y + 1" using b(2) by (simp add: y_def unat_word_ariths)
  have pd: "unat (xpos ?d) = (if x = 79 then 0 else x + 1)" "unat (ypos ?d) = (if x = 79 then y + 1 else y)"
    using b by (auto simp: draw_def adv wrap_row_def Let_def word_le_nat_alt x1 y1 simp flip: x_def y_def)
  have nth: "?v ! k = (if k = y * 80 + x then g else video_mem s ! k)" if "k < 2000" for k
    using that b l(1) by (simp add: nth_list_update)
  have same: "cell (u\<lparr>out_log := o'\<rparr>) = cell u" for u :: "'a monitor_scheme" and o'
    by (simp add: cell_def fun_eq_iff)
  note run = monitor_put_run [OF assms(1), of c, unfolded Let_def]
  show ?thesis
  proof (cases "y = 24 \<and> x = 79")
    case True
    then have sc: "25 \<le> ypos ?d" using pd by (simp add: word_le_nat_alt)
    have x0: "xpos ?d = 0" using pd(1) True by (simp add: word_unat_eq_iff)
    have up: "(drop 80 ?v @ replicate 80 (blank_cell s)) ! (i * 80 + j)
        = (if i < 24 then ?v ! ((i + 1) * 80 + j) else blank_cell s)" if "i < 25" "j < 80" for i j
    proof (cases "i < 24")
      case True
      then have "i * 80 + j < 1920" using that by linarith
      with True l(1) show ?thesis by (simp add: nth_append algebra_simps)
    next
      case False
      then show ?thesis using that l(1) by (simp add: nth_append)
    qed
    have idx: "(i + 1) * 80 + j = 1999 \<longleftrightarrow> i = 23 \<and> j = 79" "(i + 1) * 80 + j < 2000" if "i < 24" "j < 80" for i j :: nat
      using that by presburger+
    define w where "w = drop 80 ?v @ replicate 80 (blank_cell s)"
    have "w ! (23 * 80 + 79) = g" using up [of 23 79] nth True by (simp add: w_def)
    moreover have "w ! (24 * 80 + j) = blank_cell s" if "j < 80" for j
      using up [of 24 j] that by (simp add: w_def)
    moreover have "w ! (i * 80 + j) = video_mem s ! ((i + 1) * 80 + j)" if "i < 24" "j < 80" "(i, j) \<noteq> (23, 79)" for i j
      using up [of i j] idx [OF that(1,2)] nth [of "(i + 1) * 80 + j"] that True by (simp add: w_def)
    moreover have "scrolled ?d = ?d\<lparr>video_mem := w, ypos := 24\<rparr>" using sc vd by (simp add: scrolled_def w_def)
    ultimately show ?thesis
      using run True x0 by (simp add: same) (simp add: cell_def)
  next
    case False
    then have sc: "\<not> 25 \<le> ypos ?d" using pd b by (auto simp: word_le_nat_alt)
    have idx: "i * 80 + j = y * 80 + x \<longleftrightarrow> i = y \<and> j = x" "i * 80 + j < 2000" if "i < 25" "j < 80" for i j
    proof -
      have dm: "(k * 80 + l) div 80 = k \<and> (k * 80 + l) mod 80 = l" if "l < 80" for k l :: nat
        using that by simp
      show "i * 80 + j = y * 80 + x \<longleftrightarrow> i = y \<and> j = x"
        using dm [OF that(2), of i] dm [OF b(1), of y] by metis
      have "i \<le> 24" using that by simp
      then have "i * 80 \<le> 24 * 80" by simp
      then show "i * 80 + j < 2000" using that by linarith
    qed
    show ?thesis using run False sc vd nth idx pd by (auto simp: scrolled_def same cell_def)
  qed
qed

theorem console_put_printable_witness:
  "\<exists>t. monitor_put 0x41 (demo_monitor\<lparr>xpos := 79, ypos := 24\<rparr>) = Inr ((), t) \<and> cell t 23 79 = 0x0F41
    \<and> cell t 24 0 = 0x0F20"
proof -
  let ?s = "demo_monitor\<lparr>xpos := 79, ypos := 24\<rparr>"
  have "printed 0x41" by (simp add: printed_def)
  moreover have "(ucast (0x41 :: u8) OR vga_set_attr (back_color ?s) (fore_color ?s) :: u16) = 0x0F41"
    "blank_cell ?s = 0x0F20"
    by (simp_all add: demo_monitor_def vga_set_attr_def blank_cell_def vga_format_ascii_def Let_def)
  moreover have "unat (ypos ?s) = 24" "unat (xpos ?s) = 79" by simp_all
  ultimately show ?thesis using console_put_printable [OF demo_on_screen, of "0x41"] by auto
qed

end
