(* ===== verification/Kernel_Lock.thy ===== *)
theory Kernel_Lock
  imports Kernel_Prelude
begin

text \<open>
  The spinlock of \<open>kernel/lib/lock.c\<close>. The \<open>xchgl\<close> with a lock prefix is one
  atomic step on the lock word; everything else of the threads interleaves. The
  step relation \<open>lock_step\<close> runs any number of threads, each executing
  \<open>spinlock_lock\<close>, \<open>spinlock_trylock\<close> and \<open>spinlock_unlock\<close> on one lock; a thread in
  \<open>spinlock_lock\<close> takes one test of its loop per step.
\<close>

section \<open>Operations on the lock word\<close>

definition SPINLOCK_LOCKED :: u32 where "SPINLOCK_LOCKED = 0"
definition SPINLOCK_UNLOCKED :: u32 where "SPINLOCK_UNLOCKED = 1"

definition atomic_test_and_set :: "(u32, u32) cmd" where
  "atomic_test_and_set = bnd (gets (\<lambda>w. w)) (\<lambda>value. bnd (upd (\<lambda>_. SPINLOCK_LOCKED)) (\<lambda>_. ret value))"

text \<open>
  The test of the loop, whether it goes round again; the loop may run forever: \<open>n\<close> bounds the number
  of tests.
\<close>

definition lock_test :: "(u32, bool) cmd" where
  "lock_test = bnd atomic_test_and_set (\<lambda>v. ret (v = SPINLOCK_LOCKED))"

primrec spinlock_lock :: "nat \<Rightarrow> (u32, unit) cmd" where
  "spinlock_lock 0 = fault Out_of_Fuel"
| "spinlock_lock (Suc n) = bnd lock_test (\<lambda>again. if again then spinlock_lock n else skip)"

definition spinlock_unlock :: "(u32, unit) cmd" where
  "spinlock_unlock = upd (\<lambda>_. SPINLOCK_UNLOCKED)"

definition spinlock_trylock :: "(u32, bool) cmd" where
  "spinlock_trylock = bnd atomic_test_and_set (\<lambda>v. ret (v = SPINLOCK_UNLOCKED))"

lemma test_and_set_run [cmd_simps]: "atomic_test_and_set w = Inr (w, SPINLOCK_LOCKED)"
  by (simp add: atomic_test_and_set_def cmd_simps)

lemma lock_test_run [cmd_simps]: "lock_test w = Inr (w = SPINLOCK_LOCKED, SPINLOCK_LOCKED)"
  by (simp add: lock_test_def cmd_simps)

section \<open>Threads that share a lock\<close>

datatype pc = Outside | Spinning | Inside

record locking =
  lock_word :: u32
  pcs :: "nat \<Rightarrow> pc"

inductive lock_step :: "locking \<Rightarrow> locking \<Rightarrow> bool" where
  enter: "pcs s t = Outside \<Longrightarrow> lock_step s (s\<lparr>pcs := (pcs s)(t := Spinning)\<rparr>)"
| test: "pcs s t = Spinning \<Longrightarrow> lock_test (lock_word s) = Inr (again, w) \<Longrightarrow>
    lock_step s (s\<lparr>lock_word := w, pcs := (pcs s)(t := if again then Spinning else Inside)\<rparr>)"
| trylock: "pcs s t = Outside \<Longrightarrow> spinlock_trylock (lock_word s) = Inr (b, w) \<Longrightarrow>
    lock_step s (s\<lparr>lock_word := w, pcs := (pcs s)(t := if b then Inside else Outside)\<rparr>)"
| release: "pcs s t = Inside \<Longrightarrow> spinlock_unlock (lock_word s) = Inr ((), w) \<Longrightarrow>
    lock_step s (s\<lparr>lock_word := w, pcs := (pcs s)(t := Outside)\<rparr>)"

definition lock_start :: locking where
  "lock_start = \<lparr>lock_word = SPINLOCK_UNLOCKED, pcs = (\<lambda>_. Outside)\<rparr>"

text \<open>The lock word tells whether a thread is inside, and at most one is.\<close>

definition lock_inv :: "locking \<Rightarrow> bool" where
  "lock_inv s \<longleftrightarrow>
     (lock_word s = SPINLOCK_UNLOCKED \<and> (\<forall>t. pcs s t \<noteq> Inside)
      \<or> lock_word s = SPINLOCK_LOCKED \<and> (\<exists>t. \<forall>u. pcs s u = Inside \<longleftrightarrow> u = t))"

lemma lock_inv_start: "lock_inv lock_start"
  by (simp add: lock_inv_def lock_start_def)

lemma lock_words [simp]: "SPINLOCK_LOCKED \<noteq> SPINLOCK_UNLOCKED" "SPINLOCK_UNLOCKED \<noteq> SPINLOCK_LOCKED"
  by (simp_all add: SPINLOCK_LOCKED_def SPINLOCK_UNLOCKED_def)

lemma lock_inv_step: "lock_step s t \<Longrightarrow> lock_inv s \<Longrightarrow> lock_inv t"
proof (induction rule: lock_step.induct)
  case (enter s t)
  then have "((pcs s)(t := Spinning)) u = Inside \<longleftrightarrow> pcs s u = Inside" for u by auto
  with enter show ?case by (simp add: lock_inv_def)
next
  case (test s t again w)
  show ?case
  proof (cases again)
    case True
    with test have "w = lock_word s" "(pcs s)(t := Spinning) = pcs s" by (auto simp: cmd_simps)
    with test True show ?thesis by simp
  next
    case False
    with test have "w = SPINLOCK_LOCKED" "\<And>u. pcs s u \<noteq> Inside" by (auto simp: lock_inv_def cmd_simps)
    moreover from this(2) have "\<forall>u. ((pcs s)(t := Inside)) u = Inside \<longleftrightarrow> u = t" by simp
    ultimately show ?thesis using False by (simp add: lock_inv_def) blast
  qed
next
  case (trylock s t b w)
  show ?case
  proof (cases "lock_word s = SPINLOCK_UNLOCKED")
    case True
    with trylock have "b" "w = SPINLOCK_LOCKED" "\<And>u. pcs s u \<noteq> Inside"
      by (auto simp: lock_inv_def spinlock_trylock_def cmd_simps)
    moreover from this(3) have "\<forall>u. ((pcs s)(t := Inside)) u = Inside \<longleftrightarrow> u = t" by simp
    ultimately show ?thesis by (simp add: lock_inv_def) blast
  next
    case False
    with trylock have "\<not> b" "w = lock_word s" by (auto simp: lock_inv_def spinlock_trylock_def cmd_simps)
    moreover from this trylock have "((pcs s)(t := Outside)) u = Inside \<longleftrightarrow> pcs s u = Inside" for u by auto
    ultimately show ?thesis using trylock by (simp add: lock_inv_def)
  qed
next
  case (release s t w)
  then obtain v where "\<forall>u. pcs s u = Inside \<longleftrightarrow> u = v" by (auto simp: lock_inv_def)
  with release(1) have "((pcs s)(t := Outside)) u \<noteq> Inside" for u by (metis fun_upd_apply pc.distinct(3))
  with release show ?case by (simp add: lock_inv_def spinlock_unlock_def cmd_simps)
qed

lemma lock_inv_reachable: "lock_step\<^sup>*\<^sup>* lock_start s \<Longrightarrow> lock_inv s"
  by (induction rule: rtranclp_induct) (auto intro: lock_inv_start lock_inv_step)

section \<open>Properties of the spinlock\<close>

text \<open>C22: Mutual exclusion. In every state that any interleaving of threads reaches from an
  unlocked lock, two different threads are never both past \<open>spinlock_lock\<close> (or a
  successful \<open>spinlock_trylock\<close>) and before \<open>spinlock_unlock\<close>.\<close>

theorem spinlock_mutual_exclusion:
  assumes "lock_step\<^sup>*\<^sup>* lock_start s" and "pcs s t = Inside" and "pcs s u = Inside"
  shows "t = u"
proof -
  have "\<exists>v. \<forall>u. pcs s u = Inside \<longleftrightarrow> u = v"
    using lock_inv_reachable [OF assms(1)] assms(2) unfolding lock_inv_def by blast
  with assms(2,3) show ?thesis by metis
qed

text \<open>A call of \<open>spinlock_lock\<close> that returns is a run of its thread alone, from the call to the critical section.\<close>

lemma spinlock_lock_steps:
  "pcs s t = Spinning \<Longrightarrow> spinlock_lock n (lock_word s) = Inr ((), w) \<Longrightarrow>
   lock_step\<^sup>*\<^sup>* s (s\<lparr>lock_word := w, pcs := (pcs s)(t := Inside)\<rparr>)"
proof (induction n arbitrary: s)
  case (Suc n)
  show ?case
  proof (cases "lock_word s = SPINLOCK_LOCKED")
    case True
    with Suc show ?thesis by (simp add: cmd_simps)
  next
    case False
    then have "w = SPINLOCK_LOCKED" "lock_test (lock_word s) = Inr (False, SPINLOCK_LOCKED)"
      using Suc.prems(2) by (simp_all add: cmd_simps)
    then have "lock_step s (s\<lparr>lock_word := w, pcs := (pcs s)(t := Inside)\<rparr>)"
      using test [OF Suc.prems(1), of False SPINLOCK_LOCKED] by simp
    then show ?thesis by (rule r_into_rtranclp)
  qed
qed (simp add: fault_def)

text \<open>A run in which thread 2 calls \<open>spinlock_lock\<close> and goes round its loop once, after thread 1 has taken the lock.\<close>

definition demo_locked :: locking where
  "demo_locked = \<lparr>lock_word = SPINLOCK_LOCKED, pcs = (\<lambda>_. Outside)(1 := Inside, 2 := Spinning)\<rparr>"

lemma demo_lock_run: "lock_step\<^sup>*\<^sup>* lock_start demo_locked"
proof -
  let ?a = "lock_start\<lparr>pcs := (pcs lock_start)(1 := Spinning)\<rparr>"
  let ?b = "?a\<lparr>lock_word := SPINLOCK_LOCKED, pcs := (pcs ?a)(1 := Inside)\<rparr>"
  have a: "lock_step lock_start ?a" by (rule enter) (simp add: lock_start_def)
  have b: "lock_step\<^sup>*\<^sup>* ?a ?b"
    by (rule spinlock_lock_steps [where n = 1]) (simp_all add: lock_start_def cmd_simps)
  have c: "lock_step ?b demo_locked"
    using enter [of ?b 2] by (simp add: lock_start_def demo_locked_def)
  have d: "lock_step demo_locked demo_locked"
    using test [of demo_locked 2 True SPINLOCK_LOCKED] by (simp add: demo_locked_def cmd_simps fun_upd_twist)
  show ?thesis
    by (rule converse_rtranclp_into_rtranclp, rule a, rule rtranclp_trans, rule b,
      rule converse_rtranclp_into_rtranclp, rule c, rule r_into_rtranclp, rule d)
qed

theorem spinlock_mutual_exclusion_witness:
  "lock_step\<^sup>*\<^sup>* lock_start demo_locked \<and> pcs demo_locked 1 = Inside \<and> pcs demo_locked 2 = Spinning
   \<and> lock_word demo_locked = SPINLOCK_LOCKED \<and> {t. pcs demo_locked t = Inside} = {1}"
proof -
  have i: "pcs demo_locked 1 = Inside" by (simp add: demo_locked_def)
  have "t = 1" if "pcs demo_locked t = Inside" for t
    by (rule spinlock_mutual_exclusion [OF demo_lock_run that i])
  then have "{t. pcs demo_locked t = Inside} = {1}" using i by blast
  then show ?thesis using demo_lock_run i by (simp add: demo_locked_def)
qed

text \<open>C23: The lock cannot be stuck: in every reachable state either the lock word is free, and
  then the next test by any spinning thread brings it inside, or exactly one thread is
  inside, and its \<open>spinlock_unlock\<close> frees the word.\<close>

theorem spinlock_progress:
  assumes "lock_step\<^sup>*\<^sup>* lock_start s"
  shows "(lock_word s = SPINLOCK_UNLOCKED \<and> (\<forall>t. pcs s t \<noteq> Inside) \<and>
      (\<forall>t. pcs s t = Spinning \<longrightarrow>
        lock_step s (s\<lparr>lock_word := SPINLOCK_LOCKED, pcs := (pcs s)(t := Inside)\<rparr>)))
    \<or> (\<exists>t. (\<forall>u. pcs s u = Inside \<longleftrightarrow> u = t) \<and>
        lock_step s (s\<lparr>lock_word := SPINLOCK_UNLOCKED, pcs := (pcs s)(t := Outside)\<rparr>))"
proof -
  have r: "lock_step s (s\<lparr>lock_word := SPINLOCK_UNLOCKED, pcs := (pcs s)(t := Outside)\<rparr>)"
    if "pcs s t = Inside" for t
    using release [OF that] by (simp add: spinlock_unlock_def cmd_simps)
  have a: "lock_step s (s\<lparr>lock_word := SPINLOCK_LOCKED, pcs := (pcs s)(t := Inside)\<rparr>)"
    if "pcs s t = Spinning" "lock_word s = SPINLOCK_UNLOCKED" for t
    using test [OF that(1), of False SPINLOCK_LOCKED] that(2) by (simp add: cmd_simps)
  from lock_inv_reachable [OF assms] show ?thesis
    unfolding lock_inv_def
  proof (elim disjE conjE exE)
    assume "lock_word s = SPINLOCK_UNLOCKED" "\<forall>t. pcs s t \<noteq> Inside"
    with a show ?thesis by simp
  next
    fix t assume "\<forall>u. pcs s u = Inside \<longleftrightarrow> u = t"
    with r [of t] show ?thesis by (intro disjI2 exI [of _ t]) simp
  qed
qed

theorem spinlock_progress_witness:
  "lock_step\<^sup>*\<^sup>* lock_start demo_locked \<and> pcs demo_locked 2 = Spinning
   \<and> lock_step demo_locked (demo_locked\<lparr>lock_word := SPINLOCK_UNLOCKED, pcs := (pcs demo_locked)(1 := Outside)\<rparr>)"
proof -
  have i: "pcs demo_locked u = Inside \<longleftrightarrow> u = 1" for u by (simp add: demo_locked_def)
  obtain t where t: "\<forall>u. pcs demo_locked u = Inside \<longleftrightarrow> u = t"
    "lock_step demo_locked (demo_locked\<lparr>lock_word := SPINLOCK_UNLOCKED, pcs := (pcs demo_locked)(t := Outside)\<rparr>)"
    using spinlock_progress [OF demo_lock_run] i by blast
  have "t = 1" using t(1) i by blast
  moreover have "pcs demo_locked 2 = Spinning" by (simp add: demo_locked_def)
  ultimately show ?thesis using t(2) demo_lock_run by blast
qed

text \<open>\<open>spinlock_lock\<close> alone: on a free lock it returns after one test and leaves the lock
  taken; on a taken lock that nobody frees it never returns, whatever the number of tests.
  \<open>spinlock_trylock\<close> always returns, with 1 exactly when the lock was free, and the lock is
  taken afterwards.\<close>

lemma spinlock_lock_result:
  "spinlock_lock n w =
     (if w \<noteq> SPINLOCK_LOCKED \<and> 0 < n then Inr ((), SPINLOCK_LOCKED) else Inl Out_of_Fuel)
   \<and> spinlock_trylock w = Inr (w = SPINLOCK_UNLOCKED, SPINLOCK_LOCKED)"
proof -
  have "spinlock_lock k SPINLOCK_LOCKED = Inl Out_of_Fuel" for k
    by (induction k) (simp_all add: cmd_simps)
  then show ?thesis by (cases n) (simp_all add: cmd_simps spinlock_trylock_def)
qed

end
