(* ===== verification/Kernel_Main.thy ===== *)
theory Kernel_Main
  imports Kernel_Debug Kernel_Collect Kernel_Heap_Props Kernel_Kbd Kernel_Timer Kernel_Idt Kernel_Gdt Kernel_Monitor Kernel_Lock
begin

text \<open>
  The whole machine and \<open>kernel/init/main.c\<close>: \<open>kmain\<close> starts every component in turn and then
  echoes the keyboard on the console. The state joins those of the components; the ports and the
  table of interrupt handlers, which every driver has a view of, are there once (\<open>ports\<close>).
\<close>

section \<open>The machine\<close>

record machine =
  core :: initrd
  segments :: gdt
  ports :: io
  idt_dev :: idt
  timer_dev :: timer
  kbd_dev :: kbd
  console :: monitor
  kernel_elf :: Elf32_Sym_Map
  test_lock :: u32

definition set_io :: "io \<Rightarrow> 'a io_scheme \<Rightarrow> 'a io_scheme" where
  "set_io i s = s\<lparr>in_port := in_port i, in_port16 := in_port16 i, out_log := out_log i,
     interrupt_handlers := interrupt_handlers i, io_log := io_log i\<rparr>"

text \<open>
  A command of one component as a command of the machine: \<open>lift\<close> for a part of its own,
  \<open>lift_io\<close> for a driver, which works on the shared ports.
\<close>

definition lift :: "('m \<Rightarrow> 's) \<Rightarrow> ('s \<Rightarrow> 'm \<Rightarrow> 'm) \<Rightarrow> ('s, 'a) cmd \<Rightarrow> ('m, 'a) cmd" where
  "lift get put c m = (case c (get m) of Inl e \<Rightarrow> Inl e | Inr (x, s) \<Rightarrow> Inr (x, put s m))"

abbreviation on_core :: "(initrd, 'a) cmd \<Rightarrow> (machine, 'a) cmd" where
  "on_core \<equiv> lift core (\<lambda>s m. m\<lparr>core := s\<rparr>)"

abbreviation on_gdt :: "(gdt, 'a) cmd \<Rightarrow> (machine, 'a) cmd" where
  "on_gdt \<equiv> lift segments (\<lambda>s m. m\<lparr>segments := s\<rparr>)"

abbreviation on_ports :: "(io, 'a) cmd \<Rightarrow> (machine, 'a) cmd" where
  "on_ports \<equiv> lift ports (\<lambda>s m. m\<lparr>ports := s\<rparr>)"

abbreviation on_lock :: "(u32, 'a) cmd \<Rightarrow> (machine, 'a) cmd" where
  "on_lock \<equiv> lift test_lock (\<lambda>s m. m\<lparr>test_lock := s\<rparr>)"

abbreviation on_idt :: "(idt, 'a) cmd \<Rightarrow> (machine, 'a) cmd" where
  "on_idt \<equiv> lift (\<lambda>m. set_io (ports m) (idt_dev m)) (\<lambda>s m. m\<lparr>idt_dev := s, ports := io.truncate s\<rparr>)"

abbreviation on_timer :: "(timer, 'a) cmd \<Rightarrow> (machine, 'a) cmd" where
  "on_timer \<equiv> lift (\<lambda>m. set_io (ports m) (timer_dev m)) (\<lambda>s m. m\<lparr>timer_dev := s, ports := io.truncate s\<rparr>)"

abbreviation on_kbd :: "(kbd, 'a) cmd \<Rightarrow> (machine, 'a) cmd" where
  "on_kbd \<equiv> lift (\<lambda>m. set_io (ports m) (kbd_dev m)) (\<lambda>s m. m\<lparr>kbd_dev := s, ports := io.truncate s\<rparr>)"

abbreviation on_console :: "(monitor, 'a) cmd \<Rightarrow> (machine, 'a) cmd" where
  "on_console \<equiv> lift (\<lambda>m. set_io (ports m) (console m)) (\<lambda>s m. m\<lparr>console := s, ports := io.truncate s\<rparr>)"

text \<open>The addresses that the linker chose; \<open>at_literal\<close> gives those of the string literals.\<close>

record kernel_image = exec_image +
  at_code :: u32
  at_end :: u32
  at_isr :: "nat \<Rightarrow> u32"
  at_irq :: "nat \<Rightarrow> u32"
  at_idt_entries :: u32
  at_gdt_entries :: u32
  at_tss :: u32
  at_keymap_us :: u32
  at_init :: u32
  at_literal :: "string \<Rightarrow> u32"

section \<open>The macros of debug.h\<close>

definition debug_print_kernel_info :: "kernel_image \<Rightarrow> u32 \<Rightarrow> u32 \<Rightarrow> u32 \<Rightarrow> ('a vm_scheme, unit) cmd" where
  "debug_print_kernel_info im mboot_ptr stack_top stack_bottom =
     bnd (kprintf_log (''kernel between 0x%.8x 0x%.8x mboot 0x%.8x'' @ [CHR 0x0A]) [at_code im, at_end im, mboot_ptr]) (\<lambda>_.
     kprintf_log (''kernel stack top 0x%.8x bottom 0x%.8x'' @ [CHR 0x0A]) [stack_top, stack_bottom])"

definition debug_print_initrd_info :: "u32 \<Rightarrow> u32 \<Rightarrow> ('a vm_scheme, unit) cmd" where
  "debug_print_initrd_info mboot_ptr pmm_start =
     bnd (mods_addr mboot_ptr) (\<lambda>a.
     bnd (vld32 a) (\<lambda>start.
     kprintf_log (''initrd loaded at 0x%.8x to 0x%.8x with:'' @ [CHR 0x0A]) [start, pmm_start]))"

definition debug_checkpoint :: "kernel_image \<Rightarrow> string \<Rightarrow> ('a vm_scheme, unit) cmd" where
  "debug_checkpoint im str = kprintf_log (''checkpoint: %s'' @ [CHR 0x0A]) [at_literal im str]"

section \<open>kmain\<close>

text \<open>The first module, if there is one, and the end of the memory that the kernel must keep.\<close>

definition find_initrd :: "kernel_image \<Rightarrow> u32 \<Rightarrow> (machine, u32 \<times> u32) cmd" where
  "find_initrd im mboot_ptr =
     bnd (on_core (mods_count mboot_ptr)) (\<lambda>count.
     bnd (if count \<noteq> 0 then on_core (mods_addr mboot_ptr) else ret 0) (\<lambda>initrd_mod.
     bnd (if initrd_mod \<noteq> 0 then on_core (mod_end initrd_mod) else ret (at_end im)) (\<lambda>pmm_start.
     ret (initrd_mod, pmm_start))))"

text \<open>From the console to the pool of free frames; \<open>init_vmm\<close> registers its handler first.\<close>

definition early_boot :: "kernel_image \<Rightarrow> u32 \<Rightarrow> u32 \<Rightarrow> u32 \<Rightarrow> (machine, unit) cmd" where
  "early_boot im mboot_ptr stack_top pmm_start =
     bnd (on_console init_monitor) (\<lambda>_.
     bnd (on_idt (init_idt (at_isr im) (at_irq im) (at_idt_entries im))) (\<lambda>_.
     bnd (on_core (init_pmm pmm_start)) (\<lambda>_.
     bnd (on_ports (register_interrupt_handler 14 Page_Fault_Handler)) (\<lambda>_.
     bnd (on_core init_vmm) (\<lambda>_.
     bnd (on_gdt (init_gdt (at_gdt_entries im) (at_tss im) stack_top)) (\<lambda>_.
     bnd (on_timer (init_timer 25)) (\<lambda>_.
     on_core (pmm_collect_pages mboot_ptr))))))))"

definition load_root :: "kernel_image \<Rightarrow> u32 \<Rightarrow> u32 \<Rightarrow> u32 \<Rightarrow> (initrd, unit) cmd" where
  "load_root im mboot_ptr initrd_mod pmm_start =
     (let fs = image.truncate im in
      bnd (mod_start initrd_mod) (\<lambda>start.
      bnd (init_initrd fs start) (\<lambda>root.
      bnd (upd (\<lambda>s. s\<lparr>fs_root := root\<rparr>)) (\<lambda>_.
      bnd (debug_print_initrd_info mboot_ptr pmm_start) (\<lambda>_.
      debug_print_root_content fs root)))))"

definition start_tasks :: "kernel_image \<Rightarrow> u32 \<Rightarrow> u32 \<Rightarrow> (initrd, unit) cmd" where
  "start_tasks im stack_top stack_bottom =
     bnd (init_threading stack_top stack_bottom) (\<lambda>kernel_thread.
     bnd (init_tasking kernel_thread) (\<lambda>kernel_task.
     bnd (init_scheduler kernel_task) (\<lambda>_.
     bnd (debug_checkpoint im ''sheduler working'') (\<lambda>_.
     bnd (exec_elf (exec_image.truncate im) (at_literal im ''user/init'')) (\<lambda>_.
     bnd (debug_checkpoint im ''spawned process init'') (\<lambda>_.
     bnd (exec_thread (exec_image.truncate im) (at_init im) 0) (\<lambda>_.
     debug_checkpoint im ''spawned thread init'')))))))"

text \<open>One round of the endless loop at the end, and \<open>n\<close> rounds of it.\<close>

definition echo :: "(machine, unit) cmd" where
  "echo = bnd (on_kbd kbd_getchar) (\<lambda>c. on_console (monitor_put c))"

primrec echo_loop :: "nat \<Rightarrow> (machine, 'a) cmd" where
  "echo_loop 0 = fault Out_of_Fuel"
| "echo_loop (Suc n) = bnd echo (\<lambda>_. echo_loop n)"

text \<open>
  \<open>ebp\<close> is the frame pointer in \<open>print_stack_trace\<close>. What follows the endless loop
  in the source is never reached.
\<close>

definition kmain :: "nat \<Rightarrow> kernel_image \<Rightarrow> u32 \<Rightarrow> u32 \<Rightarrow> u32 \<Rightarrow> u32 \<Rightarrow> (machine, u32) cmd" where
  "kmain n im ebp mboot_ptr stack_top stack_bottom =
     bnd (find_initrd im mboot_ptr) (\<lambda>(initrd_mod, pmm_start).
     bnd (early_boot im mboot_ptr stack_top pmm_start) (\<lambda>_.
     bnd (on_core init_kheap) (\<lambda>_.
     bnd (on_core (debug_print_kernel_info im mboot_ptr stack_top stack_bottom)) (\<lambda>_.
     bnd (gets kernel_elf) (\<lambda>elf.
     bnd (on_core (elf_sym_map_from_multiboot (at_literal im ''.strtab'') (at_literal im ''.symtab'') elf (u_elf_sec mboot_ptr))) (\<lambda>elf.
     bnd (upd (\<lambda>m. m\<lparr>kernel_elf := elf\<rparr>)) (\<lambda>_.
     bnd (on_core (print_stack_trace (at_literal im '''') elf ebp)) (\<lambda>_.
     bnd (if initrd_mod \<noteq> 0 then on_core (load_root im mboot_ptr initrd_mod pmm_start) else skip) (\<lambda>_.
     bnd (on_core sti) (\<lambda>_.
     bnd (on_kbd (kbd_init_driver (at_keymap_us im))) (\<lambda>_.
     bnd (on_core (debug_checkpoint im ''kernel ready'')) (\<lambda>_.
     bnd (on_core (start_tasks im stack_top stack_bottom)) (\<lambda>_.
     echo_loop n)))))))))))))"

definition init_thread :: "kernel_image \<Rightarrow> ('a vm_scheme, u32) cmd" where
  "init_thread im =
     bnd (debug_checkpoint im ''entering init thread'') (\<lambda>_.
     bnd (debug_checkpoint im ''leaving init thread'') (\<lambda>_.
     ret 0))"

section \<open>Endless threads\<close>

text \<open>
  The test thread of \<open>init/debug.c\<close>: \<open>n\<close> bounds its rounds and the tests of the lock in each of
  them. The delay loops do nothing.
\<close>

definition delay :: "('s, unit) cmd" where
  "delay = cfor [0..<1000000] (\<lambda>_. skip)"

primrec test_thread :: "nat \<Rightarrow> u32 \<Rightarrow> (machine, u32) cmd" where
  "test_thread 0 arg = fault Out_of_Fuel"
| "test_thread (Suc n) arg =
     bnd (on_lock (spinlock_lock (Suc n))) (\<lambda>_.
     bnd (on_core (kprintf_log (''>>> thread %d'' @ [CHR 0x0A]) [arg])) (\<lambda>_.
     bnd delay (\<lambda>_.
     bnd (on_core (kprintf_log (''thread %d >>>'' @ [CHR 0x0A]) [arg])) (\<lambda>_.
     bnd (on_lock spinlock_unlock) (\<lambda>_.
     bnd delay (\<lambda>_.
     test_thread n arg))))))"

text \<open>The program \<open>user/init\<close>.\<close>

primrec user_main :: "nat \<Rightarrow> ('s, u32) cmd" where
  "user_main 0 = fault Out_of_Fuel"
| "user_main (Suc n) = bnd skip (\<lambda>_. user_main n)"


section \<open>Running a component inside the machine\<close>

lemma lift_run: "c (get m) = Inr (x, s) \<Longrightarrow> lift get put c m = Inr (x, put s m)"
  by (simp add: lift_def)

lemma set_io_fields [simp]:
  "in_port (set_io i s) = in_port i" "in_port16 (set_io i s) = in_port16 i" "out_log (set_io i s) = out_log i"
  "interrupt_handlers (set_io i s) = interrupt_handlers i" "io_log (set_io i s) = io_log i"
  by (simp_all add: set_io_def)

lemma set_io_more [simp]: "io.more (set_io i s) = io.more s"
  by (simp add: set_io_def)

lemma set_io_kbd [simp]:
  "ring_ok (set_io i s) = ring_ok s" "kbd_queue (set_io i s) = kbd_queue s" "ring_length (set_io i s) = ring_length s"
  "keymaps (set_io i s) = keymaps s" "kbd_current_layout (set_io i s) = kbd_current_layout s"
  by (simp_all add: set_io_def ring_ok_def kbd_queue_def ring_length_def)

lemma set_io_console [simp]:
  "on_screen (set_io i s) = on_screen s" "video_mem (set_io i s) = video_mem s" "xpos (set_io i s) = xpos s"
  "ypos (set_io i s) = ypos s" "back_color (set_io i s) = back_color s" "fore_color (set_io i s) = fore_color s"
  by (simp_all add: set_io_def on_screen_def)

lemma set_io_idt [simp]: "idt_entries (set_io i s) = idt_entries s"
  by (simp add: set_io_def)

lemma truncate_fields [simp]:
  "in_port (io.truncate s) = in_port s" "out_log (io.truncate s) = out_log s"
  "interrupt_handlers (io.truncate s) = interrupt_handlers s"
  by (simp_all add: io.truncate_def)

section \<open>A concrete machine\<close>

text \<open>
  A machine at power-on: the boot loader's structure is at 0x1000, with one module whose entry is at 0x3000
  and which ends at 0x200000, and a map of one entry, four available frames from 0x300000 on.
\<close>

definition demo_ram :: bytes where
  "demo_ram = (\<lambda>_. 0)(0x1014 := 1, 0x1019 := 0x30, 0x102C := 24, 0x1031 := 0x20, 0x2000 := 20, 0x2006 := 0x30,
     0x200D := 0x40, 0x2014 := 1, 0x3006 := 0x20)"

definition demo_machine :: machine where
  "demo_machine = \<lparr>core = demo_disk\<lparr>ram := demo_ram, pmm_stack_loc := PMM_STACK_START,
       pmm_stack_max := PMM_STACK_START, kheap_max := KHEAP_START\<rparr>,
     segments = demo_gdt, ports = io.truncate demo_kbd\<lparr>interrupt_handlers := (\<lambda>_. None)(IRQ1 := Some Kbd_Handler)\<rparr>,
     idt_dev = demo_idt, timer_dev = demo_timer, kbd_dev = demo_kbd, console = demo_monitor,
     kernel_elf = \<lparr>symtab = 0, symtabsz = 0, strtab = 0, strtabsz = 0\<rparr>, test_lock = SPINLOCK_UNLOCKED\<rparr>"

definition demo_kernel :: kernel_image where
  "demo_kernel = \<lparr>at_dirent = 0x108000, at_str_initrd = 0x108100, at_str_dev = 0x108110, at_initrd_read = 0x101000,
     at_initrd_readdir = 0x101100, at_initrd_finddir = 0x101200, at_thread_exit = 0x101300, at_elf_hdr = 0x10F000,
     at_p_hdr = 0x10F100, at_elfmag = 0x108120, at_code = 0x100000, at_end = 0x110000, at_isr = (\<lambda>n. 0x102000 + of_nat n),
     at_irq = (\<lambda>n. 0x103000 + of_nat n), at_idt_entries = 0x106000, at_gdt_entries = 0x105000, at_tss = 0x105100,
     at_keymap_us = 0x8000, at_init = 0x101400, at_literal = (\<lambda>_. 0x108200)\<rparr>"

end
