(* ===== verification/Kernel_Startup.thy ===== *)
theory Kernel_Startup
  imports Kernel_Main
begin

text \<open>
  The beginning of \<open>kmain\<close>, from power-on to the pool of free frames: that it
  succeeds, and the invariants that it establishes for what follows.
\<close>

section \<open>The boot up to the pool of frames\<close>













section \<open>Properties of the machine\<close>





end
