(* ===== verification/Kernel_Echo.thy ===== *)
theory Kernel_Echo
  imports Kernel_Main
begin

text \<open>
  The end of \<open>kmain\<close>: its endless loop, into which the interrupts of the keyboard
  come at any point, as a refinement of a queue between the keys and the screen.
\<close>

section \<open>The echo of the keyboard\<close>

text \<open>
  What happens at the end of \<open>kmain\<close>: an interrupt of the keyboard, with the scancode that
  the controller offers, or a round of the loop.
\<close>

datatype event = Typed u8 | Turn

text \<open>The interrupt goes through the dispatcher of \<open>kernel/idt.c\<close>, which calls what is registered.\<close>

definition call_kbd :: "handler \<Rightarrow> registers \<Rightarrow> (kbd, unit) cmd" where
  "call_kbd h regs = (if h = Kbd_Handler then kbd_handler else fault Bad_Access)"

definition kbd_interrupt :: "u8 \<Rightarrow> (machine, unit) cmd" where
  "kbd_interrupt sc =
     bnd (upd (\<lambda>m. m\<lparr>ports := ports m\<lparr>in_port := (in_port (ports m))(0x60 := sc)\<rparr>\<rparr>)) (\<lambda>_.
     on_kbd (irq_handler call_kbd (demo_regs (ucast IRQ1))))"

primrec event_run :: "event \<Rightarrow> (machine, unit) cmd" where
  "event_run (Typed sc) = kbd_interrupt sc"
| "event_run Turn = echo"

text \<open>The contract: a layout, the characters waiting, the characters printed.\<close>

definition key_meaning :: "keymap \<Rightarrow> u8 \<Rightarrow> keymap \<times> u8 list" where
  "key_meaning k sc =
     (if sc AND RELEASED_MASK \<noteq> 0 then
        (case control_index 5 k (sc AND NOT RELEASED_MASK) of
           Some i \<Rightarrow> (k\<lparr>controls := controls k AND NOT (push_bit i 1)\<rparr>, [])
         | None \<Rightarrow> (k, []))
      else
        (case control_index 8 k sc of
           Some i \<Rightarrow> (k\<lparr>controls := controls k XOR push_bit i 1\<rparr>, [])
         | None \<Rightarrow> (k, [key_char k sc])))"

fun echo_spec :: "event list \<Rightarrow> keymap \<Rightarrow> u8 list \<Rightarrow> (keymap \<times> u8 list \<times> u8 list) option" where
  "echo_spec [] k q = Some (k, q, [])"
| "echo_spec (Typed sc # es) k q =
     (let (k', new) = key_meaning k sc in
      if length q + length new \<le> 255 then echo_spec es k' (q @ new) else None)"
| "echo_spec (Turn # es) k [] = echo_spec es k []"
| "echo_spec (Turn # es) k (c # q) =
     (case echo_spec es k q of None \<Rightarrow> None | Some (k', q', out) \<Rightarrow> Some (k', q', c # out))"

definition echo_ready :: "machine \<Rightarrow> bool" where
  "echo_ready m \<longleftrightarrow> ring_ok (kbd_dev m) \<and> on_screen (console m)
     \<and> interrupt_handlers (ports m) IRQ1 = Some Kbd_Handler"

text \<open>Two consoles that show the same, wherever the ports stand.\<close>

definition shows_same :: "monitor \<Rightarrow> monitor \<Rightarrow> bool" where
  "shows_same s t \<longleftrightarrow> video_mem s = video_mem t \<and> xpos s = xpos t \<and> ypos s = ypos t
     \<and> back_color s = back_color t \<and> fore_color s = fore_color t"

lemma shows_same_refl [simp]: "shows_same s s" "shows_same (set_io i s) t = shows_same s t" "shows_same s (set_io i t) = shows_same s t"
  by (simp_all add: shows_same_def)

lemma shows_same_trans: "shows_same s t \<Longrightarrow> shows_same t u \<Longrightarrow> shows_same s u"
  by (simp add: shows_same_def)

lemma shows_same_screen: "shows_same s t \<Longrightarrow> on_screen s = on_screen t"
  by (simp add: shows_same_def on_screen_def)

lemma draw_same: "shows_same s t \<Longrightarrow> shows_same (scrolled (draw c s)) (scrolled (draw c t))"
  by (simp add: shows_same_def scrolled_def draw_def blank_cell_def Let_def split: prod.splits)

lemma put_same:
  assumes "on_screen s" and "shows_same s s'"
  shows "\<exists>t t'. monitor_put c s = Inr ((), t) \<and> monitor_put c s' = Inr ((), t') \<and> shows_same t t' \<and> on_screen t
    \<and> interrupt_handlers t = interrupt_handlers s"
proof -
  have o': "on_screen s'" using assms shows_same_screen by blast
  let ?out = "\<lambda>t. t\<lparr>out_log := out_log t @ cursor_commands t\<rparr>"
  let ?t = "?out (scrolled (draw c s))" and ?t' = "?out (scrolled (draw c s'))"
  have r: "monitor_put c s = Inr ((), ?t)" "monitor_put c s' = Inr ((), ?t')"
    using monitor_put_run [OF assms(1)] monitor_put_run [OF o'] by (simp_all add: Let_def)
  moreover have "shows_same ?t ?t'" using draw_same [OF assms(2), of c] by (simp add: shows_same_def)
  moreover have "on_screen ?t" using monitor_put_on_screen [OF assms(1), of c] r(1) by auto
  moreover have "interrupt_handlers ?t = interrupt_handlers s"
    by (simp add: scrolled_def draw_def Let_def split: prod.splits)
  ultimately show ?thesis by blast
qed

lemma put_nul:
  assumes "on_screen s"
  shows "\<exists>t. monitor_put 0 s = Inr ((), t) \<and> shows_same s t \<and> on_screen t \<and> interrupt_handlers t = interrupt_handlers s"
proof -
  have d: "draw 0 s = s" "scrolled s = s"
    using assms by (auto simp: draw_def advance_def wrap_row_def printed_def on_screen_def scrolled_def not_le)
  then have "monitor_put 0 s = Inr ((), s\<lparr>out_log := out_log s @ cursor_commands s\<rparr>)"
    using monitor_put_run [OF assms, of 0] by (simp add: Let_def)
  then show ?thesis using assms by (simp add: shows_same_def on_screen_def)
qed


section \<open>One event\<close>

lemma key_event_handlers: "key_event sc s = Inr (x, t) \<Longrightarrow> interrupt_handlers t = interrupt_handlers s"
  by (auto simp: key_event_def kbd_handler_def cmd_simps set_controls_def Let_def split: if_splits option.splits)

lemma key_event_meaning:
  assumes "ring_ok s" and k: "key_meaning (layout s) sc = (k', new)" and "length (kbd_queue s) + length new \<le> 255"
  shows "\<exists>t. key_event sc s = Inr ((), t) \<and> ring_ok t \<and> layout t = k' \<and> kbd_queue t = kbd_queue s @ new
    \<and> interrupt_handlers t = interrupt_handlers s"
proof -
  have "\<exists>t. key_event sc s = Inr ((), t) \<and> layout t = k' \<and> kbd_queue t = kbd_queue s @ new"
  proof (cases "sc AND RELEASED_MASK = 0")
    case False
    then show ?thesis
      using kbd_control_key [of sc s] k
      by (cases "control_index 5 (layout s) (sc AND NOT RELEASED_MASK)")
        (auto simp: key_meaning_def key_event_def kbd_handler_def cmd_simps)
  next
    case True
    show ?thesis
    proof (cases "control_index 8 (layout s) sc")
      case None
      then have "plain_key (layout s) sc" "ring_length s < 255" "k' = layout s" "new = [key_char (layout s) sc]"
        using True k assms(3) by (auto simp: plain_key_def key_meaning_def ring_length_queue)
      with key_event_puts [OF assms(1)] show ?thesis by blast
    next
      case (Some i)
      with True k kbd_control_key [of sc s i] show ?thesis by (auto simp: key_meaning_def)
    qed
  qed
  then obtain t where t: "key_event sc s = Inr ((), t)" "layout t = k'" "kbd_queue t = kbd_queue s @ new" by blast
  moreover have "ring_ok t" using key_event_ring [OF assms(1), of sc] t(1) by auto
  ultimately show ?thesis using key_event_handlers by blast
qed

lemma interrupt_runs_handler:
  assumes "interrupt_handlers (ports m) IRQ1 = Some Kbd_Handler"
  shows "kbd_interrupt sc m = on_kbd (key_event sc)
    (m\<lparr>ports := ports m\<lparr>in_port := (in_port (ports m))(0x60 := sc), out_log := out_log (ports m) @ [(0x20, 0x20)]\<rparr>\<rparr>)"
proof -
  let ?p = "ports m\<lparr>in_port := (in_port (ports m))(0x60 := sc)\<rparr>"
  let ?q = "?p\<lparr>out_log := out_log (ports m) @ [(0x20, 0x20)]\<rparr>"
  have n: "int_no (demo_regs (ucast IRQ1)) = 33" by (simp add: demo_regs_def IRQ1_def)
  have e: "(set_io ?p (kbd_dev m))\<lparr>out_log := out_log (ports m) @ [(0x20, 0x20)]\<rparr> = set_io ?q (kbd_dev m)"
    by (rule kbd.equality) (simp_all add: set_io_def)
  have t: "(set_io ?q (kbd_dev m))\<lparr>in_port := (in_port (set_io ?q (kbd_dev m)))(0x60 := sc)\<rparr> = set_io ?q (kbd_dev m)"
    by (rule kbd.equality) (simp_all add: set_io_def)
  have i: "(ucast (33 :: u32) :: u8) = IRQ1" by (simp add: IRQ1_def)
  have "irq_handler call_kbd (demo_regs (ucast IRQ1)) (set_io ?p (kbd_dev m)) = kbd_handler (set_io ?q (kbd_dev m))"
    unfolding irq_handler_def lookup_handler_def n i
    using e by (simp add: bnd_run skip_run outb_run gets_run assms call_kbd_def)
  also have "\<dots> = key_event sc (set_io ?q (kbd_dev m))"
    unfolding key_event_def bnd_run upd_run t by simp
  finally show ?thesis
    by (simp add: kbd_interrupt_def bnd_run upd_run lift_def split: sum.splits)
qed

lemma event_typed:
  assumes m: "echo_ready m" and k: "key_meaning (layout (kbd_dev m)) sc = (k', new)"
    and room: "length (kbd_queue (kbd_dev m)) + length new \<le> 255"
  shows "\<exists>t. event_run (Typed sc) m = Inr ((), t) \<and> echo_ready t \<and> layout (kbd_dev t) = k'
    \<and> kbd_queue (kbd_dev t) = kbd_queue (kbd_dev m) @ new \<and> console t = console m"
proof -
  let ?p = "ports m\<lparr>in_port := (in_port (ports m))(0x60 := sc), out_log := out_log (ports m) @ [(0x20, 0x20)]\<rparr>"
  let ?s = "set_io ?p (kbd_dev m)"
  have h: "interrupt_handlers (ports m) IRQ1 = Some Kbd_Handler" "ring_ok (kbd_dev m)" "on_screen (console m)"
    using m by (simp_all add: echo_ready_def)
  obtain t where t: "key_event sc ?s = Inr ((), t)" "ring_ok t" "layout t = k'" "kbd_queue t = kbd_queue ?s @ new"
    "interrupt_handlers t = interrupt_handlers ?s"
    using key_event_meaning [of ?s sc k' new] h(2) k room by auto
  have "event_run (Typed sc) m = Inr ((), m\<lparr>ports := io.truncate t, kbd_dev := t\<rparr>)"
    using t(1) by (simp add: interrupt_runs_handler [OF h(1)] lift_def)
  with t h show ?thesis by (simp add: echo_ready_def)
qed

lemma getchar_next:
  assumes "ring_ok s"
  shows "case kbd_queue s of [] \<Rightarrow> kbd_getchar s = Inr (0, s)
    | c # q \<Rightarrow> \<exists>t. kbd_getchar s = Inr (c, t) \<and> ring_ok t \<and> layout t = layout s \<and> kbd_queue t = q
        \<and> interrupt_handlers t = interrupt_handlers s"
proof (cases "kbd_queue s")
  case Nil
  then show ?thesis using kbd_queue_empty [OF assms] by (simp add: kbd_getchar_def cmd_simps)
next
  case (Cons c q)
  then show ?thesis using ring_get [OF assms Cons] by simp
qed

lemma event_turn:
  assumes m: "echo_ready m" and scr: "shows_same (console m) w" and w: "on_screen w"
    and c: "kbd_queue (kbd_dev m) = new @ q" "new = [] \<longrightarrow> q = []" "length new \<le> 1"
  shows "\<exists>t u. event_run Turn m = Inr ((), t) \<and> echo_ready t \<and> layout (kbd_dev t) = layout (kbd_dev m)
    \<and> kbd_queue (kbd_dev t) = q \<and> monitor_write new w = Inr ((), u) \<and> shows_same (console t) u \<and> on_screen u"
proof -
  let ?s = "set_io (ports m) (kbd_dev m)"
  have h: "interrupt_handlers (ports m) IRQ1 = Some Kbd_Handler" "ring_ok (kbd_dev m)" "on_screen (console m)"
    using m by (simp_all add: echo_ready_def)
  show ?thesis
  proof (cases new)
    case Nil
    then have "kbd_getchar ?s = Inr (0, ?s)" using getchar_next [of ?s] h(2) c by simp
    then have g: "on_kbd kbd_getchar m = Inr (0, m\<lparr>kbd_dev := ?s, ports := io.truncate ?s\<rparr>)" by (simp add: lift_def)
    let ?m = "m\<lparr>kbd_dev := ?s, ports := io.truncate ?s\<rparr>"
    obtain t where t: "monitor_put 0 (set_io (ports ?m) (console ?m)) = Inr ((), t)"
      "shows_same (set_io (ports ?m) (console ?m)) t" "on_screen t" "interrupt_handlers t = interrupt_handlers (ports m)"
      using put_nul [of "set_io (ports ?m) (console ?m)"] h(3) by auto
    have "event_run Turn m = Inr ((), ?m\<lparr>console := t, ports := io.truncate t\<rparr>)"
      using g t(1) by (simp add: echo_def bnd_run lift_def)
    moreover have "shows_same t w" using t(2) scr by (simp add: shows_same_def)
    ultimately show ?thesis using t(3,4) h(1,2) c Nil w by (simp add: echo_ready_def monitor_write_def)
  next
    case (Cons a as)
    with c(3) have new: "new = [a]" by simp
    obtain v where v: "kbd_getchar ?s = Inr (a, v)" "ring_ok v" "layout v = layout ?s" "kbd_queue v = q"
      "interrupt_handlers v = interrupt_handlers ?s"
      using getchar_next [of ?s] h(2) c new by auto
    let ?m = "m\<lparr>kbd_dev := v, ports := io.truncate v\<rparr>"
    have g: "on_kbd kbd_getchar m = Inr (a, ?m)" using v(1) by (simp add: lift_def)
    have ss: "on_screen (set_io (ports ?m) (console ?m))" "shows_same (set_io (ports ?m) (console ?m)) w"
      using h(3) scr by simp_all
    obtain t u where t: "monitor_put a (set_io (ports ?m) (console ?m)) = Inr ((), t)"
      "monitor_put a w = Inr ((), u)" "shows_same t u" "on_screen t"
      "interrupt_handlers t = interrupt_handlers (ports ?m)"
      using put_same [OF ss, of a] by auto
    have "event_run Turn m = Inr ((), ?m\<lparr>console := t, ports := io.truncate t\<rparr>)"
      using g t(1) by (simp add: echo_def bnd_run lift_def)
    then show ?thesis using t v h(1) new shows_same_screen [OF t(3)] by (simp add: echo_ready_def monitor_write_def)
  qed
qed

section \<open>Any sequence of events\<close>

text \<open>The characters of the keys pressed, in the order and with the shift states of the presses.\<close>

fun typed :: "keymap \<Rightarrow> event list \<Rightarrow> u8 list" where
  "typed k [] = []"
| "typed k (Typed sc # es) = (let (k', new) = key_meaning k sc in new @ typed k' es)"
| "typed k (Turn # es) = typed k es"

lemma echo_spec_order: "echo_spec es k q = Some (k', q', out) \<Longrightarrow> out @ q' = q @ typed k es"
  by (induction es k q arbitrary: k' q' out rule: echo_spec.induct) (auto simp: Let_def split: prod.splits if_splits option.splits)

lemma echo_run:
  assumes "echo_ready m" and "shows_same (console m) w" and "on_screen w"
    and "echo_spec es (layout (kbd_dev m)) (kbd_queue (kbd_dev m)) = Some (k', q', out)"
  shows "\<exists>t u. cfor es event_run m = Inr ((), t) \<and> echo_ready t \<and> layout (kbd_dev t) = k'
    \<and> kbd_queue (kbd_dev t) = q' \<and> monitor_write out w = Inr ((), u) \<and> shows_same (console t) u"
  using assms
proof (induction es arbitrary: m w out)
  case Nil
  then show ?case by (simp add: monitor_write_def)
next
  case (Cons e es)
  show ?case
  proof (cases e)
    case (Typed sc)
    obtain k new where k: "key_meaning (layout (kbd_dev m)) sc = (k, new)" by (metis surj_pair)
    with Cons.prems(4) Typed have r: "length (kbd_queue (kbd_dev m)) + length new \<le> 255"
      "echo_spec es k (kbd_queue (kbd_dev m) @ new) = Some (k', q', out)"
      by (simp_all split: if_splits)
    obtain n where n: "event_run e m = Inr ((), n)" "echo_ready n" "layout (kbd_dev n) = k"
      "kbd_queue (kbd_dev n) = kbd_queue (kbd_dev m) @ new" "console n = console m"
      using event_typed [OF Cons.prems(1) k r(1)] Typed by blast
    with Cons.IH [OF n(2), of w out] Cons.prems(2,3) r(2) show ?thesis by simp
  next
    case Turn
    obtain new q where c: "kbd_queue (kbd_dev m) = new @ q" "new = [] \<longrightarrow> q = []" "length new \<le> 1"
      by (cases "kbd_queue (kbd_dev m)") (auto intro: that [of "[]"] that [of "[_]"])
    obtain o' where o': "echo_spec es (layout (kbd_dev m)) q = Some (k', q', o')" "out = new @ o'"
      using Cons.prems(4) c Turn by (cases new) (auto split: option.splits prod.splits)
    obtain n u where n: "event_run e m = Inr ((), n)" "echo_ready n" "layout (kbd_dev n) = layout (kbd_dev m)"
      "kbd_queue (kbd_dev n) = q" "monitor_write new w = Inr ((), u)" "shows_same (console n) u" "on_screen u"
      using event_turn [OF Cons.prems(1-3) c] Turn by blast
    obtain t v where t: "cfor es event_run n = Inr ((), t)" "echo_ready t" "layout (kbd_dev t) = k'"
      "kbd_queue (kbd_dev t) = q'" "monitor_write o' u = Inr ((), v)" "shows_same (console t) v"
      using Cons.IH [OF n(2,6,7), of o'] o'(1) n(3,4) by auto
    have "monitor_write out w = Inr ((), v)"
      using n(5) t(5) unfolding o'(2) monitor_write_def by (simp add: cfor_append)
    then show ?thesis using n(1) t by auto
  qed
qed

section \<open>The property\<close>

text \<open>C16: What is typed is printed. When \<open>kmain\<close> has reached its endless loop, with the keyboard's interrupts arriving
  at any points between its rounds, the machine does what the contract says as long as no more than 255 characters wait:
  control keys change the layout's state, other keys queue their character in the state at the time of the
  press, each round prints the first one waiting. The screen then shows exactly what writing the
  characters printed so far shows, and these followed by those still waiting are all that were typed, in
  order.\<close>

theorem console_echoes_typed_keys:
  assumes "echo_ready m" and "echo_spec es (layout (kbd_dev m)) (kbd_queue (kbd_dev m)) = Some (k, q, out)"
  shows "\<exists>t u. cfor es event_run m = Inr ((), t) \<and> echo_ready t \<and> layout (kbd_dev t) = k \<and> kbd_queue (kbd_dev t) = q
    \<and> monitor_write out (console m) = Inr ((), u) \<and> shows_same (console t) u
    \<and> out @ q = kbd_queue (kbd_dev m) @ typed (layout (kbd_dev m)) es"
  using echo_run [OF assms(1) shows_same_refl(1) _ assms(2)] echo_spec_order [OF assms(2)] assms(1)
  by (auto simp: echo_ready_def)

text \<open>Shift, h, a round, shift released, i, and three rounds: the last finds nothing.\<close>

theorem console_echoes_typed_keys_witness:
  "\<exists>t u. cfor [Typed 0x2A, Typed 0x23, Turn, Typed 0xAA, Typed 0x17, Turn, Turn] event_run demo_machine = Inr ((), t)
    \<and> kbd_queue (kbd_dev t) = [] \<and> monitor_write [0x48, 0x69] demo_monitor = Inr ((), u) \<and> shows_same (console t) u"
proof -
  have d: "layout (kbd_dev demo_machine) = kbd_keymap_us" "kbd_queue (kbd_dev demo_machine) = []"
    "console demo_machine = demo_monitor"
    using demo_kbd_ring by (simp_all add: demo_machine_def)
  have r: "echo_ready demo_machine"
    using demo_kbd_ring(1) by (simp add: echo_ready_def demo_machine_def on_screen_def demo_monitor_def)
  have "\<exists>k. echo_spec [Typed 0x2A, Typed 0x23, Turn, Typed 0xAA, Typed 0x17, Turn, Turn] kbd_keymap_us [] = Some (k, [], [0x48, 0x69])"
  proof -
    have "(case echo_spec [Typed 0x2A, Typed 0x23, Turn, Typed 0xAA, Typed 0x17, Turn, Turn] kbd_keymap_us [] of
        None \<Rightarrow> False | Some (k, q, out) \<Rightarrow> q = [] \<and> out = [0x48, 0x69])" by code_simp
    then show ?thesis by (auto split: option.splits prod.splits)
  qed
  then obtain k where "echo_spec [Typed 0x2A, Typed 0x23, Turn, Typed 0xAA, Typed 0x17, Turn, Turn]
      (layout (kbd_dev demo_machine)) (kbd_queue (kbd_dev demo_machine)) = Some (k, [], [0x48, 0x69])"
    unfolding d by blast
  from console_echoes_typed_keys [OF r this] show ?thesis unfolding d by blast
qed

end
