(* ===== verification/Kernel_Printf.thy ===== *)
theory Kernel_Printf
  imports Kernel_Monitor
begin

text \<open>
  Formatted output: \<open>vsprintf\<close> of \<open>kernel/lib/vsprintf.c\<close> and \<open>kprintf\<close> of
  \<open>kernel/lib/kprintf.c\<close>. A format is the list of its bytes before the
  terminator. The output pointer only moves forward, so what is stored from
  \<open>buf\<close> on is a list of bytes. An argument is a word, or the string that a
  \<open>char*\<close> points to; taking an argument that is not there, or of the other kind, is
  a fault. The C type \<open>int\<close> of widths is the type of integers: C gives an
  overflow there no meaning.
\<close>

section \<open>Numbers\<close>

definition ZEROPAD :: u32 where "ZEROPAD = 1"
definition SIGN :: u32 where "SIGN = 2"
definition PLUS :: u32 where "PLUS = 4"
definition SPACE :: u32 where "SPACE = 8"
definition LEFT :: u32 where "LEFT = 16"
definition SPECIAL :: u32 where "SPECIAL = 32"
definition SMALL :: u32 where "SMALL = 64"

lemmas printf_flags = ZEROPAD_def SIGN_def PLUS_def SPACE_def LEFT_def SPECIAL_def SMALL_def

datatype arg = Int_Arg u32 | Str_Arg "u8 list"

definition is_digit :: "u8 \<Rightarrow> bool" where
  "is_digit c \<longleftrightarrow> 0x30 \<le> c \<and> c \<le> 0x39"

fun skip_atoi :: "u32 \<Rightarrow> u8 list \<Rightarrow> u32 \<times> u8 list" where
  "skip_atoi i [] = (i, [])"
| "skip_atoi i (c # cs) = (if is_digit c then skip_atoi (i * 10 + ucast c - 0x30) cs else (i, c # cs))"

definition upper_digits :: "u8 list" where
  "upper_digits = map chr ''0123456789ABCDEFGHIJKLMNOPQRSTUVWXYZ''"

definition lower_digits :: "u8 list" where
  "lower_digits = map chr ''0123456789abcdefghijklmnopqrstuvwxyz''"

text \<open>The loop that fills \<open>tmp\<close>: the digits from the last to the first.\<close>

function digit_loop :: "u32 \<Rightarrow> u32 \<Rightarrow> u32 list" where
  "digit_loop base num = (if num = 0 \<or> base < 2 then [] else num mod base # digit_loop base (num div base))"
  by pat_completeness auto

lemma div_decreases: "num \<noteq> 0 \<Longrightarrow> \<not> base < 2 \<Longrightarrow> unat (num div base :: u32) < unat num"
proof -
  assume "num \<noteq> 0" and "\<not> base < 2"
  then have "0 < unat num" "1 < unat base" by (simp_all add: unat_gt_0 not_less word_le_nat_alt)
  then show ?thesis by (simp add: unat_div)
qed

termination digit_loop
  by (relation "measure (\<lambda>(base, num). unat num)") (auto intro: div_decreases)

declare digit_loop.simps [simp del]

text \<open>The value of \<open>size\<close> after \<open>while (size-- > 0)\<close>, a loop that stores one byte per round.\<close>

definition after_pad :: "int \<Rightarrow> int" where
  "after_pad sz = (if 0 < sz then -1 else sz - 1)"

text \<open>
  The second half of \<open>number\<close>, from the comparison of \<open>i\<close> with the precision: padding,
  sign, prefix and digits in the order they are stored.
\<close>

definition put_digits :: "u32 \<Rightarrow> int \<Rightarrow> int \<Rightarrow> u8 list \<Rightarrow> u8 list \<Rightarrow> u8 \<Rightarrow> u8 list \<Rightarrow> u8 list" where
  "put_digits type sz0 precision0 sign pre c tmp =
     (let i = int (length tmp);
          precision = (if precision0 < i then i else precision0);
          sz1 = sz0 - precision;
          pad1 = (if type AND (ZEROPAD + LEFT) = 0 then replicate (nat sz1) (chr (CHR '' '')) else []);
          sz2 = (if type AND (ZEROPAD + LEFT) = 0 then after_pad sz1 else sz1);
          pad2 = (if type AND LEFT = 0 then replicate (nat sz2) c else []);
          sz3 = (if type AND LEFT = 0 then after_pad sz2 else sz2);
          zeros = replicate (nat (precision - i)) (chr (CHR ''0''))
      in pad1 @ sign @ pre @ pad2 @ zeros @ rev tmp @ replicate (nat sz3) (chr (CHR '' '')))"

definition number :: "u32 \<Rightarrow> u32 \<Rightarrow> int \<Rightarrow> int \<Rightarrow> u32 \<Rightarrow> u8 list option" where
  "number num base sz precision type0 =
     (let digits = (if SMALL AND type0 \<noteq> 0 then lower_digits else upper_digits);
          type = (if LEFT AND type0 \<noteq> 0 then type0 AND NOT ZEROPAD else type0) in
      if base < 2 \<or> 36 < base then None
      else
        let c = (if type AND ZEROPAD \<noteq> 0 then chr (CHR ''0'') else chr (CHR '' ''));
            negative = (type AND SIGN \<noteq> 0 \<and> sint num < 0);
            sign = (if negative then [chr (CHR ''-'')]
              else if type AND PLUS \<noteq> 0 then [chr (CHR ''+'')]
              else if SPACE AND type \<noteq> 0 then [chr (CHR '' '')] else []);
            magnitude = (if negative then - num else num);
            sz1 = (if sign \<noteq> [] then sz - 1 else sz);
            sz2 = (if SPECIAL AND type \<noteq> 0
              then (if base = 16 then sz1 - 2 else if base = 8 then sz1 - 1 else sz1) else sz1);
            tmp = (if magnitude = 0 then [chr (CHR ''0'')]
              else map (\<lambda>d. digits ! unat d) (digit_loop base magnitude));
            pre = (if SPECIAL AND type \<noteq> 0
              then (if base = 8 then [chr (CHR ''0'')]
                else if base = 16 then [chr (CHR ''0''), digits ! 33] else []) else [])
        in Some (put_digits type sz2 precision sign pre c tmp))"

section \<open>Formats\<close>

fun parse_flags :: "u8 list \<Rightarrow> u32 \<Rightarrow> u8 list \<times> u32" where
  "parse_flags [] flags = ([], flags)"
| "parse_flags (c # cs) flags =
     (if c = chr (CHR ''-'') then parse_flags cs (flags OR LEFT)
      else if c = chr (CHR ''+'') then parse_flags cs (flags OR PLUS)
      else if c = chr (CHR '' '') then parse_flags cs (flags OR SPACE)
      else if c = chr (CHR ''#'') then parse_flags cs (flags OR SPECIAL)
      else if c = chr (CHR ''0'') then parse_flags cs (flags OR ZEROPAD)
      else (c # cs, flags))"

definition next_int :: "arg list \<Rightarrow> fault + (u32 \<times> arg list)" where
  "next_int va = (case va of Int_Arg w # bs \<Rightarrow> Inr (w, bs) | _ \<Rightarrow> Inl Bad_Access)"

definition next_str :: "arg list \<Rightarrow> fault + (u8 list \<times> arg list)" where
  "next_str va = (case va of Str_Arg x # bs \<Rightarrow> Inr (x, bs) | _ \<Rightarrow> Inl Bad_Access)"

text \<open>
  The field width: a number of the format, or the next argument for \<open>*\<close>; in the
  second case the format pointer stays on the \<open>*\<close>.
\<close>

definition parse_width :: "u8 list \<Rightarrow> u32 \<Rightarrow> arg list \<Rightarrow> fault + (int \<times> u8 list \<times> u32 \<times> arg list)" where
  "parse_width fmt flags va =
     (if fmt \<noteq> [] \<and> is_digit (hd fmt) then (case skip_atoi 0 fmt of (w, rest) \<Rightarrow> Inr (sint w, rest, flags, va))
      else if fmt \<noteq> [] \<and> hd fmt = chr (CHR ''*'') then
        (case next_int va of Inl e \<Rightarrow> Inl e
         | Inr (w, bs) \<Rightarrow>
             if sint w < 0 then Inr (- sint w, fmt, flags OR LEFT, bs) else Inr (sint w, fmt, flags, bs))
      else Inr (-1, fmt, flags, va))"

definition parse_precision :: "u8 list \<Rightarrow> arg list \<Rightarrow> fault + (int \<times> u8 list \<times> arg list)" where
  "parse_precision fmt va =
     (if fmt \<noteq> [] \<and> hd fmt = chr (CHR ''.'') then
        let fmt = tl fmt in
        (if fmt \<noteq> [] \<and> is_digit (hd fmt) then
           (case skip_atoi 0 fmt of (w, rest) \<Rightarrow> Inr (max 0 (sint w), rest, va))
         else if fmt \<noteq> [] \<and> hd fmt = chr (CHR ''*'') then
           (case next_int va of Inl e \<Rightarrow> Inl e | Inr (w, bs) \<Rightarrow> Inr (max 0 (sint w), fmt, bs))
         else Inr (0, fmt, va))
      else Inr (-1, fmt, va))"

definition skip_qualifier :: "u8 list \<Rightarrow> u8 list" where
  "skip_qualifier fmt =
     (if fmt \<noteq> [] \<and> (hd fmt = chr (CHR ''h'') \<or> hd fmt = chr (CHR ''l'') \<or> hd fmt = chr (CHR ''L''))
      then tl fmt else fmt)"

text \<open>A number conversion; the results are the bytes, the arguments left and no store.\<close>

definition put_number :: "arg list \<Rightarrow> u32 \<Rightarrow> int \<Rightarrow> int \<Rightarrow> u32 \<Rightarrow> fault + (u8 list \<times> arg list \<times> (u32 \<times> nat) list)" where
  "put_number va base width precision flags =
     (case next_int va of Inl e \<Rightarrow> Inl e
      | Inr (w, bs) \<Rightarrow>
          (case number w base width precision flags of None \<Rightarrow> Inl Bad_Access | Some out \<Rightarrow> Inr (out, bs, [])))"

definition put_char :: "arg list \<Rightarrow> int \<Rightarrow> u32 \<Rightarrow> fault + (u8 list \<times> arg list \<times> (u32 \<times> nat) list)" where
  "put_char va width flags =
     (case next_int va of Inl e \<Rightarrow> Inl e
      | Inr (w, bs) \<Rightarrow>
          let before = (if flags AND LEFT = 0 then replicate (nat (width - 1)) (chr (CHR '' '')) else []);
              width = (if flags AND LEFT = 0 then (if 0 < width then 0 else width - 1) else width)
          in Inr (before @ [ucast w] @ replicate (nat (width - 1)) (chr (CHR '' '')), bs, []))"

definition put_str :: "arg list \<Rightarrow> int \<Rightarrow> int \<Rightarrow> u32 \<Rightarrow> fault + (u8 list \<times> arg list \<times> (u32 \<times> nat) list)" where
  "put_str va width precision flags =
     (case next_str va of Inl e \<Rightarrow> Inl e
      | Inr (x, bs) \<Rightarrow>
          let len = int (length x);
              len = (if 0 \<le> precision \<and> precision < len then precision else len);
              before = (if flags AND LEFT = 0 then replicate (nat (width - len)) (chr (CHR '' '')) else []);
              width = (if flags AND LEFT = 0 then (if len < width then len - 1 else width - 1) else width)
          in Inr (before @ take (nat len) x @ replicate (nat (width - len)) (chr (CHR '' '')), bs, []))"

text \<open>
  The switch on the conversion; \<open>count\<close> is the number of bytes stored so far. The
  end of the format is \<open>None\<close>.
\<close>

definition convert :: "u8 option \<Rightarrow> int \<Rightarrow> int \<Rightarrow> u32 \<Rightarrow> arg list \<Rightarrow> nat \<Rightarrow>
    fault + (u8 list \<times> arg list \<times> (u32 \<times> nat) list)" where
  "convert conv width precision flags va count =
     (if conv = Some (chr (CHR ''c'')) then put_char va width flags
      else if conv = Some (chr (CHR ''s'')) then put_str va width precision flags
      else if conv = Some (chr (CHR ''o'')) then put_number va 8 width precision flags
      else if conv = Some (chr (CHR ''p'')) then
        (if width = -1 then put_number va 16 8 precision (flags OR ZEROPAD)
         else put_number va 16 width precision flags)
      else if conv = Some (chr (CHR ''x'')) then put_number va 16 width precision (flags OR SMALL)
      else if conv = Some (chr (CHR ''X'')) then put_number va 16 width precision flags
      else if conv = Some (chr (CHR ''d'')) \<or> conv = Some (chr (CHR ''i''))
      then put_number va 10 width precision (flags OR SIGN)
      else if conv = Some (chr (CHR ''u'')) then put_number va 10 width precision flags
      else if conv = Some (chr (CHR ''b'')) then put_number va 2 width precision flags
      else if conv = Some (chr (CHR ''n'')) then
        (case next_int va of Inl e \<Rightarrow> Inl e | Inr (p, bs) \<Rightarrow> Inr ([], bs, [(p, count)]))
      else
        (case conv of None \<Rightarrow> Inr ([chr (CHR ''%'')], va, [])
         | Some c \<Rightarrow> Inr ((if c \<noteq> chr (CHR ''%'') then [chr (CHR ''%'')] else []) @ [c], va, [])))"

text \<open>One directive, after its percent sign: its bytes, the rest of the format and of the arguments.\<close>

definition directive :: "u8 list \<Rightarrow> arg list \<Rightarrow> nat \<Rightarrow>
    fault + (u8 list \<times> u8 list \<times> arg list \<times> (u32 \<times> nat) list)" where
  "directive fmt va count =
     (case parse_flags fmt 0 of (fmt, flags) \<Rightarrow>
      case parse_width fmt flags va of Inl e \<Rightarrow> Inl e | Inr (width, fmt, flags, va) \<Rightarrow>
      case parse_precision fmt va of Inl e \<Rightarrow> Inl e | Inr (precision, fmt, va) \<Rightarrow>
      let fmt = skip_qualifier fmt in
      case convert (if fmt = [] then None else Some (hd fmt)) width precision flags va count of
        Inl e \<Rightarrow> Inl e
      | Inr (out, va, st) \<Rightarrow> Inr (out, tl fmt, va, st))"

lemma skip_atoi_shorter: "length (snd (skip_atoi i cs)) \<le> length cs"
  by (induction i cs rule: skip_atoi.induct) auto

lemma parse_flags_shorter: "length (fst (parse_flags cs fl)) \<le> length cs"
  by (induction cs fl rule: parse_flags.induct) auto

lemma parse_width_shorter: "parse_width fmt fl va = Inr (w, rest, r) \<Longrightarrow> length rest \<le> length fmt"
  using skip_atoi_shorter [of 0 fmt] by (auto simp: parse_width_def split: if_splits prod.splits sum.splits)

lemma parse_precision_shorter: "parse_precision fmt va = Inr (w, rest, r) \<Longrightarrow> length rest \<le> length fmt"
  using skip_atoi_shorter [of 0 "tl fmt"]
  by (auto simp: parse_precision_def Let_def split: if_splits prod.splits sum.splits)

lemma directive_shorter: "directive fmt va n = Inr (out, rest, r) \<Longrightarrow> length rest \<le> length fmt"
proof -
  assume d: "directive fmt va n = Inr (out, rest, r)"
  obtain f1 fl where 1: "parse_flags fmt 0 = (f1, fl)" by (cases "parse_flags fmt 0")
  from d 1 obtain w f2 fl2 va2 where 2: "parse_width f1 fl va = Inr (w, f2, fl2, va2)"
    by (auto simp: directive_def split: sum.splits)
  from d 1 2 obtain p f3 va3 where 3: "parse_precision f2 va2 = Inr (p, f3, va3)"
    by (auto simp: directive_def split: sum.splits)
  from d 1 2 3 have "rest = tl (skip_qualifier f3)" by (auto simp: directive_def Let_def split: sum.splits)
  then have "length rest \<le> length f3" by (auto simp: skip_qualifier_def)
  with parse_flags_shorter [of fmt 0] 1 parse_width_shorter [OF 2] parse_precision_shorter [OF 3]
  show ?thesis by simp
qed

function vsprintf_loop :: "u8 list \<Rightarrow> arg list \<Rightarrow> nat \<Rightarrow> fault + (u8 list \<times> (u32 \<times> nat) list)" where
  "vsprintf_loop [] va n = Inr ([], [])"
| "vsprintf_loop (c # fmt) va n =
     (if c \<noteq> chr (CHR ''%'') then
        (case vsprintf_loop fmt va (n + 1) of Inl e \<Rightarrow> Inl e | Inr (out, st) \<Rightarrow> Inr (c # out, st))
      else
        (case directive fmt va n of Inl e \<Rightarrow> Inl e
         | Inr (o1, rest, va, st1) \<Rightarrow>
             (case vsprintf_loop rest va (n + length o1) of Inl e \<Rightarrow> Inl e
              | Inr (out, st) \<Rightarrow> Inr (o1 @ out, st1 @ st))))"
  by pat_completeness auto

termination vsprintf_loop
  by (relation "measure (\<lambda>(fmt, va, n). length fmt)") (auto dest!: directive_shorter)

text \<open>What is stored from \<open>buf\<close> on, before the terminator, and the stores of \<open>%n\<close>.\<close>

definition vsprintf :: "u8 list \<Rightarrow> arg list \<Rightarrow> fault + (u8 list \<times> (u32 \<times> nat) list)" where
  "vsprintf fmt va = vsprintf_loop fmt va 0"

text \<open>The buffer of \<open>kprintf\<close> has 1024 bytes, one for the terminator.\<close>

definition kprintf :: "u8 list \<Rightarrow> arg list \<Rightarrow> ('a monitor_scheme, (u32 \<times> nat) list) cmd" where
  "kprintf fmt va =
     (case vsprintf fmt va of Inl e \<Rightarrow> fault e
      | Inr (buf, st) \<Rightarrow>
          if 1024 \<le> length buf then fault Bad_Access
          else bnd (monitor_write (takeWhile (\<lambda>c. c \<noteq> 0) buf)) (\<lambda>_. ret st))"

section \<open>The digits of a number\<close>

text \<open>Reading a number back: the value of a digit, of either case, and of a list of them.\<close>

definition digit_val :: "u8 \<Rightarrow> nat" where
  "digit_val c = (if c < 0x3A then unat c - 0x30 else if c < 0x61 then unat c - 55 else unat c - 87)"

definition digits_value :: "nat \<Rightarrow> u8 list \<Rightarrow> nat" where
  "digits_value base cs = foldl (\<lambda>v c. v * base + digit_val c) 0 cs"

lemma digits_value_append: "digits_value b (xs @ ys) = digits_value b xs * b ^ length ys + digits_value b ys"
proof -
  have "foldl (\<lambda>v c. v * b + digit_val c) a ys = a * b ^ length ys + digits_value b ys" for a
  proof (induction ys rule: rev_induct)
    case (snoc y ys)
    have "digits_value b (ys @ [y]) = digits_value b ys * b + digit_val y" by (simp add: digits_value_def)
    with snoc show ?case by (simp add: add_mult_distrib)
  qed (simp add: digits_value_def)
  from this [of "digits_value b xs"] show ?thesis by (simp add: digits_value_def)
qed

lemma digits_value_single [simp]: "digits_value b [c] = digit_val c"
  by (simp add: digits_value_def)

lemma digits_value_Nil [simp]: "digits_value b [] = 0"
  by (simp add: digits_value_def)

lemma zero_char [simp]: "digit_val (chr (CHR ''0'')) = 0"
  by (simp add: digit_val_def chr_def)

lemma digits_value_zeros [simp]: "digits_value b (replicate n (chr (CHR ''0''))) = 0"
proof (induction n)
  case (Suc n)
  then show ?case using digits_value_append [of b "[chr (CHR ''0'')]" "replicate n (chr (CHR ''0''))"] by simp
qed simp

lemma digit_tables:
  assumes "d < 36"
  shows "digit_val (upper_digits ! d) = d" and "digit_val (lower_digits ! d) = d"
proof -
  have "list_all (\<lambda>d. digit_val (upper_digits ! d) = d \<and> digit_val (lower_digits ! d) = d) [0..<36]"
    by code_simp
  with assms show "digit_val (upper_digits ! d) = d" "digit_val (lower_digits ! d) = d"
    by (simp_all add: list_all_iff)
qed

lemma digit_loop_step:
  "num \<noteq> 0 \<Longrightarrow> 2 \<le> base \<Longrightarrow> digit_loop base num = num mod base # digit_loop base (num div base)"
  by (subst digit_loop.simps) (simp add: not_less)

lemma digit_loop_zero [simp]: "digit_loop base 0 = []"
  by (subst digit_loop.simps) simp

text \<open>The digits have the value of the number, and there are at most as many as the base needs.\<close>

lemma digit_loop_correct:
  assumes base: "2 \<le> base" "base \<le> 36" and tab: "\<And>d. d < 36 \<Longrightarrow> digit_val (tab ! d) = d"
  shows "digits_value (unat base) (rev (map (\<lambda>d. tab ! unat d) (digit_loop base num))) = unat num"
proof (induction num rule: measure_induct_rule [where f = unat])
  case (less num)
  show ?case
  proof (cases "num = 0")
    case False
    have "\<not> base < 2" using base(1) by (simp add: not_less)
    note ih = less [OF div_decreases [OF False this]]
    have "unat (num mod base) < unat base" using base(1) by (simp add: unat_mod word_le_nat_alt)
    then have d: "unat (num mod base) < 36" using base(2) by (simp add: word_le_nat_alt)
    have "digits_value (unat base) (rev (map (\<lambda>d. tab ! unat d) (digit_loop base num)))
        = unat (num div base) * unat base + unat (num mod base)"
      by (simp add: digit_loop_step [OF False base(1)] digits_value_append ih tab [OF d])
    also have "\<dots> = unat num" by (simp add: unat_div unat_mod)
    finally show ?thesis .
  qed simp
qed

lemma digit_loop_length: "2 \<le> base \<Longrightarrow> unat num < unat base ^ k \<Longrightarrow> length (digit_loop base num) \<le> k"
proof (induction k arbitrary: num)
  case 0
  then have "num = 0" by (simp add: word_unat_eq_iff)
  then show ?case by simp
next
  case (Suc k)
  show ?case
  proof (cases "num = 0")
    case False
    have "0 < unat base" using Suc.prems(1) by (simp add: word_le_nat_alt)
    then have "unat (num div base) < unat base ^ k"
      using Suc.prems(2) by (simp add: unat_div less_mult_imp_div_less mult.commute)
    then show ?thesis using Suc by (simp add: digit_loop_step [OF False])
  qed simp
qed

lemma digit_loop_fits: "2 \<le> base \<Longrightarrow> length (digit_loop base num) \<le> 32"
proof (rule digit_loop_length)
  assume b: "2 \<le> base"
  then have "2 \<le> unat base" by (simp add: word_le_nat_alt)
  then have "(2 :: nat) ^ 32 \<le> unat base ^ 32" by (rule power_mono) simp
  then show "unat num < unat base ^ 32" using unat_u32_less [of num] by simp
qed auto

section \<open>Flags\<close>

lemma flag_bits:
  "x AND ZEROPAD = 0 \<longleftrightarrow> \<not> bit x 0" "x AND SIGN = 0 \<longleftrightarrow> \<not> bit x 1" "x AND PLUS = 0 \<longleftrightarrow> \<not> bit x 2"
  "x AND LEFT = 0 \<longleftrightarrow> \<not> bit x 4"
  "SPACE AND x = 0 \<longleftrightarrow> \<not> bit x 3" "LEFT AND x = 0 \<longleftrightarrow> \<not> bit x 4"
  "SPECIAL AND x = 0 \<longleftrightarrow> \<not> bit x 5" "SMALL AND x = 0 \<longleftrightarrow> \<not> bit x 6"
  "x AND (ZEROPAD + LEFT) = 0 \<longleftrightarrow> \<not> bit x 0 \<and> \<not> bit x 4"
proof -
  have p: "ZEROPAD = 2 ^ 0" "SIGN = 2 ^ 1" "PLUS = 2 ^ 2" "SPACE = 2 ^ 3" "LEFT = 2 ^ 4" "SPECIAL = 2 ^ 5"
    "SMALL = 2 ^ 6" by (simp_all add: printf_flags)
  show z: "x AND ZEROPAD = 0 \<longleftrightarrow> \<not> bit x 0" "x AND SIGN = 0 \<longleftrightarrow> \<not> bit x 1" "x AND PLUS = 0 \<longleftrightarrow> \<not> bit x 2"
    and l: "x AND LEFT = 0 \<longleftrightarrow> \<not> bit x 4"
    and "SPACE AND x = 0 \<longleftrightarrow> \<not> bit x 3" "LEFT AND x = 0 \<longleftrightarrow> \<not> bit x 4"
    "SPECIAL AND x = 0 \<longleftrightarrow> \<not> bit x 5" "SMALL AND x = 0 \<longleftrightarrow> \<not> bit x 6"
    unfolding p and.commute [of "2 ^ _" x] by (rule and_exp_eq_0_iff_not_bit)+
  have "ZEROPAD + LEFT = ZEROPAD OR LEFT" by (simp add: printf_flags)
  then show "x AND (ZEROPAD + LEFT) = 0 \<longleftrightarrow> \<not> bit x 0 \<and> \<not> bit x 4"
    by (simp add: bit.conj_disj_distrib or_eq_0_iff z l)
qed

lemma clear_zeropad: "bit (x AND NOT ZEROPAD) n \<longleftrightarrow> bit x n \<and> n \<noteq> 0"
proof -
  have "bit ZEROPAD n \<longleftrightarrow> n = 0" by (simp add: ZEROPAD_def bit_1_iff)
  then show ?thesis by (auto simp: bit_and_iff bit_not_iff dest: bit_imp_le_length)
qed

text \<open>The magnitude that is printed for a negative number.\<close>

lemma magnitude:
  fixes num :: u32
  assumes "sint num < 0"
  shows "unat (- num) = nat \<bar>sint num\<bar>"
proof -
  have neg: "- num = word_of_int (- sint num)" by (simp add: wi_hom_neg [symmetric])
  have "uint (- num) = (- sint num) mod 2 ^ LENGTH(32)" by (subst neg) (rule uint_word_of_int)
  moreover have "- (2 ^ 31) \<le> sint num" using sint_greater_eq [of num] by simp
  ultimately have "uint (- num) = - sint num" using assms by simp
  then show ?thesis using assms by (simp add: unat_eq_nat_uint)
qed

definition sign_of :: "u32 \<Rightarrow> u32 \<Rightarrow> u8 list" where
  "sign_of num flags = (if bit flags 1 \<and> sint num < 0 then [0x2D]
     else if bit flags 2 then [0x2B] else if bit flags 3 then [0x20] else [])"

definition prefix_of :: "u32 \<Rightarrow> u32 \<Rightarrow> u8 list" where
  "prefix_of base flags = (if bit flags 5
     then (if base = 8 then [0x30] else if base = 16 then [0x30, if bit flags 6 then 0x78 else 0x58] else []) else [])"

definition digits_of :: "u32 \<Rightarrow> u32 \<Rightarrow> u32 \<Rightarrow> u8 list" where
  "digits_of num base flags = (if num = 0 then [0x30]
     else rev (map (\<lambda>d. (if bit flags 6 then lower_digits else upper_digits) ! unat d) (digit_loop base num)))"

lemma chars: "chr (CHR ''0'') = 0x30" "chr (CHR '' '') = 0x20" "chr (CHR ''-'') = 0x2D" "chr (CHR ''+'') = 0x2B"
  "chr (CHR ''%'') = 0x25"
  by (simp_all add: chr_def)

lemma prefix_digit: "upper_digits ! 33 = 0x58" "lower_digits ! 33 = 0x78"
  by code_simp+

lemma digits_of_correct:
  assumes "2 \<le> base" and "base \<le> 36"
  shows "digits_value (unat base) (digits_of num base flags) = unat num"
    and "digits_of num base flags \<noteq> []" and "length (digits_of num base flags) \<le> 32"
proof -
  show "digits_value (unat base) (digits_of num base flags) = unat num"
    using digit_loop_correct [OF assms digit_tables(1)] digit_loop_correct [OF assms digit_tables(2)]
    by (simp add: digits_of_def digit_val_def)
  show "digits_of num base flags \<noteq> []" using digit_loop_step [OF _ assms(1), of num] by (auto simp: digits_of_def)
  show "length (digits_of num base flags) \<le> 32" using digit_loop_fits [OF assms(1)] by (simp add: digits_of_def)
qed

text \<open>The layout of a printed number: only one of the three paddings is not empty.\<close>

lemma number_layout:
  fixes num base flags :: u32 and sz precision :: int
  assumes "2 \<le> base" and "base \<le> 36"
  defines "ds \<equiv> digits_of (if bit flags 1 \<and> sint num < 0 then - num else num) base flags"
    and "sg \<equiv> sign_of num flags" and "pre \<equiv> prefix_of base flags"
  defines "prec \<equiv> max precision (int (length ds))"
  defines "pad \<equiv> nat (sz - int (length sg) - int (length pre) - prec)"
  shows "number num base sz precision flags = Some (
    (if bit flags 4 \<or> bit flags 0 then [] else replicate pad 0x20) @ sg @ pre
    @ (if bit flags 4 \<or> \<not> bit flags 0 then [] else replicate pad 0x30)
    @ replicate (nat (prec - int (length ds))) 0x30 @ ds @ (if bit flags 4 then replicate pad 0x20 else []))"
proof -
  have b: "\<not> (base < 2 \<or> 36 < base)" using assms(1,2) by (simp add: not_less)
  define n where "n = (if bit flags 1 \<and> sint num < 0 then - num else num)"
  define tab where "tab = (if bit flags 6 then lower_digits else upper_digits)"
  define tmp where "tmp = (if n = 0 then [0x30] else map (\<lambda>d. tab ! unat d) (digit_loop base n))"
  have tmp: "ds = rev tmp" by (simp add: ds_def tmp_def n_def tab_def digits_of_def)
  have t33: "tab ! 33 = (if bit flags 6 then 0x78 else 0x58)" by (simp add: tab_def prefix_digit)
  define ty where "ty = (if bit flags 4 then flags AND NOT ZEROPAD else flags)"
  have bits: "bit ty 0 = (bit flags 0 \<and> \<not> bit flags 4)" "bit ty 1 = bit flags 1" "bit ty 2 = bit flags 2"
    "bit ty 3 = bit flags 3" "bit ty 4 = bit flags 4" "bit ty 5 = bit flags 5"
    by (simp_all add: clear_zeropad ty_def)
  have sg: "sg = (if bit ty 1 \<and> sint num < 0 then [0x2D] else if bit ty 2 then [0x2B] else if bit ty 3 then [0x20] else [])"
    unfolding sg_def sign_of_def bits by (rule refl)
  have pre: "pre = (if bit ty 5 then (if base = 8 then [0x30] else if base = 16 then [0x30, tab ! 33] else []) else [])"
    by (simp add: pre_def prefix_of_def bits t33)
  have szs: "(if bit ty 5 then (if base = 16 then k - 2 else if base = 8 then k - 1 else k) else k) = k - int (length pre)"
    "(if sg \<noteq> [] then k - 1 else k) = k - int (length sg)" for k
    by (auto simp: pre sg)
  have num: "number num base sz precision flags = Some (put_digits ty (sz - int (length sg) - int (length pre)) precision sg pre
      (if bit ty 0 then 0x30 else 0x20) tmp)"
    using assms(1,2)
    by (simp only: number_def Let_def flag_bits not_not chars ty_def [symmetric] bits n_def [symmetric]
        tab_def [symmetric] tmp_def [symmetric] sg [unfolded bits, symmetric] pre [unfolded bits, symmetric]
        szs [unfolded bits]) (simp add: not_less bits(2) [unfolded One_nat_def])
  show ?thesis
    unfolding num
    by (cases "bit flags 4"; cases "bit flags 0")
      (simp_all add: put_digits_def Let_def flag_bits bits chars after_pad_def prec_def pad_def tmp max_def)
qed

lemma digits_value_zeros_code [simp]: "digits_value b (replicate n 0x30) = 0"
  using digits_value_zeros [of b n] by (simp only: chars)

lemma unsigned_of_signed:
  fixes num :: u32
  assumes "0 \<le> sint num"
  shows "unat num = nat (sint num)"
proof -
  have "num = word_of_int (sint num)" by simp
  then have "uint num = sint num mod 2 ^ LENGTH(32)" using uint_word_of_int by metis
  moreover have "sint num < 2 ^ 31" using sint_less [of num] by simp
  ultimately have "uint num = sint num" using assms by simp
  then show ?thesis by (simp add: unat_eq_nat_uint)
qed

lemma number_prints:
  assumes "2 \<le> base" and "base \<le> 36"
  shows "\<exists>left zs ds right. number num base sz precision flags =
      Some (left @ sign_of num flags @ prefix_of base flags @ zs @ ds @ right)
    \<and> set left \<subseteq> {0x20} \<and> set right \<subseteq> {0x20} \<and> set zs \<subseteq> {0x30} \<and> ds \<noteq> [] \<and> length ds \<le> 32
    \<and> digits_value (unat base) (zs @ ds) = (if bit flags 1 then nat \<bar>sint num\<bar> else unat num)
    \<and> int (length (left @ sign_of num flags @ prefix_of base flags @ zs @ ds @ right)) =
        max sz (int (length (sign_of num flags @ prefix_of base flags)) + max precision (int (length ds)))
    \<and> (left = [] \<or> \<not> bit flags 4) \<and> (right = [] \<or> bit flags 4)
    \<and> ds = digits_of (if bit flags 1 \<and> sint num < 0 then - num else num) base flags"
proof -
  define n where "n = (if bit flags 1 \<and> sint num < 0 then - num else num)"
  define ds where "ds = digits_of n base flags"
  define sg where "sg = sign_of num flags"
  define pre where "pre = prefix_of base flags"
  define prec where "prec = max precision (int (length ds))"
  define pad where "pad = nat (sz - int (length sg) - int (length pre) - prec)"
  define zs where "zs = (if bit flags 4 \<or> \<not> bit flags 0 then [] else replicate pad (0x30 :: u8))
      @ replicate (nat (prec - int (length ds))) 0x30"
  define left where "left = (if bit flags 4 \<or> bit flags 0 then [] else replicate pad (0x20 :: u8))"
  define right where "right = (if bit flags 4 then replicate pad (0x20 :: u8) else [])"
  note d = digits_of_correct [OF assms, of n flags, folded ds_def]
  have v: "digits_value (unat base) (zs @ ds) = unat n"
    using d(1) by (simp add: zs_def digits_value_append)
  have m: "unat n = (if bit flags 1 then nat \<bar>sint num\<bar> else unat num)"
    using magnitude [of num] unsigned_of_signed [of num] by (auto simp: n_def)
  have out: "number num base sz precision flags = Some (left @ sg @ pre @ zs @ ds @ right)"
    using number_layout [OF assms, of num sz precision flags, folded n_def, folded ds_def sg_def pre_def,
      folded prec_def, folded pad_def, folded left_def right_def] by (simp add: zs_def)
  have len: "int (length (left @ sg @ pre @ zs @ ds @ right)) = max sz (int (length (sg @ pre)) + prec)"
  proof -
    have "length left + length right + length zs = pad + nat (prec - int (length ds))"
      by (simp add: left_def right_def zs_def)
    moreover have "int (length ds) \<le> prec" by (simp add: prec_def)
    ultimately show ?thesis by (simp add: pad_def)
  qed
  have sets: "set left \<subseteq> {0x20}" "set right \<subseteq> {0x20}" "set zs \<subseteq> {0x30}" "left = [] \<or> \<not> bit flags 4"
    "right = [] \<or> bit flags 4"
    by (auto simp: left_def right_def zs_def)
  show ?thesis
    unfolding n_def [symmetric] ds_def [symmetric] sg_def [symmetric] pre_def [symmetric]
    using out len v m sets d(2,3) by (intro exI [of _ left] exI [of _ zs] exI [of _ ds] exI [of _ right])
      (simp add: prec_def)
qed

section \<open>Directives\<close>

lemma vsprintf_loop_text:
  "0x25 \<notin> set xs \<Longrightarrow> vsprintf_loop (xs @ fmt) va n =
     (case vsprintf_loop fmt va (n + length xs) of Inl e \<Rightarrow> Inl e | Inr (out, st) \<Rightarrow> Inr (xs @ out, st))"
  by (induction xs arbitrary: n) (auto simp: chars split: sum.splits)

lemma vsprintf_text: "0x25 \<notin> set xs \<Longrightarrow> vsprintf xs va = Inr (xs, [])"
  using vsprintf_loop_text [of xs "[]" va 0] by (simp add: vsprintf_def)

lemma vsprintf_directive:
  assumes "0x25 \<notin> set xs" and "0x25 \<notin> set ys" and "directive (f @ ys) va (length xs) = Inr (out, ys, [], [])"
  shows "vsprintf (xs @ 0x25 # f @ ys) va = Inr (xs @ out @ ys, [])"
  using vsprintf_loop_text [OF assms(1), of "0x25 # f @ ys" va 0] assms(3)
    vsprintf_loop_text [OF assms(2), of "[]" "[]"]
  by (simp add: vsprintf_def chars)

lemma directive_hex8:
  "directive ([0x2E, 0x38, 0x78] @ ys) (Int_Arg w # va) n =
     (case number w 16 (-1) 8 SMALL of None \<Rightarrow> Inl Bad_Access | Some out \<Rightarrow> Inr (out, ys, va, []))"
  by (simp add: directive_def parse_width_def is_digit_def parse_precision_def skip_qualifier_def convert_def
      put_number_def next_int_def chr_def split: option.splits)

lemma directive_star:
  "directive (0x2A # ys) (Int_Arg w # va) n = Inr ([0x25, 0x2A], ys, va, [])"
  by (simp add: directive_def parse_width_def is_digit_def parse_precision_def skip_qualifier_def convert_def
      put_number_def next_int_def chr_def)

section \<open>Properties of formatted output\<close>

text \<open>C30: \<open>number\<close> prints the value it is given. For every base from 2 to 36, width, precision and
  flags the result is blanks, the sign, the prefix, zeros, digits and blanks, in this order;
  reading the zeros and digits in the base gives the number (its absolute value when it is
  printed as signed, also for the least one); the field is as wide as asked and never narrower than
  needed, blanks stand on one side only, and the digits never overrun the 36 bytes of \<open>tmp\<close>.\<close>

theorem number_prints_value:
  assumes "2 \<le> base" and "base \<le> 36"
  shows "\<exists>left zs ds right. number num base sz precision flags =
      Some (left @ sign_of num flags @ prefix_of base flags @ zs @ ds @ right)
    \<and> set left \<subseteq> {0x20} \<and> set right \<subseteq> {0x20} \<and> set zs \<subseteq> {0x30} \<and> ds \<noteq> [] \<and> length ds \<le> 32
    \<and> digits_value (unat base) (zs @ ds) = (if bit flags 1 then nat \<bar>sint num\<bar> else unat num)
    \<and> int (length (left @ sign_of num flags @ prefix_of base flags @ zs @ ds @ right)) =
        max sz (int (length (sign_of num flags @ prefix_of base flags)) + max precision (int (length ds)))
    \<and> (left = [] \<or> \<not> bit flags 4) \<and> (right = [] \<or> bit flags 4)"
  using number_prints [OF assms, of num sz precision flags] by blast

theorem number_prints_value_witness:
  "\<exists>left zs ds right. number 0xFFFFFFFF 10 5 (-1) SIGN = Some (left @ [0x2D] @ zs @ ds @ right)
    \<and> digits_value 10 (zs @ ds) = 1"
proof -
  have "sign_of 0xFFFFFFFF SIGN = [0x2D]" "prefix_of 10 SIGN = []" "bit SIGN 1"
    by (simp_all add: sign_of_def prefix_of_def SIGN_def)
  moreover have "nat \<bar>sint (0xFFFFFFFF :: u32)\<bar> = 1" by simp
  ultimately show ?thesis using number_prints_value [of 10 "0xFFFFFFFF" 5 "-1" SIGN] by auto
qed

text \<open>Text without percent signs is copied, and \<open>%.8x\<close> in it is replaced by exactly eight
  hexadecimal digits whose value is the argument: the format of every address the kernel
  prints.\<close>

lemma vsprintf_hex8:
  assumes "0x25 \<notin> set xs" and "0x25 \<notin> set ys"
  shows "\<exists>ds. vsprintf (xs @ map chr ''%.8x'' @ ys) [Int_Arg w] = Inr (xs @ ds @ ys, [])
    \<and> length ds = 8 \<and> digits_value 16 ds = unat w"
proof -
  have s: "sign_of w SMALL = []" "prefix_of 16 SMALL = []" "\<not> bit SMALL 1" "\<not> bit SMALL 4"
    by (simp_all add: sign_of_def prefix_of_def SMALL_def)
  let ?ds = "digits_of w 16 SMALL"
  have "length (digit_loop 16 w) \<le> 8"
    by (rule digit_loop_length) (use unat_u32_less [of w] in simp_all)
  then have l: "length ?ds \<le> 8" by (simp add: digits_of_def)
  have b: "\<not> bit SMALL 0" "\<not> (bit SMALL 1 \<and> sint w < 0)" by (simp_all add: SMALL_def)
  have n: "number w 16 (-1) 8 SMALL = Some (replicate (8 - length ?ds) 0x30 @ ?ds)"
  proof -
    have m: "max 8 (int (length ?ds)) = 8" using l by simp
    show ?thesis
      using number_layout [of 16 w "-1" 8 SMALL] l by (simp only: s b m if_False if_True) (simp add: nat_diff_distrib)
  qed
  have v: "digits_value 16 (replicate (8 - length ?ds) 0x30 @ ?ds) = unat w"
    using digits_of_correct(1) [of 16 w SMALL] by (simp add: digits_value_append)
  have "directive ([0x2E, 0x38, 0x78] @ ys) [Int_Arg w] (length xs) =
      Inr (replicate (8 - length ?ds) 0x30 @ ?ds, ys, [], [])"
    unfolding directive_hex8 by (simp add: n)
  from vsprintf_directive [OF assms this] have "vsprintf (xs @ map chr ''%.8x'' @ ys) [Int_Arg w] =
      Inr (xs @ (replicate (8 - length ?ds) 0x30 @ ?ds) @ ys, [])"
    by (simp add: chr_def)
  with v l show ?thesis by (intro exI [of _ "replicate (8 - length ?ds) 0x30 @ ?ds"]) simp
qed

text \<open>C37: \<open>kprintf\<close> of a text without directives writes exactly this text to the console, which stays
  on its screen, if the text fits the 1024 bytes of its buffer with the terminator; a longer
  one is stored past the end of the buffer.\<close>

theorem kprintf_text:
  assumes "on_screen s" and "0x25 \<notin> set fmt" and "0 \<notin> set fmt"
  shows "if length fmt < 1024
    then \<exists>t. kprintf fmt va s = Inr ([], t) \<and> monitor_write fmt s = Inr ((), t) \<and> on_screen t
    else kprintf fmt va s = Inl Bad_Access"
proof -
  have tw: "takeWhile (\<lambda>c. c \<noteq> 0) fmt = fmt" using assms(3) by (intro takeWhile_eq_all_conv [THEN iffD2]) auto
  have "kprintf fmt va s = (if 1024 \<le> length fmt then Inl Bad_Access else bnd (monitor_write fmt) (\<lambda>_. ret []) s)"
    unfolding kprintf_def vsprintf_text [OF assms(2)] by (simp add: tw fault_run)
  then show ?thesis using monitor_write_on_screen [OF assms(1), of fmt] by (auto simp: cmd_simps)
qed

theorem kprintf_text_witness:
  "\<exists>t. kprintf (map chr ''***'' @ [0x0A]) [] (demo_monitor\<lparr>xpos := 79, ypos := 24\<rparr>) = Inr ([], t) \<and> on_screen t"
proof -
  have "0x25 \<notin> set (map chr ''***'' @ [0x0A])" "0 \<notin> set (map chr ''***'' @ [0x0A])" by (simp_all add: chr_def)
  from kprintf_text [OF demo_on_screen this, of "[]"] show ?thesis by auto
qed

text \<open>A field width taken from an argument does not work: the argument is used up, but the format
  pointer stays on the \<open>*\<close>, so \<open>%*\<close> is printed as it stands and the conversion after it
  is printed as text.\<close>

lemma star_width_printed_literally:
  "vsprintf (0x25 # 0x2A # ys) (Int_Arg w # va) =
     (case vsprintf_loop ys va 2 of Inl e \<Rightarrow> Inl e | Inr (out, st) \<Rightarrow> Inr (0x25 # 0x2A # out, st))"
  by (simp add: vsprintf_def chars directive_star numeral_2_eq_2 split: sum.splits)

end
