(* ===== verification/Spec2Isabelle.thy ===== *)
theory Spec2Isabelle
  imports Kernel_Ramdisk Kernel_Clone_Props Kernel_Load Kernel_Kfree Kernel_Begin Kernel_Startup Kernel_Echo Kernel_Printf
begin

text \<open>
  \<^bold>\<open>A verification development for sos-kernel\<close>, a small kernel in C for 32-bit x86 machines
  with one processor: paging, a kernel heap, a scheduler of threads and tasks, an initial ramdisk, a
  loader of executables, a text console and a keyboard.

  \<^bold>\<open>How the program is put together.\<close> \<open>kmain\<close> (\<open>kernel/init/main.c\<close>) starts the console and the
  interrupts, then the memory managers: the frame manager (\<open>kernel/mm/pmm.c\<close>) hands out
  physical page frames, first by counting up, later from a stack of free frames that itself lies
  in virtual memory; the virtual memory manager (\<open>kernel/mm/vmm.c\<close>) edits page tables through
  a directory entry that points to the directory itself. The two call each other: \<open>map\<close> takes a
  frame for a missing table, and a freed frame may be mapped as the next page of the stack. On
  top of them \<open>kernel/mm/kheap.c\<close> serves \<open>kmalloc\<close>, from which lists, threads, tasks and file
  nodes are made. The timer's interrupt calls the scheduler, the keyboard's fills a buffer that
  \<open>kbd_getchar\<close> empties.

  \<^bold>\<open>Style of the model.\<close> A C function that may touch the state is a command
  \<open>'s \<Rightarrow> fault + 'a \<times> 's\<close> (\<open>Kernel_Prelude\<close>): \<open>Inl (Panic msg)\<close> for a call of
  \<open>panic\<close>, \<open>Inl (Page_Fault a)\<close> for an access to an address that is not mapped, \<open>Inl Bad_Access\<close> for
  what C leaves undefined (a slot outside an array, an object that is not there),
  \<open>Inl Out_of_Fuel\<close> for a loop that does not end. Integers are words of the width that the
  code gives them and wrap around. The states are records that extend each other in the order of
  the layers: \<open>vm\<close> (memory, control registers, memory managers), \<open>heap\<close>, \<open>objects\<close>,
  \<open>threading\<close>, \<open>sched\<close>, \<open>initrd\<close>; and, for the devices, \<open>io\<close> with \<open>kbd\<close>,
  \<open>timer\<close>, \<open>idt\<close>, and \<open>monitor\<close>. The whole computer is the record \<open>machine\<close> (\<open>Kernel_Main\<close>), into
  which the commands of the parts are lifted; the ports are shared by all devices.

  \<^bold>\<open>Memory.\<close> Physical memory is a function from addresses to bytes, and \<open>vld8\<close>, \<open>vld32\<close>, \<open>vst8\<close>,
  \<open>vst32\<close> go through the two levels of page tables that lie in it, as the processor does when
  paging is on. So page tables, the stack of free frames, chunk headers, strings, file nodes,
  multiboot and ELF structures are bytes at the addresses where the program puts them. Objects
  whose layout nothing depends on (\<open>list_t\<close>, \<open>thread_t\<close>, \<open>task_t\<close>) are records in a map
  from addresses, at the addresses that \<open>kmalloc\<close> answered.

  \<^bold>\<open>Theories and sources.\<close>
  \<^item> \<open>Kernel_Prelude\<close>: commands, errors, bounded loops (\<open>cfor\<close>), the simplification set \<open>cmd_simps\<close>,
    facts on words.
  \<^item> \<open>Kernel_Memory\<close>: bytes and words of physical memory, pages and offsets, the macros of
    \<open>include/mm/vmm.h\<close>. \<open>Kernel_Paging\<close>: the state \<open>vm\<close>, the processor's translation, loads
    and stores, \<open>memset\<close>.
  \<^item> \<open>Kernel_Pmm\<close>, \<open>Kernel_Vmm\<close>, \<open>Kernel_Frames\<close>: \<open>include/mm/layout.h\<close>, \<open>init_pmm\<close>,
    \<open>pmm_alloc_page\<close>; \<open>switch_page_directory\<close>, \<open>map\<close> (\<open>map_page\<close>), \<open>unmap\<close>,
    \<open>get_mapping\<close>; \<open>pmm_free_page\<close>. Their joint invariant is \<open>mm_ok\<close>: the directory maps itself,
    page tables are private frames, the stack of free frames is mapped and holds distinct frames
    that nothing uses. \<open>Kernel_Map\<close>: the relation \<open>grows\<close>, all that an allocation or a mapping may
    change, which composes. \<open>Kernel_Owned\<close>: memory in use (\<open>owned\<close>), which neither a store elsewhere
    nor an allocation nor a new mapping touches.
  \<^item> \<open>Kernel_Space\<close>: \<open>find_free_range\<close>, \<open>allocate_range\<close>, mounted directories, \<open>diff_directories\<close>,
    \<open>page_fault\<close>. \<open>Kernel_Clone\<close>: \<open>clone_directory\<close>, \<open>destroy_directory\<close>, and
    \<open>copy_page_physical\<close> of \<open>asm/vmm.s\<close>; \<open>Kernel_Clone_Props\<close>: a page as it is cloned.
    \<open>Kernel_Boot\<close>: \<open>init_vmm\<close>, \<open>pmm_collect_pages\<close>, and the fields of \<open>boot/multiboot.h\<close>;
    \<open>Kernel_Boot_Tables\<close>, \<open>Kernel_Boot_Props\<close>: the tables that \<open>init_vmm\<close> builds; \<open>Kernel_Collect\<close>: the
    frames that \<open>pmm_collect_pages\<close> frees.
  \<^item> \<open>Kernel_String\<close>, \<open>Kernel_Words\<close>: \<open>lib/string.c\<close>; what memory holds as the program sees it
    (\<open>view\<close>, \<open>buffer\<close>, \<open>holds\<close>, \<open>word_at\<close>).
  \<^item> \<open>Kernel_Heap\<close>: \<open>mm/kheap.c\<close>. \<open>Kernel_Chunks\<close>, \<open>Kernel_Kmalloc\<close>, \<open>Kernel_Heap_Props\<close>: the list of
    chunks in memory, \<open>heap_ok\<close>, which holds beside any other memory in use, and \<open>kmalloc\<close>.
    \<open>Kernel_Shrink\<close>, \<open>Kernel_Kfree\<close>: \<open>kfree\<close>, with the joining of chunks and the return of pages.
    \<open>Kernel_Steady\<close>: what no operation of the memory managers and the heap changes; \<open>Kernel_Blocks\<close>: stores into
    blocks, \<open>kmalloc_zero\<close>. \<open>Kernel_List\<close>: \<open>lib/list.c\<close>, with the locale \<open>cursor_list\<close> for its clients.
  \<^item> \<open>Kernel_Thread\<close>: \<open>sched/thread.c\<close>, \<open>sched/task.c\<close> and the switches in \<open>asm/thread.s\<close> and
    \<open>asm/task.s\<close>. \<open>Kernel_Sched\<close>: \<open>sched/sched.c\<close>, with the abstract queue \<open>round_robin\<close>.
    \<open>Kernel_Fork\<close>: \<open>sched/fork.c\<close>. \<open>Kernel_Create\<close>: a thread with its structure in the heap and its first
    stack frame; \<open>Kernel_Tasks\<close>: \<open>exec_thread\<close> and the queue; \<open>Kernel_Grown\<close>: a heap whose blocks are all in
    use, as it is while the kernel starts; \<open>Kernel_Begin\<close>: the start of the scheduler.
  \<^item> \<open>Kernel_Fs\<close>, \<open>Kernel_Initrd\<close>, \<open>Kernel_Elf\<close>: \<open>fs/fs.c\<close>, \<open>fs/initrd.c\<close> with the locale
    \<open>file_reader\<close>, \<open>kernel/elf.c\<close> with the structures of \<open>kernel/elf.h\<close> that it reads.
    \<open>Kernel_Mkinitrd\<close>: \<open>tools/make_initrd.c\<close>; \<open>Kernel_Mount\<close>: the table of its image, mounted by the kernel;
    \<open>Kernel_Ramdisk\<close>: the whole of \<open>init_initrd\<close> on the heap, and lookups in the root.
    \<open>Kernel_Load\<close>: an executable of the ramdisk in memory.
  \<^item> \<open>Kernel_Io\<close>, \<open>Kernel_Kbd\<close> (locale \<open>fifo\<close>), \<open>Kernel_Timer\<close>, \<open>Kernel_Idt\<close>,
    \<open>Kernel_Gdt\<close>: ports and \<open>kernel/kbd.c\<close>, \<open>timer.c\<close>, \<open>idt.c\<close>, \<open>gdt.c\<close>.
  \<^item> \<open>Kernel_Monitor\<close>, \<open>Kernel_Printf\<close>: \<open>lib/monitor.c\<close>; \<open>lib/vsprintf.c\<close>, \<open>lib/kprintf.c\<close>.
  \<^item> \<open>Kernel_Lock\<close>: \<open>lib/lock.c\<close>, with the interleavings of any number of threads as a step relation.
  \<^item> \<open>Kernel_Debug\<close>: \<open>kernel/panic.c\<close>, \<open>init/debug.c\<close>.
  \<^item> \<open>Kernel_Main\<close>: \<open>init/main.c\<close> on the record \<open>machine\<close>, the test thread of \<open>init/debug.c\<close>, the
    macros of \<open>kernel/debug.h\<close>, \<open>user/init.c\<close>. \<open>Kernel_Startup\<close>: the start as far as the heap;
    \<open>Kernel_Echo\<close>: the loop at the end of \<open>kmain\<close>.

  \<^bold>\<open>What is shown.\<close> Mapping, unmapping and looking up a page agree with the processor's walk and keep
  \<open>mm_ok\<close>; frames handed out are distinct and unused; ranges are found and mapped; from power-on
  the start of the kernel establishes \<open>mm_ok\<close>, a pool that holds the frames of available memory and
  an empty heap; \<open>kmalloc\<close> refines first fit and \<open>kfree\<close> an abstract release that joins free neighbours and
  gives pages back, both keeping the other blocks and all other memory in use, with the
  defects of splitting a chunk; cloning a page overwrites its source; the string
  routines, also where they fall short; lists read back what was pushed, within the six slots they
  have; the start of the scheduler establishes the invariant of its queue, \<open>exec_thread\<close> adds a thread
  that enters its function when it is switched to, and the
  scheduler refines round robin and serves every thread, and does not return when it
  meets a waiting one; the keyboard's buffer is a queue, with its defect when full, and with the loop
  of \<open>kmain\<close> what is typed is printed in order; the
  spinlock excludes; segments and vectors are as the processor wants them; the timer's divisor; the
  console stays on the screen; numbers print and read back; the files given to \<open>make_initrd\<close> are the
  files that the kernel finds by \<open>finddir\<close> in the root and reads, but for one called \<open>dev\<close>, which the
  directory of that name hides; an executable is loaded with its segments at their addresses, and any
  other file is refused by a panic.

  \<^bold>\<open>Fuel.\<close> A loop that may not end takes a bound. \<open>page_fuel\<close> (2^20 + 1) exceeds the number of
  pages of the address space; \<open>string_fuel\<close>, \<open>heap_fuel\<close> and \<open>map_fuel\<close> (2^32 + 1) exceed the number of
  addresses, so a loop that visits no address twice ends within them; \<open>elf_fuel\<close> (2^16 + 1) exceeds
  the number of segments. The theorems on loops say that they end with a result; only
  \<open>schedule_waiting_never_ends\<close> says that one does not, with \<open>Out_of_Fuel\<close> for any amount of fuel.

  \<^bold>\<open>Abstractions.\<close> Text that \<open>kprintf\<close> prints from inside the memory managers is a log in the state
  (\<open>kprintf_log\<close>), and \<open>Kernel_Printf\<close> is the function itself. The addresses that the compiler and
  the linker choose (literals, functions, globals) are parameters (\<open>image\<close> records). The
  processor is modelled as far as the code relies on it: translation, \<open>cr0\<close>, \<open>cr3\<close>, the
  descriptor formats, the ports; its translation buffer is not, nor are the read-only and user bits of a page.
  The word that \<open>switch_context\<close> pushes to and pops from a stack when it loads the flags is not stored.
  In \<open>Kernel_Echo\<close> interrupts come between the rounds of the loop of \<open>kmain\<close>, not inside
  \<open>kbd_getchar\<close> or \<open>monitor_put\<close>. A new structure of \<open>fork\<close> starts from the record of zeros, where the
  code leaves what the block held in the fields that it does not assign.

  \<^bold>\<open>Not modelled.\<close> The assembly entry points beyond the register effects named above; the copied
  compiler header \<open>stdarg.h\<close>, whose macros are the list of arguments that \<open>vsprintf\<close> takes; the
  constants and structures of \<open>elf.h\<close> and \<open>multiboot.h\<close> that the kernel does not use. \<open>fork\<close> and
  \<open>exec_elf\<close> are modelled but not verified as a whole: they go through \<open>clone_directory\<close>, whose copy of a
  page destroys the original (\<open>Kernel_Clone_Props\<close>). In \<open>kmain\<close> the text
  of the messages goes to the log, and not through \<open>Kernel_Printf\<close> to the screen.
\<close>

end
